(* ===== verification/Prelude.thy ===== *)
theory Prelude
  imports Main "HOL-Library.Word" "HOL-Library.Monad_Syntax" "HOL-Library.Signed_Division"
    "HOL-Library.Multiset"
begin

text \<open>
  Shared vocabulary of the development.  A kernel routine that can stop the machine (a failed
  \<^verbatim>\<open>ASSERT\<close>, a \<^verbatim>\<open>PANIC\<close>, a fault on a bad pointer, an index outside an array) has a
  result in \<open>'a option\<close>: \<open>None\<close> is the stopped machine.  A C null pointer is the address 0 and
  is an ordinary value.  32-bit integers are \<open>nat\<close> or \<open>int\<close> with the wrap-around of the i386
  target written out (\<open>u32\<close>, \<open>s32\<close>), or words where the code works on bits.
\<close>

named_theorems kdefs \<open>unfolding rules of small kernel operations\<close>

type_synonym addr = nat
type_synonym byte = "8 word"
type_synonym memory = "addr \<Rightarrow> byte"

abbreviation (input) NULL :: addr where "NULL \<equiv> 0"

definition k_assert :: "bool \<Rightarrow> unit option" where
  "k_assert b = (if b then Some () else None)"

definition u32 :: "nat \<Rightarrow> nat" where
  "u32 x = x mod 2 ^ 32"

definition s32 :: "int \<Rightarrow> int" where
  "s32 x = signed_take_bit 31 x"

definition s64 :: "int \<Rightarrow> int" where
  "s64 x = signed_take_bit 63 x"

definition in_s32 :: "int \<Rightarrow> bool" where
  "in_s32 x \<longleftrightarrow> - (2 ^ 31) \<le> x \<and> x < 2 ^ 31"

text \<open>lib/round.h on 32-bit unsigned values.\<close>

definition DIV_ROUND_UP :: "nat \<Rightarrow> nat \<Rightarrow> nat" where
  "DIV_ROUND_UP x step = u32 (x + step - 1) div step"

definition ROUND_UP :: "nat \<Rightarrow> nat \<Rightarrow> nat" where
  "ROUND_UP x step = u32 (u32 (x + step - 1) div step * step)"

text \<open>The page size of threads/vaddr.h.\<close>

definition PGSIZE :: nat where "PGSIZE = 4096"

subsection \<open>The option monad\<close>

lemma k_assert_simps [simp]:
  "k_assert True = Some ()" "k_assert False = None"
  by (simp_all add: k_assert_def)

lemma k_assert_eq_Some [simp]: "k_assert b = Some u \<longleftrightarrow> b"
  by (simp add: k_assert_def)

lemma k_assert_bind [simp]:
  "(k_assert b \<bind> f = Some y) \<longleftrightarrow> b \<and> f () = Some y"
  by (simp add: k_assert_def)

lemma bind_SomeE:
  assumes "m \<bind> f = Some y"
  obtains x where "m = Some x" "f x = Some y"
  using assms by (cases m) auto

subsection \<open>Machine integers\<close>

lemma u32_id [simp]: "x < 2 ^ 32 \<Longrightarrow> u32 x = x"
  by (simp add: u32_def)

lemma u32_bound: "u32 x < 2 ^ 32"
  by (simp add: u32_def)

lemma s32_id [simp]: "in_s32 x \<Longrightarrow> s32 x = x"
  by (simp add: s32_def in_s32_def signed_take_bit_int_eq_self)

lemma s32_range: "in_s32 (s32 x)"
  using signed_take_bit_int_greater_eq_minus_exp [of 31 x] signed_take_bit_int_less_exp [of 31 x]
  by (simp add: s32_def in_s32_def)

lemma s64_id: "- (2 ^ 63) \<le> x \<Longrightarrow> x < 2 ^ 63 \<Longrightarrow> s64 x = x"
  by (simp add: s64_def signed_take_bit_int_eq_self)

lemma div_round_up_bounds:
  assumes "0 < step" "x + step - 1 < 2 ^ 32"
  shows "x \<le> step * DIV_ROUND_UP x step" "step * DIV_ROUND_UP x step < x + step"
proof -
  define q where "q = DIV_ROUND_UP x step"
  have q: "q = (x + step - 1) div step" using assms(2) by (simp add: q_def DIV_ROUND_UP_def)
  have split: "x + step - 1 = step * q + (x + step - 1) mod step" by (simp add: q)
  moreover have "(x + step - 1) mod step < step" using assms(1) by simp
  ultimately show "x \<le> step * q" "step * q < x + step" using assms(1) by linarith+
qed

lemma div_round_up_le_iff:
  assumes "0 < step" "x + step - 1 < 2 ^ 32"
  shows "DIV_ROUND_UP x step \<le> k \<longleftrightarrow> x \<le> step * k"
proof -
  note b = div_round_up_bounds [OF assms]
  show ?thesis
  proof
    assume "DIV_ROUND_UP x step \<le> k"
    then have "step * DIV_ROUND_UP x step \<le> step * k" by (rule mult_le_mono2)
    with b(1) show "x \<le> step * k" by (rule le_trans)
  next
    assume "x \<le> step * k"
    with b(2) have "step * DIV_ROUND_UP x step < step * Suc k" by simp
    then show "DIV_ROUND_UP x step \<le> k" using assms(1) by (simp del: mult_Suc_right)
  qed
qed

end
