(* ===== verification/Klist.thy ===== *)
theory Klist
  imports Prelude
begin

text \<open>
  The kernel's doubly linked lists (lib/kernel/list.c) at the level of pointers.  A
  \<^verbatim>\<open>struct list_elem\<close> is a record of two addresses, memory is a partial map from addresses to
  such records, and a \<^verbatim>\<open>struct list *\<close> is the address of the list object, whose \<^verbatim>\<open>head\<close> is at
  offset 0 and whose \<^verbatim>\<open>tail\<close> is at offset 8.  Reading or writing an address outside the map,
  and a failed assertion, stop the kernel (\<open>None\<close>).  The loops of the C code are
  \<^theory_text>\<open>partial_function\<close>s, so that a loop that would not end has the value \<open>None\<close> too; on
  well-formed lists every routine is shown to return.  The comparison function pointers
  (with their \<^verbatim>\<open>aux\<close> argument) are the parameter \<open>lt\<close>.
\<close>

record list_elem =
  prev_ptr :: addr
  next_ptr :: addr

type_synonym store = "addr \<rightharpoonup> list_elem"

subsection \<open>Operations\<close>

definition set_prev :: "store \<Rightarrow> addr \<Rightarrow> addr \<Rightarrow> store option" where
  "set_prev h p v = do { n \<leftarrow> h p; Some (h(p \<mapsto> n\<lparr>prev_ptr := v\<rparr>)) }"

definition set_next :: "store \<Rightarrow> addr \<Rightarrow> addr \<Rightarrow> store option" where
  "set_next h p v = do { n \<leftarrow> h p; Some (h(p \<mapsto> n\<lparr>next_ptr := v\<rparr>)) }"

definition get_prev :: "store \<Rightarrow> addr \<Rightarrow> addr option" where
  "get_prev h p = map_option prev_ptr (h p)"

definition get_next :: "store \<Rightarrow> addr \<Rightarrow> addr option" where
  "get_next h p = map_option next_ptr (h p)"

definition is_head :: "store \<Rightarrow> addr \<Rightarrow> bool option" where
  "is_head h e = (if e = NULL then Some False
     else do { p \<leftarrow> get_prev h e; n \<leftarrow> get_next h e; Some (p = NULL \<and> n \<noteq> NULL) })"

definition is_interior :: "store \<Rightarrow> addr \<Rightarrow> bool option" where
  "is_interior h e = (if e = NULL then Some False
     else do { p \<leftarrow> get_prev h e; n \<leftarrow> get_next h e; Some (p \<noteq> NULL \<and> n \<noteq> NULL) })"

definition is_tail :: "store \<Rightarrow> addr \<Rightarrow> bool option" where
  "is_tail h e = (if e = NULL then Some False
     else do { p \<leftarrow> get_prev h e; n \<leftarrow> get_next h e; Some (p \<noteq> NULL \<and> n = NULL) })"

definition head_of :: "addr \<Rightarrow> addr" where "head_of l = l"
definition tail_of :: "addr \<Rightarrow> addr" where "tail_of l = l + 8"

definition list_init :: "store \<Rightarrow> addr \<Rightarrow> store option" where
  "list_init h l = do {
     k_assert (l \<noteq> NULL);
     h \<leftarrow> set_prev h (head_of l) NULL;
     h \<leftarrow> set_next h (head_of l) (tail_of l);
     h \<leftarrow> set_prev h (tail_of l) (head_of l);
     set_next h (tail_of l) NULL }"

definition list_begin :: "store \<Rightarrow> addr \<Rightarrow> addr option" where
  "list_begin h l = do { k_assert (l \<noteq> NULL); get_next h (head_of l) }"

definition list_next :: "store \<Rightarrow> addr \<Rightarrow> addr option" where
  "list_next h e = do {
     b1 \<leftarrow> is_head h e; b2 \<leftarrow> is_interior h e; k_assert (b1 \<or> b2); get_next h e }"

definition list_prev :: "store \<Rightarrow> addr \<Rightarrow> addr option" where
  "list_prev h e = do {
     b1 \<leftarrow> is_interior h e; b2 \<leftarrow> is_tail h e; k_assert (b1 \<or> b2); get_prev h e }"

definition list_end :: "addr \<Rightarrow> addr option" where
  "list_end l = do { k_assert (l \<noteq> NULL); Some (tail_of l) }"

definition list_next_circular :: "store \<Rightarrow> addr \<Rightarrow> addr \<Rightarrow> addr option" where
  "list_next_circular h e l = do {
     nxt \<leftarrow> list_next h e;
     en \<leftarrow> list_end l; lst \<leftarrow> list_prev h en;
     if nxt = lst then do { b \<leftarrow> list_begin h l; list_prev h b } else Some nxt }"

definition list_rbegin :: "store \<Rightarrow> addr \<Rightarrow> addr option" where
  "list_rbegin h l = do { k_assert (l \<noteq> NULL); get_prev h (tail_of l) }"

definition list_rend :: "addr \<Rightarrow> addr option" where
  "list_rend l = do { k_assert (l \<noteq> NULL); Some (head_of l) }"

definition list_head :: "addr \<Rightarrow> addr option" where
  "list_head l = do { k_assert (l \<noteq> NULL); Some (head_of l) }"

definition list_tail :: "addr \<Rightarrow> addr option" where
  "list_tail l = do { k_assert (l \<noteq> NULL); Some (tail_of l) }"

definition list_insert :: "store \<Rightarrow> addr \<Rightarrow> addr \<Rightarrow> store option" where
  "list_insert h before elem = do {
     b1 \<leftarrow> is_interior h before; b2 \<leftarrow> is_tail h before; k_assert (b1 \<or> b2);
     k_assert (elem \<noteq> NULL);
     p \<leftarrow> get_prev h before;
     h \<leftarrow> set_prev h elem p;
     h \<leftarrow> set_next h elem before;
     p \<leftarrow> get_prev h before;
     h \<leftarrow> set_next h p elem;
     set_prev h before elem }"

definition list_splice :: "store \<Rightarrow> addr \<Rightarrow> addr \<Rightarrow> addr \<Rightarrow> store option" where
  "list_splice h before first lst = do {
     b1 \<leftarrow> is_interior h before; b2 \<leftarrow> is_tail h before; k_assert (b1 \<or> b2);
     if first = lst then Some h
     else do {
       lst \<leftarrow> list_prev h lst;
       i1 \<leftarrow> is_interior h first; k_assert i1;
       i2 \<leftarrow> is_interior h lst; k_assert i2;
       fp \<leftarrow> get_prev h first; ln \<leftarrow> get_next h lst;
       h \<leftarrow> set_next h fp ln;
       ln \<leftarrow> get_next h lst; fp \<leftarrow> get_prev h first;
       h \<leftarrow> set_prev h ln fp;
       bp \<leftarrow> get_prev h before;
       h \<leftarrow> set_prev h first bp;
       h \<leftarrow> set_next h lst before;
       bp \<leftarrow> get_prev h before;
       h \<leftarrow> set_next h bp first;
       set_prev h before lst } }"

definition list_push_front :: "store \<Rightarrow> addr \<Rightarrow> addr \<Rightarrow> store option" where
  "list_push_front h l elem = do { b \<leftarrow> list_begin h l; list_insert h b elem }"

definition list_push_back :: "store \<Rightarrow> addr \<Rightarrow> addr \<Rightarrow> store option" where
  "list_push_back h l elem = do { e \<leftarrow> list_end l; list_insert h e elem }"

definition list_remove :: "store \<Rightarrow> addr \<Rightarrow> (addr \<times> store) option" where
  "list_remove h elem = do {
     i \<leftarrow> is_interior h elem; k_assert i;
     p \<leftarrow> get_prev h elem; n \<leftarrow> get_next h elem;
     h \<leftarrow> set_next h p n;
     n \<leftarrow> get_next h elem; p \<leftarrow> get_prev h elem;
     h \<leftarrow> set_prev h n p;
     n \<leftarrow> get_next h elem;
     Some (n, h) }"

definition list_empty :: "store \<Rightarrow> addr \<Rightarrow> bool option" where
  "list_empty h l = do { b \<leftarrow> list_begin h l; e \<leftarrow> list_end l; Some (b = e) }"

definition list_front :: "store \<Rightarrow> addr \<Rightarrow> addr option" where
  "list_front h l = do { e \<leftarrow> list_empty h l; k_assert (\<not> e); get_next h (head_of l) }"

definition list_back :: "store \<Rightarrow> addr \<Rightarrow> addr option" where
  "list_back h l = do { e \<leftarrow> list_empty h l; k_assert (\<not> e); get_prev h (tail_of l) }"

definition list_pop_front :: "store \<Rightarrow> addr \<Rightarrow> (addr \<times> store) option" where
  "list_pop_front h l = do {
     front \<leftarrow> list_front h l; (_, h) \<leftarrow> list_remove h front; Some (front, h) }"

definition list_pop_back :: "store \<Rightarrow> addr \<Rightarrow> (addr \<times> store) option" where
  "list_pop_back h l = do {
     back \<leftarrow> list_back h l; (_, h) \<leftarrow> list_remove h back; Some (back, h) }"

partial_function (option) list_size_loop :: "store \<Rightarrow> addr \<Rightarrow> addr \<Rightarrow> nat \<Rightarrow> nat option" where
  "list_size_loop h l e cnt = do {
     en \<leftarrow> list_end l;
     if e = en then Some cnt
     else do { e' \<leftarrow> list_next h e; list_size_loop h l e' (u32 (cnt + 1)) } }"

definition list_size :: "store \<Rightarrow> addr \<Rightarrow> nat option" where
  "list_size h l = do { e \<leftarrow> list_begin h l; list_size_loop h l e 0 }"

text \<open>list_reverse(): the loop exchanges the two links of every element.\<close>

definition swap_links :: "store \<Rightarrow> addr \<Rightarrow> store option" where
  "swap_links h e = do { n \<leftarrow> h e; Some (h(e \<mapsto> n\<lparr>prev_ptr := next_ptr n, next_ptr := prev_ptr n\<rparr>)) }"

partial_function (option) list_reverse_loop :: "store \<Rightarrow> addr \<Rightarrow> addr \<Rightarrow> store option" where
  "list_reverse_loop h l e = do {
     en \<leftarrow> list_end l;
     if e = en then Some h
     else do { h \<leftarrow> swap_links h e; e' \<leftarrow> get_prev h e; list_reverse_loop h l e' } }"

definition list_reverse :: "store \<Rightarrow> addr \<Rightarrow> store option" where
  "list_reverse h l = do {
     emp \<leftarrow> list_empty h l;
     if emp then Some h
     else do {
       e \<leftarrow> list_begin h l;
       h \<leftarrow> list_reverse_loop h l e;
       hn \<leftarrow> get_next h (head_of l); tp \<leftarrow> get_prev h (tail_of l);
       h \<leftarrow> set_next h (head_of l) tp;
       h \<leftarrow> set_prev h (tail_of l) hn;
       hn \<leftarrow> get_next h (head_of l); tp \<leftarrow> get_prev h (tail_of l);
       a \<leftarrow> get_prev h hn; b \<leftarrow> get_next h tp;
       h \<leftarrow> set_prev h hn b;
       set_next h tp a } }"

partial_function (option) is_sorted_loop ::
  "(addr \<Rightarrow> addr \<Rightarrow> bool) \<Rightarrow> store \<Rightarrow> addr \<Rightarrow> addr \<Rightarrow> bool option" where
  "is_sorted_loop lt h a b = do {
     a \<leftarrow> list_next h a;
     if a = b then Some True
     else do { p \<leftarrow> list_prev h a; if lt a p then Some False else is_sorted_loop lt h a b } }"

definition is_sorted :: "(addr \<Rightarrow> addr \<Rightarrow> bool) \<Rightarrow> store \<Rightarrow> addr \<Rightarrow> addr \<Rightarrow> bool option" where
  "is_sorted lt h a b = (if a \<noteq> b then is_sorted_loop lt h a b else Some True)"

partial_function (option) find_end_of_run_loop ::
  "(addr \<Rightarrow> addr \<Rightarrow> bool) \<Rightarrow> store \<Rightarrow> addr \<Rightarrow> addr \<Rightarrow> addr option" where
  "find_end_of_run_loop lt h a b = do {
     a \<leftarrow> list_next h a;
     if a = b then Some a
     else do { p \<leftarrow> list_prev h a; if lt a p then Some a else find_end_of_run_loop lt h a b } }"

definition find_end_of_run :: "(addr \<Rightarrow> addr \<Rightarrow> bool) \<Rightarrow> store \<Rightarrow> addr \<Rightarrow> addr \<Rightarrow> addr option" where
  "find_end_of_run lt h a b = do {
     k_assert (a \<noteq> NULL); k_assert (b \<noteq> NULL); k_assert (a \<noteq> b); find_end_of_run_loop lt h a b }"

partial_function (option) inplace_merge_loop ::
  "(addr \<Rightarrow> addr \<Rightarrow> bool) \<Rightarrow> store \<Rightarrow> addr \<Rightarrow> addr \<Rightarrow> addr \<Rightarrow> store option" where
  "inplace_merge_loop lt h a0 a1b0 b1 =
     (if a0 \<noteq> a1b0 \<and> a1b0 \<noteq> b1 then
        (if \<not> lt a1b0 a0 then do { a0 \<leftarrow> list_next h a0; inplace_merge_loop lt h a0 a1b0 b1 }
         else do {
           a1b0 \<leftarrow> list_next h a1b0;
           p \<leftarrow> list_prev h a1b0;
           h \<leftarrow> list_splice h a0 p a1b0;
           inplace_merge_loop lt h a0 a1b0 b1 })
      else Some h)"

definition inplace_merge ::
  "(addr \<Rightarrow> addr \<Rightarrow> bool) \<Rightarrow> store \<Rightarrow> addr \<Rightarrow> addr \<Rightarrow> addr \<Rightarrow> store option" where
  "inplace_merge lt h a0 a1b0 b1 = do {
     k_assert (a0 \<noteq> NULL); k_assert (a1b0 \<noteq> NULL); k_assert (b1 \<noteq> NULL);
     s1 \<leftarrow> is_sorted lt h a0 a1b0; k_assert s1;
     s2 \<leftarrow> is_sorted lt h a1b0 b1; k_assert s2;
     inplace_merge_loop lt h a0 a1b0 b1 }"

text \<open>
  One pass of list_sort() over the list, returning the number of output runs
  (\<^verbatim>\<open>output_run_cnt\<close>) and the new memory.
\<close>

partial_function (option) list_sort_pass ::
  "(addr \<Rightarrow> addr \<Rightarrow> bool) \<Rightarrow> store \<Rightarrow> addr \<Rightarrow> addr \<Rightarrow> nat \<Rightarrow> (nat \<times> store) option" where
  "list_sort_pass lt h l a0 cnt = do {
     en \<leftarrow> list_end l;
     if a0 = en then Some (cnt, h)
     else do {
       a1b0 \<leftarrow> find_end_of_run lt h a0 en;
       if a1b0 = en then Some (u32 (cnt + 1), h)
       else do {
         b1 \<leftarrow> find_end_of_run lt h a1b0 en;
         h \<leftarrow> inplace_merge lt h a0 a1b0 b1;
         list_sort_pass lt h l b1 (u32 (cnt + 1)) } } }"

partial_function (option) list_sort_loop ::
  "(addr \<Rightarrow> addr \<Rightarrow> bool) \<Rightarrow> store \<Rightarrow> addr \<Rightarrow> store option" where
  "list_sort_loop lt h l = do {
     a0 \<leftarrow> list_begin h l;
     (cnt, h) \<leftarrow> list_sort_pass lt h l a0 0;
     if cnt > 1 then list_sort_loop lt h l else Some h }"

definition list_sort :: "(addr \<Rightarrow> addr \<Rightarrow> bool) \<Rightarrow> store \<Rightarrow> addr \<Rightarrow> store option" where
  "list_sort lt h l = do {
     k_assert (l \<noteq> NULL);
     h \<leftarrow> list_sort_loop lt h l;
     b \<leftarrow> list_begin h l; e \<leftarrow> list_end l;
     s \<leftarrow> is_sorted lt h b e; k_assert s;
     Some h }"

partial_function (option) insert_ordered_loop ::
  "(addr \<Rightarrow> addr \<Rightarrow> bool) \<Rightarrow> store \<Rightarrow> addr \<Rightarrow> addr \<Rightarrow> addr \<Rightarrow> addr option" where
  "insert_ordered_loop lt h l elem e = do {
     en \<leftarrow> list_end l;
     if e = en then Some e
     else if lt elem e then Some e
     else do { e' \<leftarrow> list_next h e; insert_ordered_loop lt h l elem e' } }"

definition list_insert_ordered ::
  "(addr \<Rightarrow> addr \<Rightarrow> bool) \<Rightarrow> store \<Rightarrow> addr \<Rightarrow> addr \<Rightarrow> store option" where
  "list_insert_ordered lt h l elem = do {
     k_assert (l \<noteq> NULL); k_assert (elem \<noteq> NULL);
     b \<leftarrow> list_begin h l;
     e \<leftarrow> insert_ordered_loop lt h l elem b;
     list_insert h e elem }"

partial_function (option) list_unique_loop ::
  "(addr \<Rightarrow> addr \<Rightarrow> bool) \<Rightarrow> store \<Rightarrow> addr \<Rightarrow> addr \<Rightarrow> addr \<Rightarrow> store option" where
  "list_unique_loop lt h l dups elem = do {
     nxt \<leftarrow> list_next h elem;
     en \<leftarrow> list_end l;
     if nxt = en then Some h
     else if \<not> lt elem nxt \<and> \<not> lt nxt elem then do {
       (_, h) \<leftarrow> list_remove h nxt;
       h \<leftarrow> (if dups \<noteq> NULL then list_push_back h dups nxt else Some h);
       list_unique_loop lt h l dups elem }
     else list_unique_loop lt h l dups nxt }"

definition list_unique ::
  "(addr \<Rightarrow> addr \<Rightarrow> bool) \<Rightarrow> store \<Rightarrow> addr \<Rightarrow> addr \<Rightarrow> store option" where
  "list_unique lt h l dups = do {
     k_assert (l \<noteq> NULL);
     emp \<leftarrow> list_empty h l;
     if emp then Some h
     else do { e \<leftarrow> list_begin h l; list_unique_loop lt h l dups e } }"

partial_function (option) list_max_loop ::
  "(addr \<Rightarrow> addr \<Rightarrow> bool) \<Rightarrow> store \<Rightarrow> addr \<Rightarrow> addr \<Rightarrow> addr \<Rightarrow> addr option" where
  "list_max_loop lt h l mx e = do {
     en \<leftarrow> list_end l;
     if e = en then Some mx
     else do {
       e' \<leftarrow> list_next h e;
       list_max_loop lt h l (if lt mx e then e else mx) e' } }"

definition list_max :: "(addr \<Rightarrow> addr \<Rightarrow> bool) \<Rightarrow> store \<Rightarrow> addr \<Rightarrow> addr option" where
  "list_max lt h l = do {
     mx \<leftarrow> list_begin h l; en \<leftarrow> list_end l;
     if mx \<noteq> en then do { e \<leftarrow> list_next h mx; list_max_loop lt h l mx e } else Some mx }"

partial_function (option) list_min_loop ::
  "(addr \<Rightarrow> addr \<Rightarrow> bool) \<Rightarrow> store \<Rightarrow> addr \<Rightarrow> addr \<Rightarrow> addr \<Rightarrow> addr option" where
  "list_min_loop lt h l mn e = do {
     en \<leftarrow> list_end l;
     if e = en then Some mn
     else do {
       e' \<leftarrow> list_next h e;
       list_min_loop lt h l (if lt e mn then e else mn) e' } }"

definition list_min :: "(addr \<Rightarrow> addr \<Rightarrow> bool) \<Rightarrow> store \<Rightarrow> addr \<Rightarrow> addr option" where
  "list_min lt h l = do {
     mn \<leftarrow> list_begin h l; en \<leftarrow> list_end l;
     if mn \<noteq> en then do { e \<leftarrow> list_next h mn; list_min_loop lt h l mn e } else Some mn }"

subsection \<open>Well-formed chains of nodes\<close>

fun linked :: "store \<Rightarrow> addr list \<Rightarrow> bool" where
  "linked h (a # b # ns) \<longleftrightarrow> get_next h a = Some b \<and> get_prev h b = Some a \<and> linked h (b # ns)"
| "linked h [a] \<longleftrightarrow> True"
| "linked h [] \<longleftrightarrow> True"

definition wf_nodes :: "store \<Rightarrow> addr list \<Rightarrow> bool" where
  "wf_nodes h ns \<longleftrightarrow> linked h ns \<and> distinct ns \<and> NULL \<notin> set ns \<and> ns \<noteq> [] \<and>
     get_prev h (hd ns) = Some NULL \<and> get_next h (last ns) = Some NULL"

definition nodes :: "addr \<Rightarrow> addr list \<Rightarrow> addr list" where
  "nodes l xs = head_of l # xs @ [tail_of l]"

definition dll :: "store \<Rightarrow> addr \<Rightarrow> addr list \<Rightarrow> bool" where
  "dll h l xs \<longleftrightarrow> wf_nodes h (nodes l xs)"

definition only_changes :: "addr set \<Rightarrow> store \<Rightarrow> store \<Rightarrow> bool" where
  "only_changes S h h' \<longleftrightarrow> dom h' = dom h \<and> (\<forall>q. q \<notin> S \<longrightarrow> h' q = h q)"

definition upd_next :: "store \<Rightarrow> addr \<Rightarrow> addr \<Rightarrow> store" where
  "upd_next h p v = h(p := map_option (next_ptr_update (\<lambda>_. v)) (h p))"

definition upd_prev :: "store \<Rightarrow> addr \<Rightarrow> addr \<Rightarrow> store" where
  "upd_prev h p v = h(p := map_option (prev_ptr_update (\<lambda>_. v)) (h p))"

lemma set_next_eq [simp]: "p \<in> dom h \<Longrightarrow> set_next h p v = Some (upd_next h p v)"
  by (auto simp: set_next_def upd_next_def)

lemma set_prev_eq [simp]: "p \<in> dom h \<Longrightarrow> set_prev h p v = Some (upd_prev h p v)"
  by (auto simp: set_prev_def upd_prev_def)

lemma dom_upd [simp]: "dom (upd_next h p v) = dom h" "dom (upd_prev h p v) = dom h"
  by (auto simp: upd_next_def upd_prev_def split: if_splits)

lemma get_upd [simp]:
  "p \<in> dom h \<Longrightarrow> get_next (upd_next h p v) q = (if q = p then Some v else get_next h q)"
  "get_prev (upd_next h p v) q = get_prev h q"
  "p \<in> dom h \<Longrightarrow> get_prev (upd_prev h p v) q = (if q = p then Some v else get_prev h q)"
  "get_next (upd_prev h p v) q = get_next h q"
  by (auto simp: get_next_def get_prev_def upd_next_def upd_prev_def option.map_comp comp_def)

lemma get_next_dom: "get_next h p = Some v \<Longrightarrow> p \<in> dom h"
  by (auto simp: get_next_def)

lemma get_prev_dom: "get_prev h p = Some v \<Longrightarrow> p \<in> dom h"
  by (auto simp: get_prev_def)

lemma dom_get_next: "p \<in> dom h \<Longrightarrow> \<exists>v. get_next h p = Some v"
  by (auto simp: get_next_def)

lemma upd_other [simp]:
  "q \<noteq> p \<Longrightarrow> upd_next h p v q = h q" "q \<noteq> p \<Longrightarrow> upd_prev h p v q = h q"
  by (simp_all add: upd_next_def upd_prev_def)

lemma only_changes_refl [simp]: "only_changes S h h"
  by (simp add: only_changes_def)

lemma only_changes_upd:
  "only_changes S h h' \<Longrightarrow> p \<in> S \<Longrightarrow> only_changes S h (upd_next h' p v)"
  "only_changes S h h' \<Longrightarrow> p \<in> S \<Longrightarrow> only_changes S h (upd_prev h' p v)"
  by (auto simp: only_changes_def upd_next_def upd_prev_def dom_def split: if_splits)

lemma only_changes_trans:
  "only_changes S h h' \<Longrightarrow> only_changes T h' h'' \<Longrightarrow> only_changes (S \<union> T) h h''"
  by (auto simp: only_changes_def)

lemma only_changes_mono: "only_changes S h h' \<Longrightarrow> S \<subseteq> T \<Longrightarrow> only_changes T h h'"
  by (auto simp: only_changes_def)

lemma linked_cong:
  "(\<And>a. a \<in> set (butlast ns) \<Longrightarrow> get_next h a = get_next h' a) \<Longrightarrow>
   (\<And>a. a \<in> set (tl ns) \<Longrightarrow> get_prev h a = get_prev h' a) \<Longrightarrow> linked h ns = linked h' ns"
  by (induction h ns rule: linked.induct) auto

lemma linked_append: "linked h (xs @ a # ys) \<longleftrightarrow> linked h (xs @ [a]) \<and> linked h (a # ys)"
proof (induction xs)
  case (Cons x xs)
  then show ?case by (cases xs) auto
qed simp

lemma get_upd_other [simp]:
  "q \<noteq> p \<Longrightarrow> get_next (upd_next h p v) q = get_next h q"
  "q \<noteq> p \<Longrightarrow> get_prev (upd_prev h p v) q = get_prev h q"
  by (simp_all add: get_next_def get_prev_def)

lemma linked_upd_next: "p \<notin> set (butlast ns) \<Longrightarrow> linked (upd_next h p v) ns = linked h ns"
  by (rule linked_cong) (metis get_upd_other(1), simp)

lemma linked_upd_prev: "p \<notin> set (tl ns) \<Longrightarrow> linked (upd_prev h p v) ns = linked h ns"
  by (rule linked_cong) (simp, metis get_upd_other(2))

lemma in_set_tlD: "x \<in> set (tl xs) \<Longrightarrow> x \<in> set xs"
  by (cases xs) auto

lemma linked_upd [simp]:
  "p \<notin> set ns \<Longrightarrow> linked (upd_next h p v) ns = linked h ns"
  "p \<notin> set ns \<Longrightarrow> linked (upd_prev h p v) ns = linked h ns"
  "p \<notin> set ns \<Longrightarrow> linked (upd_next h p v) (ns @ [p]) = linked h (ns @ [p])"
  "p \<notin> set ns \<Longrightarrow> linked (upd_prev h p v) (p # ns) = linked h (p # ns)"
  by (simp_all add: linked_upd_next linked_upd_prev) (metis in_set_butlastD in_set_tlD linked_upd_next linked_upd_prev)+

lemma wf_nodes_frame:
  assumes "wf_nodes h ns" "only_changes S h h'" "set ns \<inter> S = {}"
  shows "wf_nodes h' ns"
proof -
  have eq: "h' a = h a" if "a \<in> set ns" for a
    using assms(2,3) that by (auto simp: only_changes_def)
  have "linked h' ns = linked h ns"
    by (rule linked_cong) (auto simp: get_next_def get_prev_def eq dest!: in_set_butlastD in_set_tlD)
  then show ?thesis
    using assms(1) by (auto simp: wf_nodes_def get_next_def get_prev_def eq)
qed

lemma linked_next: "linked h (P @ a # b # Q) \<Longrightarrow> get_next h a = Some b"
  by (subst (asm) linked_append) simp

lemma linked_prev: "linked h (P @ a # b # Q) \<Longrightarrow> get_prev h b = Some a"
  by (subst (asm) linked_append) simp

lemma wf_nodes_next: "wf_nodes h (P @ a # b # Q) \<Longrightarrow> get_next h a = Some b"
  by (auto simp: wf_nodes_def intro: linked_next)

lemma wf_nodes_prev: "wf_nodes h (P @ a # b # Q) \<Longrightarrow> get_prev h b = Some a"
  by (auto simp: wf_nodes_def intro: linked_prev)

lemma wf_nodes_get:
  assumes "wf_nodes h ns" "a \<in> set ns"
  shows "\<exists>p n. get_prev h a = Some p \<and> get_next h a = Some n \<and> (p = NULL \<longleftrightarrow> a = hd ns) \<and>
    (n = NULL \<longleftrightarrow> a = last ns)"
proof -
  from assms(2) obtain P Q where ns: "ns = P @ a # Q" by (auto simp: in_set_conv_decomp)
  have dist: "distinct ns" and nul: "NULL \<notin> set ns" using assms(1) by (auto simp: wf_nodes_def)
  have 1: "\<exists>p. get_prev h a = Some p \<and> (p = NULL \<longleftrightarrow> a = hd ns)"
  proof (cases P rule: rev_cases)
    case Nil
    then show ?thesis using assms(1) ns by (auto simp: wf_nodes_def)
  next
    case (snoc P' p)
    then have "get_prev h a = Some p" using wf_nodes_prev [of h P' p a Q] assms(1) ns by simp
    moreover have "p \<noteq> NULL" using nul ns snoc by auto
    moreover have "a \<noteq> hd ns" using dist ns snoc by (cases P') auto
    ultimately show ?thesis by auto
  qed
  have 2: "\<exists>n. get_next h a = Some n \<and> (n = NULL \<longleftrightarrow> a = last ns)"
  proof (cases Q)
    case Nil
    then show ?thesis using assms(1) ns by (auto simp: wf_nodes_def)
  next
    case (Cons b Q')
    then have "get_next h a = Some b" using wf_nodes_next [of h P a b Q'] assms(1) ns by simp
    moreover have "b \<noteq> NULL" using nul ns Cons by auto
    moreover have "a \<noteq> last ns" using dist ns Cons by auto
    ultimately show ?thesis by auto
  qed
  from 1 2 show ?thesis by auto
qed

lemma wf_nodes_dom: "wf_nodes h ns \<Longrightarrow> a \<in> set ns \<Longrightarrow> a \<in> dom h"
  using wf_nodes_get get_next_dom by blast

lemma wf_nodes_D:
  assumes "wf_nodes h ns"
  shows "distinct ns" "NULL \<notin> set ns" "ns \<noteq> []"
  using assms by (auto simp: wf_nodes_def)

lemma is_interior_nodes:
  "wf_nodes h ns \<Longrightarrow> a \<in> set ns \<Longrightarrow> is_interior h a = Some (a \<noteq> hd ns \<and> a \<noteq> last ns)"
  using wf_nodes_get [of h ns a] wf_nodes_D(2) [of h ns] by (auto simp: is_interior_def)

lemma is_head_nodes:
  "wf_nodes h ns \<Longrightarrow> a \<in> set ns \<Longrightarrow> is_head h a = Some (a = hd ns \<and> a \<noteq> last ns)"
  using wf_nodes_get [of h ns a] wf_nodes_D(2) [of h ns] by (auto simp: is_head_def)

lemma is_tail_nodes:
  "wf_nodes h ns \<Longrightarrow> a \<in> set ns \<Longrightarrow> is_tail h a = Some (a \<noteq> hd ns \<and> a = last ns)"
  using wf_nodes_get [of h ns a] wf_nodes_D(2) [of h ns] by (auto simp: is_tail_def)

lemma list_next_nodes: "wf_nodes h (P @ a # b # Q) \<Longrightarrow> list_next h a = Some b"
  by (frule wf_nodes_next, frule wf_nodes_D(1))
    (simp add: list_next_def is_head_nodes is_interior_nodes, auto split: if_splits)

lemma list_prev_nodes: "wf_nodes h (P @ a # b # Q) \<Longrightarrow> list_prev h b = Some a"
  apply (frule wf_nodes_prev, frule wf_nodes_D(1))
  apply (cases P)
   apply (simp_all add: list_prev_def is_tail_nodes is_interior_nodes)
  done

subsection \<open>Insertion and removal\<close>

lemma list_insert_nodes:
  assumes wf: "wf_nodes h (P @ p # b # Q)" and e: "e \<in> dom h" "e \<noteq> NULL" "e \<notin> set (P @ p # b # Q)"
  shows "\<exists>h'. list_insert h b e = Some h' \<and> wf_nodes h' (P @ p # e # b # Q) \<and>
    only_changes {p, b, e} h h'"
proof -
  let ?N = "P @ p # b # Q"
  define h' where "h' = upd_prev (upd_next (upd_next (upd_prev h e p) e b) p e) b e"
  note D = wf_nodes_D [OF wf]
  have dm: "p \<in> dom h" "b \<in> dom h" using wf_nodes_dom [OF wf] by auto
  have gp: "get_prev h b = Some p" by (rule wf_nodes_prev [OF wf])
  have neq: "p \<noteq> b" "e \<noteq> p" "e \<noteq> b" "b \<noteq> hd ?N" using D e by (cases P; auto)+
  have run: "list_insert h b e = Some h'"
    using neq dm e gp D(2)
    by (simp add: list_insert_def is_interior_nodes [OF wf] is_tail_nodes [OF wf] h'_def)
  have ends: "get_prev h (hd ?N) = Some NULL" "get_next h (last ?N) = Some NULL"
    using wf by (auto simp: wf_nodes_def)
  have lk: "linked h (P @ [p])" "linked h (b # Q)"
    using wf by (auto simp: wf_nodes_def linked_append [of h P p "b # Q"])
  have "linked h' (P @ [p])" "linked h' (b # Q)"
    using lk D(1) e neq by (auto simp: h'_def)
  moreover have "linked h' [p, e, b]" using dm e neq by (simp add: h'_def)
  ultimately have "linked h' (P @ p # e # b # Q)"
    by (subst linked_append) simp
  moreover have "get_prev h' (hd ?N) = Some NULL"
    using ends(1) neq dm e by (cases P) (auto simp: h'_def)
  moreover have "get_next h' (last ?N) = Some NULL"
    using ends(2) neq dm e D(1) by (auto simp: h'_def)
  ultimately have "wf_nodes h' (P @ p # e # b # Q)"
    using D e neq by (cases P) (auto simp: wf_nodes_def)
  moreover have "only_changes {p, b, e} h h'"
    unfolding h'_def by (intro only_changes_upd only_changes_refl) auto
  ultimately show ?thesis using run by blast
qed

lemma list_remove_nodes:
  assumes wf: "wf_nodes h (P @ p # e # n # Q)"
  shows "\<exists>h'. list_remove h e = Some (n, h') \<and> wf_nodes h' (P @ p # n # Q) \<and>
    only_changes {p, n} h h'"
proof -
  let ?N = "P @ p # e # n # Q"
  define h' where "h' = upd_prev (upd_next h p n) n p"
  note D = wf_nodes_D [OF wf]
  have dm: "p \<in> dom h" "n \<in> dom h" "e \<in> dom h" using wf_nodes_dom [OF wf] by auto
  have gp: "get_prev h e = Some p" by (rule wf_nodes_prev [OF wf])
  have gn: "get_next h e = Some n" using wf_nodes_next [of h "P @ [p]" e n Q] wf by simp
  have neq: "p \<noteq> e" "e \<noteq> n" "p \<noteq> n" "e \<noteq> hd ?N" "e \<noteq> last ?N" using D by (cases P; auto)+
  have run: "list_remove h e = Some (n, h')"
    using neq dm gp gn by (simp add: list_remove_def is_interior_nodes [OF wf] h'_def)
  have ends: "get_prev h (hd ?N) = Some NULL" "get_next h (last ?N) = Some NULL"
    using wf by (auto simp: wf_nodes_def)
  have lk: "linked h (P @ [p])" "linked h (n # Q)"
    using wf by (auto simp: wf_nodes_def linked_append [of h P p "e # n # Q"])
  have "linked h' (P @ [p])" "linked h' (n # Q)"
    using lk D(1) neq by (auto simp: h'_def)
  moreover have "linked h' [p, n]" using dm neq by (simp add: h'_def)
  ultimately have "linked h' (P @ p # n # Q)"
    by (subst linked_append) simp
  moreover have "get_prev h' (hd ?N) = Some NULL"
    using ends(1) neq dm D(1) by (cases P) (auto simp: h'_def)
  moreover have "get_next h' (last ?N) = Some NULL"
    using ends(2) neq dm D(1) by (auto simp: h'_def)
  ultimately have "wf_nodes h' (P @ p # n # Q)"
    using D neq by (cases P) (auto simp: wf_nodes_def)
  moreover have "only_changes {p, n} h h'"
    unfolding h'_def by (intro only_changes_upd only_changes_refl) auto
  ultimately show ?thesis using run by blast
qed

subsection \<open>Splicing\<close>

lemma linked_join:
  "xs \<noteq> [] \<Longrightarrow> ys \<noteq> [] \<Longrightarrow> linked h (xs @ ys) \<longleftrightarrow>
   linked h xs \<and> linked h ys \<and> get_next h (last xs) = Some (hd ys) \<and> get_prev h (hd ys) = Some (last xs)"
proof (induction xs)
  case (Cons x xs)
  then show ?case by (cases xs; cases ys) auto
qed simp

lemma last_notin_butlast [simp]: "distinct xs \<Longrightarrow> xs \<noteq> [] \<Longrightarrow> last xs \<notin> set (butlast xs)"
  by (cases xs rule: rev_cases) auto

lemma hd_notin_tl [simp]: "distinct xs \<Longrightarrow> xs \<noteq> [] \<Longrightarrow> hd xs \<notin> set (tl xs)"
  by (cases xs) auto

lemma list_splice_nodes:
  assumes wf: "wf_nodes h (P @ A @ F @ Q)" and ne: "P \<noteq> []" "A \<noteq> []" "F \<noteq> []" "Q \<noteq> []"
  shows "\<exists>h'. list_splice h (hd A) (hd F) (hd Q) = Some h' \<and> wf_nodes h' (P @ F @ A @ Q) \<and>
    only_changes (set (P @ A @ F @ Q)) h h'"
proof -
  let ?N = "P @ A @ F @ Q"
  define p a z f g q where names: "p = last P" "a = hd A" "z = last A" "f = hd F" "g = last F" "q = hd Q"
  note D = wf_nodes_D [OF wf]
  have d: "distinct P" "distinct A" "distinct F" "distinct Q" "set P \<inter> set A = {}" "set P \<inter> set F = {}"
    "set P \<inter> set Q = {}" "set A \<inter> set F = {}" "set A \<inter> set Q = {}" "set F \<inter> set Q = {}"
    using D(1) by auto
  have mem: "p \<in> set P" "a \<in> set A" "z \<in> set A" "f \<in> set F" "g \<in> set F" "q \<in> set Q"
    using ne by (auto simp: names)
  have dm: "p \<in> dom h" "a \<in> dom h" "z \<in> dom h" "f \<in> dom h" "g \<in> dom h" "q \<in> dom h"
    using wf_nodes_dom [OF wf] mem by auto
  have neq: "a \<noteq> p" "f \<noteq> q" "f \<noteq> a" "q \<noteq> a" "p \<noteq> z" "p \<noteq> g" "g \<noteq> z" "f \<noteq> z"
    "q \<noteq> f" "a \<noteq> f" "g \<noteq> p" "z \<noteq> p" "z \<noteq> g"
    using d mem by blast+
  have L: "linked h P" "linked h A" "linked h F" "linked h Q"
    "get_next h p = Some a" "get_prev h a = Some p" "get_next h z = Some f" "get_prev h f = Some z"
    "get_next h g = Some q" "get_prev h q = Some g"
    using wf ne by (simp_all add: wf_nodes_def linked_join names)
  have ends: "hd ?N = hd P" "last ?N = last Q" using ne by auto
  have noend: "a \<noteq> hd ?N" "f \<noteq> hd ?N" "g \<noteq> hd ?N" "a \<noteq> last ?N" "f \<noteq> last ?N" "g \<noteq> last ?N" "q \<noteq> hd ?N"
    unfolding ends using d mem hd_in_set [OF ne(1)] last_in_set [OF ne(4)] by blast+
  have lp: "list_prev h q = Some g"
    using L(10) noend(7) wf mem
    by (auto simp: list_prev_def is_interior_nodes [OF wf] is_tail_nodes [OF wf])
  have asrt: "is_interior h a = Some True" "is_tail h a = Some False" "is_interior h f = Some True"
      "is_interior h g = Some True"
    using noend mem by (auto simp: is_interior_nodes [OF wf] is_tail_nodes [OF wf])
  define h' where
    "h' = upd_prev (upd_next (upd_next (upd_prev (upd_prev (upd_next h z q) q z) f p) g a) p f) a g"
  have run: "list_splice h a f q = Some h'"
    using neq dm lp asrt L by (simp add: list_splice_def h'_def)
  have nb: "p \<notin> set (butlast P)" "z \<notin> set (butlast A)" "g \<notin> set (butlast F)"
     "a \<notin> set (tl A)" "f \<notin> set (tl F)" "q \<notin> set (tl Q)"
    using d ne by (auto simp: names)
  have nm: "z \<notin> set P" "g \<notin> set P" "q \<notin> set P" "f \<notin> set P" "a \<notin> set P" "g \<notin> set A"
    "p \<notin> set A" "q \<notin> set A" "f \<notin> set A" "z \<notin> set F" "p \<notin> set F" "q \<notin> set F" "a \<notin> set F"
    "z \<notin> set Q" "g \<notin> set Q" "p \<notin> set Q" "f \<notin> set Q" "a \<notin> set Q"
    using d mem by blast+
  have seg: "linked h' P" "linked h' A" "linked h' F" "linked h' Q"
    using L(1-4) nb nm by (simp_all add: h'_def linked_upd_prev linked_upd_next)
  have joins: "get_next h' p = Some f" "get_prev h' f = Some p" "get_next h' g = Some a"
    "get_prev h' a = Some g" "get_next h' z = Some q" "get_prev h' q = Some z"
    using dm neq by (auto simp: h'_def)
  have "linked h' (P @ F @ A @ Q)" using seg joins ne by (simp add: linked_join names)
  moreover have "get_prev h' (hd P) = Some NULL"
  proof -
    have "hd P \<noteq> a" "hd P \<noteq> f" "hd P \<noteq> q" using noend ends by auto
    then show ?thesis using wf ends by (simp add: h'_def wf_nodes_def)
  qed
  moreover have "get_next h' (last Q) = Some NULL"
  proof -
    have "last Q \<noteq> z" "last Q \<noteq> p" "last Q \<noteq> g" using d mem last_in_set [OF ne(4)] by blast+
    then show ?thesis using wf ends by (simp add: h'_def wf_nodes_def)
  qed
  ultimately have "wf_nodes h' (P @ F @ A @ Q)" using D ne by (auto simp: wf_nodes_def)
  moreover have "only_changes (set ?N) h h'"
    unfolding h'_def using mem by (intro only_changes_upd only_changes_refl) auto
  ultimately show ?thesis using run by (auto simp: names)
qed

subsection \<open>Operations on represented lists\<close>

abbreviation cursor :: "addr \<Rightarrow> addr list \<Rightarrow> addr" where
  "cursor l zs \<equiv> hd (zs @ [tail_of l])"

lemma nodes_split:
  "nodes l (ys @ zs) =
   butlast (head_of l # ys) @ last (head_of l # ys) # cursor l zs # tl (zs @ [tail_of l])"
  by (cases ys rule: rev_cases; cases zs) (auto simp: nodes_def)

lemma set_nodes [simp]: "set (nodes l xs) = insert (head_of l) (insert (tail_of l) (set xs))"
  by (auto simp: nodes_def)

lemma hd_nodes [simp]: "hd (nodes l xs) = head_of l" and last_nodes [simp]: "last (nodes l xs) = tail_of l"
  by (simp_all add: nodes_def)

lemma dll_D:
  assumes "dll h l xs"
  shows "l \<noteq> NULL" "head_of l \<noteq> NULL" "tail_of l \<noteq> NULL" "distinct xs" "NULL \<notin> set xs"
    "head_of l \<notin> set xs" "tail_of l \<notin> set xs" "head_of l \<noteq> tail_of l" "set xs \<subseteq> dom h"
    "head_of l \<in> dom h" "tail_of l \<in> dom h"
  using wf_nodes_D [of h "nodes l xs"] wf_nodes_dom [of h "nodes l xs"] assms
  by (auto simp: dll_def nodes_def head_of_def tail_of_def)

lemma dll_list_end [simp]: "dll h l xs \<Longrightarrow> list_end l = Some (tail_of l)"
  using dll_D(1) by (simp add: list_end_def)

lemma dll_list_begin: "dll h l xs \<Longrightarrow> list_begin h l = Some (cursor l xs)"
  using wf_nodes_next [of h "[]" "head_of l" "cursor l xs" "tl (xs @ [tail_of l])"] dll_D(1) [of h l xs]
    nodes_split [of l "[]" xs]
  by (simp add: list_begin_def dll_def)

lemma dll_rbegin: "dll h l xs \<Longrightarrow> list_rbegin h l = Some (last (head_of l # xs))"
  using wf_nodes_prev [of h "butlast (head_of l # xs)" "last (head_of l # xs)" "tail_of l" "[]"]
    dll_D(1) [of h l xs] nodes_split [of l xs "[]"]
  by (simp add: list_rbegin_def dll_def)

lemma dll_list_next: "dll h l (ys @ z # zs) \<Longrightarrow> list_next h z = Some (cursor l zs)"
  using list_next_nodes [of h "head_of l # ys" z "cursor l zs" "tl (zs @ [tail_of l])"]
  by (cases zs) (auto simp: dll_def nodes_def)

lemma dll_list_prev: "dll h l (ys @ zs) \<Longrightarrow> list_prev h (cursor l zs) = Some (last (head_of l # ys))"
  using list_prev_nodes [of h "butlast (head_of l # ys)" "last (head_of l # ys)" "cursor l zs" "tl (zs @ [tail_of l])"]
    nodes_split [of l ys zs]
  by (simp add: dll_def)

lemma cursor_eq_tail: "dll h l (ys @ zs) \<Longrightarrow> cursor l zs = tail_of l \<longleftrightarrow> zs = []"
  using dll_D(7) [of h l "ys @ zs"] by (cases zs) auto

lemma dll_list_empty: "dll h l xs \<Longrightarrow> list_empty h l = Some (xs = [])"
  using cursor_eq_tail [of h l "[]" xs] by (simp add: list_empty_def dll_list_begin)

lemma dll_frame: "dll h l xs \<Longrightarrow> only_changes S h h' \<Longrightarrow> set (nodes l xs) \<inter> S = {} \<Longrightarrow> dll h' l xs"
  unfolding dll_def by (rule wf_nodes_frame)

lemma dll_insert:
  assumes "dll h l (ys @ zs)" "e \<in> dom h" "e \<noteq> NULL" "e \<notin> set (nodes l (ys @ zs))"
  shows "\<exists>h'. list_insert h (cursor l zs) e = Some h' \<and> dll h' l (ys @ e # zs) \<and>
    only_changes (insert e (set (nodes l (ys @ zs)))) h h'"
proof -
  let ?P = "butlast (head_of l # ys)" and ?p = "last (head_of l # ys)"
    and ?b = "cursor l zs" and ?Q = "tl (zs @ [tail_of l])"
  have wf: "wf_nodes h (?P @ ?p # ?b # ?Q)" using assms(1) nodes_split by (simp add: dll_def)
  have notin: "e \<notin> set (?P @ ?p # ?b # ?Q)" using assms(4) nodes_split by metis
  from list_insert_nodes [OF wf assms(2,3) notin] obtain h' where h':
    "list_insert h ?b e = Some h'" "wf_nodes h' (?P @ ?p # e # ?b # ?Q)" "only_changes {?p, ?b, e} h h'"
    by blast
  have "nodes l (ys @ e # zs) = ?P @ ?p # e # ?b # ?Q"
    by (cases ys rule: rev_cases; cases zs) (auto simp: nodes_def)
  moreover have "{?p, ?b, e} \<subseteq> insert e (set (nodes l (ys @ zs)))"
    by (cases zs; cases ys rule: rev_cases) auto
  ultimately have "dll h' l (ys @ e # zs)" "only_changes (insert e (set (nodes l (ys @ zs)))) h h'"
    using h'(2) only_changes_mono [OF h'(3)] by (simp_all add: dll_def)
  then show ?thesis using h'(1) by blast
qed

lemma dll_push_back:
  assumes "dll h l xs" "e \<in> dom h" "e \<noteq> NULL" "e \<notin> set (nodes l xs)"
  shows "\<exists>h'. list_push_back h l e = Some h' \<and> dll h' l (xs @ [e]) \<and>
    only_changes (insert e (set (nodes l xs))) h h'"
  using dll_insert [of h l xs "[]" e] assms by (simp add: list_push_back_def)

lemma dll_push_front:
  assumes "dll h l xs" "e \<in> dom h" "e \<noteq> NULL" "e \<notin> set (nodes l xs)"
  shows "\<exists>h'. list_push_front h l e = Some h' \<and> dll h' l (e # xs) \<and>
    only_changes (insert e (set (nodes l xs))) h h'"
  using dll_insert [of h l "[]" xs e] assms by (simp add: list_push_front_def dll_list_begin)

lemma dll_remove:
  assumes "dll h l (ys @ e # zs)"
  shows "\<exists>h'. list_remove h e = Some (cursor l zs, h') \<and> dll h' l (ys @ zs) \<and>
    only_changes (set (nodes l (ys @ zs))) h h'"
proof -
  let ?P = "butlast (head_of l # ys)" and ?p = "last (head_of l # ys)"
    and ?b = "cursor l zs" and ?Q = "tl (zs @ [tail_of l])"
  have "nodes l (ys @ e # zs) = ?P @ ?p # e # ?b # ?Q"
    by (cases ys rule: rev_cases; cases zs) (auto simp: nodes_def)
  then have wf: "wf_nodes h (?P @ ?p # e # ?b # ?Q)" using assms by (simp add: dll_def)
  from list_remove_nodes [OF wf] obtain h' where h':
    "list_remove h e = Some (?b, h')" "wf_nodes h' (?P @ ?p # ?b # ?Q)" "only_changes {?p, ?b} h h'"
    by blast
  moreover have "{?p, ?b} \<subseteq> set (nodes l (ys @ zs))"
    by (cases zs; cases ys rule: rev_cases) auto
  ultimately have "dll h' l (ys @ zs)" "only_changes (set (nodes l (ys @ zs))) h h'"
    using only_changes_mono [OF h'(3)] by (simp_all add: dll_def nodes_split)
  then show ?thesis using h'(1) by blast
qed

lemma dll_pop_front:
  assumes "dll h l (x # xs)"
  shows "\<exists>h'. list_pop_front h l = Some (x, h') \<and> dll h' l xs \<and> only_changes (set (nodes l xs)) h h'"
proof -
  have "list_front h l = Some x"
    using dll_list_begin [OF assms] assms
    by (simp add: list_front_def dll_list_empty [OF assms] list_begin_def split: if_splits)
  then show ?thesis using dll_remove [of h l "[]" x xs] assms by (auto simp: list_pop_front_def)
qed

lemma dll_pop_back:
  assumes "dll h l (xs @ [x])"
  shows "\<exists>h'. list_pop_back h l = Some (x, h') \<and> dll h' l xs \<and> only_changes (set (nodes l xs)) h h'"
proof -
  have "list_back h l = Some x"
    using dll_rbegin [OF assms] assms
    by (simp add: list_back_def dll_list_empty [OF assms] list_rbegin_def split: if_splits)
  then show ?thesis using dll_remove [of h l xs x "[]"] assms by (auto simp: list_pop_back_def)
qed

lemma dll_pop_empty:
  "dll h l [] \<Longrightarrow> list_pop_front h l = None" "dll h l [] \<Longrightarrow> list_pop_back h l = None"
  by (simp_all add: list_pop_front_def list_pop_back_def list_front_def list_back_def dll_list_empty)

lemma dll_init:
  assumes "l \<noteq> NULL" "l \<in> dom h" "l + 8 \<in> dom h"
  shows "\<exists>h'. list_init h l = Some h' \<and> dll h' l [] \<and> only_changes {l, l + 8} h h'"
proof -
  define h' where "h' = upd_next (upd_prev (upd_next (upd_prev h l NULL) l (l + 8)) (l + 8) l) (l + 8) NULL"
  have "list_init h l = Some h'" using assms by (simp add: list_init_def h'_def head_of_def tail_of_def)
  moreover have "dll h' l []"
    using assms by (simp add: dll_def wf_nodes_def nodes_def h'_def head_of_def tail_of_def)
  moreover have "only_changes {l, l + 8} h h'"
    unfolding h'_def by (intro only_changes_upd only_changes_refl) auto
  ultimately show ?thesis by blast
qed

subsection \<open>Traversals\<close>

lemma list_size_loop_dll:
  "dll h l (ys @ zs) \<Longrightarrow> cnt + length zs < 2 ^ 32 \<Longrightarrow>
   list_size_loop h l (cursor l zs) cnt = Some (cnt + length zs)"
proof (induction zs arbitrary: ys cnt)
  case Nil
  then show ?case by (subst list_size_loop.simps) simp
next
  case (Cons z zs)
  have "z \<noteq> tail_of l" using dll_D(7) [OF Cons.prems(1)] by auto
  moreover have "list_size_loop h l (cursor l zs) (Suc cnt) = Some (Suc cnt + length zs)"
    using Cons.IH [of "ys @ [z]" "Suc cnt"] Cons.prems by simp
  ultimately show ?case
    using Cons.prems dll_list_next [OF Cons.prems(1)] by (subst list_size_loop.simps) simp
qed

lemma dll_size: "dll h l xs \<Longrightarrow> length xs < 2 ^ 32 \<Longrightarrow> list_size h l = Some (length xs)"
  using list_size_loop_dll [of h l "[]" xs 0] by (simp add: list_size_def dll_list_begin)

fun sel_max :: "(addr \<Rightarrow> addr \<Rightarrow> bool) \<Rightarrow> addr \<Rightarrow> addr list \<Rightarrow> addr" where
  "sel_max lt m [] = m"
| "sel_max lt m (x # xs) = sel_max lt (if lt m x then x else m) xs"

lemma list_max_loop_dll:
  "dll h l (ys @ zs) \<Longrightarrow> list_max_loop lt h l m (cursor l zs) = Some (sel_max lt m zs)"
proof (induction zs arbitrary: ys m)
  case Nil
  then show ?case by (subst list_max_loop.simps) simp
next
  case (Cons z zs)
  have "z \<noteq> tail_of l" using dll_D(7) [OF Cons.prems(1)] by auto
  then show ?case
    using Cons.prems Cons.IH [of "ys @ [z]"] dll_list_next [OF Cons.prems(1)]
    by (subst list_max_loop.simps) simp
qed

lemma list_min_loop_dll:
  "dll h l (ys @ zs) \<Longrightarrow> list_min_loop lt h l m (cursor l zs) = Some (sel_max (\<lambda>a b. lt b a) m zs)"
proof (induction zs arbitrary: ys m)
  case Nil
  then show ?case by (subst list_min_loop.simps) simp
next
  case (Cons z zs)
  have "z \<noteq> tail_of l" using dll_D(7) [OF Cons.prems(1)] by auto
  then show ?case
    using Cons.prems Cons.IH [of "ys @ [z]"] dll_list_next [OF Cons.prems(1)]
    by (subst list_min_loop.simps) simp
qed

lemma dll_max: "dll h l (x # xs) \<Longrightarrow> list_max lt h l = Some (sel_max lt x xs)"
  using list_max_loop_dll [of h l "[x]" xs lt x] dll_list_next [of h l "[]" x xs] dll_D(7) [of h l "x # xs"]
  by (auto simp: list_max_def dll_list_begin)

lemma dll_min: "dll h l (x # xs) \<Longrightarrow> list_min lt h l = Some (sel_max (\<lambda>a b. lt b a) x xs)"
  using list_min_loop_dll [of h l "[x]" xs lt x] dll_list_next [of h l "[]" x xs] dll_D(7) [of h l "x # xs"]
  by (auto simp: list_min_def dll_list_begin)

lemma dll_max_empty: "dll h l [] \<Longrightarrow> list_max lt h l = Some (tail_of l)"
  and dll_min_empty: "dll h l [] \<Longrightarrow> list_min lt h l = Some (tail_of l)"
  by (simp_all add: list_max_def list_min_def dll_list_begin)

lemma insert_ordered_loop_dll:
  "dll h l (ys @ zs) \<Longrightarrow>
   insert_ordered_loop lt h l e (cursor l zs) = Some (cursor l (dropWhile (\<lambda>z. \<not> lt e z) zs))"
proof (induction zs arbitrary: ys)
  case Nil
  then show ?case by (subst insert_ordered_loop.simps) simp
next
  case (Cons z zs)
  have "z \<noteq> tail_of l" using dll_D(7) [OF Cons.prems(1)] by auto
  then show ?case
    using Cons.prems Cons.IH [of "ys @ [z]"] dll_list_next [OF Cons.prems(1)]
    by (subst insert_ordered_loop.simps) simp
qed

lemma dll_insert_ordered:
  assumes "dll h l xs" "e \<in> dom h" "e \<noteq> NULL" "e \<notin> set (nodes l xs)"
  shows "\<exists>h'. list_insert_ordered lt h l e = Some h' \<and>
    dll h' l (takeWhile (\<lambda>z. \<not> lt e z) xs @ e # dropWhile (\<lambda>z. \<not> lt e z) xs) \<and>
    only_changes (insert e (set (nodes l xs))) h h'"
proof -
  let ?p = "\<lambda>z. \<not> lt e z"
  have "dll h l (takeWhile ?p xs @ dropWhile ?p xs)" using assms(1) by simp
  from dll_insert [OF this assms(2,3)] assms(4) obtain h' where
    "list_insert h (cursor l (dropWhile ?p xs)) e = Some h'"
    "dll h' l (takeWhile ?p xs @ e # dropWhile ?p xs)" "only_changes (insert e (set (nodes l xs))) h h'"
    by auto
  then show ?thesis
    using insert_ordered_loop_dll [of h l "[]" xs lt e] assms dll_D(1) [OF assms(1)]
    by (simp add: list_insert_ordered_def dll_list_begin)
qed

subsection \<open>Reversal\<close>

definition swapped :: "addr set \<Rightarrow> store \<Rightarrow> store" where
  "swapped S h = (\<lambda>q. if q \<in> S then map_option (\<lambda>n. n\<lparr>prev_ptr := next_ptr n, next_ptr := prev_ptr n\<rparr>) (h q)
     else h q)"

lemma get_swapped:
  "q \<in> S \<Longrightarrow> get_next (swapped S h) q = get_prev h q"
  "q \<in> S \<Longrightarrow> get_prev (swapped S h) q = get_next h q"
  "q \<notin> S \<Longrightarrow> get_next (swapped S h) q = get_next h q"
  "q \<notin> S \<Longrightarrow> get_prev (swapped S h) q = get_prev h q"
  by (auto simp: swapped_def get_next_def get_prev_def option.map_comp comp_def)

lemma dom_swapped [simp]: "dom (swapped S h) = dom h"
  by (auto simp: swapped_def split: if_splits)

lemma list_reverse_loop_linked:
  "linked h (zs @ [tail_of l]) \<Longrightarrow> distinct (zs @ [tail_of l]) \<Longrightarrow> l \<noteq> NULL \<Longrightarrow>
   list_reverse_loop h l (cursor l zs) = Some (swapped (set zs) h)"
proof (induction zs arbitrary: h)
  case Nil
  then show ?case by (subst list_reverse_loop.simps) (simp add: list_end_def swapped_def)
next
  case (Cons z zs)
  have nx: "get_next h z = Some (cursor l zs)" and lk: "linked h (zs @ [tail_of l])"
    using Cons.prems(1) by (cases zs; simp)+
  have sw: "swap_links h z = Some (swapped {z} h)"
    using nx by (auto simp: swap_links_def swapped_def get_next_def fun_eq_iff)
  have "linked (swapped {z} h) (zs @ [tail_of l])"
  proof -
    have "a \<notin> {z}" if "a \<in> set (zs @ [tail_of l])" for a using that Cons.prems(2) by auto
    then show ?thesis
      using lk by (subst linked_cong [of _ _ h])
        (auto simp: get_swapped(3,4) dest!: in_set_butlastD in_set_tlD)
  qed
  then have "list_reverse_loop (swapped {z} h) l (cursor l zs) = Some (swapped (set zs) (swapped {z} h))"
    using Cons by simp
  moreover have "swapped (set zs) (swapped {z} h) = swapped (set (z # zs)) h"
    using Cons.prems(2) by (auto simp: swapped_def fun_eq_iff)
  ultimately show ?case
    using Cons.prems nx sw by (subst list_reverse_loop.simps) (simp add: list_end_def get_swapped)
qed

lemma linked_rev:
  "linked h ns \<Longrightarrow> (\<And>a. a \<in> set ns \<Longrightarrow> get_next h' a = get_prev h a \<and> get_prev h' a = get_next h a) \<Longrightarrow>
   linked h' (rev ns)"
proof (induction h ns rule: linked.induct)
  case (1 h a b ns)
  then have "linked h' (rev ns @ [b])" by simp
  then show ?case using 1 by (simp add: linked_append [of h' "rev ns" b "[a]"])
qed auto

lemma nodes_eq: "nodes l xs = [head_of l] @ xs @ [tail_of l]"
  by (simp add: nodes_def)

lemma linked_nodes:
  "xs \<noteq> [] \<Longrightarrow> linked h (nodes l xs) \<longleftrightarrow> linked h xs \<and> get_next h (head_of l) = Some (hd xs) \<and>
   get_prev h (hd xs) = Some (head_of l) \<and> get_next h (last xs) = Some (tail_of l) \<and>
   get_prev h (tail_of l) = Some (last xs)"
  unfolding nodes_eq by (subst linked_join, simp, simp)+ auto

lemma dll_reverse:
  assumes "dll h l xs"
  shows "\<exists>h'. list_reverse h l = Some h' \<and> dll h' l (rev xs) \<and> only_changes (set (nodes l xs)) h h'"
proof (cases "xs = []")
  case True
  then show ?thesis using assms by (simp add: list_reverse_def dll_list_empty)
next
  case ne: False
  let ?x = "hd xs" and ?y = "last xs" and ?h = "swapped (set xs) h"
  note D = dll_D [OF assms]
  have wf: "wf_nodes h (nodes l xs)" using assms by (simp add: dll_def)
  have lk: "linked h xs" "get_next h (head_of l) = Some ?x" "get_prev h ?x = Some (head_of l)"
    "get_next h ?y = Some (tail_of l)" "get_prev h (tail_of l) = Some ?y" "linked h (xs @ [tail_of l])"
    "get_prev h (head_of l) = Some NULL" "get_next h (tail_of l) = Some NULL"
    using wf ne by (simp_all add: wf_nodes_def linked_nodes linked_join)
  have mem: "?x \<in> set xs" "?y \<in> set xs" using ne by auto
  have loop: "list_reverse_loop h l ?x = Some ?h"
    using list_reverse_loop_linked [OF lk(6)] D ne by simp
  define h' where "h' = upd_next (upd_prev (upd_prev (upd_next ?h (head_of l) ?y) (tail_of l) ?x) ?y (head_of l)) ?x (tail_of l)"
  have dm: "head_of l \<in> dom h" "tail_of l \<in> dom h" "?x \<in> dom h" "?y \<in> dom h" using D mem by auto
  have neq: "?x \<noteq> head_of l" "?x \<noteq> tail_of l" "?y \<noteq> head_of l" "?y \<noteq> tail_of l" "head_of l \<noteq> tail_of l"
    using D mem by auto
  have run: "list_reverse h l = Some h'"
    using ne dm neq lk loop D mem
    by (simp add: list_reverse_def dll_list_empty [OF assms] dll_list_begin [OF assms] dll_list_end [OF assms]
        get_swapped h'_def)
  have "linked ?h (rev xs)" by (rule linked_rev [OF lk(1)]) (auto simp: get_swapped)
  moreover have "?x \<notin> set (butlast (rev xs))" "?y \<notin> set (tl (rev xs))"
    using D(4) ne last_notin_butlast [of "rev xs"] hd_notin_tl [of "rev xs"] by (auto simp: hd_rev last_rev)
  ultimately have "linked h' (rev xs)"
    using D(6,7) unfolding h'_def
    by (subst linked_upd_next, simp)(subst linked_upd_prev, simp, subst linked_upd, simp, subst linked_upd, simp)
  then have "linked h' (nodes l (rev xs))"
  proof -
    have "get_next h' (head_of l) = Some ?y" "get_prev h' ?y = Some (head_of l)"
      "get_next h' ?x = Some (tail_of l)" "get_prev h' (tail_of l) = Some ?x"
      using dm neq by (auto simp: h'_def)
    then show ?thesis
      using \<open>linked h' (rev xs)\<close> ne by (simp add: linked_nodes hd_rev last_rev)
  qed
  moreover have "get_prev h' (head_of l) = Some NULL" "get_next h' (tail_of l) = Some NULL"
    using dm neq lk(7,8) D(6,7) by (simp_all add: h'_def get_swapped)
  moreover have "distinct (nodes l (rev xs))" "NULL \<notin> set (nodes l (rev xs))"
    using D by (auto simp: nodes_def)
  ultimately have "dll h' l (rev xs)" by (simp add: dll_def wf_nodes_def nodes_def)
  moreover have "only_changes (set (nodes l xs)) h ?h"
    unfolding only_changes_def dom_swapped by (simp add: swapped_def)
  then have "only_changes (set (nodes l xs)) h h'"
    unfolding h'_def using mem by (intro only_changes_upd) auto
  ultimately show ?thesis using run by blast
qed

end
