(* ===== verification/Klist_Sort.thy ===== *)
theory Klist_Sort
  imports Klist
begin

text \<open>
  Sorting of the kernel lists: the natural merge sort of \<open>list_sort\<close> on abstract lists
  (\<open>take_run\<close>, \<open>amerge\<close>, \<open>apass\<close>), that it sorts, is stable and makes progress, and that the pointer
  code implements it; then \<open>list_unique\<close> on two disjoint lists.
\<close>

subsection \<open>Sorting\<close>

text \<open>The algorithm of list_sort() on abstract lists.\<close>

fun take_run :: "(addr \<Rightarrow> addr \<Rightarrow> bool) \<Rightarrow> addr \<Rightarrow> addr list \<Rightarrow> addr list \<times> addr list" where
  "take_run lt a [] = ([], [])"
| "take_run lt a (z # zs) = (if lt z a then ([], z # zs) else
     (case take_run lt z zs of (r, s) \<Rightarrow> (z # r, s)))"

fun sorted_adj :: "(addr \<Rightarrow> addr \<Rightarrow> bool) \<Rightarrow> addr list \<Rightarrow> bool" where
  "sorted_adj lt (a # b # xs) \<longleftrightarrow> \<not> lt b a \<and> sorted_adj lt (b # xs)"
| "sorted_adj lt [a] \<longleftrightarrow> True"
| "sorted_adj lt [] \<longleftrightarrow> True"

fun amerge :: "(addr \<Rightarrow> addr \<Rightarrow> bool) \<Rightarrow> addr list \<Rightarrow> addr list \<Rightarrow> addr list" where
  "amerge lt [] bs = bs"
| "amerge lt as [] = as"
| "amerge lt (a # as) (b # bs) =
     (if \<not> lt b a then a # amerge lt as (b # bs) else b # amerge lt (a # as) bs)"

lemma take_run_append: "take_run lt a zs = (r, s) \<Longrightarrow> zs = r @ s"
  by (induction lt a zs arbitrary: r s rule: take_run.induct) (auto split: if_splits prod.splits)

lemma take_run_length: "take_run lt a zs = (r, s) \<Longrightarrow> length s \<le> length zs"
  by (drule take_run_append) simp

function apass :: "(addr \<Rightarrow> addr \<Rightarrow> bool) \<Rightarrow> addr list \<Rightarrow> nat \<times> addr list" where
  "apass lt [] = (0, [])"
| "apass lt (a # zs) = (case take_run lt a zs of
       (r, []) \<Rightarrow> (1, a # r)
     | (r, b # s) \<Rightarrow> (case take_run lt b s of (r2, s2) \<Rightarrow>
         (case apass lt s2 of (n, t) \<Rightarrow> (Suc n, amerge lt (a # r) (b # r2) @ t))))"
  by pat_completeness auto
termination
  by (relation "measure (\<lambda>(lt, zs). length zs)") (auto dest!: take_run_length [OF sym])

definition strict_weak :: "(addr \<Rightarrow> addr \<Rightarrow> bool) \<Rightarrow> bool" where
  "strict_weak lt \<longleftrightarrow> (\<forall>a b. lt a b \<longrightarrow> \<not> lt b a) \<and> (\<forall>a b c. \<not> lt a b \<longrightarrow> \<not> lt b c \<longrightarrow> \<not> lt a c)"

definition equiv_by :: "(addr \<Rightarrow> addr \<Rightarrow> bool) \<Rightarrow> addr \<Rightarrow> addr \<Rightarrow> bool" where
  "equiv_by lt a b \<longleftrightarrow> \<not> lt a b \<and> \<not> lt b a"

fun nruns :: "(addr \<Rightarrow> addr \<Rightarrow> bool) \<Rightarrow> addr list \<Rightarrow> nat" where
  "nruns lt (a # b # xs) = (if lt b a then 1 else 0) + nruns lt (b # xs)"
| "nruns lt [a] = 1"
| "nruns lt [] = 0"

lemma take_run_sorted: "take_run lt a zs = (r, s) \<Longrightarrow> sorted_adj lt (a # r)"
  by (induction lt a zs arbitrary: r s rule: take_run.induct) (auto split: if_splits prod.splits)

lemma take_run_break: "take_run lt a zs = (r, b # s) \<Longrightarrow> lt b (last (a # r))"
  by (induction lt a zs arbitrary: r s rule: take_run.induct) (auto split: if_splits prod.splits)

lemma nruns_join:
  "xs \<noteq> [] \<Longrightarrow> ys \<noteq> [] \<Longrightarrow>
   nruns lt xs + nruns lt ys = nruns lt (xs @ ys) + (if lt (hd ys) (last xs) then 0 else 1)"
proof (induction lt xs rule: nruns.induct)
  case (2 lt a)
  then show ?case by (cases ys) auto
qed auto

lemma nruns_append_le: "nruns lt (xs @ ys) \<le> nruns lt xs + nruns lt ys"
  using nruns_join [of xs ys lt] by (cases "xs = []"; cases "ys = []") (auto split: if_splits)

lemma nruns_sorted: "xs \<noteq> [] \<Longrightarrow> nruns lt xs = 1 \<longleftrightarrow> sorted_adj lt xs"
proof (induction lt xs rule: nruns.induct)
  case (1 lt a b xs)
  have "0 < nruns lt (b # xs)" for b xs by (induction xs arbitrary: b) auto
  then show ?case using 1 by auto
qed auto

lemma nruns_pos: "xs \<noteq> [] \<Longrightarrow> 0 < nruns lt xs"
  by (induction lt xs rule: nruns.induct) auto

lemma strict_weakD:
  assumes "strict_weak lt"
  shows "\<not> lt a a" "lt a b \<Longrightarrow> \<not> lt b a" "\<not> lt a b \<Longrightarrow> \<not> lt b c \<Longrightarrow> \<not> lt a c"
    "lt a b \<Longrightarrow> \<not> lt c b \<Longrightarrow> lt a c"
  using assms unfolding strict_weak_def by blast+

lemma sorted_adj_wrt:
  assumes "strict_weak lt"
  shows "sorted_adj lt xs \<longleftrightarrow> sorted_wrt (\<lambda>x y. \<not> lt y x) xs"
proof (induction xs rule: induct_list012)
  case (3 x y zs)
  have "(\<forall>z\<in>set zs. \<not> lt z x)" if "\<not> lt y x" "\<forall>z\<in>set zs. \<not> lt z y"
    using that strict_weakD(3) [OF assms] by blast
  then show ?case using 3(2) by auto
qed auto

lemma set_amerge [simp]: "set (amerge lt as bs) = set as \<union> set bs"
  by (induction lt as bs rule: amerge.induct) auto

lemma mset_amerge [simp]: "mset (amerge lt as bs) = mset as + mset bs"
  by (induction lt as bs rule: amerge.induct) auto

lemma amerge_eq_Nil [simp]: "amerge lt as bs = [] \<longleftrightarrow> as = [] \<and> bs = []"
  by (cases "(lt, as, bs)" rule: amerge.cases) auto

lemma amerge_sorted:
  "strict_weak lt \<Longrightarrow> sorted_wrt (\<lambda>x y. \<not> lt y x) as \<Longrightarrow> sorted_wrt (\<lambda>x y. \<not> lt y x) bs \<Longrightarrow>
   sorted_wrt (\<lambda>x y. \<not> lt y x) (amerge lt as bs)"
proof (induction lt as bs rule: amerge.induct)
  case (3 lt a as b bs)
  note sw = strict_weakD [OF "3.prems"(1)]
  show ?case
  proof (cases "lt b a")
    case True
    have "\<forall>y \<in> set (a # as). \<not> lt y a" using "3.prems"(2) sw(1) by simp
    then have "\<forall>y \<in> set (a # as). \<not> lt y b" using True sw(2,4) by blast
    then show ?thesis using True "3.IH"(2) "3.prems" by auto
  next
    case False
    have "\<forall>y \<in> set bs. \<not> lt y b" using "3.prems"(3) by simp
    then have "\<forall>y \<in> set (b # bs). \<not> lt y a" using False sw(3) by auto
    then show ?thesis using False "3.IH"(1) "3.prems" by auto
  qed
qed auto

lemma amerge_stable:
  "strict_weak lt \<Longrightarrow> sorted_wrt (\<lambda>x y. \<not> lt y x) as \<Longrightarrow>
   filter (equiv_by lt x) (amerge lt as bs) = filter (equiv_by lt x) as @ filter (equiv_by lt x) bs"
proof (induction lt as bs rule: amerge.induct)
  case (3 lt a as b bs)
  note sw = strict_weakD [OF "3.prems"(1)]
  show ?case
  proof (cases "lt b a")
    case True
    have "filter (equiv_by lt x) (a # as) = []" if "equiv_by lt x b"
    proof -
      have "\<forall>y \<in> set (a # as). \<not> lt y a" using "3.prems"(2) sw(1) by simp
      then have "lt b y" if "y \<in> set (a # as)" for y
        using that True sw(4) by blast
      then have "\<not> equiv_by lt x y" if "y \<in> set (a # as)" for y
        using that \<open>equiv_by lt x b\<close> sw(3) [of b x y] unfolding equiv_by_def by blast
      then show ?thesis by (metis filter_False)
    qed
    then show ?thesis using True "3.IH"(2) "3.prems" by auto
  next
    case False
    then show ?thesis using "3.IH"(1) "3.prems" by auto
  qed
qed auto

subsubsection \<open>One pass\<close>

lemma apass_mset: "mset (snd (apass lt zs)) = mset zs"
proof (induction lt zs rule: apass.induct)
  case (2 lt a zs)
  obtain r s where rs: "take_run lt a zs = (r, s)" by fastforce
  show ?case
  proof (cases s)
    case Nil
    then show ?thesis using rs take_run_append [OF rs] by simp
  next
    case (Cons b s')
    obtain r2 s2 where r2: "take_run lt b s' = (r2, s2)" by fastforce
    have "mset (snd (apass lt s2)) = mset s2" using 2 [OF rs [symmetric] Cons r2 [symmetric]] by simp
    then show ?thesis
      using rs Cons r2 take_run_append [OF rs] take_run_append [OF r2] by (auto split: prod.splits)
  qed
qed simp

lemma apass_props:
  assumes "strict_weak lt"
  shows "fst (apass lt zs) = (nruns lt zs + 1) div 2 \<and> nruns lt (snd (apass lt zs)) \<le> fst (apass lt zs)
    \<and> filter (equiv_by lt x) (snd (apass lt zs)) = filter (equiv_by lt x) zs"
  using assms
proof (induction lt zs rule: apass.induct)
  case (2 lt a zs)
  obtain r s where rs: "take_run lt a zs = (r, s)" by fastforce
  have s1: "sorted_adj lt (a # r)" using take_run_sorted [OF rs] .
  show ?case
  proof (cases s)
    case Nil
    then show ?thesis using rs take_run_append [OF rs] s1 nruns_sorted [of "a # r" lt] by simp
  next
    case (Cons b s')
    obtain r2 s2 where r2: "take_run lt b s' = (r2, s2)" by fastforce
    obtain n t where nt: "apass lt s2 = (n, t)" by fastforce
    have IH: "n = (nruns lt s2 + 1) div 2" "nruns lt t \<le> n" "filter (equiv_by lt x) t = filter (equiv_by lt x) s2"
      using 2(1) [OF rs [symmetric] Cons r2 [symmetric] "2.prems"] nt by auto
    have s2: "sorted_adj lt (b # r2)" using take_run_sorted [OF r2] .
    let ?m = "amerge lt (a # r) (b # r2)"
    have zs: "a # zs = (a # r) @ (b # r2) @ s2"
      using take_run_append [OF rs] take_run_append [OF r2] Cons by simp
    have n1: "nruns lt (a # r) = 1" "nruns lt (b # r2) = 1" using s1 s2 nruns_sorted by blast+
    have "nruns lt ((b # r2) @ s2) = 1 + nruns lt s2"
    proof (cases s2)
      case (Cons c s3)
      then have "lt c (last (b # r2))" using take_run_break r2 by blast
      then show ?thesis using nruns_join [of "b # r2" s2 lt] n1 Cons by simp
    qed (use n1 in simp)
    moreover have "lt b (last (a # r))" using take_run_break rs Cons by blast
    ultimately have cnt: "nruns lt (a # zs) = 2 + nruns lt s2"
      unfolding zs using nruns_join [of "a # r" "(b # r2) @ s2" lt] n1 by simp
    have srt: "sorted_wrt (\<lambda>x y. \<not> lt y x) (a # r)" "sorted_wrt (\<lambda>x y. \<not> lt y x) (b # r2)"
      using s1 s2 sorted_adj_wrt [OF "2.prems"] by auto
    have "nruns lt ?m = 1"
      using amerge_sorted [OF "2.prems" srt] sorted_adj_wrt [OF "2.prems"] nruns_sorted [of ?m lt] by auto
    then have "nruns lt (?m @ t) \<le> Suc n" using nruns_append_le [of lt ?m t] IH(2) by simp
    moreover have "filter (equiv_by lt x) (?m @ t) = filter (equiv_by lt x) (a # zs)"
      unfolding zs filter_append amerge_stable [OF "2.prems" srt(1), of x "b # r2"] IH(3) by (rule append_assoc)
    moreover have "apass lt (a # zs) = (Suc n, ?m @ t)" using rs r2 nt Cons by simp
    moreover have "Suc n = (nruns lt (a # zs) + 1) div 2" using cnt IH(1) by simp
    ultimately show ?thesis by simp
  qed
qed simp

subsubsection \<open>The pointer code implements the algorithm\<close>

lemma cursor_mem: "dll h l (ys @ zs @ ws) \<Longrightarrow> z \<in> set zs \<Longrightarrow> z \<noteq> cursor l ws"
  using dll_D(4,7) [of h l "ys @ zs @ ws"] by (cases ws) auto

lemma dll_prev_elem: "dll h l (ys @ a # b # zs) \<Longrightarrow> list_prev h b = Some a"
  using dll_list_prev [of h l "ys @ [a]" "b # zs"] by simp

lemma find_end_of_run_loop_dll:
  "dll h l (ys @ a # zs) \<Longrightarrow> find_end_of_run_loop lt h a (tail_of l) = Some (cursor l (snd (take_run lt a zs)))"
proof (induction zs arbitrary: ys a)
  case Nil
  then show ?case using dll_list_next [of h l ys a "[]"] by (subst find_end_of_run_loop.simps) simp
next
  case (Cons z zs)
  have nx: "list_next h a = Some z" using dll_list_next [OF Cons.prems] by simp
  have pv: "list_prev h z = Some a" by (rule dll_prev_elem [OF Cons.prems])
  have "z \<noteq> tail_of l" using dll_D(7) [OF Cons.prems] by auto
  moreover have "find_end_of_run_loop lt h z (tail_of l) = Some (cursor l (snd (take_run lt z zs)))"
    using Cons.IH [of "ys @ [a]" z] Cons.prems by simp
  ultimately show ?case
    using nx pv by (subst find_end_of_run_loop.simps) (auto split: prod.splits)
qed

lemma find_end_of_run_dll:
  assumes "dll h l (ys @ a # zs)" "take_run lt a zs = (r, s)"
  shows "find_end_of_run lt h a (tail_of l) = Some (cursor l s)"
  using find_end_of_run_loop_dll [OF assms(1), of lt] assms(2) dll_D [OF assms(1)]
  by (auto simp: find_end_of_run_def)

lemma is_sorted_loop_dll:
  "dll h l (ys @ (a # rs) @ zs) \<Longrightarrow>
   is_sorted_loop lt h a (cursor l zs) = Some (sorted_adj lt (a # rs))"
proof (induction rs arbitrary: ys a)
  case Nil
  then show ?case using dll_list_next [of h l ys a zs] by (subst is_sorted_loop.simps) simp
next
  case (Cons r rs)
  have d: "dll h l (ys @ a # r # rs @ zs)" using Cons.prems by simp
  have nx: "list_next h a = Some r" using dll_list_next [OF d] by simp
  have pv: "list_prev h r = Some a" by (rule dll_prev_elem [OF d])
  have "r \<noteq> cursor l zs" using cursor_mem [OF Cons.prems, of r] by simp
  moreover have "is_sorted_loop lt h r (cursor l zs) = Some (sorted_adj lt (r # rs))"
    using Cons.IH [of "ys @ [a]" r] Cons.prems by simp
  ultimately show ?case using nx pv by (subst is_sorted_loop.simps) auto
qed

lemma is_sorted_dll:
  "dll h l (ys @ rs @ zs) \<Longrightarrow> is_sorted lt h (cursor l (rs @ zs)) (cursor l zs) = Some (sorted_adj lt rs)"
proof (cases rs)
  case (Cons a rs')
  assume d: "dll h l (ys @ rs @ zs)"
  then have "a \<noteq> cursor l zs" using cursor_mem [OF d, of a] Cons by simp
  then show ?thesis using is_sorted_loop_dll [of h l ys a rs' zs lt] d Cons by (simp add: is_sorted_def)
qed (simp add: is_sorted_def)

lemma dll_splice:
  assumes "dll h l (P @ A @ F @ Q)" "A \<noteq> []" "F \<noteq> []"
  shows "\<exists>h'. list_splice h (hd A) (hd F) (cursor l Q) = Some h' \<and> dll h' l (P @ F @ A @ Q) \<and>
    only_changes (set (nodes l (P @ A @ F @ Q))) h h'"
proof -
  have n: "nodes l (P @ X @ Y @ Q) = (head_of l # P) @ X @ Y @ (Q @ [tail_of l])" for X Y
    by (simp add: nodes_def)
  have "wf_nodes h ((head_of l # P) @ A @ F @ (Q @ [tail_of l]))"
    using assms(1) unfolding dll_def n .
  from list_splice_nodes [OF this] assms(2,3) show ?thesis unfolding dll_def n by simp
qed

lemma inplace_merge_loop_dll:
  "dll h l (P @ A @ B @ Q) \<Longrightarrow>
   \<exists>h'. inplace_merge_loop lt h (cursor l (A @ B @ Q)) (cursor l (B @ Q)) (cursor l Q) = Some h' \<and>
     dll h' l (P @ amerge lt A B @ Q) \<and> only_changes (set (nodes l (P @ A @ B @ Q))) h h'"
proof (induction lt A B arbitrary: h P rule: amerge.induct)
  case (1 lt B)
  then show ?case by (subst inplace_merge_loop.simps) auto
next
  case (2 lt a A)
  then show ?case by (subst inplace_merge_loop.simps) auto
next
  case (3 lt a A b B)
  let ?N = "set (nodes l (P @ (a # A) @ (b # B) @ Q))"
  have d: "dll h l (P @ (a # A) @ (b # B) @ Q)" using "3.prems" .
  have neq: "a \<noteq> b" "b \<noteq> cursor l Q"
    using dll_D(4) [OF d] cursor_mem [of h l "P @ a # A" "b # B" Q b] d by auto
  show ?case
  proof (cases "lt b a")
    case False
    have nx: "list_next h a = Some (cursor l (A @ (b # B) @ Q))"
      using dll_list_next [of h l P a "A @ (b # B) @ Q"] d by simp
    have "dll h l ((P @ [a]) @ A @ (b # B) @ Q)" using d by simp
    from "3.IH"(1) [OF False this] obtain h' where
      "inplace_merge_loop lt h (cursor l (A @ (b # B) @ Q)) b (cursor l Q) = Some h'"
      "dll h' l ((P @ [a]) @ amerge lt A (b # B) @ Q)" "only_changes ?N h h'" by auto
    then show ?thesis using neq False nx by (subst inplace_merge_loop.simps) simp
  next
    case True
    have nx: "list_next h b = Some (cursor l (B @ Q))"
      using dll_list_next [of h l "P @ a # A" b "B @ Q"] d by simp
    have pv: "list_prev h (cursor l (B @ Q)) = Some b"
      using dll_list_prev [of h l "P @ a # A @ [b]" "B @ Q"] d by simp
    have "dll h l (P @ (a # A) @ [b] @ (B @ Q))" using d by simp
    from dll_splice [OF this] obtain h1 where h1:
      "list_splice h a b (cursor l (B @ Q)) = Some h1" "dll h1 l (P @ [b] @ (a # A) @ B @ Q)"
      "only_changes ?N h h1" by auto
    have "dll h1 l ((P @ [b]) @ (a # A) @ B @ Q)" using h1(2) by simp
    from "3.IH"(2) [of h1 "P @ [b]"] this True obtain h' where h':
      "inplace_merge_loop lt h1 a (cursor l (B @ Q)) (cursor l Q) = Some h'"
      "dll h' l ((P @ [b]) @ amerge lt (a # A) B @ Q)"
      "only_changes (set (nodes l ((P @ [b]) @ (a # A) @ B @ Q))) h1 h'" by auto
    have "set (nodes l ((P @ [b]) @ (a # A) @ B @ Q)) = ?N" by auto
    then have "only_changes ?N h h'" using only_changes_trans [OF h1(3), of ?N h'] h'(3) by simp
    then show ?thesis
      using neq True nx pv h1(1) h'(1,2) by (subst inplace_merge_loop.simps) simp
  qed
qed

lemma inplace_merge_dll:
  assumes "dll h l (P @ A @ B @ Q)" "A \<noteq> []" "B \<noteq> []" "sorted_adj lt A" "sorted_adj lt B"
  shows "\<exists>h'. inplace_merge lt h (hd A) (hd B) (cursor l Q) = Some h' \<and>
     dll h' l (P @ amerge lt A B @ Q) \<and> only_changes (set (nodes l (P @ A @ B @ Q))) h h'"
proof -
  have "is_sorted lt h (hd A) (hd B) = Some True"
    using is_sorted_dll [of h l P A "B @ Q" lt] assms by simp
  moreover have "is_sorted lt h (hd B) (cursor l Q) = Some True"
    using is_sorted_dll [of h l "P @ A" B Q lt] assms by simp
  moreover have "hd A \<noteq> NULL" "hd B \<noteq> NULL" "cursor l Q \<noteq> NULL"
    using dll_D(3,5) [OF assms(1)] assms(2,3) by (cases A; cases B; cases Q; auto)+
  ultimately show ?thesis
    using inplace_merge_loop_dll [OF assms(1), of lt] assms(2,3) by (simp add: inplace_merge_def)
qed

lemma list_sort_pass_dll:
  "dll h l (P @ S) \<Longrightarrow> cnt + length S < 2 ^ 32 \<Longrightarrow>
   \<exists>h'. list_sort_pass lt h l (cursor l S) cnt = Some (cnt + fst (apass lt S), h') \<and>
     dll h' l (P @ snd (apass lt S)) \<and> only_changes (set (nodes l (P @ S))) h h'"
proof (induction lt S arbitrary: h P cnt rule: apass.induct)
  case (1 lt)
  then show ?case by (subst list_sort_pass.simps) simp
next
  case (2 lt a zs)
  note d = "2.prems"(1)
  have at: "a \<noteq> tail_of l" using dll_D(7) [OF d] by auto
  obtain r s where rs: "take_run lt a zs = (r, s)" by fastforce
  have f1: "find_end_of_run lt h a (tail_of l) = Some (cursor l s)" by (rule find_end_of_run_dll [OF d rs])
  show ?case
  proof (cases s)
    case Nil
    then show ?thesis
      using d rs f1 at take_run_append [OF rs] "2.prems"(2) by (subst list_sort_pass.simps) simp
  next
    case (Cons b s')
    obtain r2 s2 where r2: "take_run lt b s' = (r2, s2)" by fastforce
    let ?m = "amerge lt (a # r) (b # r2)"
    have split: "P @ a # zs = P @ (a # r) @ (b # r2) @ s2"
      using take_run_append [OF rs] take_run_append [OF r2] Cons by simp
    have d2: "dll h l (P @ (a # r) @ (b # r2) @ s2)" using d unfolding split .
    have bt: "b \<noteq> tail_of l" using dll_D(7) [OF d2] by auto
    have f2: "find_end_of_run lt h b (tail_of l) = Some (cursor l s2)"
      using find_end_of_run_dll [of h l "P @ a # r" b s' lt r2 s2] d2 r2 take_run_append [OF r2] by simp
    from inplace_merge_dll [OF d2 _ _ take_run_sorted [OF rs] take_run_sorted [OF r2]] obtain h1 where h1:
      "inplace_merge lt h a b (cursor l s2) = Some h1" "dll h1 l ((P @ ?m) @ s2)"
      "only_changes (set (nodes l (P @ a # zs))) h h1" unfolding split by auto
    have "Suc cnt + length s2 < 2 ^ 32" using "2.prems"(2) arg_cong [OF split, of length] by simp
    from 2(1) [OF rs [symmetric] Cons r2 [symmetric] h1(2) this] obtain h' where h':
      "list_sort_pass lt h1 l (cursor l s2) (Suc cnt) = Some (Suc cnt + fst (apass lt s2), h')"
      "dll h' l ((P @ ?m) @ snd (apass lt s2))" "only_changes (set (nodes l ((P @ ?m) @ s2))) h1 h'" by blast
    have "set (nodes l ((P @ ?m) @ s2)) = set (nodes l (P @ a # zs))" unfolding split by auto
    then have oc: "only_changes (set (nodes l (P @ a # zs))) h h'"
      using only_changes_trans [OF h1(3) h'(3)] by simp
    have ap: "apass lt (a # zs) = (Suc (fst (apass lt s2)), ?m @ snd (apass lt s2))"
      using rs Cons r2 by (simp split: prod.splits)
    have u: "u32 (cnt + 1) = Suc cnt" using "2.prems"(2) by simp
    show ?thesis unfolding ap
      using d at bt f1 f2 h1(1) h'(1,2) Cons oc u by (subst list_sort_pass.simps) simp
  qed
qed

lemma list_sort_loop_dll:
  assumes "strict_weak lt"
  shows "dll h l xs \<Longrightarrow> length xs < 2 ^ 32 \<Longrightarrow>
   \<exists>h' ys. list_sort_loop lt h l = Some h' \<and> dll h' l ys \<and> mset ys = mset xs \<and> sorted_adj lt ys \<and>
     (\<forall>x. filter (equiv_by lt x) ys = filter (equiv_by lt x) xs) \<and> only_changes (set (nodes l xs)) h h'"
proof (induction "nruns lt xs" arbitrary: h xs rule: less_induct)
  case less
  let ?n = "fst (apass lt xs)" and ?ys = "snd (apass lt xs)"
  note ap = apass_props [OF assms, of xs]
  have ms: "mset ?ys = mset xs" by (rule apass_mset)
  then have len: "length ?ys = length xs" and st: "set ?ys = set xs" by (metis size_mset, metis set_mset_mset)
  obtain h1 where h1: "list_sort_pass lt h l (cursor l xs) 0 = Some (?n, h1)" "dll h1 l ?ys"
    "only_changes (set (nodes l xs)) h h1"
    using list_sort_pass_dll [of h l "[]" xs 0 lt] less.prems by auto
  show ?case
  proof (cases "?n > 1")
    case True
    moreover have "?n = Suc (nruns lt xs) div 2" "nruns lt ?ys \<le> ?n" using ap [of undefined] by simp_all
    ultimately have "nruns lt ?ys < nruns lt xs" by linarith
    from less.hyps [OF this h1(2)] less.prems(2) len obtain h' ys where h':
      "list_sort_loop lt h1 l = Some h'" "dll h' l ys" "mset ys = mset ?ys" "sorted_adj lt ys"
      "\<forall>x. filter (equiv_by lt x) ys = filter (equiv_by lt x) ?ys" "only_changes (set (nodes l ?ys)) h1 h'" by auto
    have "only_changes (set (nodes l xs)) h h'"
      using only_changes_trans [OF h1(3), of "set (nodes l ?ys)" h'] h'(6) st by simp
    then show ?thesis
      using True h1(1) h' ms ap less.prems by (subst list_sort_loop.simps) (auto simp: dll_list_begin)
  next
    case False
    have "sorted_adj lt ?ys"
      using False ap [of undefined] nruns_pos [of ?ys lt] nruns_sorted [of ?ys lt] by (cases "?ys = []") auto
    then show ?thesis
      using False h1 ms ap less.prems by (subst list_sort_loop.simps) (auto simp: dll_list_begin)
  qed
qed

lemma dll_sort:
  assumes "strict_weak lt" "dll h l xs" "length xs < 2 ^ 32"
  shows "\<exists>h' ys. list_sort lt h l = Some h' \<and> dll h' l ys \<and> mset ys = mset xs \<and>
     sorted_wrt (\<lambda>x y. \<not> lt y x) ys \<and> (\<forall>x. filter (equiv_by lt x) ys = filter (equiv_by lt x) xs) \<and>
     only_changes (set (nodes l xs)) h h'"
proof -
  from list_sort_loop_dll [OF assms] obtain h' ys where h':
    "list_sort_loop lt h l = Some h'" "dll h' l ys" "mset ys = mset xs" "sorted_adj lt ys"
    "\<forall>x. filter (equiv_by lt x) ys = filter (equiv_by lt x) xs" "only_changes (set (nodes l xs)) h h'" by auto
  have "is_sorted lt h' (cursor l ys) (tail_of l) = Some True"
    using is_sorted_dll [of h' l "[]" ys "[]" lt] h'(2,4) by simp
  then have "list_sort lt h l = Some h'"
    using h'(1,2) dll_D(1) [OF assms(2)] by (simp add: list_sort_def dll_list_begin)
  then show ?thesis using h' sorted_adj_wrt [OF assms(1)] by blast
qed

text \<open>\<open>list_unique\<close> on two disjoint lists.\<close>

fun auniq :: "(addr \<Rightarrow> addr \<Rightarrow> bool) \<Rightarrow> addr \<Rightarrow> addr list \<Rightarrow> addr list \<times> addr list" where
  "auniq lt a [] = ([], [])"
| "auniq lt a (b # bs) = (if \<not> lt a b \<and> \<not> lt b a then let (k, d) = auniq lt a bs in (k, b # d)
     else let (k, d) = auniq lt b bs in (b # k, d))"

lemma mset_auniq: "auniq lt a xs = (k, d) \<Longrightarrow> mset k + mset d = mset xs"
  by (induction lt a xs arbitrary: k d rule: auniq.induct) (auto split: if_splits prod.splits)

lemma auniq_no_dups:
  "auniq lt a xs = (k, d) \<Longrightarrow> successively (\<lambda>x y. lt x y \<or> lt y x) (a # k)"
  by (induction lt a xs arbitrary: k d rule: auniq.induct) (auto split: if_splits prod.splits)

lemma list_unique_loop_null:
  "dll h l (P @ a # xs) \<Longrightarrow> auniq lt a xs = (k, d) \<Longrightarrow>
   \<exists>h'. list_unique_loop lt h l NULL a = Some h' \<and> dll h' l (P @ a # k) \<and>
     only_changes (set (nodes l (P @ a # xs))) h h'"
proof (induction lt a xs arbitrary: h P k d rule: auniq.induct)
  case (1 lt a)
  then show ?case
    using dll_list_next [of h l P a "[]"] by (subst list_unique_loop.simps) simp
next
  case (2 lt a b bs)
  let ?N = "set (nodes l (P @ a # b # bs))"
  note dl = "2.prems"(1)
  have nx: "list_next h a = Some b" using dll_list_next [OF dl] by simp
  have bt: "b \<noteq> tail_of l" using dll_D(7) [OF dl] by auto
  show ?case
  proof (cases "\<not> lt a b \<and> \<not> lt b a")
    case True
    then obtain d' where kd: "auniq lt a bs = (k, d')" using "2.prems"(2) by (auto split: prod.splits)
    obtain h1 where h1: "list_remove h b = Some (cursor l bs, h1)" "dll h1 l (P @ a # bs)"
      "only_changes (set (nodes l (P @ a # bs))) h h1"
      using dll_remove [of h l "P @ [a]" b bs] dl by auto
    from "2.IH"(1) [OF True h1(2) kd] obtain h' where h':
      "list_unique_loop lt h1 l NULL a = Some h'" "dll h' l (P @ a # k)"
      "only_changes (set (nodes l (P @ a # bs))) h1 h'" by auto
    have "only_changes ?N h h'"
      by (rule only_changes_mono [OF only_changes_trans [OF h1(3) h'(3)]]) (auto simp: nodes_def)
    then show ?thesis using True nx bt dl h1(1) h'(1,2) by (subst list_unique_loop.simps) simp
  next
    case False
    then obtain k' where kd: "auniq lt b bs = (k', d)" "k = b # k'"
      using "2.prems"(2) by (auto split: prod.splits if_splits)
    from "2.IH"(2) [OF False _ kd(1), of h "P @ [a]"] dl obtain h' where h':
      "list_unique_loop lt h l NULL b = Some h'" "dll h' l (P @ a # b # k')" "only_changes ?N h h'" by auto
    then show ?thesis using False nx bt dl kd(2) by (subst list_unique_loop.simps) auto
  qed
qed

lemma list_unique_loop_dups:
  "dll h l (P @ a # xs) \<Longrightarrow> dll h m ds \<Longrightarrow> set (nodes l (P @ a # xs)) \<inter> set (nodes m ds) = {} \<Longrightarrow>
   auniq lt a xs = (k, d) \<Longrightarrow>
   \<exists>h'. list_unique_loop lt h l m a = Some h' \<and> dll h' l (P @ a # k) \<and> dll h' m (ds @ d)"
proof (induction lt a xs arbitrary: h P k d ds rule: auniq.induct)
  case (1 lt a)
  then show ?case
    using dll_list_next [of h l P a "[]"] by (subst list_unique_loop.simps) simp
next
  case (2 lt a b bs)
  note dl = "2.prems"(1) and dm = "2.prems"(2) and disj = "2.prems"(3)
  have nx: "list_next h a = Some b" using dll_list_next [OF dl] by simp
  have bt: "b \<noteq> tail_of l" "b \<noteq> NULL" "b \<in> dom h" "b \<notin> set bs" "b \<notin> set P" "b \<noteq> a" "b \<noteq> head_of l"
    using dll_D(4,5,6,7,9) [OF dl] by auto
  show ?case
  proof (cases "\<not> lt a b \<and> \<not> lt b a")
    case True
    then obtain d' where kd: "auniq lt a bs = (k, d')" "d = b # d'"
      using "2.prems"(4) by (auto split: prod.splits)
    obtain h1 where h1: "list_remove h b = Some (cursor l bs, h1)" "dll h1 l (P @ a # bs)"
      "only_changes (set (nodes l (P @ a # bs))) h h1"
      using dll_remove [of h l "P @ [a]" b bs] dl by auto
    have dm1: "dll h1 m ds" by (rule dll_frame [OF dm h1(3)]) (use disj in \<open>auto simp: nodes_def\<close>)
    have bm: "b \<notin> set (nodes m ds)" "b \<in> dom h1"
      using disj bt h1(3) by (auto simp: nodes_def only_changes_def)
    from dll_push_back [OF dm1 bm(2) bt(2) bm(1)] obtain h2 where h2: "list_push_back h1 m b = Some h2"
      "dll h2 m (ds @ [b])" "only_changes (insert b (set (nodes m ds))) h1 h2" by auto
    have dl2: "dll h2 l (P @ a # bs)"
      by (rule dll_frame [OF h1(2) h2(3)]) (use disj bt in \<open>auto simp: nodes_def\<close>)
    have dj2: "set (nodes l (P @ a # bs)) \<inter> set (nodes m (ds @ [b])) = {}"
      using disj bt by (auto simp: nodes_def)
    from "2.IH"(1) [OF True dl2 h2(2) dj2 kd(1)] obtain h' where h':
      "list_unique_loop lt h2 l m a = Some h'" "dll h' l (P @ a # k)" "dll h' m (ds @ d)"
      using kd(2) by auto
    have "m \<noteq> NULL" using dll_D(1) [OF dm] .
    then show ?thesis using True nx bt dl h1(1) h2(1) h' by (subst list_unique_loop.simps) simp
  next
    case False
    then obtain k' where kd: "auniq lt b bs = (k', d)" "k = b # k'"
      using "2.prems"(4) by (auto split: prod.splits if_splits)
    from "2.IH"(2) [OF False _ dm _ kd(1), of "P @ [a]"] dl disj obtain h' where h':
      "list_unique_loop lt h l m b = Some h'" "dll h' l (P @ a # b # k')" "dll h' m (ds @ d)" by auto
    then show ?thesis using False nx bt dl kd(2) by (subst list_unique_loop.simps) auto
  qed
qed

lemma dll_unique:
  assumes "dll h l (a # xs)" "dll h m ds" "set (nodes l (a # xs)) \<inter> set (nodes m ds) = {}"
  shows "\<exists>h' k d. list_unique lt h l m = Some h' \<and> dll h' l (a # k) \<and> dll h' m (ds @ d) \<and>
    mset k + mset d = mset xs \<and> successively (\<lambda>x y. lt x y \<or> lt y x) (a # k)"
proof -
  obtain k d where kd: "auniq lt a xs = (k, d)" by fastforce
  show ?thesis
    using list_unique_loop_dups [of h l "[]" a xs m ds lt k d] assms kd mset_auniq [OF kd]
      auniq_no_dups [OF kd] dll_D(1) [OF assms(1)]
    by (auto simp: list_unique_def dll_list_begin dll_list_empty)
qed

end
