(* ===== verification/Klist_Queue.thy ===== *)
theory Klist_Queue
  imports Klist_Sort
begin

text \<open>
  The queue interface that the clients of the kernel lists rely on, its two implementations (the
  pointer code and HOL lists), and the properties of the list library.
\<close>

subsection \<open>The queue interface\<close>

text \<open>Clients of \<open>list.c\<close> use a list as a queue of elements.  The interface below states what they
  rely on; it is met by the pointer code and by HOL lists, which is what lets the models of the
  clients keep their queues as HOL lists.\<close>

primrec push_all :: "('h \<Rightarrow> addr \<Rightarrow> 'h option) \<Rightarrow> 'h \<Rightarrow> addr list \<Rightarrow> 'h option" where
  "push_all push h [] = Some h"
| "push_all push h (e # es) = do { h' \<leftarrow> push h e; push_all push h' es }"

primrec pop_n :: "('h \<Rightarrow> (addr \<times> 'h) option) \<Rightarrow> nat \<Rightarrow> 'h \<Rightarrow> (addr list \<times> 'h) option" where
  "pop_n pop 0 h = Some ([], h)"
| "pop_n pop (Suc n) h = do { (x, h') \<leftarrow> pop h; (xs, h'') \<leftarrow> pop_n pop n h'; Some (x # xs, h'') }"

definition insort_by :: "(addr \<Rightarrow> addr \<Rightarrow> bool) \<Rightarrow> addr \<Rightarrow> addr list \<Rightarrow> addr list" where
  "insort_by lt e xs = takeWhile (\<lambda>z. \<not> lt e z) xs @ e # dropWhile (\<lambda>z. \<not> lt e z) xs"

definition q_push_back :: "addr list \<Rightarrow> addr \<Rightarrow> addr list option" where
  "q_push_back xs e = Some (xs @ [e])"

definition q_insert_ordered :: "(addr \<Rightarrow> addr \<Rightarrow> bool) \<Rightarrow> addr list \<Rightarrow> addr \<Rightarrow> addr list option" where
  "q_insert_ordered lt xs e = Some (insort_by lt e xs)"

fun q_pop_front :: "addr list \<Rightarrow> (addr \<times> addr list) option" where
  "q_pop_front [] = None"
| "q_pop_front (x # xs) = Some (x, xs)"

definition q_remove :: "addr list \<Rightarrow> addr \<Rightarrow> addr list option" where
  "q_remove xs e = (if e \<in> set xs then Some (remove1 e xs) else None)"

locale deque =
  fixes rep :: "'h \<Rightarrow> addr list \<Rightarrow> bool"
    and elem_ok :: "'h \<Rightarrow> addr \<Rightarrow> bool"
    and push_back :: "'h \<Rightarrow> addr \<Rightarrow> 'h option"
    and insert_ordered :: "(addr \<Rightarrow> addr \<Rightarrow> bool) \<Rightarrow> 'h \<Rightarrow> addr \<Rightarrow> 'h option"
    and pop_front :: "'h \<Rightarrow> (addr \<times> 'h) option"
    and remove :: "'h \<Rightarrow> addr \<Rightarrow> 'h option"
  assumes push: "rep h xs \<Longrightarrow> elem_ok h e \<Longrightarrow> e \<notin> set xs \<Longrightarrow>
      \<exists>h'. push_back h e = Some h' \<and> rep h' (xs @ [e]) \<and> elem_ok h' = elem_ok h"
    and insert: "rep h xs \<Longrightarrow> elem_ok h e \<Longrightarrow> e \<notin> set xs \<Longrightarrow>
      \<exists>h'. insert_ordered lt h e = Some h' \<and> rep h' (insort_by lt e xs) \<and> elem_ok h' = elem_ok h"
    and pop: "rep h (x # xs) \<Longrightarrow> \<exists>h'. pop_front h = Some (x, h') \<and> rep h' xs \<and> elem_ok h' = elem_ok h"
    and pop_empty: "rep h [] \<Longrightarrow> pop_front h = None"
    and remove: "rep h (ys @ e # zs) \<Longrightarrow> e \<notin> set ys \<Longrightarrow>
      \<exists>h'. remove h e = Some h' \<and> rep h' (ys @ zs) \<and> elem_ok h' = elem_ok h"
    and rep_elem: "rep h xs \<Longrightarrow> e \<in> set xs \<Longrightarrow> elem_ok h e"
    and rep_distinct: "rep h xs \<Longrightarrow> x \<in> set (tl xs) \<Longrightarrow> x = hd xs \<Longrightarrow> False"
begin

lemma push_all_rep:
  "rep h xs \<Longrightarrow> distinct es \<Longrightarrow> set es \<inter> set xs = {} \<Longrightarrow> \<forall>e \<in> set es. elem_ok h e \<Longrightarrow>
   \<exists>h'. push_all push_back h es = Some h' \<and> rep h' (xs @ es)"
proof (induction es arbitrary: h xs)
  case (Cons e es)
  from push [of h xs e] Cons.prems obtain h1 where h1:
    "push_back h e = Some h1" "rep h1 (xs @ [e])" "elem_ok h1 = elem_ok h" by auto
  with Cons.IH [OF h1(2)] Cons.prems show ?case by auto
qed simp

lemma pop_n_rep: "rep h (xs @ ys) \<Longrightarrow> \<exists>h'. pop_n pop_front (length xs) h = Some (xs, h') \<and> rep h' ys"
proof (induction xs arbitrary: h)
  case (Cons x xs)
  from pop [of h x "xs @ ys"] Cons.prems obtain h1 where
    "pop_front h = Some (x, h1)" "rep h1 (xs @ ys)" by auto
  with Cons.IH show ?case by fastforce
qed simp

lemma fifo:
  assumes "rep h xs" "distinct es" "set es \<inter> set xs = {}" "\<forall>e \<in> set es. elem_ok h e"
  shows "\<exists>h' h''. push_all push_back h es = Some h' \<and>
    pop_n pop_front (length xs + length es) h' = Some (xs @ es, h'') \<and> rep h'' []"
  using push_all_rep [OF assms] pop_n_rep [of _ "xs @ es" "[]"] by fastforce

lemma rotate:
  assumes "rep h (x # xs)"
  shows "\<exists>h' h''. pop_front h = Some (x, h') \<and> push_back h' x = Some h'' \<and> rep h'' (xs @ [x])"
proof -
  obtain h' where h': "pop_front h = Some (x, h')" "rep h' xs" "elem_ok h' = elem_ok h"
    using pop [OF assms] by auto
  moreover have "x \<notin> set xs" using rep_distinct [OF assms, of x] by auto
  ultimately show ?thesis using push [of h' xs x] rep_elem [OF assms, of x] by fastforce
qed

lemma insert_all_rep:
  "rep h xs \<Longrightarrow> distinct es \<Longrightarrow> set es \<inter> set xs = {} \<Longrightarrow> \<forall>e \<in> set es. elem_ok h e \<Longrightarrow>
   \<exists>h'. push_all (insert_ordered lt) h es = Some h' \<and> rep h' (fold (insort_by lt) es xs)"
proof (induction es arbitrary: h xs)
  case (Cons e es)
  from insert [of h xs e lt] Cons.prems obtain h1 where h1:
    "insert_ordered lt h e = Some h1" "rep h1 (insort_by lt e xs)" "elem_ok h1 = elem_ok h" by auto
  have "set (insort_by lt e xs) = Set.insert e (set xs)"
    unfolding insort_by_def by (metis set_append list.set(2) Un_insert_right takeWhile_dropWhile_id)
  with h1 Cons.IH [OF h1(2)] Cons.prems show ?case by auto
qed simp

end

lemma distinct_insort_by: "distinct xs \<Longrightarrow> e \<notin> set xs \<Longrightarrow> distinct (insort_by lt e xs)"
  using distinct_append [of "takeWhile (\<lambda>z. \<not> lt e z) xs" "dropWhile (\<lambda>z. \<not> lt e z) xs"]
  by (auto simp: insort_by_def dest: set_takeWhileD set_dropWhileD)

interpretation hol_queue: deque "\<lambda>h xs. h = xs \<and> distinct xs" "\<lambda>_ _. True" q_push_back q_insert_ordered q_pop_front q_remove
proof (unfold_locales, goal_cases)
  case (7 h xs x)
  then show ?case by (cases xs) auto
qed (auto simp: q_push_back_def q_insert_ordered_def q_remove_def remove1_append distinct_insort_by)

definition list_elem_ok :: "addr \<Rightarrow> store \<Rightarrow> addr \<Rightarrow> bool" where
  "list_elem_ok l h e \<longleftrightarrow> e \<in> dom h \<and> e \<noteq> NULL \<and> e \<noteq> head_of l \<and> e \<noteq> tail_of l"

lemma list_elem_ok_changes: "only_changes S h h' \<Longrightarrow> list_elem_ok l h' = list_elem_ok l h"
  by (auto simp: list_elem_ok_def only_changes_def fun_eq_iff)

interpretation ptr_list: deque "\<lambda>h xs. dll h l xs" "list_elem_ok l" "\<lambda>h. list_push_back h l"
  "\<lambda>lt h. list_insert_ordered lt h l" "\<lambda>h. list_pop_front h l" "\<lambda>h e. map_option snd (list_remove h e)" for l
proof (unfold_locales, goal_cases)
  case (1 h xs e)
  then show ?case using dll_push_back [of h l xs e]
    by (auto simp: list_elem_ok_def [of l h] nodes_def intro: list_elem_ok_changes)
next
  case (2 h xs e lt)
  then show ?case using dll_insert_ordered [of h l xs e lt]
    by (auto simp: list_elem_ok_def [of l h] nodes_def insort_by_def intro: list_elem_ok_changes)
next
  case (3 h x xs)
  then show ?case using dll_pop_front [OF 3] by (auto intro: list_elem_ok_changes)
next
  case (4 h)
  then show ?case by (rule dll_pop_empty)
next
  case (5 h ys e zs)
  then show ?case using dll_remove [of h l ys e zs] by (auto intro: list_elem_ok_changes)
next
  case (6 h xs e)
  then show ?case using dll_D(5,6,7,9) [OF 6(1)] unfolding list_elem_ok_def by (metis subsetD)
next
  case (7 h xs x)
  then show ?case using dll_D(4) [OF 7(1)] by (cases xs) auto
qed


lemma mset_insort_by: "mset (insort_by lt e xs) = add_mset e (mset xs)"
proof -
  have "mset (takeWhile (\<lambda>z. \<not> lt e z) xs) + mset (dropWhile (\<lambda>z. \<not> lt e z) xs) = mset xs"
    by (metis mset_append takeWhile_dropWhile_id)
  then show ?thesis by (simp add: insort_by_def)
qed

lemma sorted_insort_by:
  assumes "strict_weak lt"
  shows "sorted_wrt (\<lambda>x y. \<not> lt y x) xs \<Longrightarrow> sorted_wrt (\<lambda>x y. \<not> lt y x) (insort_by lt e xs)"
proof (induction xs)
  case (Cons x xs)
  show ?case
  proof (cases "lt e x")
    case True
    have "\<not> lt y e" if "y \<in> set (x # xs)" for y
      using that True Cons.prems assms unfolding strict_weak_def by (metis set_ConsD sorted_wrt.simps(2))
    then show ?thesis using True Cons.prems by (simp add: insort_by_def)
  next
    case False
    then have "insort_by lt e (x # xs) = x # insort_by lt e xs" by (simp add: insort_by_def)
    moreover have "set (insort_by lt e xs) = insert e (set xs)"
      using arg_cong [OF mset_insort_by [of lt e xs], of set_mset] by simp
    ultimately show ?thesis using Cons False by auto
  qed
qed (simp add: insort_by_def)

lemma fold_insort_by:
  assumes "strict_weak lt"
  shows "sorted_wrt (\<lambda>x y. \<not> lt y x) xs \<Longrightarrow>
    sorted_wrt (\<lambda>x y. \<not> lt y x) (fold (insort_by lt) es xs) \<and> mset (fold (insort_by lt) es xs) = mset es + mset xs"
  by (induction es arbitrary: xs) (simp_all add: sorted_insort_by [OF assms] mset_insort_by)

subsection \<open>Properties\<close>

text \<open>The store of the witnesses: a list at 100 (tail 108) with the elements 3, 1, 2, a second empty
  list at 200, and free elements 4 and 5.\<close>

definition demo_store :: store where
  "demo_store = [100 \<mapsto> \<lparr>prev_ptr = 0, next_ptr = 3\<rparr>, 3 \<mapsto> \<lparr>prev_ptr = 100, next_ptr = 1\<rparr>,
     1 \<mapsto> \<lparr>prev_ptr = 3, next_ptr = 2\<rparr>, 2 \<mapsto> \<lparr>prev_ptr = 1, next_ptr = 108\<rparr>,
     108 \<mapsto> \<lparr>prev_ptr = 2, next_ptr = 0\<rparr>, 200 \<mapsto> \<lparr>prev_ptr = 0, next_ptr = 208\<rparr>,
     208 \<mapsto> \<lparr>prev_ptr = 200, next_ptr = 0\<rparr>, 4 \<mapsto> \<lparr>prev_ptr = 0, next_ptr = 0\<rparr>, 5 \<mapsto> \<lparr>prev_ptr = 0, next_ptr = 0\<rparr>]"

lemma demo_dll: "dll demo_store 100 [3, 1, 2]" "dll demo_store 200 []"
  by (simp_all add: dll_def wf_nodes_def nodes_def demo_store_def head_of_def tail_of_def get_prev_def get_next_def)

lemma demo_elem_ok: "\<forall>e \<in> set [5, 4]. list_elem_ok l demo_store e" if "l > 10"
  using that by (auto simp: list_elem_ok_def demo_store_def head_of_def tail_of_def)

lemma strict_weak_less: "strict_weak (<)"
  by (auto simp: strict_weak_def)

text \<open>C4: \<open>list_sort\<close> is a natural merge sort that works on the links alone.  On every well-formed list of
  fewer than \<open>2^32\<close> elements and every strict weak order it returns, leaves a well-formed list that is a
  sorted permutation of the input, keeps equal elements in their order, and touches no other memory.\<close>

theorem list_sort_correct:
  assumes "strict_weak lt" and "dll h l xs" and "length xs < 2 ^ 32"
  shows "\<exists>h' ys. list_sort lt h l = Some h' \<and> dll h' l ys \<and> mset ys = mset xs \<and>
     sorted_wrt (\<lambda>x y. \<not> lt y x) ys \<and> (\<forall>x. filter (equiv_by lt x) ys = filter (equiv_by lt x) xs) \<and>
     only_changes (set (nodes l xs)) h h'"
  by (rule dll_sort [OF assms])

theorem list_sort_correct_witness:
  "\<exists>h' ys. list_sort (<) demo_store 100 = Some h' \<and> dll h' 100 ys \<and> mset ys = mset [3, 1, 2] \<and>
     sorted_wrt (\<lambda>x y. \<not> y < x) ys"
  using list_sort_correct [OF strict_weak_less demo_dll(1)] by fastforce

text \<open>C5: FIFO order of \<open>list_push_back\<close>/\<open>list_pop_front\<close> at the level of the pointers: pushing new elements
  and popping as many as the list then has returns the old elements and then the new ones in order,
  and leaves the list well formed and empty.\<close>

theorem list_fifo:
  assumes "dll h l xs" and "distinct es" and "set es \<inter> set xs = {}" and "\<forall>e \<in> set es. list_elem_ok l h e"
  shows "\<exists>h' h''. push_all (\<lambda>h. list_push_back h l) h es = Some h' \<and>
    pop_n (\<lambda>h. list_pop_front h l) (length xs + length es) h' = Some (xs @ es, h'') \<and> dll h'' l []"
  by (rule ptr_list.fifo [OF assms])

theorem list_fifo_witness:
  "\<exists>h' h''. push_all (\<lambda>h. list_push_back h 100) demo_store [5, 4] = Some h' \<and>
    pop_n (\<lambda>h. list_pop_front h 100) 5 h' = Some ([3, 1, 2, 5, 4], h'') \<and> dll h'' 100 []"
  using list_fifo [OF demo_dll(1), of "[5, 4]"] demo_elem_ok [of 100] by (simp add: eval_nat_numeral)

text \<open>C6: \<open>list_insert_ordered\<close> makes a priority queue: inserting any new elements into an empty list and
  popping them from the front returns them sorted, each exactly once.\<close>

theorem list_insert_ordered_sorts:
  assumes "strict_weak lt" and "dll h l []" and "distinct es" and "\<forall>e \<in> set es. list_elem_ok l h e"
  shows "\<exists>h' h'' ys. push_all (\<lambda>h. list_insert_ordered lt h l) h es = Some h' \<and>
    pop_n (\<lambda>h. list_pop_front h l) (length es) h' = Some (ys, h'') \<and> dll h'' l [] \<and>
    mset ys = mset es \<and> sorted_wrt (\<lambda>x y. \<not> lt y x) ys"
proof -
  let ?ys = "fold (insort_by lt) es []"
  obtain h' where h': "push_all (\<lambda>h. list_insert_ordered lt h l) h es = Some h'" "dll h' l (?ys @ [])"
    using ptr_list.insert_all_rep [OF assms(2,3) _ assms(4), of lt] by auto
  have fs: "sorted_wrt (\<lambda>x y. \<not> lt y x) ?ys" "mset ?ys = mset es" using fold_insort_by [OF assms(1), of "[]" es] by simp_all
  from fs(2) have "length ?ys = length es" by (metis size_mset)
  with ptr_list.pop_n_rep [OF h'(2)] h'(1) fs show ?thesis by auto
qed

theorem list_insert_ordered_sorts_witness:
  "\<exists>h' h'' ys. push_all (\<lambda>h. list_insert_ordered (<) h 200) demo_store [5, 4] = Some h' \<and>
    pop_n (\<lambda>h. list_pop_front h 200) 2 h' = Some (ys, h'') \<and> dll h'' 200 [] \<and> mset ys = mset [5, 4]"
  using list_insert_ordered_sorts [OF strict_weak_less demo_dll(2), of "[5, 4]"] demo_elem_ok [of 200]
  by (auto simp: numeral_2_eq_2)

text \<open>\<open>list_reverse\<close> twice is the identity on the represented list and returns both times.\<close>

theorem list_reverse_involutive:
  assumes "dll h l xs"
  shows "\<exists>h' h''. list_reverse h l = Some h' \<and> dll h' l (rev xs) \<and>
    list_reverse h' l = Some h'' \<and> dll h'' l xs \<and> only_changes (set (nodes l xs)) h h''"
proof -
  obtain h' where h': "list_reverse h l = Some h'" "dll h' l (rev xs)" "only_changes (set (nodes l xs)) h h'"
    using dll_reverse [OF assms] by auto
  moreover obtain h'' where h'': "list_reverse h' l = Some h''" "dll h'' l (rev (rev xs))"
    "only_changes (set (nodes l (rev xs))) h' h''" using dll_reverse [OF h'(2)] by auto
  moreover have "set (nodes l (rev xs)) = set (nodes l xs)" by (simp add: nodes_def)
  ultimately show ?thesis using only_changes_trans [OF h'(3) h''(3)] by auto
qed

theorem list_reverse_involutive_witness:
  "\<exists>h' h''. list_reverse demo_store 100 = Some h' \<and> dll h' 100 [2, 1, 3] \<and> list_reverse h' 100 = Some h''"
  using list_reverse_involutive [OF demo_dll(1)] by auto

text \<open>\<open>list_unique\<close> moves every element that equals its predecessor to the list of duplicates: what stays
  has no two equal neighbours, both lists stay well formed, and no element is lost.\<close>

theorem list_unique_correct:
  assumes "dll h l (a # xs)" and "dll h m ds" and "set (nodes l (a # xs)) \<inter> set (nodes m ds) = {}"
  shows "\<exists>h' k d. list_unique lt h l m = Some h' \<and> dll h' l (a # k) \<and> dll h' m (ds @ d) \<and>
    mset k + mset d = mset xs \<and> successively (\<lambda>x y. lt x y \<or> lt y x) (a # k)"
  by (rule dll_unique [OF assms])

theorem list_unique_correct_witness:
  "\<exists>h' k d. list_unique (\<lambda>a b. a div 2 < b div 2) demo_store 100 200 = Some h' \<and> dll h' 100 (3 # k) \<and> dll h' 200 d"
  using list_unique_correct [OF demo_dll, of "\<lambda>a b. a div 2 < b div 2"]
  by (auto simp: nodes_def head_of_def tail_of_def)

end
