(* ===== verification/Fixed_Point.thy ===== *)
theory Fixed_Point
  imports Prelude
begin

text \<open>
  The 17.14 fixed-point arithmetic of the BSD scheduler (threads/thread.c, \<open>fp_*\<close>) on 32-bit signed
  integers.  The sum, difference and product of two \<^verbatim>\<open>int\<close>s wrap around; the operations on fixed-point
  operands go through \<^verbatim>\<open>int64_t\<close> and are truncated to 32 bits on return.  C division truncates
  towards zero, and a division by zero, or one whose quotient does not fit the register, faults.
\<close>

definition FP_FORMAT_32BIT :: int where "FP_FORMAT_32BIT = 16384"
definition FP_REAR :: bool where "FP_REAR = True"
definition INT_REAR :: bool where "INT_REAR = False"

definition fp_convert_to_fp :: "int \<Rightarrow> int" where
  "fp_convert_to_fp n = s32 (n * FP_FORMAT_32BIT)"

text \<open>The condition \<^verbatim>\<open>x&1024*1024*1024*2==0\<close> of \<open>fp_convert_to_int\<close> parses as \<^verbatim>\<open>x & (2147483648==0)\<close>:
  comparison binds tighter than \<^verbatim>\<open>&\<close>.\<close>

definition fp_convert_to_int :: "int \<Rightarrow> int" where
  "fp_convert_to_int x =
    (if and x (of_bool (s32 (1024 * 1024 * 1024 * 2) = 0)) \<noteq> 0
     then s32 (x + FP_FORMAT_32BIT sdiv 2) sdiv FP_FORMAT_32BIT
     else s32 (x - FP_FORMAT_32BIT sdiv 2) sdiv FP_FORMAT_32BIT)"

definition fp_convert_to_int_down :: "int \<Rightarrow> int" where
  "fp_convert_to_int_down x = x sdiv FP_FORMAT_32BIT"

definition fp_add :: "int \<Rightarrow> int \<Rightarrow> bool \<Rightarrow> int" where
  "fp_add a b fp_rear = (if fp_rear then s32 (a + b) else s32 (a + s32 (b * FP_FORMAT_32BIT)))"

definition fp_sub :: "int \<Rightarrow> int \<Rightarrow> bool \<Rightarrow> int" where
  "fp_sub a b fp_rear = (if fp_rear then s32 (a - b) else s32 (a - s32 (b * FP_FORMAT_32BIT)))"

definition fp_mult :: "int \<Rightarrow> int \<Rightarrow> bool \<Rightarrow> int" where
  "fp_mult a b fp_rear = (if fp_rear then s32 (s64 (a * b) sdiv FP_FORMAT_32BIT) else s32 (a * b))"

definition fp_devide :: "int \<Rightarrow> int \<Rightarrow> bool \<Rightarrow> int option" where
  "fp_devide a b fp_rear =
    (if b = 0 then None
     else if fp_rear then Some (s32 (s64 (a * FP_FORMAT_32BIT) sdiv b))
     else if in_s32 (a sdiv b) then Some (a sdiv b) else None)"

lemmas fp_consts = FP_FORMAT_32BIT_def FP_REAR_def INT_REAR_def

subsection \<open>Truncating division\<close>

lemma sdiv_pos: "0 \<le> a \<Longrightarrow> 0 < b \<Longrightarrow> a sdiv b = a div (b :: int)"
  by (cases "a = 0") (auto simp: signed_divide_int_def sgn_if)

lemma sdiv_neg: "a < 0 \<Longrightarrow> 0 < b \<Longrightarrow> a sdiv b = - ((- a) div (b :: int))"
  by (auto simp: signed_divide_int_def sgn_if)

lemma sdiv_abs_le: "0 < b \<Longrightarrow> \<bar>a sdiv b\<bar> \<le> \<bar>a :: int\<bar>"
proof -
  assume b: "0 < b"
  have "\<bar>a\<bar> div b \<le> \<bar>a\<bar>" using b zdiv_mono2 [of "\<bar>a\<bar>" 1 b] by simp
  then show ?thesis using b sdiv_pos [of a b] sdiv_neg [of a b] by (cases "a < 0") (auto simp: pos_imp_zdiv_nonneg_iff)
qed

lemma sdiv_mono: "0 < b \<Longrightarrow> x \<le> y \<Longrightarrow> x sdiv b \<le> y sdiv (b :: int)"
proof -
  assume b: "0 < b" and xy: "x \<le> y"
  consider "0 \<le> x" | "x < 0" "0 \<le> y" | "y < 0" using xy by linarith
  then show ?thesis
  proof cases
    case 1 then show ?thesis using b xy by (simp add: sdiv_pos zdiv_mono1)
  next
    case 2
    then have "0 \<le> (- x) div b" "0 \<le> y div b" using b by (simp_all add: pos_imp_zdiv_nonneg_iff)
    then show ?thesis using b 2 sdiv_pos [of y b] sdiv_neg [of x b] by linarith
  next
    case 3
    then have "(- y) div b \<le> (- x) div b" using b xy by (intro zdiv_mono1) auto
    then show ?thesis using b xy 3 by (simp add: sdiv_neg)
  qed
qed

lemma in_s32_le: "in_s32 b \<Longrightarrow> \<bar>a\<bar> \<le> \<bar>b\<bar> \<Longrightarrow> a \<noteq> 2 ^ 31 \<Longrightarrow> in_s32 a"
  by (auto simp: in_s32_def)

subsection \<open>Properties\<close>

text \<open>Converting an integer of the scheduler's range to fixed point and back down is the identity, and the
  fixed-point value orders as the integers do.\<close>

theorem fp_convert_round_trip:
  assumes "- 131072 \<le> n" and "n < 131072"
  shows "fp_convert_to_int_down (fp_convert_to_fp n) = n \<and> fp_convert_to_fp n = n * 16384"
proof -
  have "s32 (n * 16384) = n * 16384" using assms by (intro s32_id) (auto simp: in_s32_def)
  then show ?thesis
    using sdiv_pos [of "n * 16384" 16384] sdiv_neg [of "n * 16384" 16384]
    by (cases "n < 0") (auto simp: fp_convert_to_int_down_def fp_convert_to_fp_def fp_consts)
qed

theorem fp_convert_round_trip_witness:
  "fp_convert_to_int_down (fp_convert_to_fp (- 20)) = - 20"
  using conjunct1 [OF fp_convert_round_trip [of "- 20"]] by simp

text \<open>C13: \<open>fp_convert_to_int\<close> is meant to round to nearest, but because of the precedence of its
  sign test it always subtracts one half: every positive integer comes back as its predecessor.\<close>

theorem fp_convert_to_int_misrounds:
  assumes "1 \<le> n" and "n < 131072"
  shows "fp_convert_to_int (fp_convert_to_fp n) = n - 1"
proof -
  have "s32 (n * 16384) = n * 16384" "s32 (n * 16384 - 8192) = n * 16384 - 8192"
    using assms by (auto intro!: s32_id simp: in_s32_def)
  moreover have "(n * 16384 - 8192) div 16384 = n - 1" by linarith
  moreover have "s32 (1024 * 1024 * 1024 * 2) \<noteq> 0" by (simp add: s32_def signed_take_bit_eq_if_negative)
  ultimately show ?thesis
    using assms by (simp add: fp_convert_to_int_def fp_convert_to_fp_def fp_consts sdiv_pos)
qed

theorem fp_convert_to_int_misrounds_witness: "fp_convert_to_int (fp_convert_to_fp 1) = 0"
  using fp_convert_to_int_misrounds [of 1] by simp

end
