(* ===== verification/Kstate.thy ===== *)
theory Kstate
  imports Klist_Queue Fixed_Point
begin

text \<open>
  The state of the thread system: \<^verbatim>\<open>struct thread\<close>, \<^verbatim>\<open>struct semaphore\<close>, \<^verbatim>\<open>struct lock\<close>, the static
  variables of threads/thread.c, threads/interrupt.c and devices/timer.c, and the interrupt primitives.

  The kernel runs on one CPU and switches threads inside its functions.  What a suspended thread still
  has to do is its kernel stack; here it is the list \<open>kont\<close> of \<open>frame\<close>s, one for each stretch of code that
  remains to be executed after a call that may switch threads.  A function that makes such a call pushes
  the frames of the rest of its body before the call, so the rest runs when the thread is scheduled
  again.  Queues of threads (\<^verbatim>\<open>struct list\<close> with \<^verbatim>\<open>elem\<close>/\<^verbatim>\<open>allelem\<close> links) are HOL lists of thread
  addresses, as the queue interface of \<open>Klist_Queue\<close> allows.  Calls into components outside the
  thread system are recorded in \<open>events\<close>.

  When the page of a dead thread is released, the page allocator fills it with 0xcc, the semaphores, locks and condition variables in it
  included.  \<open>wiped\<close> is the set of the addresses overwritten in this way at which no semaphore has been initialised since.
\<close>

datatype intr_level = INTR_OFF | INTR_ON

datatype thread_status = THREAD_RUNNING | THREAD_READY | THREAD_BLOCKED | THREAD_DYING

text \<open>A thread function with its argument: the idle thread's, or a client function.\<close>

datatype thread_func = Idle addr | Client nat

datatype frame =
    F_set_level intr_level
  | F_kernel_thread thread_func
  | F_function thread_func
  | F_idle_loop
  | F_sti_hlt
  | F_yield
  | F_set_priority int
  | F_set_nice int
  | F_sleep int addr
  | F_sleep_check int int addr
  | F_create string int thread_func addr
  | F_push_all addr
  | F_allocate_tid
  | F_next_tid
  | F_return int
  | F_set_tid addr
  | F_create_tail addr thread_func
  | F_exit
  | F_exit_user
  | F_exit_wait
  | F_exit_off
  | F_exit_die
  | F_sema_init addr nat
  | F_sema_down addr
  | F_sema_loop addr intr_level
  | F_sema_try_down addr
  | F_sema_up addr
  | F_sema_up_yield int
  | F_lock_init addr
  | F_lock_acquire addr
  | F_lock_acquire_other addr addr
  | F_lock_try_acquire addr
  | F_set_holder addr addr
  | F_lock_release addr
  | F_cond_wait addr addr addr
  | F_cond_signal addr addr
  | F_cond_broadcast addr addr

datatype kevent =
    E_pagedir_activate addr
  | E_pagedir_destroy addr
  | E_tss_update
  | E_file_allow_write addr
  | E_file_close addr
  | E_free_files_table
  | E_palloc_free_page addr

record thread =
  tid :: int
  status :: thread_status
  name :: string
  stack :: nat
  priority :: int
  pagedir :: addr
  magic :: int
  exit_status :: nat
  exit_soon :: bool
  files_table :: "addr list"
  fd :: int
  file_cur :: addr
  recent_unused :: int
  nice :: int
  recent_cpu :: int
  kont :: "frame list"
  retval :: int

record semaphore =
  sema_value :: nat
  waiters :: "addr list"

record kstate =
  threads :: "addr \<rightharpoonup> thread"
  ready_list :: "int \<Rightarrow> addr list"
  all_list :: "addr list"
  idle_thread :: addr
  initial_thread :: addr
  running_thread :: addr
  if_flag :: bool
  in_external_intr :: bool
  yield_on_return :: bool
  idle_ticks :: int
  kernel_ticks :: int
  user_ticks :: int
  thread_ticks :: nat
  thread_prior_aging :: bool
  thread_mlfqs :: bool
  userprog :: bool
  load_avg :: int
  next_tid :: int
  max_tid :: int
  semas :: "addr \<rightharpoonup> semaphore"
  holders :: "addr \<rightharpoonup> addr"
  conds :: "addr \<rightharpoonup> addr list"
  wiped :: "addr set"
  ticks :: int
  list_alarm :: "(int \<times> addr) list"
  stack_garbage :: int
  unexpected_cnt :: "nat \<Rightarrow> nat"
  events :: "kevent list"

definition PRI_MIN :: int where "PRI_MIN = 0"
definition PRI_DEFAULT :: int where "PRI_DEFAULT = 31"
definition PRI_MAX :: int where "PRI_MAX = 63"
definition TIME_SLICE :: nat where "TIME_SLICE = 4"
definition TIMER_FREQ :: int where "TIMER_FREQ = 100"
definition TID_ERROR :: int where "TID_ERROR = - 1"
definition THREAD_MAGIC :: int where "THREAD_MAGIC = 0xcd6abf4b"

lemmas pri_consts = PRI_MIN_def PRI_DEFAULT_def PRI_MAX_def

text \<open>Addresses: the semaphore of a lock follows its holder field; the locks of \<^verbatim>\<open>struct thread\<close>
  are at the offsets of its USERPROG layout; \<open>tid_lock\<close> is a static variable.\<close>

definition lock_sema :: "addr \<Rightarrow> addr" where "lock_sema l = l + 4"
definition lock_wait :: "addr \<Rightarrow> addr" where "lock_wait t = t + 56"
definition lock_exit :: "addr \<Rightarrow> addr" where "lock_exit t = t + 80"
definition lock_exec :: "addr \<Rightarrow> addr" where "lock_exec t = t + 104"
definition lock_exit2 :: "addr \<Rightarrow> addr" where "lock_exit2 t = t + 128"
definition tid_lock :: addr where "tid_lock = 24"

subsection \<open>Access to threads\<close>

definition upd_thread :: "addr \<Rightarrow> (thread \<Rightarrow> thread) \<Rightarrow> kstate \<Rightarrow> kstate option" where
  "upd_thread t f s = (case threads s t of None \<Rightarrow> None
     | Some th \<Rightarrow> Some (s\<lparr>threads := (threads s)(t \<mapsto> f th)\<rparr>))"

definition push_kont :: "frame list \<Rightarrow> kstate \<Rightarrow> kstate option" where
  "push_kont fs s = upd_thread (running_thread s) (\<lambda>th. th\<lparr>kont := fs @ kont th\<rparr>) s"

definition set_retval :: "int \<Rightarrow> kstate \<Rightarrow> kstate option" where
  "set_retval r s = upd_thread (running_thread s) (\<lambda>th. th\<lparr>retval := r\<rparr>) s"

definition log_event :: "kevent \<Rightarrow> kstate \<Rightarrow> kstate" where
  "log_event e s = s\<lparr>events := events s @ [e]\<rparr>"

subsection \<open>Interrupts (threads/interrupt.c)\<close>

definition intr_get_level :: "kstate \<Rightarrow> intr_level" where
  "intr_get_level s = (if if_flag s then INTR_ON else INTR_OFF)"

definition intr_context :: "kstate \<Rightarrow> bool" where
  "intr_context s = in_external_intr s"

definition intr_enable :: "kstate \<Rightarrow> (intr_level \<times> kstate) option" where
  "intr_enable s = do {
     let old_level = intr_get_level s;
     k_assert (\<not> intr_context s);
     Some (old_level, s\<lparr>if_flag := True\<rparr>) }"

definition intr_disable :: "kstate \<Rightarrow> (intr_level \<times> kstate) option" where
  "intr_disable s = do {
     let old_level = intr_get_level s;
     Some (old_level, s\<lparr>if_flag := False\<rparr>) }"

definition intr_set_level :: "intr_level \<Rightarrow> kstate \<Rightarrow> (intr_level \<times> kstate) option" where
  "intr_set_level level s = (if level = INTR_ON then intr_enable s else intr_disable s)"

definition intr_yield_on_return :: "kstate \<Rightarrow> kstate option" where
  "intr_yield_on_return s = do {
     k_assert (intr_context s);
     Some (s\<lparr>yield_on_return := True\<rparr>) }"

text \<open>\<open>timer_ticks\<close> of devices/timer.c, which thread.c uses too.\<close>

definition timer_ticks :: "kstate \<Rightarrow> (int \<times> kstate) option" where
  "timer_ticks s = do {
     (old_level, s) \<leftarrow> intr_disable s;
     let t = ticks s;
     (_, s) \<leftarrow> intr_set_level old_level s;
     Some (t, s) }"

definition timer_elapsed :: "int \<Rightarrow> kstate \<Rightarrow> (int \<times> kstate) option" where
  "timer_elapsed thn s = do {
     (t, s) \<leftarrow> timer_ticks s;
     Some (s64 (t - thn), s) }"

end
