(* ===== verification/Thread.thy ===== *)
theory Thread
  imports Kstate
begin

text \<open>
  threads/thread.c: creation, scheduling, priorities, the BSD scheduler and priority aging.  The loops over
  \<^verbatim>\<open>ready_list[PRI_MAX..PRI_MIN]\<close> are recursions on the number of levels left; the loops over \<open>all_list\<close>
  are recursions on the list.
\<close>

subsection \<open>Threads and ready queues\<close>

definition is_thread :: "addr \<Rightarrow> kstate \<Rightarrow> bool" where
  "is_thread t s = (t \<noteq> NULL \<and> (case threads s t of None \<Rightarrow> False | Some th \<Rightarrow> magic th = THREAD_MAGIC))"

definition thread_current :: "kstate \<Rightarrow> addr option" where
  "thread_current s = do {
     let t = running_thread s;
     k_assert (is_thread t s);
     th \<leftarrow> threads s t;
     k_assert (status th = THREAD_RUNNING);
     Some t }"

definition thread_cur :: "kstate \<Rightarrow> thread option" where
  "thread_cur s = do { t \<leftarrow> thread_current s; threads s t }"

definition thread_name :: "kstate \<Rightarrow> string option" where
  "thread_name s = do { th \<leftarrow> thread_cur s; Some (name th) }"

definition thread_tid :: "kstate \<Rightarrow> int option" where
  "thread_tid s = do { th \<leftarrow> thread_cur s; Some (tid th) }"

definition ready_push :: "int \<Rightarrow> addr \<Rightarrow> kstate \<Rightarrow> kstate option" where
  "ready_push p t s = do {
     k_assert (PRI_MIN \<le> p \<and> p \<le> PRI_MAX);
     Some (s\<lparr>ready_list := (ready_list s)(p := ready_list s p @ [t])\<rparr>) }"

text \<open>\<^verbatim>\<open>list_remove (&t->elem)\<close> for a thread on some ready list.\<close>

definition ready_remove :: "addr \<Rightarrow> kstate \<Rightarrow> kstate option" where
  "ready_remove t s = do {
     k_assert (list_ex (\<lambda>i. t \<in> set (ready_list s i)) [PRI_MIN..PRI_MAX]);
     Some (s\<lparr>ready_list := (\<lambda>i. remove1 t (ready_list s i))\<rparr>) }"

fun top_loop :: "(int \<Rightarrow> addr list) \<Rightarrow> nat \<Rightarrow> int" where
  "top_loop rl 0 = 0"
| "top_loop rl (Suc i) = (if rl (int i) \<noteq> [] then int i else top_loop rl i)"

definition thread_top_priority :: "kstate \<Rightarrow> int" where
  "thread_top_priority s = top_loop (ready_list s) (nat (PRI_MAX + 1))"

fun next_loop :: "nat \<Rightarrow> kstate \<Rightarrow> addr \<times> kstate" where
  "next_loop 0 s = (idle_thread s, s)"
| "next_loop (Suc i) s = (case ready_list s (int i) of
      [] \<Rightarrow> next_loop i s
    | t # ts \<Rightarrow> (t, s\<lparr>ready_list := (ready_list s)(int i := ts)\<rparr>))"

definition next_thread_to_run :: "kstate \<Rightarrow> addr \<times> kstate" where
  "next_thread_to_run s = next_loop (nat (PRI_MAX + 1)) s"

subsection \<open>Switching\<close>

definition process_activate :: "kstate \<Rightarrow> kstate option" where
  "process_activate s = do {
     th \<leftarrow> thread_cur s;
     Some (log_event E_tss_update (log_event (E_pagedir_activate (pagedir th)) s)) }"

text \<open>Releasing the page of a thread.  The semaphores in the page get the value 0xcccccccc and the locks that holder; their lists of
  waiters, and those of condition variables, are no lists any more.\<close>

definition in_page :: "addr \<Rightarrow> addr \<Rightarrow> bool" where
  "in_page t a \<longleftrightarrow> t \<le> a \<and> a < t + PGSIZE"

definition wipe_page :: "addr \<Rightarrow> kstate \<Rightarrow> kstate" where
  "wipe_page t s = s\<lparr>
     semas := (\<lambda>a. if in_page t a then map_option (\<lambda>_. \<lparr>sema_value = 0xcccccccc, waiters = []\<rparr>) (semas s a) else semas s a),
     holders := (\<lambda>l. if in_page t (lock_sema l) then map_option (\<lambda>_. 0xcccccccc) (holders s l) else holders s l),
     conds := (\<lambda>c. if in_page t c then None else conds s c),
     wiped := wiped s \<union> {a. in_page t a}\<rparr>"

definition palloc_free_thread :: "addr \<Rightarrow> kstate \<Rightarrow> kstate" where
  "palloc_free_thread t s = log_event (E_palloc_free_page t) (wipe_page t (s\<lparr>threads := (threads s)(t := None)\<rparr>))"

definition thread_schedule_tail :: "addr \<Rightarrow> kstate \<Rightarrow> kstate option" where
  "thread_schedule_tail prev s = do {
     let cur = running_thread s;
     k_assert (intr_get_level s = INTR_OFF);
     s \<leftarrow> upd_thread cur (\<lambda>th. th\<lparr>status := THREAD_RUNNING\<rparr>) s;
     let s = s\<lparr>thread_ticks := 0\<rparr>;
     s \<leftarrow> (if userprog s then process_activate s else Some s);
     if prev = NULL then Some s
     else do {
       p \<leftarrow> threads s prev;
       if status p = THREAD_DYING \<and> prev \<noteq> initial_thread s then do {
         k_assert (prev \<noteq> cur);
         Some (palloc_free_thread prev s) }
       else Some s } }"

definition schedule :: "kstate \<Rightarrow> kstate option" where
  "schedule s = do {
     let cur = running_thread s;
     let (nxt, s) = next_thread_to_run s;
     k_assert (intr_get_level s = INTR_OFF);
     th \<leftarrow> threads s cur;
     k_assert (status th \<noteq> THREAD_RUNNING);
     k_assert (is_thread nxt s);
     if cur \<noteq> nxt then thread_schedule_tail cur (s\<lparr>running_thread := nxt\<rparr>)
     else thread_schedule_tail NULL s }"

definition thread_block :: "kstate \<Rightarrow> kstate option" where
  "thread_block s = do {
     k_assert (\<not> intr_context s);
     k_assert (intr_get_level s = INTR_OFF);
     cur \<leftarrow> thread_current s;
     s \<leftarrow> upd_thread cur (\<lambda>th. th\<lparr>status := THREAD_BLOCKED\<rparr>) s;
     schedule s }"

definition thread_yield :: "kstate \<Rightarrow> kstate option" where
  "thread_yield s = do {
     cur \<leftarrow> thread_current s;
     k_assert (\<not> intr_context s);
     (old_level, s) \<leftarrow> intr_disable s;
     s \<leftarrow> (if cur \<noteq> idle_thread s then do {
              th \<leftarrow> threads s cur;
              s \<leftarrow> ready_push (priority th) cur s;
              (t, s) \<leftarrow> timer_ticks s;
              upd_thread cur (\<lambda>th. th\<lparr>recent_unused := t\<rparr>) s }
            else Some s);
     s \<leftarrow> upd_thread cur (\<lambda>th. th\<lparr>status := THREAD_READY\<rparr>) s;
     s \<leftarrow> push_kont [F_set_level old_level] s;
     schedule s }"

definition thread_unblock :: "addr \<Rightarrow> kstate \<Rightarrow> kstate option" where
  "thread_unblock t s = do {
     k_assert (is_thread t s);
     (old_level, s) \<leftarrow> intr_disable s;
     th \<leftarrow> threads s t;
     k_assert (status th = THREAD_BLOCKED);
     let top_pri = thread_top_priority s;
     s \<leftarrow> ready_push (priority th) t s;
     s \<leftarrow> upd_thread t (\<lambda>th. th\<lparr>status := THREAD_READY\<rparr>) s;
     (_, s) \<leftarrow> intr_set_level old_level s;
     if top_pri < priority th \<and> intr_get_level s = INTR_ON then thread_yield s else Some s }"

subsection \<open>Priorities\<close>

definition thread_set_priority :: "int \<Rightarrow> kstate \<Rightarrow> kstate option" where
  "thread_set_priority new_priority s = do {
     cur \<leftarrow> thread_current s;
     s \<leftarrow> upd_thread cur (\<lambda>th. th\<lparr>priority := new_priority\<rparr>) s;
     if new_priority < thread_top_priority s \<and> intr_get_level s = INTR_ON then thread_yield s else Some s }"

definition thread_get_priority :: "kstate \<Rightarrow> int option" where
  "thread_get_priority s = do { th \<leftarrow> thread_cur s; Some (priority th) }"

definition BSD_calc_priority_this :: "int \<Rightarrow> int \<Rightarrow> int option" where
  "BSD_calc_priority_this rcpu nice_v = do {
     rcpu_4 \<leftarrow> fp_devide rcpu 4 INT_REAR;
     let pri = fp_sub (fp_convert_to_fp (s32 (PRI_MAX - s32 (nice_v * 2)))) rcpu_4 FP_REAR;
     let pri = fp_convert_to_int_down pri;
     let pri = (if pri > PRI_MAX then PRI_MAX else pri);
     let pri = (if pri < PRI_MIN then PRI_MIN else pri);
     Some pri }"

text \<open>The function pointers of \<open>fp.fp_op\<close> are set by \<open>thread_init\<close> only under \<open>thread_mlfqs\<close>; otherwise a call
  through them is a call of a null pointer.\<close>

definition thread_set_nice :: "int \<Rightarrow> kstate \<Rightarrow> kstate option" where
  "thread_set_nice n s = do {
     k_assert (- 20 \<le> n \<and> n \<le> 20);
     cur \<leftarrow> thread_current s;
     s \<leftarrow> upd_thread cur (\<lambda>th. th\<lparr>nice := n\<rparr>) s;
     k_assert (thread_mlfqs s);
     th \<leftarrow> threads s cur;
     pri \<leftarrow> BSD_calc_priority_this (recent_cpu th) (nice th);
     s \<leftarrow> upd_thread cur (\<lambda>th. th\<lparr>priority := pri\<rparr>) s;
     if pri < thread_top_priority s \<and> intr_get_level s = INTR_ON then thread_yield s else Some s }"

definition thread_get_nice :: "kstate \<Rightarrow> int option" where
  "thread_get_nice s = do { th \<leftarrow> thread_cur s; Some (nice th) }"

definition thread_get_load_avg :: "kstate \<Rightarrow> int option" where
  "thread_get_load_avg s = do {
     k_assert (thread_mlfqs s);
     Some (fp_convert_to_int (fp_mult (load_avg s) 100 INT_REAR)) }"

definition thread_get_recent_cpu :: "kstate \<Rightarrow> int option" where
  "thread_get_recent_cpu s = do {
     k_assert (thread_mlfqs s);
     th \<leftarrow> thread_cur s;
     Some (fp_convert_to_int (fp_mult (recent_cpu th) 100 INT_REAR)) }"

subsection \<open>Iteration over the threads\<close>

fun foreach_loop :: "(addr \<Rightarrow> kstate \<Rightarrow> kstate option) \<Rightarrow> addr list \<Rightarrow> kstate \<Rightarrow> kstate option" where
  "foreach_loop func [] s = Some s"
| "foreach_loop func (t # ts) s = do { s \<leftarrow> func t s; foreach_loop func ts s }"

definition thread_foreach :: "(addr \<Rightarrow> kstate \<Rightarrow> kstate option) \<Rightarrow> kstate \<Rightarrow> kstate option" where
  "thread_foreach func s = do {
     k_assert (intr_get_level s = INTR_OFF);
     foreach_loop func (all_list s) s }"

fun from_tid_loop :: "int \<Rightarrow> addr list \<Rightarrow> kstate \<Rightarrow> addr option" where
  "from_tid_loop i [] s = Some NULL"
| "from_tid_loop i (t # ts) s = do {
     th \<leftarrow> threads s t;
     if tid th = i then Some t else from_tid_loop i ts s }"

definition thread_from_tid :: "int \<Rightarrow> kstate \<Rightarrow> addr option" where
  "thread_from_tid i s = from_tid_loop i (all_list s) s"

subsection \<open>The BSD scheduler\<close>

definition BSD_calc_priority_body :: "addr \<Rightarrow> bool \<times> kstate \<Rightarrow> (bool \<times> kstate) option" where
  "BSD_calc_priority_body t ys = (case ys of (yield, s) \<Rightarrow> do {
     th \<leftarrow> threads s t;
     if name th = ''idle'' then Some (yield, s)
     else do {
       rcpu_4 \<leftarrow> fp_devide (recent_cpu th) 4 INT_REAR;
       let pri = priority th;
       let p = fp_sub (fp_convert_to_fp (s32 (PRI_MAX - s32 (nice th * 2)))) rcpu_4 FP_REAR;
       let p = fp_convert_to_int_down p;
       let p = (if p > PRI_MAX then PRI_MAX else p);
       let p = (if p < PRI_MIN then PRI_MIN else p);
       s \<leftarrow> upd_thread t (\<lambda>th. th\<lparr>priority := p\<rparr>) s;
       (yield, s) \<leftarrow> (if status th = THREAD_READY \<and> pri \<noteq> p then do {
           s \<leftarrow> ready_remove t s;
           s \<leftarrow> ready_push p t s;
           c \<leftarrow> thread_cur s;
           Some (yield \<or> p > priority c, s) }
         else Some (yield, s));
       Some (yield \<or> (status th = THREAD_RUNNING \<and> p < thread_top_priority s), s) } })"

fun BSD_calc_priority_loop :: "addr list \<Rightarrow> bool \<times> kstate \<Rightarrow> (bool \<times> kstate) option" where
  "BSD_calc_priority_loop [] ys = Some ys"
| "BSD_calc_priority_loop (t # ts) ys = do { ys \<leftarrow> BSD_calc_priority_body t ys; BSD_calc_priority_loop ts ys }"

definition BSD_calc_priority :: "kstate \<Rightarrow> kstate option" where
  "BSD_calc_priority s = do {
     (yield, s) \<leftarrow> BSD_calc_priority_loop (all_list s) (False, s);
     if yield \<and> intr_context s then intr_yield_on_return s else Some s }"

definition ready_count :: "kstate \<Rightarrow> int" where
  "ready_count s = (\<Sum>i\<leftarrow>[PRI_MIN..PRI_MAX]. int (length (ready_list s i)))"

definition BSD_calc_load_average :: "kstate \<Rightarrow> kstate option" where
  "BSD_calc_load_average s = do {
     c \<leftarrow> thread_cur s;
     let ready_threads = ready_count s + (if name c = ''idle'' then 0 else 1);
     d59_60 \<leftarrow> fp_devide (fp_convert_to_fp 59) 60 INT_REAR;
     d1_60 \<leftarrow> fp_devide (fp_convert_to_fp 1) 60 INT_REAR;
     let la = fp_mult (load_avg s) d59_60 FP_REAR;
     let la = fp_add la (fp_mult d1_60 (s32 ready_threads) INT_REAR) FP_REAR;
     Some (s\<lparr>load_avg := la\<rparr>) }"

definition BSD_recent_cpu_body :: "int \<Rightarrow> addr \<Rightarrow> kstate \<Rightarrow> kstate option" where
  "BSD_recent_cpu_body coef t s = do {
     th \<leftarrow> threads s t;
     if name th = ''idle'' then Some s
     else upd_thread t (\<lambda>th. th\<lparr>recent_cpu := fp_add (fp_mult coef (recent_cpu th) FP_REAR) (nice th) INT_REAR\<rparr>) s }"

definition BSD_calc_recent_cpu :: "kstate \<Rightarrow> kstate option" where
  "BSD_calc_recent_cpu s = do {
     let coef = fp_mult (load_avg s) 2 INT_REAR;
     coef \<leftarrow> fp_devide coef (fp_add coef 1 INT_REAR) FP_REAR;
     foreach_loop (BSD_recent_cpu_body coef) (all_list s) s }"

definition BSD_schedule :: "kstate \<Rightarrow> kstate option" where
  "BSD_schedule s = do {
     (tick, s) \<leftarrow> timer_ticks s;
     cur \<leftarrow> thread_current s;
     c \<leftarrow> threads s cur;
     s \<leftarrow> (if name c \<noteq> ''idle''
           then upd_thread cur (\<lambda>th. th\<lparr>recent_cpu := fp_add (recent_cpu th) 1 INT_REAR\<rparr>) s
           else Some s);
     s \<leftarrow> (if tick smod TIMER_FREQ = 0
           then do { s \<leftarrow> BSD_calc_load_average s; BSD_calc_recent_cpu s }
           else Some s);
     if tick smod 4 = 0 then BSD_calc_priority s else Some s }"

subsection \<open>Aging\<close>

text \<open>The inner loop of \<open>thread_aging\<close> visits the elements of level \<open>i\<close> in order; an element that is moved
  to another level is taken out under the cursor.  (A thread filed below its own level would be put back on
  the list being traversed; the loop is not followed into that case, which the invariant of the
  ready lists excludes.)\<close>

fun aging_level :: "int \<Rightarrow> addr list \<Rightarrow> bool \<times> kstate \<Rightarrow> (bool \<times> kstate) option" where
  "aging_level i [] ys = Some ys"
| "aging_level i (t # ts) (yield, s) = do {
     th \<leftarrow> threads s t;
     (el, s) \<leftarrow> timer_elapsed (recent_unused th) s;
     if el smod 100 = 0 then do {
       let p = s32 (priority th + 1);
       k_assert (p \<noteq> i);
       s \<leftarrow> upd_thread t (\<lambda>th. th\<lparr>priority := p\<rparr>) s;
       s \<leftarrow> ready_remove t s;
       s \<leftarrow> ready_push p t s;
       c \<leftarrow> thread_cur s;
       aging_level i ts (yield \<or> p > priority c, s) }
     else aging_level i ts (yield, s) }"

fun aging_loop :: "nat \<Rightarrow> bool \<times> kstate \<Rightarrow> (bool \<times> kstate) option" where
  "aging_loop 0 ys = Some ys"
| "aging_loop (Suc i) (yield, s) = do {
     ys \<leftarrow> aging_level (int i) (ready_list s (int i)) (yield, s);
     aging_loop i ys }"

definition thread_aging :: "kstate \<Rightarrow> kstate option" where
  "thread_aging s = do {
     (yield, s) \<leftarrow> aging_loop (nat PRI_MAX) (False, s);
     if yield then intr_yield_on_return s else Some s }"

subsection \<open>The timer tick\<close>

definition thread_tick :: "kstate \<Rightarrow> kstate option" where
  "thread_tick s = do {
     t \<leftarrow> thread_current s;
     th \<leftarrow> threads s t;
     let s = (if t = idle_thread s then s\<lparr>idle_ticks := s64 (idle_ticks s + 1)\<rparr>
              else if userprog s \<and> pagedir th \<noteq> NULL then s\<lparr>user_ticks := s64 (user_ticks s + 1)\<rparr>
              else s\<lparr>kernel_ticks := s64 (kernel_ticks s + 1)\<rparr>);
     let s = s\<lparr>thread_ticks := u32 (thread_ticks s + 1)\<rparr>;
     s \<leftarrow> (if thread_ticks s \<ge> TIME_SLICE then intr_yield_on_return s else Some s);
     s \<leftarrow> (if thread_mlfqs s then BSD_schedule s else Some s);
     if \<not> userprog s \<and> thread_prior_aging s then thread_aging s else Some s }"

subsection \<open>Creation\<close>

definition tid_range :: "bool \<Rightarrow> int \<Rightarrow> kstate \<Rightarrow> int \<times> kstate" where
  "tid_range put_or_pull new_tid s =
     (if put_or_pull then (0, s\<lparr>max_tid := new_tid\<rparr>) else (max_tid s, s))"

definition new_lock :: "addr \<Rightarrow> kstate \<Rightarrow> kstate" where
  "new_lock l s = s\<lparr>holders := (holders s)(l \<mapsto> NULL),
     semas := (semas s)(lock_sema l \<mapsto> \<lparr>sema_value = 1, waiters = []\<rparr>), wiped := wiped s - {lock_sema l}\<rparr>"

text \<open>\<open>init_thread\<close> up to its first call of \<open>lock_acquire_other\<close>; the frames are the rest of its body.\<close>

definition init_thread :: "addr \<Rightarrow> string \<Rightarrow> int \<Rightarrow> kstate \<Rightarrow> kstate option" where
  "init_thread t nm prio s = do {
     k_assert (t \<noteq> NULL);
     k_assert (PRI_MIN \<le> prio \<and> prio \<le> PRI_MAX);
     (nc, rc) \<leftarrow> (if \<not> thread_mlfqs s then Some (0, 0)
       else if nm = ''main'' then Some (0, fp_convert_to_fp 0)
       else do { c \<leftarrow> thread_cur s; Some (nice c, recent_cpu c) });
     (tk, s) \<leftarrow> timer_ticks s;
     let th = \<lparr>tid = 0, status = THREAD_BLOCKED, name = take 15 nm, stack = t + PGSIZE, priority = prio,
       pagedir = NULL, magic = THREAD_MAGIC, exit_status = 0, exit_soon = False, files_table = [], fd = 1,
       file_cur = NULL, recent_unused = tk, nice = nc, recent_cpu = rc, kont = [], retval = 0\<rparr>;
     let s = s\<lparr>threads := (threads s)(t \<mapsto> th)\<rparr>;
     let s = new_lock (lock_exit2 t) (new_lock (lock_exec t) (new_lock (lock_wait t) (new_lock (lock_exit t) s)));
     push_kont [F_lock_acquire_other (lock_exec t) t, F_lock_acquire_other (lock_wait t) t,
       F_lock_acquire_other (lock_exit2 t) t, F_push_all t] s }"

definition init_thread_push_all :: "addr \<Rightarrow> kstate \<Rightarrow> kstate option" where
  "init_thread_push_all t s = Some (s\<lparr>all_list := all_list s @ [t]\<rparr>)"

definition alloc_frame :: "addr \<Rightarrow> nat \<Rightarrow> kstate \<Rightarrow> kstate option" where
  "alloc_frame t sz s = do {
     k_assert (is_thread t s);
     k_assert (sz mod 4 = 0);
     upd_thread t (\<lambda>th. th\<lparr>stack := stack th - sz\<rparr>) s }"

text \<open>\<open>allocate_tid\<close> is a critical section under \<open>tid_lock\<close>, whose result is the return value of the
  calling thread.  \<open>thread_create\<close> is cut at the calls that may switch threads: \<open>page\<close> is the result of
  \<open>palloc_get_page\<close>; \<open>thread_create_tail\<close> stores the tid and sets up the stack so that the first switch to
  the thread enters \<open>kernel_thread\<close>.\<close>

definition allocate_tid :: "kstate \<Rightarrow> kstate option" where
  "allocate_tid s = push_kont [F_lock_acquire tid_lock, F_next_tid] s"

definition allocate_next_tid :: "kstate \<Rightarrow> kstate option" where
  "allocate_next_tid s = do {
     let i = next_tid s;
     let s = s\<lparr>next_tid := s32 (i + 1)\<rparr>;
     let (_, s) = tid_range True i s;
     push_kont [F_lock_release tid_lock, F_return i] s }"

definition thread_create :: "string \<Rightarrow> int \<Rightarrow> thread_func \<Rightarrow> addr \<Rightarrow> kstate \<Rightarrow> kstate option" where
  "thread_create nm prio func page s =
     (if page = NULL then set_retval TID_ERROR s
      else do {
        s \<leftarrow> push_kont [F_allocate_tid, F_create_tail page func] s;
        init_thread page nm prio s })"

definition thread_create_tail :: "addr \<Rightarrow> thread_func \<Rightarrow> kstate \<Rightarrow> kstate option" where
  "thread_create_tail t func s = do {
     c \<leftarrow> threads s (running_thread s);
     let i = retval c;
     s \<leftarrow> upd_thread t (\<lambda>th. th\<lparr>tid := i\<rparr>) s;
     (old_level, s) \<leftarrow> intr_disable s;
     s \<leftarrow> alloc_frame t 12 s;
     s \<leftarrow> alloc_frame t 4 s;
     s \<leftarrow> alloc_frame t 28 s;
     s \<leftarrow> upd_thread t (\<lambda>th. th\<lparr>kont := [F_kernel_thread func]\<rparr>) s;
     (_, s) \<leftarrow> intr_set_level old_level s;
     s \<leftarrow> set_retval i s;
     thread_unblock t s }"

definition kernel_thread :: "thread_func \<Rightarrow> kstate \<Rightarrow> kstate option" where
  "kernel_thread func s = do {
     (_, s) \<leftarrow> intr_enable s;
     push_kont [F_function func, F_exit] s }"

definition idle_start :: "addr \<Rightarrow> kstate \<Rightarrow> kstate option" where
  "idle_start idle_started s = do {
     cur \<leftarrow> thread_current s;
     let s = s\<lparr>idle_thread := cur\<rparr>;
     push_kont [F_sema_up idle_started, F_idle_loop] s }"

definition idle_loop :: "kstate \<Rightarrow> kstate option" where
  "idle_loop s = do {
     (_, s) \<leftarrow> intr_disable s;
     s \<leftarrow> push_kont [F_sti_hlt, F_idle_loop] s;
     thread_block s }"

definition idle_sti_hlt :: "kstate \<Rightarrow> kstate option" where
  "idle_sti_hlt s = Some (s\<lparr>if_flag := True\<rparr>)"

subsection \<open>Exit\<close>

definition process_exit :: "kstate \<Rightarrow> kstate option" where
  "process_exit s = do {
     cur \<leftarrow> thread_current s;
     th \<leftarrow> threads s cur;
     let pd = pagedir th;
     if pd \<noteq> NULL then do {
       s \<leftarrow> upd_thread cur (\<lambda>th. th\<lparr>pagedir := NULL\<rparr>) s;
       Some (log_event (E_pagedir_destroy pd) (log_event (E_pagedir_activate NULL) s)) }
     else Some s }"

fun close_files :: "nat \<Rightarrow> nat \<Rightarrow> kstate \<Rightarrow> kstate option" where
  "close_files 0 i s = Some s"
| "close_files (Suc n) i s = do {
     cur \<leftarrow> thread_current s;
     th \<leftarrow> threads s cur;
     k_assert (i < length (files_table th));
     let f = files_table th ! i;
     s \<leftarrow> (if f \<noteq> NULL
           then upd_thread cur (\<lambda>th. th\<lparr>files_table := (files_table th)[i := NULL]\<rparr>) (log_event (E_file_close f) s)
           else Some s);
     close_files n (Suc i) s }"

definition thread_exit :: "kstate \<Rightarrow> kstate option" where
  "thread_exit s = do {
     k_assert (\<not> intr_context s);
     cur \<leftarrow> thread_current s;
     h \<leftarrow> holders s (lock_exec cur);
     push_kont ((if h = cur then [F_lock_release (lock_exec cur)] else []) @ [F_exit_user]) s }"

definition thread_exit_user :: "kstate \<Rightarrow> kstate option" where
  "thread_exit_user s = do {
     s \<leftarrow> (if \<not> userprog s then Some s else do {
       s \<leftarrow> process_exit s;
       cur \<leftarrow> thread_current s;
       th \<leftarrow> threads s cur;
       let file = file_cur th;
       k_assert (file \<noteq> NULL);
       let s = log_event (E_file_close file) (log_event (E_file_allow_write file) s);
       s \<leftarrow> close_files (nat (fd th - 1)) 0 s;
       Some (log_event E_free_files_table s) });
     cur \<leftarrow> thread_current s;
     push_kont [F_lock_release (lock_wait cur), F_exit_wait] s }"

definition thread_exit_wait :: "kstate \<Rightarrow> kstate option" where
  "thread_exit_wait s = do {
     cur \<leftarrow> thread_current s;
     th \<leftarrow> threads s cur;
     push_kont ((if exit_soon th then [] else [F_lock_acquire (lock_exit cur)]) @ [F_exit_off]) s }"

definition thread_exit_off :: "kstate \<Rightarrow> kstate option" where
  "thread_exit_off s = do {
     (_, s) \<leftarrow> intr_disable s;
     cur \<leftarrow> thread_current s;
     push_kont [F_lock_release (lock_exit2 cur), F_exit_die] s }"

definition thread_exit_die :: "kstate \<Rightarrow> kstate option" where
  "thread_exit_die s = do {
     cur \<leftarrow> thread_current s;
     k_assert (cur \<in> set (all_list s));
     let s = s\<lparr>all_list := remove1 cur (all_list s)\<rparr>;
     s \<leftarrow> upd_thread cur (\<lambda>th. th\<lparr>status := THREAD_DYING\<rparr>) s;
     schedule s }"

end
