(* ===== verification/Synch.thy ===== *)
theory Synch
  imports Thread
begin

text \<open>
  threads/synch.c: semaphores, locks and condition variables.  Waiting threads are suspended with a frame that
  continues the loop of \<open>sema_down\<close>; \<open>lock_acquire\<close> leaves a frame that stores the holder.  In \<open>sema_up\<close>
  the local \<^verbatim>\<open>pri_max\<close> is not initialised when nobody waits; its value is then \<open>stack_garbage\<close>.  The list of waiters of a semaphore
  in a released page consists of invalid pointers: following it faults.  The value of such a semaphore can be used.
\<close>

subsection \<open>Semaphores\<close>

definition set_sema :: "addr \<Rightarrow> semaphore \<Rightarrow> kstate \<Rightarrow> kstate" where
  "set_sema a sm s = s\<lparr>semas := (semas s)(a \<mapsto> sm)\<rparr>"

definition sema_init :: "addr \<Rightarrow> nat \<Rightarrow> kstate \<Rightarrow> kstate option" where
  "sema_init a v s = do {
     k_assert (a \<noteq> NULL);
     Some (set_sema a \<lparr>sema_value = v, waiters = []\<rparr> (s\<lparr>wiped := wiped s - {a}\<rparr>)) }"

definition sema_down_loop :: "addr \<Rightarrow> intr_level \<Rightarrow> kstate \<Rightarrow> kstate option" where
  "sema_down_loop a old_level s = do {
     sm \<leftarrow> semas s a;
     if sema_value sm = 0 then do {
       cur \<leftarrow> thread_current s;
       k_assert (a \<notin> wiped s);
       let s = set_sema a (sm\<lparr>waiters := waiters sm @ [cur]\<rparr>) s;
       s \<leftarrow> push_kont [F_sema_loop a old_level] s;
       thread_block s }
     else do {
       let s = set_sema a (sm\<lparr>sema_value := sema_value sm - 1\<rparr>) s;
       (_, s) \<leftarrow> intr_set_level old_level s;
       Some s } }"

definition sema_down :: "addr \<Rightarrow> kstate \<Rightarrow> kstate option" where
  "sema_down a s = do {
     k_assert (a \<noteq> NULL);
     k_assert (\<not> intr_context s);
     (old_level, s) \<leftarrow> intr_disable s;
     sema_down_loop a old_level s }"

definition sema_try_down :: "addr \<Rightarrow> kstate \<Rightarrow> (bool \<times> kstate) option" where
  "sema_try_down a s = do {
     k_assert (a \<noteq> NULL);
     (old_level, s) \<leftarrow> intr_disable s;
     sm \<leftarrow> semas s a;
     let (success, s) = (if sema_value sm > 0
       then (True, set_sema a (sm\<lparr>sema_value := sema_value sm - 1\<rparr>) s) else (False, s));
     (_, s) \<leftarrow> intr_set_level old_level s;
     Some (success, s) }"

fun max_waiter :: "kstate \<Rightarrow> addr list \<Rightarrow> addr \<times> int \<Rightarrow> (addr \<times> int) option" where
  "max_waiter s [] m = Some m"
| "max_waiter s (e # es) (max_elem, pri_max) = do {
     th \<leftarrow> threads s e;
     if priority th > pri_max then max_waiter s es (e, priority th)
     else max_waiter s es (max_elem, pri_max) }"

definition sema_up :: "addr \<Rightarrow> kstate \<Rightarrow> kstate option" where
  "sema_up a s = do {
     k_assert (a \<noteq> NULL);
     (old_level, s) \<leftarrow> intr_disable s;
     sm \<leftarrow> semas s a;
     (pri_max, s) \<leftarrow> (case waiters sm of
         [] \<Rightarrow> do { k_assert (a \<notin> wiped s); Some (stack_garbage s, s) }
       | w # ws \<Rightarrow> do {
           th \<leftarrow> threads s w;
           (max_elem, pri_max) \<leftarrow> max_waiter s (w # ws) (w, priority th);
           let s = set_sema a (sm\<lparr>waiters := remove1 max_elem (waiters sm)\<rparr>) s;
           s \<leftarrow> thread_unblock max_elem s;
           Some (pri_max, s) });
     sm \<leftarrow> semas s a;
     let s = set_sema a (sm\<lparr>sema_value := u32 (sema_value sm + 1)\<rparr>) s;
     (_, s) \<leftarrow> intr_set_level old_level s;
     push_kont [F_sema_up_yield pri_max] s }"

definition sema_up_yield :: "int \<Rightarrow> kstate \<Rightarrow> kstate option" where
  "sema_up_yield pri_max s = do {
     c \<leftarrow> thread_cur s;
     if pri_max > priority c \<and> intr_get_level s = INTR_ON then thread_yield s else Some s }"

subsection \<open>Locks\<close>

definition lock_held_by_current_thread :: "addr \<Rightarrow> kstate \<Rightarrow> bool option" where
  "lock_held_by_current_thread l s = do {
     k_assert (l \<noteq> NULL);
     h \<leftarrow> holders s l;
     cur \<leftarrow> thread_current s;
     Some (h = cur) }"

definition set_holder :: "addr \<Rightarrow> addr \<Rightarrow> kstate \<Rightarrow> kstate" where
  "set_holder l t s = s\<lparr>holders := (holders s)(l \<mapsto> t)\<rparr>"

definition lock_init :: "addr \<Rightarrow> kstate \<Rightarrow> kstate option" where
  "lock_init l s = do {
     k_assert (l \<noteq> NULL);
     sema_init (lock_sema l) 1 (set_holder l NULL s) }"

definition lock_acquire :: "addr \<Rightarrow> kstate \<Rightarrow> kstate option" where
  "lock_acquire l s = do {
     k_assert (l \<noteq> NULL);
     k_assert (\<not> intr_context s);
     held \<leftarrow> lock_held_by_current_thread l s;
     k_assert (\<not> held);
     push_kont [F_sema_down (lock_sema l), F_set_holder l (running_thread s)] s }"

definition lock_acquire_other :: "addr \<Rightarrow> addr \<Rightarrow> kstate \<Rightarrow> kstate option" where
  "lock_acquire_other l t s = do {
     k_assert (l \<noteq> NULL);
     k_assert (\<not> intr_context s);
     push_kont [F_sema_down (lock_sema l), F_set_holder l t] s }"

definition lock_try_acquire :: "addr \<Rightarrow> kstate \<Rightarrow> (bool \<times> kstate) option" where
  "lock_try_acquire l s = do {
     k_assert (l \<noteq> NULL);
     held \<leftarrow> lock_held_by_current_thread l s;
     k_assert (\<not> held);
     (success, s) \<leftarrow> sema_try_down (lock_sema l) s;
     if success then do {
       cur \<leftarrow> thread_current s;
       Some (True, set_holder l cur s) }
     else Some (False, s) }"

definition lock_release :: "addr \<Rightarrow> kstate \<Rightarrow> kstate option" where
  "lock_release l s = do {
     k_assert (l \<noteq> NULL);
     held \<leftarrow> lock_held_by_current_thread l s;
     k_assert held;
     push_kont [F_sema_up (lock_sema l)] (set_holder l NULL s) }"

subsection \<open>Condition variables\<close>

text \<open>\<open>waiter\<close> is the address of the semaphore in the \<^verbatim>\<open>struct semaphore_elem\<close> on the caller's stack.\<close>

definition cond_init :: "addr \<Rightarrow> kstate \<Rightarrow> kstate option" where
  "cond_init c s = do {
     k_assert (c \<noteq> NULL);
     Some (s\<lparr>conds := (conds s)(c \<mapsto> [])\<rparr>) }"

definition cond_wait :: "addr \<Rightarrow> addr \<Rightarrow> addr \<Rightarrow> kstate \<Rightarrow> kstate option" where
  "cond_wait c l waiter s = do {
     k_assert (c \<noteq> NULL);
     k_assert (l \<noteq> NULL);
     k_assert (\<not> intr_context s);
     held \<leftarrow> lock_held_by_current_thread l s;
     k_assert held;
     s \<leftarrow> sema_init waiter 0 s;
     ws \<leftarrow> conds s c;
     let s = s\<lparr>conds := (conds s)(c \<mapsto> ws @ [waiter])\<rparr>;
     push_kont [F_lock_release l, F_sema_down waiter, F_lock_acquire l] s }"

definition cond_signal :: "addr \<Rightarrow> addr \<Rightarrow> kstate \<Rightarrow> kstate option" where
  "cond_signal c l s = do {
     k_assert (c \<noteq> NULL);
     k_assert (l \<noteq> NULL);
     k_assert (\<not> intr_context s);
     held \<leftarrow> lock_held_by_current_thread l s;
     k_assert held;
     ws \<leftarrow> conds s c;
     (case ws of [] \<Rightarrow> Some s
      | w # ws \<Rightarrow> push_kont [F_sema_up w] (s\<lparr>conds := (conds s)(c \<mapsto> ws)\<rparr>)) }"

definition cond_broadcast :: "addr \<Rightarrow> addr \<Rightarrow> kstate \<Rightarrow> kstate option" where
  "cond_broadcast c l s = do {
     k_assert (c \<noteq> NULL);
     k_assert (l \<noteq> NULL);
     ws \<leftarrow> conds s c;
     if ws \<noteq> [] then push_kont [F_cond_signal c l, F_cond_broadcast c l] s else Some s }"

end
