(* ===== verification/Timer.thy ===== *)
theory Timer
  imports Synch
begin

text \<open>
  devices/timer.c: the tick counter, sleeping threads and the timer interrupt handler, the real-time delays and
  the calibration loop.  \<open>too_many_loops\<close> measures wall-clock time, so it is a parameter of \<open>timer_calibrate\<close>.
\<close>

subsection \<open>Sleeping\<close>

text \<open>\<open>alarm\<close> is the result of the call of \<open>malloc\<close>; a null pointer faults at the store through it.\<close>

definition timer_sleep :: "int \<Rightarrow> addr \<Rightarrow> kstate \<Rightarrow> kstate option" where
  "timer_sleep n alarm s = do {
     (start, s) \<leftarrow> timer_ticks s;
     push_kont [F_sleep_check n start alarm] s }"

definition timer_sleep_check :: "int \<Rightarrow> int \<Rightarrow> addr \<Rightarrow> kstate \<Rightarrow> kstate option" where
  "timer_sleep_check n start alarm s = do {
     (el, s) \<leftarrow> timer_elapsed start s;
     if el < n then do {
       (old_level, s) \<leftarrow> intr_disable s;
       k_assert (alarm \<noteq> NULL);
       cur \<leftarrow> thread_current s;
       let s = s\<lparr>list_alarm := list_alarm s @ [(s64 (n + start), cur)]\<rparr>;
       s \<leftarrow> push_kont [F_set_level old_level] s;
       thread_block s }
     else Some s }"

fun alarm_loop :: "(int \<times> addr) list \<Rightarrow> kstate \<Rightarrow> kstate option" where
  "alarm_loop [] s = Some s"
| "alarm_loop (e # es) s =
     (if fst e \<le> ticks s then do {
        s \<leftarrow> thread_unblock (snd e) s;
        s \<leftarrow> intr_yield_on_return s;
        alarm_loop es (s\<lparr>list_alarm := remove1 e (list_alarm s)\<rparr>) }
      else alarm_loop es s)"

definition timer_interrupt :: "kstate \<Rightarrow> kstate option" where
  "timer_interrupt s = do {
     let s = s\<lparr>ticks := s64 (ticks s + 1)\<rparr>;
     s \<leftarrow> thread_tick s;
     alarm_loop (list_alarm s) s }"

subsection \<open>Delays\<close>

function busy_wait :: "int \<Rightarrow> nat" where
  "busy_wait loops = (if loops > 0 then Suc (busy_wait (loops - 1)) else 0)"
  by auto
termination by (relation "measure nat") auto

declare busy_wait.simps [simp del]

definition real_time_delay :: "nat \<Rightarrow> int \<Rightarrow> int \<Rightarrow> nat option" where
  "real_time_delay loops_per_tick num denom = do {
     k_assert (denom smod 1000 = 0);
     k_assert (denom sdiv 1000 \<noteq> 0);
     Some (busy_wait (s64 (s64 (s64 (int loops_per_tick * num) sdiv 1000 * TIMER_FREQ) sdiv (denom sdiv 1000)))) }"

text \<open>The result is \<open>Inl\<close> of the state after \<open>timer_sleep\<close>, or \<open>Inr\<close> of the iterations busy-waited.\<close>

definition real_time_sleep :: "nat \<Rightarrow> int \<Rightarrow> int \<Rightarrow> addr \<Rightarrow> kstate \<Rightarrow> (kstate + nat) option" where
  "real_time_sleep loops_per_tick num denom alarm s = do {
     k_assert (denom \<noteq> 0);
     let n = s64 (num * TIMER_FREQ) sdiv denom;
     k_assert (intr_get_level s = INTR_ON);
     if n > 0 then do { s \<leftarrow> timer_sleep n alarm s; Some (Inl s) }
     else do { i \<leftarrow> real_time_delay loops_per_tick num denom; Some (Inr i) } }"

definition timer_msleep :: "nat \<Rightarrow> int \<Rightarrow> addr \<Rightarrow> kstate \<Rightarrow> (kstate + nat) option" where
  "timer_msleep lpt ms alarm s = real_time_sleep lpt ms 1000 alarm s"

definition timer_usleep :: "nat \<Rightarrow> int \<Rightarrow> addr \<Rightarrow> kstate \<Rightarrow> (kstate + nat) option" where
  "timer_usleep lpt us alarm s = real_time_sleep lpt us (1000 * 1000) alarm s"

definition timer_nsleep :: "nat \<Rightarrow> int \<Rightarrow> addr \<Rightarrow> kstate \<Rightarrow> (kstate + nat) option" where
  "timer_nsleep lpt ns alarm s = real_time_sleep lpt ns (1000 * 1000 * 1000) alarm s"

definition timer_mdelay :: "nat \<Rightarrow> int \<Rightarrow> nat option" where
  "timer_mdelay lpt ms = real_time_delay lpt ms 1000"

definition timer_udelay :: "nat \<Rightarrow> int \<Rightarrow> nat option" where
  "timer_udelay lpt us = real_time_delay lpt us (1000 * 1000)"

definition timer_ndelay :: "nat \<Rightarrow> int \<Rightarrow> nat option" where
  "timer_ndelay lpt ns = real_time_delay lpt ns (1000 * 1000 * 1000)"

subsection \<open>Calibration\<close>

partial_function (option) calibrate_double :: "(nat \<Rightarrow> bool) \<Rightarrow> nat \<Rightarrow> nat option" where
  "calibrate_double too_many loops_per_tick =
     (if \<not> too_many (u32 (loops_per_tick * 2)) then do {
        k_assert (u32 (loops_per_tick * 2) \<noteq> 0);
        calibrate_double too_many (u32 (loops_per_tick * 2)) }
      else Some loops_per_tick)"

partial_function (option) calibrate_refine :: "(nat \<Rightarrow> bool) \<Rightarrow> nat \<Rightarrow> nat \<Rightarrow> nat \<Rightarrow> nat option" where
  "calibrate_refine too_many high_bit test_bit loops_per_tick =
     (if test_bit \<noteq> high_bit div 2 ^ 10 then
        calibrate_refine too_many high_bit (test_bit div 2)
          (if \<not> too_many (or high_bit test_bit) then or loops_per_tick test_bit else loops_per_tick)
      else Some loops_per_tick)"

definition timer_calibrate :: "(nat \<Rightarrow> bool) \<Rightarrow> kstate \<Rightarrow> nat option" where
  "timer_calibrate too_many s = do {
     k_assert (intr_get_level s = INTR_ON);
     high_bit \<leftarrow> calibrate_double too_many (2 ^ 10);
     calibrate_refine too_many high_bit (high_bit div 2) high_bit }"

end
