(* ===== verification/Kernel.thy ===== *)
theory Kernel
  imports Timer
begin

text \<open>
  The kernel as a transition system: \<open>exec\<close> runs one frame of the running thread, a client function
  calls any routine of the thread system, and while interrupts are enabled the timer may interrupt between
  two frames.  \<open>intr_handler\<close> is the common interrupt entry of threads/interrupt.c; the frame it leaves is
  the return from the interrupt, which restores the interrupt flag.  \<open>thread_init\<close> and \<open>thread_start\<close>
  run their frames directly: at that point of the boot the timer is not yet running.
\<close>

fun exec :: "frame \<Rightarrow> kstate \<Rightarrow> kstate option" where
  "exec (F_set_level lv) s = do { (_, s) \<leftarrow> intr_set_level lv s; Some s }"
| "exec (F_kernel_thread func) s = kernel_thread func s"
| "exec (F_function (Idle a)) s = idle_start a s"
| "exec (F_function (Client n)) s = Some s"
| "exec F_idle_loop s = idle_loop s"
| "exec F_sti_hlt s = idle_sti_hlt s"
| "exec F_yield s = thread_yield s"
| "exec (F_set_priority p) s = thread_set_priority p s"
| "exec (F_set_nice n) s = thread_set_nice n s"
| "exec (F_sleep n a) s = timer_sleep n a s"
| "exec (F_sleep_check n start a) s = timer_sleep_check n start a s"
| "exec (F_create nm p func page) s = thread_create nm p func page s"
| "exec (F_push_all t) s = init_thread_push_all t s"
| "exec F_allocate_tid s = allocate_tid s"
| "exec F_next_tid s = allocate_next_tid s"
| "exec (F_return i) s = set_retval i s"
| "exec (F_set_tid t) s = do { c \<leftarrow> threads s (running_thread s); upd_thread t (\<lambda>th. th\<lparr>tid := retval c\<rparr>) s }"
| "exec (F_create_tail t func) s = thread_create_tail t func s"
| "exec F_exit s = thread_exit s"
| "exec F_exit_user s = thread_exit_user s"
| "exec F_exit_wait s = thread_exit_wait s"
| "exec F_exit_off s = thread_exit_off s"
| "exec F_exit_die s = thread_exit_die s"
| "exec (F_sema_init a v) s = sema_init a v s"
| "exec (F_sema_down a) s = sema_down a s"
| "exec (F_sema_loop a lv) s = sema_down_loop a lv s"
| "exec (F_sema_try_down a) s = do { (b, s) \<leftarrow> sema_try_down a s; set_retval (of_bool b) s }"
| "exec (F_sema_up a) s = sema_up a s"
| "exec (F_sema_up_yield p) s = sema_up_yield p s"
| "exec (F_lock_init l) s = lock_init l s"
| "exec (F_lock_acquire l) s = lock_acquire l s"
| "exec (F_lock_acquire_other l t) s = lock_acquire_other l t s"
| "exec (F_lock_try_acquire l) s = do { (b, s) \<leftarrow> lock_try_acquire l s; set_retval (of_bool b) s }"
| "exec (F_set_holder l t) s = Some (set_holder l t s)"
| "exec (F_lock_release l) s = lock_release l s"
| "exec (F_cond_wait c l w) s = cond_wait c l w s"
| "exec (F_cond_signal c l) s = cond_signal c l s"
| "exec (F_cond_broadcast c l) s = cond_broadcast c l s"

definition cur_kont :: "kstate \<Rightarrow> frame list" where
  "cur_kont s = (case threads s (running_thread s) of None \<Rightarrow> [] | Some th \<Rightarrow> kont th)"

definition set_kont :: "frame list \<Rightarrow> kstate \<Rightarrow> kstate option" where
  "set_kont k s = upd_thread (running_thread s) (\<lambda>th. th\<lparr>kont := k\<rparr>) s"

text \<open>One frame of the running thread.\<close>

definition run_frame :: "kstate \<Rightarrow> kstate option" where
  "run_frame s = (case cur_kont s of [] \<Rightarrow> None
     | f # k \<Rightarrow> do { s \<leftarrow> set_kont k s; exec f s })"

text \<open>Frames of the running thread until it has none left, at most \<open>n\<close>.\<close>

fun drain :: "nat \<Rightarrow> kstate \<Rightarrow> kstate option" where
  "drain 0 s = (if cur_kont s = [] then Some s else None)"
| "drain (Suc n) s = (if cur_kont s = [] then Some s else do { s \<leftarrow> run_frame s; drain n s })"

subsection \<open>Interrupts\<close>

text \<open>The message that \<open>unexpected_interrupt\<close> prints from time to time is left out.\<close>

definition unexpected_interrupt :: "nat \<Rightarrow> kstate \<Rightarrow> kstate" where
  "unexpected_interrupt vec_no s = s\<lparr>unexpected_cnt := (unexpected_cnt s)(vec_no := u32 (unexpected_cnt s vec_no + 1))\<rparr>"

definition intr_handler :: "nat \<Rightarrow> (nat \<Rightarrow> (kstate \<Rightarrow> kstate option) option) \<Rightarrow> kstate \<Rightarrow> kstate option" where
  "intr_handler vec_no intr_handlers s = do {
     let external = (0x20 \<le> vec_no \<and> vec_no < 0x30);
     s \<leftarrow> (if external then do {
         k_assert (intr_get_level s = INTR_OFF);
         k_assert (\<not> intr_context s);
         Some (s\<lparr>in_external_intr := True, yield_on_return := False\<rparr>) }
       else Some s);
     s \<leftarrow> (case intr_handlers vec_no of
         Some handler \<Rightarrow> handler s
       | None \<Rightarrow> if vec_no = 0x27 \<or> vec_no = 0x2f then Some s else Some (unexpected_interrupt vec_no s));
     if external then do {
       k_assert (intr_get_level s = INTR_OFF);
       k_assert (intr_context s);
       let s = s\<lparr>in_external_intr := False\<rparr>;
       if yield_on_return s then thread_yield s else Some s }
     else Some s }"

text \<open>The timer interrupt: the gate clears the interrupt flag, and the return from the interrupt sets it.\<close>

definition timer_irq :: "kstate \<Rightarrow> kstate option" where
  "timer_irq s = do {
     s \<leftarrow> push_kont [F_set_level INTR_ON] (s\<lparr>if_flag := False\<rparr>);
     intr_handler 0x20 (\<lambda>v. if v = 0x20 then Some timer_interrupt else None) s }"

subsection \<open>Start-up\<close>

definition set_ready_empty :: "kstate \<Rightarrow> kstate" where
  "set_ready_empty s = s\<lparr>ready_list := (\<lambda>i. if PRI_MIN \<le> i \<and> i \<le> PRI_MAX then [] else ready_list s i)\<rparr>"

definition thread_init :: "kstate \<Rightarrow> kstate option" where
  "thread_init s = do {
     k_assert (intr_get_level s = INTR_OFF);
     s \<leftarrow> lock_init tid_lock s;
     let s = set_ready_empty s;
     let s = s\<lparr>all_list := []\<rparr>;
     let s = (if thread_mlfqs s then s\<lparr>load_avg := fp_convert_to_fp 0\<rparr> else s);
     let s = s\<lparr>initial_thread := running_thread s\<rparr>;
     s \<leftarrow> init_thread (initial_thread s) ''main'' PRI_DEFAULT s;
     s \<leftarrow> drain 10 s;
     s \<leftarrow> upd_thread (initial_thread s) (\<lambda>th. th\<lparr>status := THREAD_RUNNING\<rparr>) s;
     s \<leftarrow> push_kont [F_allocate_tid, F_set_tid (initial_thread s)] s;
     drain 10 s }"

text \<open>\<open>thread_start\<close> up to the point where it waits for the idle thread: \<open>page\<close> is the idle thread's page
  and \<open>start_idle\<close> the semaphore on the stack.\<close>

definition thread_start :: "addr \<Rightarrow> addr \<Rightarrow> kstate \<Rightarrow> kstate option" where
  "thread_start page start_idle s = do {
     s \<leftarrow> sema_init start_idle 0 s;
     push_kont [F_create ''idle'' PRI_MIN (Idle start_idle) page, F_set_level INTR_ON, F_sema_down start_idle] s }"

end
