(* ===== verification/Sched_Inv.thy ===== *)
theory Sched_Inv
  imports Kernel
begin

text \<open>
  The invariant of the scheduler.  \<open>core\<close> speaks about an abstraction of the state: the status and
  priority of every thread, the place every waiting thread sits in, the running and the idle thread.  Each
  way in which the kernel changes this abstraction has a lemma \<open>core_*\<close>.  On the kernel's own states,
  \<open>schedule\<close>, \<open>thread_block\<close> and \<open>thread_yield\<close> are then shown to return (none of their assertions can
  fail) and to re-establish the invariant.
\<close>

subsection \<open>Places\<close>

text \<open>A thread that is not running sits in at most one place: a ready list, the waiters of a semaphore,
  the alarm list, or (a thread under construction) the stack of its creator.\<close>

datatype place = At_ready int | At_sema addr | At_alarm | At_create addr

fun create_target :: "frame \<Rightarrow> addr list" where
  "create_target (F_create_tail t func) = [t]"
| "create_target _ = []"

definition creating :: "frame list \<Rightarrow> addr list" where
  "creating k = concat (map create_target k)"

fun occ :: "kstate \<Rightarrow> place \<Rightarrow> addr list" where
  "occ s (At_ready i) = ready_list s i"
| "occ s (At_sema a) = (case semas s a of None \<Rightarrow> [] | Some sm \<Rightarrow> waiters sm)"
| "occ s At_alarm = map snd (list_alarm s)"
| "occ s (At_create b) = (case threads s b of None \<Rightarrow> [] | Some th \<Rightarrow> creating (kont th))"

type_synonym tview = "thread_status \<times> int \<times> int"

definition view :: "kstate \<Rightarrow> addr \<Rightarrow> tview option" where
  "view s t = map_option (\<lambda>th. (status th, priority th, magic th)) (threads s t)"

fun place_status :: "place \<Rightarrow> tview \<Rightarrow> bool" where
  "place_status (At_ready i) (st, p, m) \<longleftrightarrow> st = THREAD_READY \<and> p = i"
| "place_status _ (st, p, m) \<longleftrightarrow> st = THREAD_BLOCKED"

text \<open>The invariant on the view of the threads, the places, the running thread (\<open>None\<close> between the moment
  it gives up the CPU and the switch) and the idle thread.\<close>

definition core :: "(addr \<Rightarrow> tview option) \<Rightarrow> (place \<Rightarrow> addr list) \<Rightarrow> addr option \<Rightarrow> addr \<Rightarrow> bool" where
  "core v oc R idl \<longleftrightarrow>
     (\<forall>t st p m. v t = Some (st, p, m) \<longrightarrow> t \<noteq> NULL \<and> m = THREAD_MAGIC \<and> PRI_MIN \<le> p \<and> p \<le> PRI_MAX) \<and>
     (\<forall>t p m. v t = Some (THREAD_RUNNING, p, m) \<longrightarrow> R = Some t) \<and>
     (\<forall>t. R = Some t \<longrightarrow> (\<exists>p. v t = Some (THREAD_RUNNING, p, THREAD_MAGIC))) \<and>
     (\<forall>t p m. v t = Some (THREAD_READY, p, m) \<longrightarrow> t \<noteq> idl \<longrightarrow> t \<in> set (oc (At_ready p))) \<and>
     (\<forall>pl. distinct (oc pl)) \<and>
     (\<forall>pl pl' t. t \<in> set (oc pl) \<longrightarrow> t \<in> set (oc pl') \<longrightarrow> pl = pl') \<and>
     (\<forall>pl t. t \<in> set (oc pl) \<longrightarrow> t \<noteq> idl) \<and>
     (\<forall>pl t. t \<in> set (oc pl) \<longrightarrow> (\<exists>x. v t = Some x \<and> place_status pl x)) \<and>
     (\<exists>st p m. v idl = Some (st, p, m) \<and> st \<noteq> THREAD_DYING)"

lemma coreI:
  assumes "\<And>t st p m. v t = Some (st, p, m) \<Longrightarrow> t \<noteq> NULL \<and> m = THREAD_MAGIC \<and> PRI_MIN \<le> p \<and> p \<le> PRI_MAX"
    and "\<And>t p m. v t = Some (THREAD_RUNNING, p, m) \<Longrightarrow> R = Some t"
    and "\<And>t. R = Some t \<Longrightarrow> \<exists>p. v t = Some (THREAD_RUNNING, p, THREAD_MAGIC)"
    and "\<And>t p m. v t = Some (THREAD_READY, p, m) \<Longrightarrow> t \<noteq> idl \<Longrightarrow> t \<in> set (oc (At_ready p))"
    and "\<And>pl. distinct (oc pl)"
    and "\<And>pl pl' t. t \<in> set (oc pl) \<Longrightarrow> t \<in> set (oc pl') \<Longrightarrow> pl = pl'"
    and "\<And>pl t. t \<in> set (oc pl) \<Longrightarrow> t \<noteq> idl"
    and "\<And>pl t. t \<in> set (oc pl) \<Longrightarrow> \<exists>x. v t = Some x \<and> place_status pl x"
    and "\<exists>st p m. v idl = Some (st, p, m) \<and> st \<noteq> THREAD_DYING"
  shows "core v oc R idl"
  unfolding core_def using assms by blast

lemma coreD:
  assumes "core v oc R idl"
  shows core_info: "v t = Some (st, p, m) \<Longrightarrow> t \<noteq> NULL \<and> m = THREAD_MAGIC \<and> PRI_MIN \<le> p \<and> p \<le> PRI_MAX"
    and core_running: "v t = Some (THREAD_RUNNING, p, m) \<Longrightarrow> R = Some t"
    and core_running_ex: "R = Some t \<Longrightarrow> \<exists>p. v t = Some (THREAD_RUNNING, p, THREAD_MAGIC)"
    and core_ready: "v t = Some (THREAD_READY, p, m) \<Longrightarrow> t \<noteq> idl \<Longrightarrow> t \<in> set (oc (At_ready p))"
    and core_distinct: "distinct (oc pl)"
    and core_unique: "t \<in> set (oc pl) \<Longrightarrow> t \<in> set (oc pl') \<Longrightarrow> pl = pl'"
    and core_place: "t \<in> set (oc pl) \<Longrightarrow> t \<noteq> idl"
    and core_place_ex: "t \<in> set (oc pl) \<Longrightarrow> \<exists>x. v t = Some x \<and> place_status pl x"
    and core_idle: "\<exists>st p m. v idl = Some (st, p, m) \<and> st \<noteq> THREAD_DYING"
  using assms unfolding core_def by blast+

lemma core_no_place:
  assumes "core v oc R idl" "v t = Some (st, p, m)" "st = THREAD_RUNNING \<or> st = THREAD_DYING \<or> t = idl"
  shows "t \<notin> set (oc pl)"
  using core_place [OF assms(1), of t pl] core_place_ex [OF assms(1), of t pl] assms(2,3) by (cases pl) auto

text \<open>Changes of the state that keep the invariant.\<close>

lemma core_cur_free: assumes "core v oc (Some r) idl" shows "r \<notin> set (oc pl)"
  using core_no_place [OF assms] core_running_ex [OF assms] by blast

lemma core_only_running: assumes "core v oc (Some r) idl" "v t = Some (THREAD_RUNNING, p, m)" shows "t = r"
  using core_running [OF assms] by simp

lemma core_none_running: assumes "core v oc None idl" shows "v t \<noteq> Some (THREAD_RUNNING, p, m)"
  using core_running [OF assms] by fastforce

lemmas core_dests = core_info core_ready core_unique core_place core_place_ex

lemma core_stop:
  assumes c: "core v oc (Some r) idl" and "v r = Some (st, p, m)" "st' = THREAD_BLOCKED \<or> st' = THREAD_DYING \<and> r \<noteq> idl"
  shows "core (v(r \<mapsto> (st', p, m))) oc None idl"
  by (rule coreI) (use assms(2,3) core_idle [OF c] in \<open>auto split: if_splits
    simp: core_cur_free [OF c] core_distinct [OF c] dest: core_dests [OF c] core_only_running [OF c]\<close>)

lemma core_stop_park:
  assumes c: "core v oc (Some r) idl" and "v r = Some (st, p, m)" "r \<noteq> idl" "\<And>p m. place_status pl (THREAD_BLOCKED, p, m)"
  shows "core (v(r \<mapsto> (THREAD_BLOCKED, p, m))) (oc(pl := oc pl @ [r])) None idl"
  by (rule coreI) (use assms(2,3,4) core_idle [OF c] in \<open>auto split: if_splits
    simp: core_cur_free [OF c] core_distinct [OF c] dest: core_dests [OF c] core_only_running [OF c]\<close>)

lemma core_stop_ready:
  assumes c: "core v oc (Some r) idl" and "v r = Some (st, p, m)" "r \<noteq> idl"
  shows "core (v(r \<mapsto> (THREAD_READY, p, m))) (oc(At_ready p := oc (At_ready p) @ [r])) None idl"
  by (rule coreI) (use assms(2,3) core_idle [OF c] in \<open>auto split: if_splits
    simp: core_cur_free [OF c] core_distinct [OF c] dest: core_dests [OF c] core_only_running [OF c]\<close>)

lemma core_stop_idle:
  assumes c: "core v oc (Some r) idl" and "v r = Some (st, p, m)" "r = idl"
  shows "core (v(r \<mapsto> (THREAD_READY, p, m))) oc None idl"
  by (rule coreI) (use assms(2,3) core_cur_free [OF c] in \<open>auto split: if_splits
    simp: core_distinct [OF c] dest: core_dests [OF c] core_only_running [OF c]\<close>)

lemma core_run_ready:
  assumes c: "core v oc None idl" and oc: "oc (At_ready i) = t # ts" and v: "v t = Some (st, p, m)"
  shows "core (v(t \<mapsto> (THREAD_RUNNING, p, m))) (oc(At_ready i := ts)) (Some t) idl"
proof -
  have t: "t \<in> set (oc (At_ready i))" using oc by simp
  have u: "pl = At_ready i" if "t \<in> set (oc pl)" for pl using core_unique [OF c that t] .
  have d: "t \<notin> set ts" "distinct ts" using core_distinct [OF c, of "At_ready i"] oc by auto
  have sub: "x \<in> set (oc (At_ready i))" if "x \<in> set ts" for x using oc that by auto
  have ex: "\<exists>m'. v x = Some (THREAD_READY, i, m')" if "x \<in> set ts" for x
    using core_place_ex [OF c sub [OF that]] by auto
  have rd: "x \<in> set ts" if "v x = Some (THREAD_READY, i, m')" "x \<noteq> idl" "x \<noteq> t" for x m'
    using core_ready [OF c that(1,2)] oc that(3) by simp
  show ?thesis
    by (rule coreI) (use v d core_idle [OF c] core_place [OF c t] in \<open>auto split: if_splits
      simp: core_distinct [OF c] rd ex core_none_running [OF c] dest: core_dests [OF c] u sub\<close>)
qed

lemma core_run_idle:
  assumes c: "core v oc None idl" and v: "v idl = Some (st, p, m)"
  shows "core (v(idl \<mapsto> (THREAD_RUNNING, p, m))) oc (Some idl) idl"
  by (rule coreI) (use v core_no_place [OF c v] in \<open>auto split: if_splits
    simp: core_distinct [OF c] core_none_running [OF c] dest: core_dests [OF c]\<close>)

lemma core_unpark:
  assumes c: "core v oc R idl" and t: "t \<in> set (oc pl)" and "\<And>i. pl \<noteq> At_ready i"
  shows "core v (oc(pl := remove1 t (oc pl))) R idl"
    and "t \<notin> set ((oc(pl := remove1 t (oc pl))) pl')"
proof -
  have d: "set (remove1 t (oc pl)) = set (oc pl) - {t}" using core_distinct [OF c, of pl] by simp
  show "t \<notin> set ((oc(pl := remove1 t (oc pl))) pl')" using core_unique [OF c _ t] d by auto
  show "core v (oc(pl := remove1 t (oc pl))) R idl"
    by (rule coreI) (use assms(3) core_idle [OF c] core_running_ex [OF c] in \<open>auto split: if_splits
      simp: d core_distinct [OF c] dest: core_dests [OF c] core_running [OF c]\<close>)
qed

lemma core_unblock:
  assumes c: "core v oc R idl" and "v t = Some (THREAD_BLOCKED, p, m)" "t \<noteq> idl" "\<And>pl. t \<notin> set (oc pl)"
  shows "core (v(t \<mapsto> (THREAD_READY, p, m))) (oc(At_ready p := oc (At_ready p) @ [t])) R idl"
  by (rule coreI) (use assms(2-4) core_idle [OF c] core_running_ex [OF c] in \<open>auto split: if_splits
    simp: core_distinct [OF c] dest: core_dests [OF c] core_running [OF c]\<close>)

lemma core_free:
  assumes c: "core v oc R idl" and v: "v t = Some (THREAD_DYING, p, m)"
  shows "core (v(t := None)) oc R idl"
  by (rule coreI) (use v core_no_place [OF c v] core_idle [OF c] core_running_ex [OF c] in \<open>auto split: if_splits
    simp: core_distinct [OF c] dest: core_dests [OF c] core_running [OF c]\<close>)

lemma place_status_pri: "st \<noteq> THREAD_READY \<Longrightarrow> place_status pl (st, p, m) = place_status pl (st, q, m)"
  by (cases pl) auto

lemma core_set_pri:
  assumes c: "core v oc R idl" and "v t = Some (st, p, m)" "st \<noteq> THREAD_READY" "PRI_MIN \<le> q" "q \<le> PRI_MAX"
  shows "core (v(t \<mapsto> (st, q, m))) oc R idl"
proof -
  have pe: "place_status pl (st, q, m)" if "t \<in> set (oc pl)" for pl
    using core_place_ex [OF c that] assms(2) place_status_pri [OF assms(3), of pl p m q] by auto
  show ?thesis
    by (rule coreI) (use assms(2-5) core_idle [OF c] core_running_ex [OF c] in \<open>auto split: if_splits
      simp: core_distinct [OF c] pe dest: core_dests [OF c] core_running [OF c]\<close>)
qed

lemma core_move_ready:
  assumes c: "core v oc R idl" and v: "v t = Some (THREAD_READY, p, m)" and "t \<noteq> idl" "PRI_MIN \<le> q" "q \<le> PRI_MAX" "p \<noteq> q"
  shows "core (v(t \<mapsto> (THREAD_READY, q, m)))
    (oc(At_ready p := remove1 t (oc (At_ready p)), At_ready q := oc (At_ready q) @ [t])) R idl"
proof -
  have t: "t \<in> set (oc (At_ready p))" using core_ready [OF c v assms(3)] .
  have u: "pl = At_ready p" if "t \<in> set (oc pl)" for pl using core_unique [OF c that t] .
  have d: "set (remove1 t (oc (At_ready p))) = set (oc (At_ready p)) - {t}" using core_distinct [OF c] by simp
  have nq: "t \<notin> set (oc (At_ready q))" using u [of "At_ready q"] assms(6) by auto
  show ?thesis
    by (rule coreI) (use v assms(3-6) nq core_idle [OF c] core_running_ex [OF c] in \<open>auto split: if_splits
      simp: d core_distinct [OF c] dest: core_dests [OF c] core_running [OF c] u\<close>)
qed

lemma core_new:
  assumes c: "core v oc R idl" and v: "v t = None" and "t \<noteq> NULL" "PRI_MIN \<le> p" "p \<le> PRI_MAX"
  shows "core (v(t \<mapsto> (THREAD_BLOCKED, p, THREAD_MAGIC))) (oc(At_create r := t # oc (At_create r))) R idl"
proof -
  have nop: "t \<notin> set (oc pl)" for pl using core_place_ex [OF c] v by fastforce
  have "t \<noteq> idl" using core_idle [OF c] v by auto
  then show ?thesis
    by (intro coreI) (use v assms(3-5) nop core_idle [OF c] core_running_ex [OF c] in \<open>auto split: if_splits
      simp: core_distinct [OF c] dest: core_dests [OF c] core_running [OF c]\<close>)
qed

lemma core_shrink:
  assumes c: "core v oc R idl" and "set xs \<subseteq> set (oc pl)" "distinct xs" "\<And>i. pl \<noteq> At_ready i"
  shows "core v (oc(pl := xs)) R idl"
  by (rule coreI) (use assms(2-4) core_idle [OF c] core_running_ex [OF c] in \<open>auto split: if_splits
    simp: core_distinct [OF c] dest: core_dests [OF c] core_running [OF c] dest!: subsetD\<close>)

lemma core_thin:
  assumes c: "core v oc R idl" and t: "\<And>pl. oc' pl = oc pl \<or> oc' pl = []" and r: "\<And>i. oc' (At_ready i) = oc (At_ready i)"
  shows "core v oc' R idl"
proof -
  have s: "x \<in> set (oc pl)" if "x \<in> set (oc' pl)" for x pl using t [of pl] that by auto
  have d: "distinct (oc' pl)" for pl using t [of pl] core_distinct [OF c, of pl] by auto
  show ?thesis
    by (rule coreI) (use core_idle [OF c] core_running_ex [OF c] in \<open>auto simp: r d dest: core_dests [OF c] core_running [OF c] dest!: s\<close>)
qed

subsection \<open>The invariant on kernel states\<close>

definition kcore :: "kstate \<Rightarrow> addr option \<Rightarrow> bool" where
  "kcore s R \<longleftrightarrow> core (view s) (occ s) R (idle_thread s)"

definition tview :: "thread \<Rightarrow> tview" where
  "tview th = (status th, priority th, magic th)"

lemma view_Some [simp]: "threads s t = Some th \<Longrightarrow> view s t = Some (tview th)"
  by (simp add: view_def tview_def)

lemma view_SomeD: "view s t = Some x \<Longrightarrow> \<exists>th. threads s t = Some th \<and> tview th = x"
  by (auto simp: view_def tview_def)

lemma view_None [simp]: "view s t = None \<longleftrightarrow> threads s t = None"
  by (simp add: view_def)

lemma view_threads [simp]:
  "view (s\<lparr>threads := (threads s)(t \<mapsto> th)\<rparr>) = (view s)(t \<mapsto> tview th)"
  "view (s\<lparr>threads := (threads s)(t := None)\<rparr>) = (view s)(t := None)"
  by (auto simp: view_def tview_def)

lemma view_cong: "threads s' = threads s \<Longrightarrow> view s' = view s"
  by (simp add: view_def fun_eq_iff)

lemma occ_cong:
  assumes "threads s' = threads s" "ready_list s' = ready_list s" "semas s' = semas s" "list_alarm s' = list_alarm s"
  shows "occ s' = occ s"
proof
  fix pl show "occ s' pl = occ s pl" using assms by (cases pl) simp_all
qed

lemma occ_ready [simp]: "occ (s\<lparr>ready_list := (ready_list s)(p := xs)\<rparr>) = (occ s)(At_ready p := xs)"
  and occ_sema [simp]: "occ (s\<lparr>semas := (semas s)(a \<mapsto> sm)\<rparr>) = (occ s)(At_sema a := waiters sm)"
  and occ_alarm [simp]: "occ (s\<lparr>list_alarm := al\<rparr>) = (occ s)(At_alarm := map snd al)"
  and occ_threads [simp]:
    "occ (s\<lparr>threads := (threads s)(t \<mapsto> th)\<rparr>) = (occ s)(At_create t := creating (kont th))"
    "occ (s\<lparr>threads := (threads s)(t := None)\<rparr>) = (occ s)(At_create t := [])"
proof -
  have "occ (s\<lparr>ready_list := (ready_list s)(p := xs)\<rparr>) pl = ((occ s)(At_ready p := xs)) pl"
    "occ (s\<lparr>semas := (semas s)(a \<mapsto> sm)\<rparr>) pl = ((occ s)(At_sema a := waiters sm)) pl"
    "occ (s\<lparr>list_alarm := al\<rparr>) pl = ((occ s)(At_alarm := map snd al)) pl"
    "occ (s\<lparr>threads := (threads s)(t \<mapsto> th)\<rparr>) pl = ((occ s)(At_create t := creating (kont th))) pl"
    "occ (s\<lparr>threads := (threads s)(t := None)\<rparr>) pl = ((occ s)(At_create t := [])) pl" for pl
    by (cases pl; simp)+
  then show "occ (s\<lparr>ready_list := (ready_list s)(p := xs)\<rparr>) = (occ s)(At_ready p := xs)"
    "occ (s\<lparr>semas := (semas s)(a \<mapsto> sm)\<rparr>) = (occ s)(At_sema a := waiters sm)"
    "occ (s\<lparr>list_alarm := al\<rparr>) = (occ s)(At_alarm := map snd al)"
    "occ (s\<lparr>threads := (threads s)(t \<mapsto> th)\<rparr>) = (occ s)(At_create t := creating (kont th))"
    "occ (s\<lparr>threads := (threads s)(t := None)\<rparr>) = (occ s)(At_create t := [])"
    by blast+
qed

lemma kcore_cong:
  assumes "threads s' = threads s" "ready_list s' = ready_list s" "semas s' = semas s"
    "list_alarm s' = list_alarm s" "idle_thread s' = idle_thread s"
  shows "kcore s' R = kcore s R"
  using view_cong [OF assms(1)] occ_cong [OF assms(1-4)] assms(5) by (simp add: kcore_def)

lemma kcore_upd_same:
  assumes "kcore s R" "threads s t = Some th" "tview th' = tview th"
    "set (creating (kont th')) \<subseteq> set (creating (kont th))" "distinct (creating (kont th'))"
  shows "kcore (s\<lparr>threads := (threads s)(t \<mapsto> th')\<rparr>) R"
proof -
  have "(view s)(t \<mapsto> tview th') = view s" using assms(2,3) by (auto simp: fun_eq_iff)
  moreover have "core (view s) ((occ s)(At_create t := creating (kont th'))) R (idle_thread s)"
    using assms by (intro core_shrink) (auto simp: kcore_def)
  ultimately show ?thesis by (simp add: kcore_def)
qed

lemma kcore_distinct_creating: "kcore s R \<Longrightarrow> threads s t = Some th \<Longrightarrow> distinct (creating (kont th))"
  using core_distinct [of "view s" "occ s" R "idle_thread s" "At_create t"] by (simp add: kcore_def)

lemma creating_simps [simp]:
  "creating [] = []" "creating (f # k) = create_target f @ creating k" "creating (k @ k') = creating k @ creating k'"
  by (simp_all add: creating_def)

lemma upd_thread_Some:
  "upd_thread t f s = Some s' \<longleftrightarrow> (\<exists>th. threads s t = Some th \<and> s' = s\<lparr>threads := (threads s)(t \<mapsto> f th)\<rparr>)"
  by (auto simp: upd_thread_def split: option.splits)

lemma kcore_upd_thread:
  assumes "kcore s R" "upd_thread t f s = Some s'" "\<And>th. tview (f th) = tview th" "\<And>th. kont (f th) = kont th"
  shows "kcore s' R"
  using assms kcore_upd_same [OF assms(1)] kcore_distinct_creating [OF assms(1)]
  by (auto simp: upd_thread_Some)

text \<open>\<open>shape s s'\<close>: the same threads run and idle, with the same stack below what was pushed.\<close>

lemma push_kont_Some:
  "push_kont fs s = Some s' \<longleftrightarrow> (\<exists>th. threads s (running_thread s) = Some th \<and>
     s' = s\<lparr>threads := (threads s)(running_thread s \<mapsto> th\<lparr>kont := fs @ kont th\<rparr>)\<rparr>)"
  by (simp add: push_kont_def upd_thread_Some)

lemma kcore_push_kont:
  assumes "kcore s R" "push_kont fs s = Some s'" "creating fs = []"
  shows "kcore s' R"
  using assms kcore_upd_same [OF assms(1)] kcore_distinct_creating [OF assms(1)]
  by (auto simp: push_kont_Some tview_def)

subsection \<open>The scheduler\<close>

lemma next_loop_cases:
  obtains (ready) i t ts where "i < n" "ready_list s (int i) = t # ts" "\<And>j. i < j \<Longrightarrow> j < n \<Longrightarrow> ready_list s (int j) = []"
      "next_loop n s = (t, s\<lparr>ready_list := (ready_list s)(int i := ts)\<rparr>)"
    | (idle) "\<And>j. j < n \<Longrightarrow> ready_list s (int j) = []" "next_loop n s = (idle_thread s, s)"
proof (induction n arbitrary: thesis)
  case 0 then show ?case by simp
next
  case (Suc n)
  show ?case
  proof (cases "ready_list s (int n)")
    case Nil
    show ?thesis
    proof (rule Suc.IH)
      fix i t ts assume "i < n" "ready_list s (int i) = t # ts" "\<And>j. i < j \<Longrightarrow> j < n \<Longrightarrow> ready_list s (int j) = []"
        "next_loop n s = (t, s\<lparr>ready_list := (ready_list s)(int i := ts)\<rparr>)"
      then show thesis using Nil by (intro Suc.prems(1) [of i t ts]) (auto simp: less_Suc_eq fun_upd_def)
    next
      assume "\<And>j. j < n \<Longrightarrow> ready_list s (int j) = []" "next_loop n s = (idle_thread s, s)"
      then show thesis using Nil Suc.prems(2) by (auto simp: less_Suc_eq)
    qed
  next
    case (Cons t ts)
    then show ?thesis by (intro Suc.prems(1) [of n t ts]) (auto simp: fun_upd_def)
  qed
qed

lemma next_thread_cases:
  obtains (ready) i t ts where "PRI_MIN \<le> i" "i \<le> PRI_MAX" "ready_list s i = t # ts"
      "\<And>j. i < j \<Longrightarrow> j \<le> PRI_MAX \<Longrightarrow> ready_list s j = []"
      "next_thread_to_run s = (t, s\<lparr>ready_list := (ready_list s)(i := ts)\<rparr>)"
    | (idle) "\<And>j. PRI_MIN \<le> j \<Longrightarrow> j \<le> PRI_MAX \<Longrightarrow> ready_list s j = []"
      "next_thread_to_run s = (idle_thread s, s)"
proof (rule next_loop_cases [of "nat (PRI_MAX + 1)" s])
  fix i t ts assume a: "i < nat (PRI_MAX + 1)" "ready_list s (int i) = t # ts"
    "\<And>j. i < j \<Longrightarrow> j < nat (PRI_MAX + 1) \<Longrightarrow> ready_list s (int j) = []"
    "next_loop (nat (PRI_MAX + 1)) s = (t, s\<lparr>ready_list := (ready_list s)(int i := ts)\<rparr>)"
  have "ready_list s j = []" if "int i < j" "j \<le> PRI_MAX" for j
    using a(3) [of "nat j"] that by simp
  then show thesis using a ready [of "int i" t ts] by (simp add: next_thread_to_run_def pri_consts)
next
  assume a: "\<And>j. j < nat (PRI_MAX + 1) \<Longrightarrow> ready_list s (int j) = []"
    "next_loop (nat (PRI_MAX + 1)) s = (idle_thread s, s)"
  have "ready_list s j = []" if "PRI_MIN \<le> j" "j \<le> PRI_MAX" for j
    using a(1) [of "nat j"] that by (simp add: pri_consts)
  then show thesis using a(2) idle by (simp add: next_thread_to_run_def)
qed

lemma is_thread_core: "kcore s R \<Longrightarrow> threads s t = Some th \<Longrightarrow> is_thread t s"
  using core_info [of "view s" "occ s" R "idle_thread s" t] by (auto simp: kcore_def is_thread_def tview_def)

text \<open>What a switch changes: the statuses, the head of a ready list, and the thread that is freed.\<close>

definition same_locks :: "kstate \<Rightarrow> kstate \<Rightarrow> bool" where
  "same_locks s s' \<longleftrightarrow> semas s' = semas s \<and> holders s' = holders s \<and> conds s' = conds s \<and> wiped s' = wiped s"

definition cur_dying :: "kstate \<Rightarrow> bool" where
  "cur_dying s \<longleftrightarrow> (\<exists>c. threads s (running_thread s) = Some c \<and> status c = THREAD_DYING)"

lemma wipe_page_simps [simp]:
  "threads (wipe_page t s) = threads s" "ready_list (wipe_page t s) = ready_list s" "list_alarm (wipe_page t s) = list_alarm s"
  "idle_thread (wipe_page t s) = idle_thread s" "running_thread (wipe_page t s) = running_thread s" "if_flag (wipe_page t s) = if_flag s"
  "in_external_intr (wipe_page t s) = in_external_intr s" "all_list (wipe_page t s) = all_list s" "ticks (wipe_page t s) = ticks s"
  by (simp_all add: wipe_page_def)

definition switched :: "kstate \<Rightarrow> kstate \<Rightarrow> bool" where
  "switched s s' \<longleftrightarrow> idle_thread s' = idle_thread s \<and> in_external_intr s' = in_external_intr s \<and>
     if_flag s' = if_flag s \<and> (same_locks s s' \<or> cur_dying s \<and> same_locks (wipe_page (running_thread s) s) s') \<and>
     list_alarm s' = list_alarm s \<and> all_list s' = all_list s \<and> ticks s' = ticks s \<and>
     (\<forall>t. threads s' t = None \<longrightarrow> threads s t = None \<or>
        (t = running_thread s \<and> (\<exists>th. threads s t = Some th \<and> status th = THREAD_DYING))) \<and>
     (\<forall>t th'. threads s' t = Some th' \<longrightarrow> (\<exists>th st. threads s t = Some th \<and> th' = th\<lparr>status := st\<rparr> \<and> (st = status th \<or> st = THREAD_RUNNING)))"

definition resume :: "addr \<Rightarrow> thread \<Rightarrow> kevent list \<Rightarrow> kstate \<Rightarrow> kstate" where
  "resume t th ev s = s\<lparr>threads := (threads s)(t \<mapsto> th\<lparr>status := THREAD_RUNNING\<rparr>), thread_ticks := 0, events := ev\<rparr>"

lemma schedule_tail_eq:
  assumes "if_flag s = False" "threads s (running_thread s) = Some th" "is_thread (running_thread s) s"
    and "prev \<noteq> NULL \<Longrightarrow> prev \<noteq> running_thread s \<and> threads s prev = Some p"
  shows "\<exists>ev. thread_schedule_tail prev s = Some (if prev \<noteq> NULL \<and> status p = THREAD_DYING \<and> prev \<noteq> initial_thread s
    then palloc_free_thread prev (resume (running_thread s) th ev s) else resume (running_thread s) th ev s)"
proof -
  have "process_activate (resume (running_thread s) th (events s) s) =
    Some (resume (running_thread s) th (events s @ [E_pagedir_activate (pagedir th), E_tss_update]) s)"
    using assms(3) by (simp add: process_activate_def resume_def thread_cur_def thread_current_def is_thread_def
      log_event_def assms(2))
  then have a: "process_activate (s\<lparr>threads := (threads s)(running_thread s \<mapsto> th\<lparr>status := THREAD_RUNNING\<rparr>), thread_ticks := 0\<rparr>) =
    Some (resume (running_thread s) th (events s @ [E_pagedir_activate (pagedir th), E_tss_update]) s)"
    by (simp add: resume_def)
  have u: "upd_thread (running_thread s) (\<lambda>th. th\<lparr>status := THREAD_RUNNING\<rparr>) s =
    Some (s\<lparr>threads := (threads s)(running_thread s \<mapsto> th\<lparr>status := THREAD_RUNNING\<rparr>)\<rparr>)"
    using assms(2) by (simp add: upd_thread_def)
  show ?thesis
  proof (cases "userprog s")
    case True
    then show ?thesis using assms(1,4) a u
      by (intro exI [of _ "events s @ [E_pagedir_activate (pagedir th), E_tss_update]"])
        (auto simp: thread_schedule_tail_def intr_get_level_def Let_def, auto simp: resume_def)
  next
    case False
    then show ?thesis using assms(1,4) u
      by (intro exI [of _ "events s"]) (auto simp: thread_schedule_tail_def intr_get_level_def Let_def resume_def)
  qed
qed


lemma kcore_resume_ready:
  assumes "kcore s None" "ready_list s i = t # ts" "threads s t = Some th"
  shows "kcore (resume t th ev (s\<lparr>ready_list := (ready_list s)(i := ts), running_thread := r\<rparr>)) (Some t)"
proof -
  obtain st p m where tv: "tview th = (st, p, m)" by (cases "tview th") auto
  let ?s = "s\<lparr>ready_list := (ready_list s)(i := ts), threads := (threads s)(t \<mapsto> th\<lparr>status := THREAD_RUNNING\<rparr>)\<rparr>"
  have "core ((view s)(t \<mapsto> (THREAD_RUNNING, p, m))) ((occ s)(At_ready i := ts)) (Some t) (idle_thread s)"
    using assms tv by (intro core_run_ready) (auto simp: kcore_def)
  moreover have "view ?s = (view s)(t \<mapsto> (THREAD_RUNNING, p, m))"
    using view_threads(1) [of "s\<lparr>ready_list := (ready_list s)(i := ts)\<rparr>" t] tv view_cong [of "s\<lparr>ready_list := (ready_list s)(i := ts)\<rparr>" s]
    by (simp add: tview_def)
  moreover have "occ ?s = (occ s)(At_ready i := ts)"
    using occ_threads(1) [of "s\<lparr>ready_list := (ready_list s)(i := ts)\<rparr>" t "th\<lparr>status := THREAD_RUNNING\<rparr>"] assms(3)
    by (auto simp: fun_eq_iff)
  ultimately have "kcore ?s (Some t)" by (simp add: kcore_def)
  then show ?thesis using kcore_cong [of "resume t th ev (s\<lparr>ready_list := (ready_list s)(i := ts), running_thread := r\<rparr>)" ?s]
    by (simp add: resume_def)
qed

lemma kcore_resume_idle:
  assumes "kcore s None" "threads s (idle_thread s) = Some th"
  shows "kcore (resume (idle_thread s) th ev (s\<lparr>running_thread := r\<rparr>)) (Some (idle_thread s))"
proof -
  let ?t = "idle_thread s"
  obtain st p m where tv: "tview th = (st, p, m)" by (cases "tview th") auto
  let ?s = "s\<lparr>threads := (threads s)(?t \<mapsto> th\<lparr>status := THREAD_RUNNING\<rparr>)\<rparr>"
  have "core ((view s)(?t \<mapsto> (THREAD_RUNNING, p, m))) (occ s) (Some ?t) ?t"
    using assms tv by (intro core_run_idle) (auto simp: kcore_def)
  moreover have "tview (th\<lparr>status := THREAD_RUNNING\<rparr>) = (THREAD_RUNNING, p, m)" using tv by (simp add: tview_def)
  moreover have "occ ?s = occ s" using assms(2) by (auto simp: fun_eq_iff)
  ultimately have "kcore ?s (Some ?t)" by (simp add: kcore_def)
  then show ?thesis using kcore_cong [of "resume ?t th ev (s\<lparr>running_thread := r\<rparr>)" ?s] by (simp add: resume_def)
qed

lemma kcore_free:
  assumes "kcore s R" "threads s t = Some th" "status th = THREAD_DYING"
  shows "kcore (palloc_free_thread t s) R"
proof -
  have "core ((view s)(t := None)) (occ s) R (idle_thread s)"
    using assms by (intro core_free [of _ _ _ _ _ "priority th" "magic th"]) (auto simp: kcore_def tview_def)
  then have "core ((view s)(t := None)) ((occ s)(At_create t := [])) R (idle_thread s)"
    by (rule core_shrink) auto
  then have k: "core (view s1) (occ s1) R (idle_thread s1)" if "s1 = s\<lparr>threads := (threads s)(t := None)\<rparr>" for s1
    using that by simp
  define s1 where "s1 = s\<lparr>threads := (threads s)(t := None)\<rparr>"
  have "occ (wipe_page t s1) pl = occ s1 pl \<or> occ (wipe_page t s1) pl = []" for pl
    by (cases pl) (auto simp: wipe_page_def split: option.splits)
  then have "core (view s1) (occ (wipe_page t s1)) R (idle_thread s1)" by (intro core_thin [OF k [OF s1_def]]) simp_all
  then have "kcore (wipe_page t s1) R" using view_cong [of "wipe_page t s1" s1] by (simp add: kcore_def)
  then show ?thesis using kcore_cong [of "palloc_free_thread t s" "wipe_page t s1"]
    by (simp add: palloc_free_thread_def log_event_def s1_def)
qed

lemma switched_resume:
  assumes "threads s t = Some th"
  shows "switched s (resume t th ev (s\<lparr>ready_list := rl, running_thread := r\<rparr>))" "same_locks s (resume t th ev (s\<lparr>ready_list := rl, running_thread := r\<rparr>))"
proof -
  show k: "same_locks s (resume t th ev (s\<lparr>ready_list := rl, running_thread := r\<rparr>))" by (simp add: same_locks_def resume_def)
  show "switched s (resume t th ev (s\<lparr>ready_list := rl, running_thread := r\<rparr>))"
  unfolding switched_def
proof (intro conjI allI impI)
  fix t' th' assume "threads (resume t th ev (s\<lparr>ready_list := rl, running_thread := r\<rparr>)) t' = Some th'"
  then show "\<exists>th st. threads s t' = Some th \<and> th' = th\<lparr>status := st\<rparr> \<and> (st = status th \<or> st = THREAD_RUNNING)"
    using assms by (cases "t' = t") (auto simp: resume_def intro: exI [of _ "status th'"])
qed (use assms k in \<open>auto simp: resume_def split: if_splits\<close>)
qed

lemma switched_free:
  assumes "switched s s'" "threads s (running_thread s) = Some c" "status c = THREAD_DYING" "same_locks s s'"
  shows "switched s (palloc_free_thread (running_thread s) s')"
proof -
  have "same_locks (wipe_page (running_thread s) s) (palloc_free_thread (running_thread s) s')"
    using assms(4) by (simp add: same_locks_def palloc_free_thread_def log_event_def wipe_page_def cong: if_cong)
  moreover have "cur_dying s" using assms(2,3) by (simp add: cur_dying_def)
  ultimately show ?thesis using assms by (auto simp: switched_def palloc_free_thread_def log_event_def)
qed

lemma schedule_to:
  assumes nx: "next_thread_to_run s = (t, s\<lparr>ready_list := rl\<rparr>)" and th: "threads s t = Some th"
    and k: "\<And>ev. kcore (resume t th ev (s\<lparr>ready_list := rl, running_thread := t\<rparr>)) (Some t)"
    and off: "if_flag s = False" and c: "threads s (running_thread s) = Some c" and nr: "status c \<noteq> THREAD_RUNNING"
    and it: "is_thread t s"
  shows "\<exists>s'. schedule s = Some s' \<and> kcore s' (Some (running_thread s')) \<and> switched s s' \<and> running_thread s' = t"
proof -
  let ?s = "s\<lparr>ready_list := rl, running_thread := t\<rparr>" and ?p = "if running_thread s = t then NULL else running_thread s"
  have eq: "schedule s = thread_schedule_tail ?p ?s"
    using nx off c nr it by (auto simp: schedule_def intr_get_level_def is_thread_def Let_def)
  obtain ev where ev: "thread_schedule_tail ?p ?s = Some (if ?p \<noteq> NULL \<and> status c = THREAD_DYING \<and> ?p \<noteq> initial_thread s
      then palloc_free_thread ?p (resume t th ev ?s) else resume t th ev ?s)"
  proof -
    have "?p \<noteq> NULL \<Longrightarrow> ?p \<noteq> running_thread ?s \<and> threads ?s ?p = Some c" using c by (auto split: if_splits)
    moreover have "if_flag ?s = False" "threads ?s (running_thread ?s) = Some th" "is_thread (running_thread ?s) ?s"
      using off th it by (simp_all add: is_thread_def)
    ultimately have "\<exists>ev. thread_schedule_tail ?p ?s = Some (if ?p \<noteq> NULL \<and> status c = THREAD_DYING \<and> ?p \<noteq> initial_thread ?s
      then palloc_free_thread ?p (resume (running_thread ?s) th ev ?s) else resume (running_thread ?s) th ev ?s)"
      using schedule_tail_eq [of ?s th ?p c] by blast
    moreover have "running_thread ?s = t" "initial_thread ?s = initial_thread s" by simp_all
    ultimately show ?thesis using that by metis
  qed
  show ?thesis
  proof (cases "?p \<noteq> NULL \<and> status c = THREAD_DYING \<and> ?p \<noteq> initial_thread s")
    case True
    then have p: "?p = running_thread s" "running_thread s \<noteq> t" by (auto split: if_splits)
    have "threads (resume t th ev ?s) (running_thread s) = Some c" using p(2) c by (simp add: resume_def)
    then have "kcore (palloc_free_thread (running_thread s) (resume t th ev ?s)) (Some t)"
      using kcore_free [OF k] True by blast
    moreover have "switched s (palloc_free_thread (running_thread s) (resume t th ev ?s))"
      using switched_free [OF switched_resume(1) [OF th] c _ switched_resume(2) [OF th]] True by blast
    moreover have "schedule s = Some (palloc_free_thread (running_thread s) (resume t th ev ?s))"
      using ev eq True p(1) by simp
    ultimately show ?thesis by (auto simp: palloc_free_thread_def log_event_def resume_def)
  next
    case False
    then have "schedule s = Some (resume t th ev ?s)" using ev eq by auto
    then show ?thesis using k [of ev] switched_resume(1) [OF th, where ev = ev and rl = rl and r = t] by (auto simp: resume_def)
  qed
qed

lemma schedule_ok:
  assumes k: "kcore s None" and off: "if_flag s = False" and c: "threads s (running_thread s) = Some c"
  shows "\<exists>s'. schedule s = Some s' \<and> kcore s' (Some (running_thread s')) \<and> switched s s' \<and>
    running_thread s' = fst (next_thread_to_run s)"
proof -
  have co: "core (view s) (occ s) None (idle_thread s)" using k by (simp add: kcore_def)
  have nr: "status c \<noteq> THREAD_RUNNING"
    using core_none_running [OF co, of "running_thread s"] c by (auto simp: tview_def)
  show ?thesis
  proof (rule next_thread_cases [of s])
    fix i t ts assume a: "ready_list s i = t # ts" "next_thread_to_run s = (t, s\<lparr>ready_list := (ready_list s)(i := ts)\<rparr>)"
    then obtain th where th: "threads s t = Some th"
      using core_place_ex [OF co, of t "At_ready i"] view_SomeD by fastforce
    show ?thesis
      using schedule_to [OF a(2) th kcore_resume_ready [OF k a(1) th] off c nr is_thread_core [OF k th]] a(2) by simp
  next
    assume a: "next_thread_to_run s = (idle_thread s, s)"
    then have a': "next_thread_to_run s = (idle_thread s, s\<lparr>ready_list := ready_list s\<rparr>)" by simp
    obtain th where th: "threads s (idle_thread s) = Some th"
      using core_idle [OF co] view_SomeD by fastforce
    show ?thesis
      using schedule_to [OF a' th _ off c nr is_thread_core [OF k th]] kcore_resume_idle [OF k th] a by simp
  qed
qed

subsection \<open>Giving up the CPU\<close>

lemma kcore_running: "kcore s (Some r) \<Longrightarrow> \<exists>c. threads s r = Some c \<and> status c = THREAD_RUNNING"
  using core_running_ex [of "view s" "occ s" "Some r" "idle_thread s" r] view_SomeD
  by (fastforce simp: kcore_def tview_def)

lemma thread_current_ok: "kcore s (Some (running_thread s)) \<Longrightarrow> thread_current s = Some (running_thread s)"
  using kcore_running [of s] is_thread_core [of s] by (fastforce simp: thread_current_def)

lemma timer_ticks_off: "if_flag s = False \<Longrightarrow> timer_ticks s = Some (ticks s, s)"
  by (simp add: timer_ticks_def intr_disable_def intr_set_level_def intr_get_level_def)

lemma thread_block_ok:
  assumes k: "kcore s (Some (running_thread s))" and off: "if_flag s = False" "\<not> in_external_intr s"
    and c: "threads s (running_thread s) = Some c"
  shows "\<exists>s'. thread_block s = Some s' \<and> kcore s' (Some (running_thread s')) \<and>
    switched (s\<lparr>threads := (threads s)(running_thread s \<mapsto> c\<lparr>status := THREAD_BLOCKED\<rparr>)\<rparr>) s'"
proof -
  let ?s = "s\<lparr>threads := (threads s)(running_thread s \<mapsto> c\<lparr>status := THREAD_BLOCKED\<rparr>)\<rparr>"
  have "core ((view s)(running_thread s \<mapsto> (THREAD_BLOCKED, priority c, magic c))) (occ s) None (idle_thread s)"
    using k c by (intro core_stop) (auto simp: kcore_def tview_def)
  moreover have "occ ?s = occ s" using c by (auto simp: fun_eq_iff)
  ultimately have "kcore ?s None" by (simp add: kcore_def tview_def)
  from schedule_ok [OF this] off(1) obtain s' where s': "schedule ?s = Some s'" "kcore s' (Some (running_thread s'))" "switched ?s s'"
    by auto
  moreover have "thread_block s = schedule ?s"
    using off c thread_current_ok [OF k] by (simp add: thread_block_def intr_context_def intr_get_level_def upd_thread_def)
  ultimately show ?thesis by auto
qed

text \<open>\<open>parked s s0\<close>: the running thread of \<open>s0\<close> has put itself into a place and its stack is the given one.\<close>

lemma thread_block_park_ok:
  assumes k: "core (view s) (occ s0) (Some (running_thread s)) (idle_thread s)" "running_thread s \<noteq> idle_thread s"
    and pl: "occ s = (occ s0)(pl := occ s0 pl @ [running_thread s])" "\<And>p m. place_status pl (THREAD_BLOCKED, p, m)"
    and off: "if_flag s = False" "\<not> in_external_intr s"
    and c: "threads s (running_thread s) = Some c"
  shows "\<exists>s'. thread_block s = Some s' \<and> kcore s' (Some (running_thread s')) \<and>
    switched (s\<lparr>threads := (threads s)(running_thread s \<mapsto> c\<lparr>status := THREAD_BLOCKED\<rparr>)\<rparr>) s'"
proof -
  let ?s = "s\<lparr>threads := (threads s)(running_thread s \<mapsto> c\<lparr>status := THREAD_BLOCKED\<rparr>)\<rparr>"
  have "core ((view s)(running_thread s \<mapsto> (THREAD_BLOCKED, priority c, magic c))) (occ s) None (idle_thread s)"
    unfolding pl(1) using k c pl(2) by (intro core_stop_park) (auto simp: tview_def)
  moreover have "occ ?s = occ s" using c by (auto simp: fun_eq_iff)
  ultimately have kk: "kcore ?s None" by (simp add: kcore_def tview_def)
  from schedule_ok [OF kk] off(1) obtain s' where s': "schedule ?s = Some s'" "kcore s' (Some (running_thread s'))" "switched ?s s'"
    by auto
  have "thread_current s = Some (running_thread s)"
    using core_running_ex [OF k(1)] core_info [OF k(1)] c by (fastforce simp: thread_current_def is_thread_def tview_def)
  then have "thread_block s = schedule ?s"
    using off c by (simp add: thread_block_def intr_context_def intr_get_level_def upd_thread_def)
  with s' show ?thesis by auto
qed

definition yielding :: "kstate \<Rightarrow> thread \<Rightarrow> kstate" where
  "yielding s c = (if running_thread s \<noteq> idle_thread s
     then s\<lparr>if_flag := False, ready_list := (ready_list s)(priority c := ready_list s (priority c) @ [running_thread s]),
       threads := (threads s)(running_thread s \<mapsto> c\<lparr>recent_unused := ticks s, status := THREAD_READY,
         kont := F_set_level (intr_get_level s) # kont c\<rparr>)\<rparr>
     else s\<lparr>if_flag := False, threads := (threads s)(running_thread s \<mapsto> c\<lparr>status := THREAD_READY,
         kont := F_set_level (intr_get_level s) # kont c\<rparr>)\<rparr>)"

lemma view_yielding:
  "threads s (running_thread s) = Some c \<Longrightarrow>
   view (yielding s c) = (view s)(running_thread s \<mapsto> (THREAD_READY, priority c, magic c))"
  by (auto simp: fun_eq_iff view_def yielding_def)

lemma occ_yielding:
  assumes "threads s (running_thread s) = Some c"
  shows "occ (yielding s c) = (if running_thread s = idle_thread s then occ s
    else (occ s)(At_ready (priority c) := occ s (At_ready (priority c)) @ [running_thread s]))"
proof
  fix pl show "occ (yielding s c) pl = (if running_thread s = idle_thread s then occ s
    else (occ s)(At_ready (priority c) := occ s (At_ready (priority c)) @ [running_thread s])) pl"
    using assms by (cases pl) (auto simp: yielding_def)
qed

lemma kcore_yielding:
  assumes k: "kcore s (Some (running_thread s))" and c: "threads s (running_thread s) = Some c"
  shows "kcore (yielding s c) None"
proof -
  have co: "core (view s) (occ s) (Some (running_thread s)) (idle_thread s)" using k by (simp add: kcore_def)
  have v: "view s (running_thread s) = Some (status c, priority c, magic c)" using c by (simp add: tview_def)
  have "idle_thread (yielding s c) = idle_thread s" by (simp add: yielding_def)
  then show ?thesis
    using core_stop_idle [OF co v] core_stop_ready [OF co v]
    by (cases "running_thread s = idle_thread s") (auto simp: kcore_def view_yielding [OF c] occ_yielding [OF c])
qed

lemma thread_yield_eq:
  assumes k: "kcore s (Some (running_thread s))" and off: "\<not> in_external_intr s"
    and c: "threads s (running_thread s) = Some c"
  shows "thread_yield s = schedule (yielding s c)"
proof -
  have co: "core (view s) (occ s) (Some (running_thread s)) (idle_thread s)" using k by (simp add: kcore_def)
  have pr: "PRI_MIN \<le> priority c" "priority c \<le> PRI_MAX"
    using core_info [OF co, of "running_thread s"] c by (auto simp: tview_def)
  show ?thesis
    using c pr off thread_current_ok [OF k]
    by (cases "running_thread s = idle_thread s") (simp_all add: thread_yield_def intr_context_def intr_disable_def
      ready_push_def timer_ticks_off upd_thread_def push_kont_def yielding_def Let_def)
qed

lemma thread_yield_ok:
  assumes k: "kcore s (Some (running_thread s))" and off: "\<not> in_external_intr s"
    and c: "threads s (running_thread s) = Some c"
  shows "\<exists>s'. thread_yield s = Some s' \<and> kcore s' (Some (running_thread s')) \<and> switched (yielding s c) s' \<and>
    running_thread s' = fst (next_thread_to_run (yielding s c))"
proof -
  have "\<not> if_flag (yielding s c)" "running_thread (yielding s c) = running_thread s"
    "\<exists>c'. threads (yielding s c) (running_thread s) = Some c'" by (auto simp: yielding_def)
  then show ?thesis
    using schedule_ok [OF kcore_yielding [OF k c]] thread_yield_eq [OF k off c] by auto
qed

end
