(* ===== verification/Kernel_Inv.thy ===== *)
theory Kernel_Inv
  imports Sched_Inv
begin

text \<open>
  The operations of threads/thread.c and threads/synch.c keep the kernel invariant \<open>kinv\<close>: the scheduler's
  invariant, no interrupt context between steps, and well-formed stacks.
\<close>

subsection \<open>The stacks\<close>

fun idle_frame :: "frame \<Rightarrow> bool" where
  "idle_frame (F_set_level lv) = True"
| "idle_frame F_sti_hlt = True"
| "idle_frame (F_sema_up_yield p) = True"
| "idle_frame _ = False"

fun client_frame :: "frame \<Rightarrow> bool" where
  "client_frame (F_kernel_thread (Idle a)) = False"
| "client_frame (F_function (Idle a)) = False"
| "client_frame F_idle_loop = False"
| "client_frame F_sti_hlt = False"
| "client_frame (F_create nm p func page) = False"
| "client_frame (F_set_priority p) = False"
| "client_frame (F_create_tail t (Idle a)) = False"
| "client_frame _ = True"

definition idle_kont :: "frame list \<Rightarrow> bool" where
  "idle_kont k \<longleftrightarrow> (\<exists>fs. k = fs @ [F_idle_loop, F_exit] \<and> list_all idle_frame fs)"

definition kont_inv :: "kstate \<Rightarrow> bool" where
  "kont_inv s \<longleftrightarrow> (\<forall>t th. threads s t = Some th \<longrightarrow>
     (if t = idle_thread s then name th = ''idle'' \<and> idle_kont (kont th) else list_all client_frame (kont th)))"

definition kinv :: "kstate \<Rightarrow> bool" where
  "kinv s \<longleftrightarrow> kcore s (Some (running_thread s)) \<and> \<not> in_external_intr s \<and> kont_inv s"

text \<open>Inside the timer interrupt handler the same holds with the interrupt context set.\<close>

definition kinv_intr :: "kstate \<Rightarrow> bool" where
  "kinv_intr s \<longleftrightarrow> kcore s (Some (running_thread s)) \<and> if_flag s = False \<and> kont_inv s"

lemma kont_inv_switched:
  assumes "kont_inv s" "switched s s'"
  shows "kont_inv s'"
  unfolding kont_inv_def
proof (intro allI impI)
  fix t th' assume "threads s' t = Some th'"
  then obtain th st where "threads s t = Some th" "th' = th\<lparr>status := st\<rparr>"
    using assms(2) unfolding switched_def by blast
  then show "if t = idle_thread s' then name th' = ''idle'' \<and> idle_kont (kont th') else list_all client_frame (kont th')"
    using assms by (auto simp: kont_inv_def switched_def)
qed

lemma kont_inv_upd:
  assumes "kont_inv s" "threads s t = Some th" "name th' = name th"
    "t = idle_thread s \<Longrightarrow> idle_kont (kont th) \<Longrightarrow> idle_kont (kont th')"
    "t \<noteq> idle_thread s \<Longrightarrow> list_all client_frame (kont th) \<Longrightarrow> list_all client_frame (kont th')"
  shows "kont_inv (s\<lparr>threads := (threads s)(t \<mapsto> th')\<rparr>)"
  using assms by (auto simp: kont_inv_def)

lemma kont_inv_cong: "threads s' = threads s \<Longrightarrow> idle_thread s' = idle_thread s \<Longrightarrow> kont_inv s' = kont_inv s"
  by (simp add: kont_inv_def)

lemma idle_kont_push: "list_all idle_frame fs \<Longrightarrow> idle_kont k \<Longrightarrow> idle_kont (fs @ k)"
  unfolding idle_kont_def by (metis append.assoc list_all_append)

lemma kinv_cong:
  assumes "threads s' = threads s" "ready_list s' = ready_list s" "semas s' = semas s" "list_alarm s' = list_alarm s"
    "idle_thread s' = idle_thread s" "running_thread s' = running_thread s" "in_external_intr s' = in_external_intr s"
  shows "kinv s' = kinv s"
  using kcore_cong [OF assms(1-5)] kont_inv_cong [OF assms(1,5)] assms(6,7) by (simp add: kinv_def)

lemma kinv_fields [simp]:
  "kinv (s\<lparr>if_flag := b\<rparr>) = kinv s" "kinv (s\<lparr>wiped := ws\<rparr>) = kinv s" "kinv (s\<lparr>next_tid := i\<rparr>) = kinv s" "kinv (s\<lparr>max_tid := i\<rparr>) = kinv s"
  "kinv (s\<lparr>holders := h\<rparr>) = kinv s" "kinv (s\<lparr>conds := cs\<rparr>) = kinv s" "kinv (s\<lparr>all_list := al\<rparr>) = kinv s"
  "kinv (s\<lparr>events := ev\<rparr>) = kinv s" "kinv (s\<lparr>stack_garbage := g\<rparr>) = kinv s"
  by (rule kinv_cong; simp)+

lemma kinv_cur: "kinv s \<Longrightarrow> \<exists>c. threads s (running_thread s) = Some c \<and> status c = THREAD_RUNNING"
  using kcore_running by (simp add: kinv_def)

lemma kinv_upd_thread:
  assumes "kinv s" "upd_thread t f s = Some s'"
    "\<And>th. tview (f th) = tview th" "\<And>th. kont (f th) = kont th" "\<And>th. name (f th) = name th"
  shows "kinv s'"
proof -
  obtain th where th: "threads s t = Some th" "s' = s\<lparr>threads := (threads s)(t \<mapsto> f th)\<rparr>"
    using assms(2) by (auto simp: upd_thread_Some)
  have "kcore s' (Some (running_thread s))" using kcore_upd_thread [OF _ assms(2-4)] assms(1) by (simp add: kinv_def)
  moreover have "kont_inv s'" unfolding th(2) using assms th by (intro kont_inv_upd) (auto simp: kinv_def)
  ultimately show ?thesis using assms(1) th(2) by (simp add: kinv_def)
qed

lemma kinv_set_retval: "kinv s \<Longrightarrow> set_retval r s = Some s' \<Longrightarrow> kinv s'"
  unfolding set_retval_def by (rule kinv_upd_thread [where f = "\<lambda>th. th\<lparr>retval := r\<rparr>"]) (simp_all add: tview_def)

lemma kinv_push_kont:
  assumes "kinv s" "push_kont fs s = Some s'" "creating fs = []"
    "running_thread s = idle_thread s \<Longrightarrow> list_all idle_frame fs" "running_thread s \<noteq> idle_thread s \<Longrightarrow> list_all client_frame fs"
  shows "kinv s'"
proof -
  obtain c where c: "threads s (running_thread s) = Some c"
    "s' = s\<lparr>threads := (threads s)(running_thread s \<mapsto> c\<lparr>kont := fs @ kont c\<rparr>)\<rparr>"
    using assms(2) by (auto simp: push_kont_Some)
  have "kcore s' (Some (running_thread s))" using kcore_push_kont [OF _ assms(2,3)] assms(1) by (simp add: kinv_def)
  moreover have "kont_inv s'" unfolding c(2)
    using assms c idle_kont_push by (intro kont_inv_upd) (auto simp: kinv_def)
  ultimately show ?thesis using assms(1) c(2) by (simp add: kinv_def)
qed

lemma kont_inv_yielding:
  assumes "kont_inv s" "threads s (running_thread s) = Some c"
  shows "kont_inv (yielding s c)"
  using assms idle_kont_push [of "[F_set_level (intr_get_level s)]"]
  by (auto simp: kont_inv_def yielding_def)

lemma thread_yield_total:
  assumes "kinv s" shows "\<exists>s'. thread_yield s = Some s' \<and> kinv s'"
proof -
  obtain c where c: "threads s (running_thread s) = Some c" using kinv_cur [OF assms] by auto
  from thread_yield_ok [OF _ _ c] assms obtain s' where s': "thread_yield s = Some s'"
    "kcore s' (Some (running_thread s'))" "switched (yielding s c) s'" by (auto simp: kinv_def)
  have "kont_inv s'" using kont_inv_switched [OF kont_inv_yielding s'(3)] assms c by (simp add: kinv_def)
  moreover have "in_external_intr s' = in_external_intr s" using s'(3) by (auto simp: switched_def yielding_def)
  ultimately show ?thesis using s' assms by (auto simp: kinv_def)
qed

lemma thread_yield_kinv: "kinv s \<Longrightarrow> thread_yield s = Some s' \<Longrightarrow> kinv s'"
  using thread_yield_total by fastforce

text \<open>Blocking in a place, with frames left on the stack.\<close>

lemma park_total:
  assumes k: "kinv s" "running_thread s \<noteq> idle_thread s" "threads s (running_thread s) = Some c"
    and s2: "threads s2 = (threads s)(running_thread s \<mapsto> c\<lparr>kont := fs @ kont c\<rparr>)" "running_thread s2 = running_thread s"
      "idle_thread s2 = idle_thread s" "occ s2 = (occ s)(pl := occ s pl @ [running_thread s])"
      "if_flag s2 = False" "\<not> in_external_intr s2"
    and fs: "list_all client_frame fs" and pl: "\<And>p m. place_status pl (THREAD_BLOCKED, p, m)"
  shows "\<exists>s'. thread_block s2 = Some s' \<and> kinv s' \<and>
    switched (s2\<lparr>threads := (threads s2)(running_thread s2 \<mapsto> c\<lparr>kont := fs @ kont c, status := THREAD_BLOCKED\<rparr>)\<rparr>) s'"
proof -
  let ?c = "c\<lparr>kont := fs @ kont c\<rparr>"
  have v: "view s2 = view s" using s2(1) k(3) by (auto simp: view_def fun_eq_iff)
  have "threads s2 (running_thread s2) = Some ?c" using s2(1,2) by simp
  moreover have "core (view s2) (occ s) (Some (running_thread s2)) (idle_thread s2)"
    using k(1) s2(2,3) v by (simp add: kinv_def kcore_def)
  ultimately obtain s' where s': "thread_block s2 = Some s'" "kcore s' (Some (running_thread s'))"
    "switched (s2\<lparr>threads := (threads s2)(running_thread s2 \<mapsto> ?c\<lparr>status := THREAD_BLOCKED\<rparr>)\<rparr>) s'"
    using thread_block_park_ok [of s2 s pl ?c] k(2) s2 pl by auto
  have "kont_inv (s2\<lparr>threads := (threads s2)(running_thread s2 \<mapsto> ?c\<lparr>status := THREAD_BLOCKED\<rparr>)\<rparr>)"
    using k s2(1-3) fs by (auto simp: kinv_def kont_inv_def)
  then have "kont_inv s'" using kont_inv_switched s'(3) by blast
  moreover have "\<not> in_external_intr s'" using s'(3) s2(6) by (simp add: switched_def)
  ultimately show ?thesis using s' by (auto simp: kinv_def)
qed

subsection \<open>Unblocking\<close>

definition unblocked :: "addr \<Rightarrow> thread \<Rightarrow> kstate \<Rightarrow> kstate" where
  "unblocked t th s = s\<lparr>ready_list := (ready_list s)(priority th := ready_list s (priority th) @ [t]),
     threads := (threads s)(t \<mapsto> th\<lparr>status := THREAD_READY\<rparr>)\<rparr>"

lemma thread_unblock_eq:
  assumes "kcore s R" "threads s t = Some th" "status th = THREAD_BLOCKED" "if_flag s \<Longrightarrow> \<not> in_external_intr s"
  shows "thread_unblock t s = (if thread_top_priority s < priority th \<and> if_flag s then thread_yield (unblocked t th s)
    else Some (unblocked t th s))"
proof -
  have it: "is_thread t s" by (rule is_thread_core [OF assms(1,2)])
  have pr: "PRI_MIN \<le> priority th" "priority th \<le> PRI_MAX"
    using core_info [of "view s" "occ s" R "idle_thread s" t] assms(1,2) by (auto simp: kcore_def tview_def)
  show ?thesis
    using assms(2-4) it pr
    by (cases s) (auto simp: thread_unblock_def intr_disable_def intr_set_level_def intr_enable_def intr_context_def
      intr_get_level_def ready_push_def upd_thread_def unblocked_def thread_top_priority_def is_thread_def)
qed

lemma kcore_unblocked:
  assumes "kcore s R" "threads s t = Some th" "status th = THREAD_BLOCKED" "t \<noteq> idle_thread s" "\<And>pl. t \<notin> set (occ s pl)"
  shows "kcore (unblocked t th s) R"
proof -
  have "core ((view s)(t \<mapsto> (THREAD_READY, priority th, magic th)))
    ((occ s)(At_ready (priority th) := occ s (At_ready (priority th)) @ [t])) R (idle_thread s)"
    using assms by (intro core_unblock) (auto simp: kcore_def tview_def)
  moreover have "view (unblocked t th s) = (view s)(t \<mapsto> (THREAD_READY, priority th, magic th))"
    using assms(2) by (auto simp: unblocked_def view_def fun_eq_iff)
  moreover have "occ (unblocked t th s) = (occ s)(At_ready (priority th) := occ s (At_ready (priority th)) @ [t])"
  proof
    fix pl show "occ (unblocked t th s) pl = ((occ s)(At_ready (priority th) := occ s (At_ready (priority th)) @ [t])) pl"
      using assms(2) by (cases pl) (auto simp: unblocked_def)
  qed
  moreover have "idle_thread (unblocked t th s) = idle_thread s" by (simp add: unblocked_def)
  ultimately show ?thesis by (simp add: kcore_def)
qed

lemma kinv_unblocked:
  assumes "kinv s" "threads s t = Some th" "status th = THREAD_BLOCKED" "t \<noteq> idle_thread s" "\<And>pl. t \<notin> set (occ s pl)"
  shows "kinv (unblocked t th s)"
proof -
  have "kont_inv (unblocked t th s)" using assms(1,2) by (auto simp: kinv_def kont_inv_def unblocked_def)
  moreover have "kcore (unblocked t th s) (Some (running_thread s))"
    using kcore_unblocked [OF _ assms(2-5)] assms(1) by (simp add: kinv_def)
  moreover have "running_thread (unblocked t th s) = running_thread s" "in_external_intr (unblocked t th s) = in_external_intr s"
    by (simp_all add: unblocked_def)
  ultimately show ?thesis using assms(1) by (simp add: kinv_def)
qed

lemma thread_unblock_kinv:
  assumes "kinv s" "threads s t = Some th" "status th = THREAD_BLOCKED" "t \<noteq> idle_thread s" "\<And>pl. t \<notin> set (occ s pl)"
    "thread_unblock t s = Some s'"
  shows "kinv s'"
proof -
  have k: "kinv (unblocked t th s)" by (rule kinv_unblocked [OF assms(1-5)])
  have "thread_unblock t s = (if thread_top_priority s < priority th \<and> if_flag s then thread_yield (unblocked t th s)
    else Some (unblocked t th s))"
    using assms(1) by (intro thread_unblock_eq [OF _ assms(2,3)]) (auto simp: kinv_def)
  then show ?thesis using k thread_yield_kinv [OF k] assms(6) by (simp split: if_splits)
qed

subsection \<open>Small steps\<close>

lemma intr_set_level_kinv: "kinv s \<Longrightarrow> intr_set_level lv s = Some (old, s') \<Longrightarrow> s' = s\<lparr>if_flag := (lv = INTR_ON)\<rparr>"
  by (auto simp: intr_set_level_def intr_enable_def intr_disable_def split: if_splits)

lemma set_kont_Some:
  "set_kont k s = Some s' \<longleftrightarrow> (\<exists>th. threads s (running_thread s) = Some th \<and>
     s' = s\<lparr>threads := (threads s)(running_thread s \<mapsto> th\<lparr>kont := k\<rparr>)\<rparr>)"
  by (simp add: set_kont_def upd_thread_Some)

lemma pop_kinv:
  assumes "kinv s" "cur_kont s = f # k" "f \<noteq> F_idle_loop" "set_kont k s = Some s'"
  shows "kinv s'" "running_thread s = idle_thread s \<Longrightarrow> idle_frame f" "running_thread s \<noteq> idle_thread s \<Longrightarrow> client_frame f"
proof -
  obtain c where c: "threads s (running_thread s) = Some c" "kont c = f # k"
    "s' = s\<lparr>threads := (threads s)(running_thread s \<mapsto> c\<lparr>kont := k\<rparr>)\<rparr>"
    using assms(2,4) by (auto simp: set_kont_Some cur_kont_def)
  have ki: "if running_thread s = idle_thread s then name c = ''idle'' \<and> idle_kont (kont c) else list_all client_frame (kont c)"
    using assms(1) c(1) by (simp add: kinv_def kont_inv_def)
  have ik: "idle_frame f \<and> idle_kont k" if "running_thread s = idle_thread s"
    using ki that c(2) assms(3) by (auto simp: idle_kont_def Cons_eq_append_conv)
  show "running_thread s = idle_thread s \<Longrightarrow> idle_frame f" using ik by simp
  show "running_thread s \<noteq> idle_thread s \<Longrightarrow> client_frame f" using ki c(2) by simp
  have "kcore s' (Some (running_thread s))" unfolding c(3)
    using assms(1) c(1,2) kcore_distinct_creating [of s _ "running_thread s" c]
    by (intro kcore_upd_same) (auto simp: kinv_def tview_def)
  moreover have "kont_inv s'" unfolding c(3)
    using assms(1) c(1,2) ik by (intro kont_inv_upd) (auto simp: kinv_def)
  ultimately show "kinv s'" using assms(1) c(3) by (simp add: kinv_def)
qed

lemma kinv_set_sema:
  assumes "kinv s" "set ws \<subseteq> set (occ s (At_sema a))" "distinct ws"
  shows "kinv (set_sema a \<lparr>sema_value = v, waiters = ws\<rparr> s)"
proof -
  have "core (view s) ((occ s)(At_sema a := ws)) (Some (running_thread s)) (idle_thread s)"
    using assms by (intro core_shrink) (auto simp: kinv_def kcore_def)
  moreover have "view (set_sema a sm s) = view s" "kont_inv (set_sema a sm s) = kont_inv s" for sm
    by (auto simp: set_sema_def view_def kont_inv_def fun_eq_iff)
  moreover have "occ (set_sema a \<lparr>sema_value = v, waiters = ws\<rparr> s) = (occ s)(At_sema a := ws)"
    by (simp add: set_sema_def)
  ultimately show ?thesis using assms(1) by (simp add: kinv_def kcore_def set_sema_def)
qed

lemma kinv_sema_value:
  assumes "kinv s" "semas s a = Some sm"
  shows "kinv (set_sema a (sm\<lparr>sema_value := v\<rparr>) s)"
proof -
  have "distinct (waiters sm)"
    using core_distinct [of "view s" "occ s" _ _ "At_sema a"] assms by (auto simp: kinv_def kcore_def)
  then have "kinv (set_sema a \<lparr>sema_value = v, waiters = waiters sm\<rparr> s)" using assms by (intro kinv_set_sema) auto
  then show ?thesis by (cases sm) simp
qed

subsection \<open>Semaphores\<close>

lemma sema_down_loop_kinv:
  assumes "kinv s" "running_thread s \<noteq> idle_thread s" "sema_down_loop a lv s = Some s'"
  shows "kinv s'"
proof -
  obtain sm where sm: "semas s a = Some sm" using assms(3) by (auto simp: sema_down_loop_def elim!: bind_SomeE)
  obtain c where c: "threads s (running_thread s) = Some c" using kinv_cur [OF assms(1)] by auto
  show ?thesis
  proof (cases "sema_value sm = 0")
    case True
    let ?s1 = "set_sema a (sm\<lparr>waiters := waiters sm @ [running_thread s]\<rparr>) s"
    let ?s2 = "?s1\<lparr>threads := (threads s)(running_thread s \<mapsto> c\<lparr>kont := [F_sema_loop a lv] @ kont c\<rparr>)\<rparr>"
    have "thread_current s = Some (running_thread s)" using assms(1) thread_current_ok by (simp add: kinv_def)
    moreover have "a \<notin> wiped s" using assms(3) sm True by (auto simp: sema_down_loop_def bind_eq_Some_conv)
    ultimately have eq: "sema_down_loop a lv s = thread_block ?s2"
      using sm True c by (simp add: sema_down_loop_def set_sema_def push_kont_def upd_thread_def)
    have "occ ?s2 = (occ s)(At_sema a := occ s (At_sema a) @ [running_thread s])"
    proof
      fix pl show "occ ?s2 pl = ((occ s)(At_sema a := occ s (At_sema a) @ [running_thread s])) pl"
        using sm c by (cases pl) (auto simp: set_sema_def)
    qed
    moreover have off: "\<not> if_flag s"
      using assms(3) eq by (auto simp: thread_block_def intr_get_level_def set_sema_def)
    ultimately have "\<exists>s'. thread_block ?s2 = Some s' \<and> kinv s'"
      using park_total [of s c ?s2 "[F_sema_loop a lv]" "At_sema a"] assms(1,2) c by (auto simp: set_sema_def kinv_def)
    then show ?thesis using eq assms(3) by auto
  next
    case False
    let ?s1 = "set_sema a (sm\<lparr>sema_value := sema_value sm - 1\<rparr>) s"
    obtain old where "intr_set_level lv ?s1 = Some (old, s')"
      using False assms(3) sm by (auto simp: sema_down_loop_def bind_eq_Some_conv)
    moreover have "kinv ?s1" by (rule kinv_sema_value [OF assms(1) sm])
    ultimately show ?thesis using intr_set_level_kinv [of ?s1] by fastforce
  qed
qed

lemma sema_down_kinv:
  assumes "kinv s" "running_thread s \<noteq> idle_thread s" "sema_down a s = Some s'"
  shows "kinv s'"
  using assms sema_down_loop_kinv [of "s\<lparr>if_flag := False\<rparr>" a "intr_get_level s" s']
  by (auto simp: sema_down_def intr_disable_def)

lemma sema_try_down_kinv:
  assumes "kinv s" "sema_try_down a s = Some (b, s')"
  shows "kinv s'"
proof -
  let ?s = "s\<lparr>if_flag := False\<rparr>"
  obtain sm where sm: "semas s a = Some sm" using assms(2) by (auto simp: sema_try_down_def intr_disable_def elim!: bind_SomeE)
  have "kinv ?s" "semas ?s a = Some sm" using assms(1) sm by simp_all
  then have k: "kinv (set_sema a (sm\<lparr>sema_value := sema_value sm - 1\<rparr>) ?s)" by (rule kinv_sema_value)
  show ?thesis
    using assms(2) sm k \<open>kinv ?s\<close>
    by (auto simp: sema_try_down_def intr_disable_def split: if_splits elim!: bind_SomeE dest!: intr_set_level_kinv [rotated])
qed

lemma max_waiter_in: "max_waiter s es (m, p) = Some (m', p') \<Longrightarrow> m' = m \<or> m' \<in> set es"
  by (induction es arbitrary: m p) (fastforce simp: bind_eq_Some_conv split: if_splits)+

lemma kinv_wake_total:
  assumes k: "kinv s" "\<not> if_flag s" and sm: "semas s a = Some sm" and m: "m \<in> set (waiters sm)"
  shows "\<exists>th. threads s m = Some th \<and> status th = THREAD_BLOCKED \<and>
    thread_unblock m (set_sema a (sm\<lparr>waiters := remove1 m (waiters sm)\<rparr>) s) =
      Some (unblocked m th (set_sema a (sm\<lparr>waiters := remove1 m (waiters sm)\<rparr>) s)) \<and>
    kinv (unblocked m th (set_sema a (sm\<lparr>waiters := remove1 m (waiters sm)\<rparr>) s))"
proof -
  let ?ws = "remove1 m (waiters sm)"
  let ?s = "set_sema a (sm\<lparr>waiters := ?ws\<rparr>) s"
  have co: "core (view s) (occ s) (Some (running_thread s)) (idle_thread s)" using k by (simp add: kinv_def kcore_def)
  have mo: "m \<in> set (occ s (At_sema a))" using sm m by simp
  have oc: "occ ?s = (occ s)(At_sema a := remove1 m (occ s (At_sema a)))" using sm by (simp add: set_sema_def)
  have "distinct (waiters sm)" using core_distinct [OF co, of "At_sema a"] sm by simp
  then have "kinv (set_sema a \<lparr>sema_value = sema_value sm, waiters = ?ws\<rparr> s)"
    using sm by (intro kinv_set_sema [OF k(1)]) (auto dest: notin_set_remove1)
  then have ks: "kinv ?s" by (cases sm) simp
  obtain th where th: "threads s m = Some th" "status th = THREAD_BLOCKED"
    using core_place_ex [OF co mo] view_SomeD by (fastforce simp: tview_def)
  have th': "threads ?s m = Some th" using th(1) by (simp add: set_sema_def)
  have ni: "m \<noteq> idle_thread ?s" using core_place [OF co mo] by (simp add: set_sema_def)
  have np: "m \<notin> set (occ ?s pl)" for pl using core_unpark(2) [OF co mo] oc by simp
  have ku: "kinv (unblocked m th ?s)" by (rule kinv_unblocked [OF ks th' th(2) ni np])
  have nf: "\<not> if_flag ?s" using k(2) by (simp add: set_sema_def)
  have kc: "kcore ?s (Some (running_thread ?s))" using ks unfolding kinv_def by blast
  have "thread_unblock m ?s = Some (unblocked m th ?s)" using thread_unblock_eq [OF kc th' th(2)] nf by simp
  then show ?thesis using th ku by blast
qed

lemma kinv_wake:
  assumes k: "kinv s" "\<not> if_flag s" and sm: "semas s a = Some sm" and m: "m \<in> set (waiters sm)"
    and s': "thread_unblock m (set_sema a (sm\<lparr>waiters := remove1 m (waiters sm)\<rparr>) s) = Some s'"
  shows "kinv s'"
  using kinv_wake_total [OF k sm m] s' by auto

lemma sema_up_parts:
  assumes "sema_up a s = Some s'"
  obtains sm p s1 sm1 old s2 where "semas s a = Some sm"
    "(case waiters sm of [] \<Rightarrow> Some (stack_garbage (s\<lparr>if_flag := False\<rparr>), s\<lparr>if_flag := False\<rparr>)
       | w # ws \<Rightarrow> do {
           th \<leftarrow> threads (s\<lparr>if_flag := False\<rparr>) w;
           (max_elem, pri_max) \<leftarrow> max_waiter (s\<lparr>if_flag := False\<rparr>) (w # ws) (w, priority th);
           let s = set_sema a (sm\<lparr>waiters := remove1 max_elem (waiters sm)\<rparr>) (s\<lparr>if_flag := False\<rparr>);
           s \<leftarrow> thread_unblock max_elem s;
           Some (pri_max, s) }) = Some (p, s1)"
    "semas s1 a = Some sm1"
    "intr_set_level (intr_get_level s) (set_sema a (sm1\<lparr>sema_value := u32 (sema_value sm1 + 1)\<rparr>) s1) = Some (old, s2)"
    "push_kont [F_sema_up_yield p] s2 = Some s'" "waiters sm = [] \<Longrightarrow> a \<notin> wiped s"
proof -
  let ?s0 = "s\<lparr>if_flag := False\<rparr>"
  obtain sm p s1 sm1 old s2 where sm: "semas s a = Some sm"
    and p: "(case waiters sm of [] \<Rightarrow> do { k_assert (a \<notin> wiped ?s0); Some (stack_garbage ?s0, ?s0) }
       | w # ws \<Rightarrow> do {
           th \<leftarrow> threads ?s0 w;
           (max_elem, pri_max) \<leftarrow> max_waiter ?s0 (w # ws) (w, priority th);
           let s = set_sema a (sm\<lparr>waiters := remove1 max_elem (waiters sm)\<rparr>) ?s0;
           s \<leftarrow> thread_unblock max_elem s;
           Some (pri_max, s) }) = Some (p, s1)"
    and m: "semas s1 a = Some sm1"
      "intr_set_level (intr_get_level s) (set_sema a (sm1\<lparr>sema_value := u32 (sema_value sm1 + 1)\<rparr>) s1) = Some (old, s2)"
      "push_kont [F_sema_up_yield p] s2 = Some s'"
    using assms by (auto simp: sema_up_def intr_disable_def bind_eq_Some_conv Let_def)
  show ?thesis by (rule that [OF sm _ m]) (use p in \<open>auto split: list.splits\<close>)
qed

lemma sema_up_kinv:
  assumes "kinv s" "sema_up a s = Some s'" "running_thread s \<noteq> idle_thread s"
  shows "kinv s'"
proof -
  let ?s0 = "s\<lparr>if_flag := False\<rparr>"
  have k0: "kinv ?s0" using assms(1) by simp
  obtain sm p s1 sm1 old s2 where sm: "semas s a = Some sm"
    and p: "(case waiters sm of [] \<Rightarrow> Some (stack_garbage ?s0, ?s0)
       | w # ws \<Rightarrow> do {
           th \<leftarrow> threads ?s0 w;
           (max_elem, pri_max) \<leftarrow> max_waiter ?s0 (w # ws) (w, priority th);
           let s = set_sema a (sm\<lparr>waiters := remove1 max_elem (waiters sm)\<rparr>) ?s0;
           s \<leftarrow> thread_unblock max_elem s;
           Some (pri_max, s) }) = Some (p, s1)"
    and sm1: "semas s1 a = Some sm1"
    and s2: "intr_set_level (intr_get_level s) (set_sema a (sm1\<lparr>sema_value := u32 (sema_value sm1 + 1)\<rparr>) s1) = Some (old, s2)"
    and s': "push_kont [F_sema_up_yield p] s2 = Some s'"
    using assms(2) by (rule sema_up_parts)
  have "kinv s1"
  proof (cases "waiters sm")
    case Nil then show ?thesis using p k0 by simp
  next
    case (Cons w ws)
    then obtain th m where "threads ?s0 w = Some th" "max_waiter ?s0 (w # ws) (w, priority th) = Some (m, p)"
      and u: "thread_unblock m (set_sema a (sm\<lparr>waiters := remove1 m (waiters sm)\<rparr>) ?s0) = Some s1"
      using p by (auto simp: bind_eq_Some_conv Let_def)
    then have "m \<in> set (waiters sm)" using max_waiter_in [of ?s0 "w # ws" w] Cons by fastforce
    then show ?thesis using kinv_wake [OF k0 _ _ _ u] sm by simp
  qed
  then have "kinv (set_sema a (sm1\<lparr>sema_value := u32 (sema_value sm1 + 1)\<rparr>) s1)" using sm1 by (rule kinv_sema_value)
  then have "kinv s2" using intr_set_level_kinv [OF _ s2] by simp
  then show ?thesis using s' by (rule kinv_push_kont) auto
qed

lemma kinv_set_holder [simp]: "kinv (set_holder l t s) = kinv s"
  by (simp add: set_holder_def)

lemma sema_init_kinv: "kinv s \<Longrightarrow> sema_init a v s = Some s' \<Longrightarrow> kinv s'"
  using kinv_set_sema [of "s\<lparr>wiped := wiped s - {a}\<rparr>" "[]" a v] by (auto simp: sema_init_def)

text \<open>Frames that a client thread may leave on its stack.\<close>

lemma kinv_push_client:
  "kinv s \<Longrightarrow> push_kont fs s = Some s' \<Longrightarrow> running_thread s \<noteq> idle_thread s \<Longrightarrow> list_all client_frame fs \<Longrightarrow>
   creating fs = [] \<Longrightarrow> kinv s'"
  by (erule (1) kinv_push_kont) simp_all

lemma lock_kinv:
  assumes "kinv s" "running_thread s \<noteq> idle_thread s"
  shows "lock_init l s = Some s' \<Longrightarrow> kinv s'" "lock_acquire l s = Some s' \<Longrightarrow> kinv s'"
    "lock_acquire_other l t s = Some s' \<Longrightarrow> kinv s'" "lock_release l s = Some s' \<Longrightarrow> kinv s'"
    "lock_try_acquire l s = Some (b, s') \<Longrightarrow> kinv s'"
proof -
  show "lock_init l s = Some s' \<Longrightarrow> kinv s'"
    using assms sema_init_kinv [of "set_holder l NULL s"] by (auto simp: lock_init_def)
  show "lock_acquire l s = Some s' \<Longrightarrow> kinv s'"
    using assms by (auto simp: lock_acquire_def bind_eq_Some_conv elim!: kinv_push_client)
  show "lock_acquire_other l t s = Some s' \<Longrightarrow> kinv s'"
    using assms by (auto simp: lock_acquire_other_def bind_eq_Some_conv elim!: kinv_push_client)
  show "lock_release l s = Some s' \<Longrightarrow> kinv s'"
    using assms kinv_push_client [of "set_holder l NULL s" "[F_sema_up (lock_sema l)]" s']
    by (auto simp: lock_release_def bind_eq_Some_conv set_holder_def)
  show "lock_try_acquire l s = Some (b, s') \<Longrightarrow> kinv s'"
    using assms sema_try_down_kinv [of s "lock_sema l"]
    by (auto simp: lock_try_acquire_def bind_eq_Some_conv split: if_splits)
qed

lemma sema_init_fields: "sema_init a v s = Some s' \<Longrightarrow> running_thread s' = running_thread s \<and> idle_thread s' = idle_thread s"
  by (auto simp: sema_init_def set_sema_def)

lemma cond_kinv:
  assumes "kinv s" "running_thread s \<noteq> idle_thread s"
  shows "cond_wait c l w s = Some s' \<Longrightarrow> kinv s'" "cond_signal c l s = Some s' \<Longrightarrow> kinv s'"
    "cond_broadcast c l s = Some s' \<Longrightarrow> kinv s'"
proof -
  show "kinv s'" if w: "cond_wait c l w s = Some s'"
  proof -
    obtain s1 ws where s1: "sema_init w 0 s = Some s1" "push_kont [F_lock_release l, F_sema_down w, F_lock_acquire l]
        (s1\<lparr>conds := (conds s1)(c \<mapsto> ws @ [w])\<rparr>) = Some s'"
      using w by (auto simp: cond_wait_def bind_eq_Some_conv Let_def)
    show ?thesis
      by (rule kinv_push_client [OF _ s1(2)]) (use assms sema_init_kinv [OF assms(1) s1(1)] sema_init_fields [OF s1(1)] in auto)
  qed
  show "kinv s'" if w: "cond_signal c l s = Some s'"
  proof -
    obtain ws where ws: "conds s c = Some ws" "(case ws of [] \<Rightarrow> Some s
      | w # ws \<Rightarrow> push_kont [F_sema_up w] (s\<lparr>conds := (conds s)(c \<mapsto> ws)\<rparr>)) = Some s'"
      using w by (auto simp: cond_signal_def bind_eq_Some_conv)
    then show ?thesis using assms kinv_push_client [of "s\<lparr>conds := (conds s)(c \<mapsto> tl ws)\<rparr>" "[F_sema_up (hd ws)]" s']
      by (cases ws) auto
  qed
  show "cond_broadcast c l s = Some s' \<Longrightarrow> kinv s'"
    using assms by (auto simp: cond_broadcast_def bind_eq_Some_conv split: if_splits elim!: kinv_push_client)
qed

lemma sema_up_yield_kinv: "kinv s \<Longrightarrow> sema_up_yield p s = Some s' \<Longrightarrow> kinv s'"
  by (auto simp: sema_up_yield_def bind_eq_Some_conv split: if_splits elim: thread_yield_kinv)

subsection \<open>Priorities\<close>

lemma set_priority_kinv:
  assumes "kinv s" "PRI_MIN \<le> p" "p \<le> PRI_MAX" "upd_thread (running_thread s) (\<lambda>th. th\<lparr>priority := p\<rparr>) s = Some s'"
  shows "kinv s'"
proof -
  obtain c where c: "threads s (running_thread s) = Some c" "status c = THREAD_RUNNING" using kinv_cur [OF assms(1)] by auto
  then have s': "s' = s\<lparr>threads := (threads s)(running_thread s \<mapsto> c\<lparr>priority := p\<rparr>)\<rparr>" using assms(4) by (auto simp: upd_thread_Some)
  have "core ((view s)(running_thread s \<mapsto> (THREAD_RUNNING, p, magic c))) (occ s) (Some (running_thread s)) (idle_thread s)"
    using assms c by (intro core_set_pri) (auto simp: kinv_def kcore_def tview_def)
  moreover have "occ s' = occ s" using c s' by (auto simp: fun_eq_iff)
  moreover have "kont_inv s'" unfolding s' using assms(1) c by (intro kont_inv_upd) (auto simp: kinv_def)
  ultimately show ?thesis using assms(1) s' c(2) by (simp add: kinv_def kcore_def tview_def)
qed

lemma thread_set_priority_kinv:
  assumes "kinv s" "PRI_MIN \<le> p" "p \<le> PRI_MAX" "thread_set_priority p s = Some s'"
  shows "kinv s'"
proof -
  have "thread_current s = Some (running_thread s)" using assms(1) thread_current_ok by (simp add: kinv_def)
  then obtain s1 where s1: "upd_thread (running_thread s) (\<lambda>th. th\<lparr>priority := p\<rparr>) s = Some s1"
    "thread_yield s1 = Some s' \<or> s' = s1"
    using assms(4) by (auto simp: thread_set_priority_def bind_eq_Some_conv split: if_splits)
  then show ?thesis using set_priority_kinv [OF assms(1-3) s1(1)] thread_yield_kinv by blast
qed

lemma BSD_calc_priority_this_range: "BSD_calc_priority_this r n = Some p \<Longrightarrow> PRI_MIN \<le> p \<and> p \<le> PRI_MAX"
  by (auto simp: BSD_calc_priority_this_def bind_eq_Some_conv Let_def pri_consts)

lemma thread_set_nice_kinv:
  assumes "kinv s" "thread_set_nice n s = Some s'"
  shows "kinv s'"
proof -
  have cur: "thread_current s = Some (running_thread s)" using assms(1) thread_current_ok by (simp add: kinv_def)
  have "\<exists>s1 pri s2. upd_thread (running_thread s) (\<lambda>th. th\<lparr>nice := n\<rparr>) s = Some s1 \<and> PRI_MIN \<le> pri \<and> pri \<le> PRI_MAX \<and>
    upd_thread (running_thread s) (\<lambda>th. th\<lparr>priority := pri\<rparr>) s1 = Some s2 \<and> (thread_yield s2 = Some s' \<or> s2 = s')"
    using assms(2) cur by (auto simp: thread_set_nice_def bind_eq_Some_conv dest!: BSD_calc_priority_this_range split: if_splits)
  then obtain s1 pri s2 where s1: "upd_thread (running_thread s) (\<lambda>th. th\<lparr>nice := n\<rparr>) s = Some s1"
    and pri: "PRI_MIN \<le> pri" "pri \<le> PRI_MAX" and s2: "upd_thread (running_thread s) (\<lambda>th. th\<lparr>priority := pri\<rparr>) s1 = Some s2"
    and r: "thread_yield s2 = Some s' \<or> s2 = s'" by blast
  have k1: "kinv s1" by (rule kinv_upd_thread [OF assms(1) s1]) (auto simp: tview_def)
  have "running_thread s1 = running_thread s" using s1 by (auto simp: upd_thread_Some)
  then have "kinv s2" using set_priority_kinv [OF k1] pri s2 by simp
  then show ?thesis using r thread_yield_kinv by blast
qed

subsection \<open>Sleeping, exit and creation\<close>

lemma timer_ticks_kinv: "kinv s \<Longrightarrow> timer_ticks s = Some (ticks s, s)"
  by (cases s) (auto simp: timer_ticks_def intr_disable_def intr_set_level_def intr_enable_def intr_get_level_def
    intr_context_def kinv_def)

lemma timer_sleep_kinv:
  assumes "kinv s" "running_thread s \<noteq> idle_thread s" "timer_sleep n a s = Some s'"
  shows "kinv s'"
proof -
  have "push_kont [F_sleep_check n (ticks s) a] s = Some s'"
    using assms(3) timer_ticks_kinv [OF assms(1)] by (simp add: timer_sleep_def)
  then show ?thesis by (rule kinv_push_client [OF assms(1) _ assms(2)]) auto
qed

lemma timer_sleep_check_kinv:
  assumes "kinv s" "running_thread s \<noteq> idle_thread s" "timer_sleep_check n st a s = Some s'"
  shows "kinv s'"
proof (cases "s64 (ticks s - st) < n")
  case False
  then show ?thesis using assms timer_ticks_kinv [OF assms(1)] by (simp add: timer_sleep_check_def timer_elapsed_def)
next
  case True
  obtain c where c: "threads s (running_thread s) = Some c" using kinv_cur [OF assms(1)] by auto
  let ?e = "(s64 (n + st), running_thread s)"
  let ?s2 = "s\<lparr>if_flag := False, list_alarm := list_alarm s @ [?e],
    threads := (threads s)(running_thread s \<mapsto> c\<lparr>kont := [F_set_level (intr_get_level s)] @ kont c\<rparr>)\<rparr>"
  have k0: "kinv (s\<lparr>if_flag := False\<rparr>)" using assms(1) by simp
  then have "thread_current (s\<lparr>if_flag := False\<rparr>) = Some (running_thread s)"
    using thread_current_ok [of "s\<lparr>if_flag := False\<rparr>"] by (simp add: kinv_def)
  then have eq: "thread_block ?s2 = Some s'"
    using assms(3) True c timer_ticks_kinv [OF assms(1)]
    by (simp add: timer_sleep_check_def timer_elapsed_def intr_disable_def push_kont_def upd_thread_def)
  have "occ ?s2 = (occ s)(At_alarm := occ s At_alarm @ [running_thread s])"
  proof
    fix pl show "occ ?s2 pl = ((occ s)(At_alarm := occ s At_alarm @ [running_thread s])) pl" using c by (cases pl) auto
  qed
  then have "\<exists>s'. thread_block ?s2 = Some s' \<and> kinv s'"
    using park_total [of s c ?s2 "[F_set_level (intr_get_level s)]" At_alarm] assms(1,2) c by (auto simp: kinv_def)
  then show ?thesis using eq by auto
qed

lemma kernel_thread_kinv:
  assumes "kinv s" "running_thread s \<noteq> idle_thread s" "kernel_thread (Client n) s = Some s'"
  shows "kinv s'"
proof -
  have "push_kont [F_function (Client n), F_exit] (s\<lparr>if_flag := True\<rparr>) = Some s'"
    using assms by (auto simp: kernel_thread_def intr_enable_def)
  then show ?thesis using kinv_push_client [of "s\<lparr>if_flag := True\<rparr>"] assms(1,2) by auto
qed

lemma kinv_log_event [simp]: "kinv (log_event e s) = kinv s"
  by (simp add: log_event_def)

lemma log_event_fields [simp]:
  "running_thread (log_event e s) = running_thread s" "idle_thread (log_event e s) = idle_thread s"
  "threads (log_event e s) = threads s"
  by (simp_all add: log_event_def)

lemma thread_current_kinv: "kinv s \<Longrightarrow> thread_current s = Some (running_thread s)"
  using thread_current_ok by (simp add: kinv_def)

definition calm :: "kstate \<Rightarrow> kstate \<Rightarrow> bool" where
  "calm s s' \<longleftrightarrow> kinv s' \<and> running_thread s' = running_thread s \<and> idle_thread s' = idle_thread s"

lemma calm_upd_thread:
  assumes "kinv s" "upd_thread t f s = Some s'"
    "\<And>th. tview (f th) = tview th" "\<And>th. kont (f th) = kont th" "\<And>th. name (f th) = name th"
  shows "calm s s'"
  using kinv_upd_thread [OF assms] assms(2) by (auto simp: calm_def upd_thread_Some)

lemma process_exit_calm:
  assumes "kinv s" "process_exit s = Some s'" shows "calm s s'"
proof -
  consider "s' = s" | pd s1 where "upd_thread (running_thread s) (\<lambda>th. th\<lparr>pagedir := NULL\<rparr>) s = Some s1"
      "s' = log_event (E_pagedir_destroy pd) (log_event (E_pagedir_activate NULL) s1)"
    using assms(2) thread_current_kinv [OF assms(1)]
    by (auto simp: process_exit_def bind_eq_Some_conv Let_def split: if_splits)
  then show ?thesis
  proof cases
    case 1 then show ?thesis using assms(1) by (simp add: calm_def)
  next
    case 2
    have "calm s s1" by (rule calm_upd_thread [OF assms(1) 2(1)]) (auto simp: tview_def)
    then show ?thesis using 2(2) by (simp add: calm_def)
  qed
qed

lemma close_files_calm: "kinv s \<Longrightarrow> close_files n i s = Some s' \<Longrightarrow> calm s s'"
proof (induction n i s rule: close_files.induct)
  case (1 i s)
  then show ?case by (simp add: calm_def)
next
  case (2 n i s)
  obtain th s1 where s1: "threads s (running_thread s) = Some th" "close_files n (Suc i) s1 = Some s'"
    "(if files_table th ! i \<noteq> NULL
      then upd_thread (running_thread s) (\<lambda>th. th\<lparr>files_table := (files_table th)[i := NULL]\<rparr>)
        (log_event (E_file_close (files_table th ! i)) s)
      else Some s) = Some s1" "i < length (files_table th)"
    using "2.prems" thread_current_kinv [OF "2.prems"(1)] by (auto simp: bind_eq_Some_conv Let_def)
  have "calm s s1"
  proof (cases "files_table th ! i \<noteq> NULL")
    case True
    then have "upd_thread (running_thread s) (\<lambda>th. th\<lparr>files_table := (files_table th)[i := NULL]\<rparr>)
        (log_event (E_file_close (files_table th ! i)) s) = Some s1" using s1(3) by simp
    from calm_upd_thread [OF _ this] "2.prems"(1) show ?thesis by (simp add: calm_def tview_def)
  next
    case False then show ?thesis using s1(3) "2.prems"(1) by (simp add: calm_def)
  qed
  moreover have "calm s1 s'"
    using "2.IH" [of "running_thread s" th "()" _ s1] s1 \<open>calm s s1\<close> thread_current_kinv [OF "2.prems"(1)]
    by (auto simp: calm_def)
  ultimately show ?case by (simp add: calm_def)
qed

lemma calm_push:
  assumes "calm s s1" "running_thread s \<noteq> idle_thread s" "push_kont fs s1 = Some s'" "list_all client_frame fs" "creating fs = []"
  shows "kinv s'"
  using kinv_push_client [OF _ assms(3)] assms by (simp add: calm_def)

lemma next_loop_flag: "if_flag (snd (next_loop n s)) = if_flag s"
  by (induction n) (auto split: list.splits)

lemma schedule_off: "schedule s = Some s' \<Longrightarrow> \<not> if_flag s"
  using next_loop_flag [of "nat (PRI_MAX + 1)" s]
  by (cases "next_loop (nat (PRI_MAX + 1)) s")
    (auto simp: schedule_def next_thread_to_run_def intr_get_level_def Let_def split: if_splits)

lemma occ_cong_kont:
  assumes "\<And>t. map_option kont (threads s' t) = map_option kont (threads s t)"
    "ready_list s' = ready_list s" "semas s' = semas s" "list_alarm s' = list_alarm s"
  shows "occ s' = occ s"
proof
  fix pl show "occ s' pl = occ s pl"
  proof (cases pl)
    case (At_create b)
    then show ?thesis using assms(1) [of b] by (auto split: option.splits)
  qed (use assms in simp_all)
qed

lemma thread_exit_kinv:
  assumes "kinv s" "running_thread s \<noteq> idle_thread s"
  shows "thread_exit s = Some s' \<Longrightarrow> kinv s'" "thread_exit_user s = Some s' \<Longrightarrow> kinv s'"
    "thread_exit_wait s = Some s' \<Longrightarrow> kinv s'" "thread_exit_off s = Some s' \<Longrightarrow> kinv s'"
    "thread_exit_die s = Some s' \<Longrightarrow> kinv s'"
proof -
  note cur = thread_current_kinv [OF assms(1)]
  show "thread_exit s = Some s' \<Longrightarrow> kinv s'"
    using cur assms by (auto simp: thread_exit_def bind_eq_Some_conv elim!: kinv_push_client)
  show "thread_exit_wait s = Some s' \<Longrightarrow> kinv s'"
    using cur assms by (auto simp: thread_exit_wait_def bind_eq_Some_conv elim!: kinv_push_client)
  show "kinv s'" if e: "thread_exit_off s = Some s'"
  proof -
    let ?s = "s\<lparr>if_flag := False\<rparr>"
    have k: "kinv ?s" using assms(1) by simp
    have "push_kont [F_lock_release (lock_exit2 (running_thread s)), F_exit_die] ?s = Some s'"
      using e thread_current_kinv [OF k] by (simp add: thread_exit_off_def intr_disable_def)
    then show ?thesis using kinv_push_client [OF k] assms(2) by simp
  qed
  show "kinv s'" if e: "thread_exit_user s = Some s'"
  proof -
    obtain s1 where s1: "(if \<not> userprog s then Some s else do {
       s \<leftarrow> process_exit s;
       cur \<leftarrow> thread_current s;
       th \<leftarrow> threads s cur;
       let file = file_cur th;
       k_assert (file \<noteq> NULL);
       let s = log_event (E_file_close file) (log_event (E_file_allow_write file) s);
       s \<leftarrow> close_files (nat (fd th - 1)) 0 s;
       Some (log_event E_free_files_table s) }) = Some s1"
      "do { cur \<leftarrow> thread_current s1; push_kont [F_lock_release (lock_wait cur), F_exit_wait] s1 } = Some s'"
      using e unfolding thread_exit_user_def by (auto elim!: bind_SomeE)
    have c: "calm s s1"
    proof (cases "userprog s")
      case False then show ?thesis using s1(1) assms(1) by (simp add: calm_def)
    next
      case True
      then obtain s2 f m s3 where s2: "process_exit s = Some s2"
        "close_files m 0 (log_event (E_file_close f) (log_event (E_file_allow_write f) s2)) = Some s3"
        "s1 = log_event E_free_files_table s3"
        using s1(1) by (auto simp: bind_eq_Some_conv Let_def)
      then show ?thesis using process_exit_calm [OF assms(1) s2(1)] close_files_calm [OF _ s2(2)] by (simp add: calm_def)
    qed
    then have "push_kont [F_lock_release (lock_wait (running_thread s1)), F_exit_wait] s1 = Some s'"
      using s1(2) thread_current_kinv by (simp add: calm_def)
    then show ?thesis by (rule calm_push [OF c assms(2)]) auto
  qed
  show "kinv s'" if e: "thread_exit_die s = Some s'"
  proof -
    obtain c where c: "threads s (running_thread s) = Some c" using kinv_cur [OF assms(1)] by auto
    let ?s = "s\<lparr>all_list := remove1 (running_thread s) (all_list s),
      threads := (threads s)(running_thread s \<mapsto> c\<lparr>status := THREAD_DYING\<rparr>)\<rparr>"
    have sc: "schedule ?s = Some s'" using e cur c by (auto simp: thread_exit_die_def upd_thread_def)
    then have off: "\<not> if_flag s" using schedule_off by fastforce
    have "core ((view s)(running_thread s \<mapsto> (THREAD_DYING, priority c, magic c))) (occ s) None (idle_thread s)"
      using assms c by (intro core_stop) (auto simp: kinv_def kcore_def tview_def)
    moreover have "occ ?s = occ s" using c by (intro occ_cong_kont) auto
    moreover have "view ?s = (view s)(running_thread s \<mapsto> (THREAD_DYING, priority c, magic c))"
      using c by (auto simp: fun_eq_iff view_def)
    ultimately have "kcore ?s None" by (simp add: kcore_def)
    then obtain s'' where s'': "schedule ?s = Some s''" "kcore s'' (Some (running_thread s''))" "switched ?s s''"
      using schedule_ok [of ?s "c\<lparr>status := THREAD_DYING\<rparr>"] off by auto
    have "kont_inv ?s" using assms(1) c by (auto simp: kinv_def kont_inv_def)
    then show ?thesis using kont_inv_switched [OF _ s''(3)] s'' sc assms(1) by (auto simp: kinv_def switched_def)
  qed
qed

definition new_thread :: "addr \<Rightarrow> string \<Rightarrow> int \<Rightarrow> int \<Rightarrow> int \<Rightarrow> int \<Rightarrow> thread" where
  "new_thread t nm prio tk nc rc = \<lparr>tid = 0, status = THREAD_BLOCKED, name = take 15 nm, stack = t + PGSIZE, priority = prio,
     pagedir = NULL, magic = THREAD_MAGIC, exit_status = 0, exit_soon = False, files_table = [], fd = 1,
     file_cur = NULL, recent_unused = tk, nice = nc, recent_cpu = rc, kont = [], retval = 0\<rparr>"

definition thread_locks :: "addr \<Rightarrow> addr list" where
  "thread_locks t = [lock_exit t, lock_wait t, lock_exec t, lock_exit2 t]"

definition init_frames :: "addr \<Rightarrow> frame list" where
  "init_frames t = [F_lock_acquire_other (lock_exec t) t, F_lock_acquire_other (lock_wait t) t,
     F_lock_acquire_other (lock_exit2 t) t, F_push_all t]"

lemma timer_ticks_ok: "(if_flag s \<Longrightarrow> \<not> in_external_intr s) \<Longrightarrow> timer_ticks s = Some (ticks s, s)"
  by (cases s) (auto simp: timer_ticks_def intr_disable_def intr_set_level_def intr_enable_def intr_get_level_def intr_context_def)

lemma init_thread_Some:
  assumes "init_thread t nm prio s = Some s'" "if_flag s \<Longrightarrow> \<not> in_external_intr s"
  shows "\<exists>nc rc. t \<noteq> NULL \<and> PRI_MIN \<le> prio \<and> prio \<le> PRI_MAX \<and>
    push_kont (init_frames t) (fold new_lock (thread_locks t)
      (s\<lparr>threads := (threads s)(t \<mapsto> new_thread t nm prio (ticks s) nc rc)\<rparr>)) = Some s'"
  using assms timer_ticks_ok [OF assms(2)]
  by (auto simp: init_thread_def bind_eq_Some_conv Let_def new_thread_def thread_locks_def init_frames_def)

lemma fold_new_lock:
  "threads (fold new_lock ls s) = threads s" "ready_list (fold new_lock ls s) = ready_list s"
  "list_alarm (fold new_lock ls s) = list_alarm s" "running_thread (fold new_lock ls s) = running_thread s"
  "idle_thread (fold new_lock ls s) = idle_thread s" "in_external_intr (fold new_lock ls s) = in_external_intr s"
  "if_flag (fold new_lock ls s) = if_flag s" "conds (fold new_lock ls s) = conds s" "all_list (fold new_lock ls s) = all_list s"
  "userprog (fold new_lock ls s) = userprog s"
  by (induction ls arbitrary: s) (simp_all add: new_lock_def)

lemma core_new_locks:
  "core v (occ s) R i \<Longrightarrow> core v (occ (fold new_lock ls s)) R i"
proof (induction ls arbitrary: s)
  case (Cons l ls)
  have "occ (new_lock l s) = (occ s)(At_sema (lock_sema l) := [])"
  proof
    fix pl show "occ (new_lock l s) pl = ((occ s)(At_sema (lock_sema l) := [])) pl" by (cases pl) (auto simp: new_lock_def)
  qed
  then have "core v (occ (new_lock l s)) R i" using core_shrink [OF Cons.prems, of "[]" "At_sema (lock_sema l)"] by simp
  then show ?case using Cons.IH by simp
qed simp

lemma thread_create_kinv:
  assumes k: "kinv s" and ni: "running_thread s \<noteq> idle_thread s" and fresh: "threads s page = None"
    and cr: "thread_create nm prio (Client n) page s = Some s'"
  shows "kinv s'"
proof (cases "page = NULL")
  case True
  then show ?thesis using k cr kinv_set_retval by (simp add: thread_create_def)
next
  case False
  obtain c where c: "threads s (running_thread s) = Some c" using kinv_cur [OF k] by auto
  then have pc: "page \<noteq> running_thread s" using fresh by auto
  have co: "core (view s) (occ s) (Some (running_thread s)) (idle_thread s)" using k by (simp add: kinv_def kcore_def)
  have pi: "page \<noteq> idle_thread s" using core_idle [OF co] fresh by (auto dest!: view_SomeD)
  let ?fs = "[F_allocate_tid, F_create_tail page (Client n)]"
  let ?s1 = "s\<lparr>threads := (threads s)(running_thread s \<mapsto> c\<lparr>kont := ?fs @ kont c\<rparr>)\<rparr>"
  have it: "init_thread page nm prio ?s1 = Some s'"
    using cr False c by (simp add: thread_create_def push_kont_def upd_thread_def)
  have ext: "if_flag ?s1 \<Longrightarrow> \<not> in_external_intr ?s1" using k by (simp add: kinv_def)
  obtain nc rc where pr: "PRI_MIN \<le> prio" "prio \<le> PRI_MAX" and pk: "push_kont (init_frames page)
      (fold new_lock (thread_locks page) (?s1\<lparr>threads := (threads ?s1)(page \<mapsto> new_thread page nm prio (ticks s) nc rc)\<rparr>)) = Some s'"
    using init_thread_Some [OF it ext] by auto
  let ?th = "new_thread page nm prio (ticks s) nc rc"
  let ?s2 = "?s1\<lparr>threads := (threads ?s1)(page \<mapsto> ?th)\<rparr>"
  let ?s3 = "fold new_lock (thread_locks page) ?s2"
  have tv: "tview ?th = (THREAD_BLOCKED, prio, THREAD_MAGIC)" "kont ?th = []" by (simp_all add: new_thread_def tview_def)
  have "view ?s2 = (view s)(page \<mapsto> (THREAD_BLOCKED, prio, THREAD_MAGIC))"
    using c tv pc by (auto simp: view_def fun_eq_iff tview_def)
  moreover have "occ ?s2 = (occ s)(At_create (running_thread s) := page # occ s (At_create (running_thread s)))"
  proof
    fix pl show "occ ?s2 pl = ((occ s)(At_create (running_thread s) := page # occ s (At_create (running_thread s)))) pl"
      using c fresh pc tv(2) by (cases pl) auto
  qed
  ultimately have "core (view ?s2) (occ ?s2) (Some (running_thread s)) (idle_thread s)"
    using core_new [OF co _ False pr, of "running_thread s"] fresh by simp
  then have "core (view ?s3) (occ ?s3) (Some (running_thread s)) (idle_thread s)"
    using core_new_locks view_cong [OF fold_new_lock(1)] by metis
  then have kc: "kcore ?s3 (Some (running_thread ?s3))" by (simp add: kcore_def fold_new_lock)
  have "kont_inv ?s2" using k c pc pi tv(2) ni by (auto simp: kinv_def kont_inv_def)
  then have "kont_inv ?s3" by (simp add: kont_inv_def fold_new_lock)
  then have "kinv ?s3" using kc k by (simp add: kinv_def fold_new_lock)
  then show ?thesis using kinv_push_client [OF _ pk] ni by (simp add: fold_new_lock init_frames_def)
qed


subsection \<open>The last step of creation and the idle loop\<close>

lemma create_tail_kinv:
  assumes k: "kinv s" and kt: "cur_kont s = F_create_tail t func # k" and fn: "func = Client n"
    and p: "set_kont k s = Some s1" and e: "thread_create_tail t func s1 = Some s'"
  shows "kinv s'"
proof -
  obtain c where c: "threads s (running_thread s) = Some c" "kont c = F_create_tail t func # k"
    "s1 = s\<lparr>threads := (threads s)(running_thread s \<mapsto> c\<lparr>kont := k\<rparr>)\<rparr>"
    using kt p by (auto simp: set_kont_Some cur_kont_def)
  have co: "core (view s) (occ s) (Some (running_thread s)) (idle_thread s)" using k by (simp add: kinv_def kcore_def)
  have mo: "t \<in> set (occ s (At_create (running_thread s)))" using c by simp
  have k1: "kinv s1" by (rule pop_kinv(1) [OF k kt _ p]) simp
  have oc1: "occ s1 = (occ s)(At_create (running_thread s) := remove1 t (occ s (At_create (running_thread s))))"
    using c by simp
  have np: "t \<notin> set (occ s1 pl)" for pl using core_unpark(2) [OF co mo] oc1 by simp
  obtain th where th: "threads s t = Some th" "status th = THREAD_BLOCKED"
    using core_place_ex [OF co mo] view_SomeD by (fastforce simp: tview_def)
  have tc: "t \<noteq> running_thread s" using core_cur_free [OF co] mo by metis
  have ti: "t \<noteq> idle_thread s" by (rule core_place [OF co mo])
  define i where "i = retval c"
  let ?th = "th\<lparr>tid := i, stack := stack th - 12 - 4 - 28, kont := [F_kernel_thread func]\<rparr>"
  let ?s2 = "s1\<lparr>threads := (threads s1)(t \<mapsto> ?th, running_thread s \<mapsto> c\<lparr>kont := k, retval := i\<rparr>)\<rparr>"
  have kc1: "kcore s1 (Some (running_thread s1))" using k1 unfolding kinv_def by blast
  have ist: "is_thread t s1" using is_thread_core [OF kc1, of t th] th c tc by simp
  have "thread_create_tail t func s1 = thread_unblock t ?s2"
    using c tc th ist k1
    by (cases s) (auto simp: thread_create_tail_def upd_thread_def intr_disable_def alloc_frame_def is_thread_def
      intr_set_level_def intr_enable_def intr_get_level_def intr_context_def set_retval_def i_def kinv_def)
  then have u: "thread_unblock t ?s2 = Some s'" using e by simp
  have v2: "view ?s2 = view s1" using c tc th by (auto simp: view_def fun_eq_iff tview_def)
  have o2: "occ ?s2 = (occ s1)(At_create t := [])"
  proof
    fix pl show "occ ?s2 pl = ((occ s1)(At_create t := [])) pl" using c tc by (cases pl) auto
  qed
  have "core (view s1) (occ s1) (Some (running_thread s1)) (idle_thread s1)" using kc1 by (simp add: kcore_def)
  then have "core (view s1) ((occ s1)(At_create t := [])) (Some (running_thread s1)) (idle_thread s1)"
    by (rule core_shrink) auto
  then have "kcore ?s2 (Some (running_thread ?s2))" unfolding kcore_def v2 o2 by simp
  moreover have "kont_inv ?s2"
  proof -
    let ?a = "s1\<lparr>threads := (threads s1)(t \<mapsto> ?th)\<rparr>"
    have "kont_inv s1" using k1 unfolding kinv_def by blast
    then have "kont_inv ?a" by (rule kont_inv_upd [of _ _ th]) (use c ti tc fn th in auto)
    then have "kont_inv (?a\<lparr>threads := (threads ?a)(running_thread s \<mapsto> c\<lparr>kont := k, retval := i\<rparr>)\<rparr>)"
      by (rule kont_inv_upd [of _ _ "c\<lparr>kont := k\<rparr>"]) (use c tc in auto)
    then show ?thesis by simp
  qed
  moreover have "\<not> in_external_intr ?s2" using k1 by (simp add: kinv_def)
  ultimately have k2: "kinv ?s2" unfolding kinv_def by blast
  have np2: "t \<notin> set (occ ?s2 pl)" for pl unfolding o2 using np [of pl] by simp
  have th2: "threads ?s2 t = Some ?th" "status ?th = THREAD_BLOCKED" "t \<noteq> idle_thread ?s2" using tc ti th c by simp_all
  show ?thesis by (rule thread_unblock_kinv [OF k2 th2 np2 u])
qed

lemma idle_loop_kinv:
  assumes k: "kinv s" and kt: "cur_kont s = F_idle_loop # k" and p: "set_kont k s = Some s1" and e: "idle_loop s1 = Some s'"
  shows "kinv s'"
proof -
  obtain c where c: "threads s (running_thread s) = Some c" "kont c = F_idle_loop # k"
    "s1 = s\<lparr>threads := (threads s)(running_thread s \<mapsto> c\<lparr>kont := k\<rparr>)\<rparr>"
    using kt p by (auto simp: set_kont_Some cur_kont_def)
  have ki0: "if running_thread s = idle_thread s then name c = ''idle'' \<and> idle_kont (kont c) else list_all client_frame (kont c)"
    using k c(1) unfolding kinv_def kont_inv_def by blast
  then have id: "running_thread s = idle_thread s" using c(2) by (auto split: if_splits)
  then have kk: "k = [F_exit]" using ki0 c(2) by (auto simp: idle_kont_def Cons_eq_append_conv)
  let ?c = "c\<lparr>kont := F_sti_hlt # F_idle_loop # k\<rparr>"
  let ?s2 = "s\<lparr>if_flag := False, threads := (threads s)(running_thread s \<mapsto> ?c)\<rparr>"
  let ?s3 = "?s2\<lparr>threads := (threads ?s2)(running_thread ?s2 \<mapsto> ?c\<lparr>status := THREAD_BLOCKED\<rparr>)\<rparr>"
  have "kcore (s\<lparr>if_flag := False\<rparr>) (Some (running_thread s))" using k kcore_cong [of "s\<lparr>if_flag := False\<rparr>" s] by (simp add: kinv_def)
  then have kc: "kcore ?s2 (Some (running_thread ?s2))"
    using kcore_upd_same [of "s\<lparr>if_flag := False\<rparr>" _ "running_thread s" c ?c] c kk by (simp add: tview_def)
  have ik: "idle_kont (F_sti_hlt # F_idle_loop # k)" using kk by (auto simp: idle_kont_def intro: exI [of _ "[F_sti_hlt]"])
  have "kont_inv s" using k unfolding kinv_def by blast
  then have "kont_inv (s\<lparr>threads := (threads s)(running_thread s \<mapsto> ?c\<lparr>status := THREAD_BLOCKED\<rparr>)\<rparr>)"
    using c(1) id ik by (intro kont_inv_upd) auto
  then have ki: "kont_inv ?s3" by (simp add: kont_inv_def)
  have ext: "\<not> in_external_intr ?s2" "if_flag ?s2 = False" "threads ?s2 (running_thread ?s2) = Some ?c" using k by (simp_all add: kinv_def)
  from thread_block_ok [OF kc ext(2,1,3)] obtain s'' where s'': "thread_block ?s2 = Some s''"
    "kcore s'' (Some (running_thread s''))" "switched ?s3 s''" by blast
  have "thread_block ?s2 = Some s'"
    using e c by (cases s) (auto simp: idle_loop_def intr_disable_def push_kont_def upd_thread_def)
  then have eq: "s'' = s'" using s''(1) by simp
  have "\<not> in_external_intr s''" using s''(3) ext(1) by (simp add: switched_def)
  then show ?thesis using s''(2) kont_inv_switched [OF ki s''(3)] eq by (simp add: kinv_def)
qed

end
