(* ===== verification/Timer_Inv.thy ===== *)
theory Timer_Inv
  imports Kernel_Inv
begin

text \<open>
  The timer interrupt keeps the kernel invariant: the BSD scheduler and aging refile ready threads, the handler
  wakes exactly the sleepers whose time has come.  \<open>kstep\<close> is the step relation of the kernel, and every
  step keeps \<open>kinv\<close>.
\<close>

subsection \<open>The timer interrupt\<close>

definition kin :: "kstate \<Rightarrow> bool" where
  "kin s \<longleftrightarrow> kcore s (Some (running_thread s)) \<and> \<not> if_flag s \<and> in_external_intr s \<and> kont_inv s"

text \<open>\<open>steady s s'\<close>: the handler has not switched threads, and the stacks and sleepers are as they were.\<close>

definition steady :: "kstate \<Rightarrow> kstate \<Rightarrow> bool" where
  "steady s s' \<longleftrightarrow> kin s' \<and> running_thread s' = running_thread s \<and> idle_thread s' = idle_thread s \<and>
     semas s' = semas s \<and> holders s' = holders s \<and> conds s' = conds s \<and> wiped s' = wiped s \<and> list_alarm s' = list_alarm s \<and>
     ticks s' = ticks s \<and> all_list s' = all_list s \<and>
     (\<forall>t. map_option kont (threads s' t) = map_option kont (threads s t)) \<and>
     (\<forall>t. map_option status (threads s' t) = map_option status (threads s t)) \<and>
     (\<forall>t. map_option name (threads s' t) = map_option name (threads s t))"

lemma steady_refl: "kin s \<Longrightarrow> steady s s" by (simp add: steady_def)

lemma steady_trans: "steady s s' \<Longrightarrow> steady s' s'' \<Longrightarrow> steady s s''" by (simp add: steady_def)

lemma steady_kin: "steady s s' \<Longrightarrow> kin s'" by (simp add: steady_def)

lemma kont_inv_steady:
  assumes "kont_inv s" "idle_thread s' = idle_thread s"
    "\<And>t. map_option kont (threads s' t) = map_option kont (threads s t)"
    "\<And>t. map_option name (threads s' t) = map_option name (threads s t)"
  shows "kont_inv s'"
  unfolding kont_inv_def
proof (intro allI impI)
  fix t th' assume "threads s' t = Some th'"
  then obtain th where "threads s t = Some th" "kont th' = kont th" "name th' = name th"
    using assms(3,4) [of t] by (cases "threads s t") auto
  then show "if t = idle_thread s' then name th' = ''idle'' \<and> idle_kont (kont th') else list_all client_frame (kont th')"
    using assms(1,2) unfolding kont_inv_def by metis
qed

lemma steady_upd:
  assumes k: "kin s" and th: "threads s t = Some th" and f: "tview th' = tview th" "kont th' = kont th" "name th' = name th"
  shows "steady s (s\<lparr>threads := (threads s)(t \<mapsto> th')\<rparr>)"
proof -
  let ?s = "s\<lparr>threads := (threads s)(t \<mapsto> th')\<rparr>"
  have "kcore ?s (Some (running_thread s))"
    using k th f kcore_distinct_creating [of s _ t th] by (intro kcore_upd_same) (auto simp: kin_def)
  moreover have "kont_inv ?s" using k th f by (intro kont_inv_upd) (auto simp: kin_def)
  ultimately show ?thesis using k th f by (auto simp: steady_def kin_def tview_def)
qed

lemma steady_upd_thread:
  assumes "kin s" "upd_thread t f s = Some s'"
    "\<And>th. tview (f th) = tview th" "\<And>th. kont (f th) = kont th" "\<And>th. name (f th) = name th"
  shows "steady s s'"
  using assms steady_upd [OF assms(1)] by (auto simp: upd_thread_Some)

lemma steady_cong:
  assumes "kin s" "threads s' = threads s" "ready_list s' = ready_list s" "semas s' = semas s" "list_alarm s' = list_alarm s"
    "idle_thread s' = idle_thread s" "running_thread s' = running_thread s" "in_external_intr s' = in_external_intr s"
    "if_flag s' = if_flag s" "holders s' = holders s" "conds s' = conds s" "ticks s' = ticks s" "all_list s' = all_list s"
    "wiped s' = wiped s"
  shows "steady s s'"
  using kcore_cong [OF assms(2-6)] kont_inv_cong [OF assms(2,6)] assms by (simp add: steady_def kin_def)

lemma kin_cur: "kin s \<Longrightarrow> thread_current s = Some (running_thread s)"
  using thread_current_ok by (simp add: kin_def)

lemma kin_ticks: "kin s \<Longrightarrow> timer_ticks s = Some (ticks s, s)"
  by (rule timer_ticks_off) (simp add: kin_def)

text \<open>A new priority for a thread: a thread on a ready list changes the list.\<close>

definition refile :: "addr \<Rightarrow> int \<Rightarrow> (int \<Rightarrow> addr list) \<Rightarrow> int \<Rightarrow> addr list" where
  "refile t p rl = (\<lambda>i. remove1 t (rl i))(p := remove1 t (rl p) @ [t])"

lemma set_pri_steady:
  assumes k: "kin s" and th: "threads s t = Some th" and p: "PRI_MIN \<le> p" "p \<le> PRI_MAX"
    and st: "status th \<noteq> THREAD_READY \<or> priority th = p"
  shows "steady s (s\<lparr>threads := (threads s)(t \<mapsto> th\<lparr>priority := p\<rparr>)\<rparr>)"
proof (cases "priority th = p")
  case True
  then show ?thesis using k th by (intro steady_upd) (auto simp: tview_def)
next
  case False
  let ?s = "s\<lparr>threads := (threads s)(t \<mapsto> th\<lparr>priority := p\<rparr>)\<rparr>"
  have co: "core (view s) (occ s) (Some (running_thread s)) (idle_thread s)" using k by (simp add: kin_def kcore_def)
  have "core ((view s)(t \<mapsto> (status th, p, magic th))) (occ s) (Some (running_thread s)) (idle_thread s)"
    using False st th p by (intro core_set_pri [OF co]) (auto simp: tview_def)
  moreover have "occ ?s = occ s" using th by (intro occ_cong_kont) auto
  moreover have "view ?s = (view s)(t \<mapsto> (status th, p, magic th))" by (simp add: tview_def)
  ultimately have "kcore ?s (Some (running_thread s))" by (simp add: kcore_def)
  moreover have "kont_inv ?s" using k th by (intro kont_inv_upd) (auto simp: kin_def)
  ultimately show ?thesis using k th by (auto simp: steady_def kin_def)
qed

lemma refile_steady:
  assumes k: "kin s" and th: "threads s t = Some th" "status th = THREAD_READY" and p: "PRI_MIN \<le> p" "p \<le> PRI_MAX" "p \<noteq> priority th"
    and ti: "t \<noteq> idle_thread s"
  shows "steady s (s\<lparr>threads := (threads s)(t \<mapsto> th\<lparr>priority := p\<rparr>), ready_list := refile t p (ready_list s)\<rparr>)"
    and "list_ex (\<lambda>i. t \<in> set (ready_list s i)) [PRI_MIN..PRI_MAX]"
    and "t \<noteq> x \<Longrightarrow> x \<in> set (refile t p (ready_list s) j) \<longleftrightarrow> x \<in> set (ready_list s j)"
proof -
  let ?s = "s\<lparr>threads := (threads s)(t \<mapsto> th\<lparr>priority := p\<rparr>), ready_list := refile t p (ready_list s)\<rparr>"
  have co: "core (view s) (occ s) (Some (running_thread s)) (idle_thread s)" using k by (simp add: kin_def kcore_def)
  have v: "view s t = Some (THREAD_READY, priority th, magic th)" using th by (simp add: tview_def)
  have tin: "t \<in> set (occ s (At_ready (priority th)))" by (rule core_ready [OF co v ti])
  then show "list_ex (\<lambda>i. t \<in> set (ready_list s i)) [PRI_MIN..PRI_MAX]"
    using core_info [OF co v] by (auto simp: list_ex_iff)
  have u: "i = priority th" if "t \<in> set (ready_list s i)" for i
    using core_unique [OF co _ tin, of "At_ready i"] that by simp
  have rm: "remove1 t (ready_list s i) = ready_list s i" if "i \<noteq> priority th" for i
    using u [of i] that by (intro remove1_idem) auto
  have "core ((view s)(t \<mapsto> (THREAD_READY, p, magic th)))
    ((occ s)(At_ready (priority th) := remove1 t (occ s (At_ready (priority th))), At_ready p := occ s (At_ready p) @ [t]))
    (Some (running_thread s)) (idle_thread s)"
    using p ti by (intro core_move_ready [OF co v]) auto
  moreover have "occ ?s = (occ s)(At_ready (priority th) := remove1 t (occ s (At_ready (priority th))), At_ready p := occ s (At_ready p) @ [t])"
  proof
    fix pl show "occ ?s pl = ((occ s)(At_ready (priority th) := remove1 t (occ s (At_ready (priority th))), At_ready p := occ s (At_ready p) @ [t])) pl"
      using th p(3) rm by (cases pl) (auto simp: refile_def)
  qed
  moreover have "view ?s = (view s)(t \<mapsto> (THREAD_READY, p, magic th))" using th by (auto simp: view_def fun_eq_iff)
  ultimately have "kcore ?s (Some (running_thread s))" by (simp add: kcore_def)
  moreover have "kont_inv ?s" by (rule kont_inv_steady [of s]) (use k th in \<open>auto simp: kin_def\<close>)
  ultimately show "steady s ?s" using k th by (auto simp: steady_def kin_def)
  show "t \<noteq> x \<Longrightarrow> x \<in> set (refile t p (ready_list s) j) \<longleftrightarrow> x \<in> set (ready_list s j)"
    by (auto simp: refile_def dest: notin_set_remove1)
qed

lemma clamp_range:
  "PRI_MIN \<le> (if (if p > PRI_MAX then PRI_MAX else p) < PRI_MIN then PRI_MIN else (if p > PRI_MAX then PRI_MAX else p))"
  "(if (if p > PRI_MAX then PRI_MAX else p) < PRI_MIN then PRI_MIN else (if p > PRI_MAX then PRI_MAX else p)) \<le> PRI_MAX"
  by (auto simp: pri_consts)

lemma not_idle_name: "kin s \<Longrightarrow> threads s t = Some th \<Longrightarrow> name th \<noteq> ''idle'' \<Longrightarrow> t \<noteq> idle_thread s"
  unfolding kin_def kont_inv_def by metis

text \<open>The effect of moving a ready thread: \<^verbatim>\<open>list_remove\<close> and \<^verbatim>\<open>list_push_back\<close> after the change of priority.\<close>

lemma refile_eq:
  assumes "list_ex (\<lambda>i. t \<in> set (ready_list s i)) [PRI_MIN..PRI_MAX]" "PRI_MIN \<le> p" "p \<le> PRI_MAX"
  shows "do { s \<leftarrow> ready_remove t s; ready_push p t s } = Some (s\<lparr>ready_list := refile t p (ready_list s)\<rparr>)"
  using assms by (simp add: ready_remove_def ready_push_def refile_def)

text \<open>The formula in the loop of \<open>BSD_calc_priority\<close> is that of \<open>BSD_calc_priority_this\<close>.\<close>

lemma BSD_calc_priority_body_alt:
  "BSD_calc_priority_body t (y, s) = do {
     th \<leftarrow> threads s t;
     if name th = ''idle'' then Some (y, s)
     else do {
       p \<leftarrow> BSD_calc_priority_this (recent_cpu th) (nice th);
       s \<leftarrow> upd_thread t (\<lambda>th. th\<lparr>priority := p\<rparr>) s;
       (yield, s) \<leftarrow> (if status th = THREAD_READY \<and> priority th \<noteq> p then do {
           s \<leftarrow> ready_remove t s;
           s \<leftarrow> ready_push p t s;
           c \<leftarrow> thread_cur s;
           Some (y \<or> p > priority c, s) }
         else Some (y, s));
       Some (yield \<or> (status th = THREAD_RUNNING \<and> p < thread_top_priority s), s) } }"
  by (simp add: BSD_calc_priority_body_def BSD_calc_priority_this_def Let_def cong: if_cong)

lemma BSD_calc_priority_body_steady:
  assumes k: "kin s" and e: "BSD_calc_priority_body t (y, s) = Some (y', s')"
  shows "steady s s'"
proof -
  obtain th where th: "threads s t = Some th" using e by (auto simp: BSD_calc_priority_body_def bind_eq_Some_conv)
  show ?thesis
  proof (cases "name th = ''idle''")
    case True then show ?thesis using e th steady_refl [OF k] by (simp add: BSD_calc_priority_body_def)
  next
    case False
    then obtain p where p: "BSD_calc_priority_this (recent_cpu th) (nice th) = Some p"
      using e th by (auto simp: BSD_calc_priority_body_alt bind_eq_Some_conv)
    note pr = BSD_calc_priority_this_range [OF p]
    let ?s = "s\<lparr>threads := (threads s)(t \<mapsto> th\<lparr>priority := p\<rparr>)\<rparr>"
    have ti: "t \<noteq> idle_thread s" by (rule not_idle_name [OF k th False])
    have eq: "do {
        (yield, s) \<leftarrow> (if status th = THREAD_READY \<and> priority th \<noteq> p then do {
           s \<leftarrow> ready_remove t ?s; s \<leftarrow> ready_push p t s; c \<leftarrow> thread_cur s; Some (y \<or> p > priority c, s) }
         else Some (y, ?s));
        Some (yield \<or> (status th = THREAD_RUNNING \<and> p < thread_top_priority s), s) } = Some (y', s')"
      using e th False p by (simp add: BSD_calc_priority_body_alt upd_thread_def)
    show ?thesis
    proof (cases "status th = THREAD_READY \<and> priority th \<noteq> p")
      case True
      then have tr: "status th = THREAD_READY" "p \<noteq> priority th" by auto
      note rf = refile_steady(1,2) [OF k th tr(1) conjunct1 [OF pr] conjunct2 [OF pr] tr(2) ti]
      have "do { s \<leftarrow> ready_remove t ?s; ready_push p t s } = Some (?s\<lparr>ready_list := refile t p (ready_list ?s)\<rparr>)"
        using rf(2) pr by (intro refile_eq) auto
      then obtain s1 where "ready_remove t ?s = Some s1" "ready_push p t s1 = Some (?s\<lparr>ready_list := refile t p (ready_list s)\<rparr>)"
        by (auto elim!: bind_SomeE)
      then have "s' = ?s\<lparr>ready_list := refile t p (ready_list s)\<rparr>"
        using eq True by (auto elim!: bind_SomeE)
      then show ?thesis using rf(1) by simp
    next
      case False
      then have "s' = ?s" using eq by (auto split: if_splits)
      then show ?thesis using set_pri_steady [OF k th] pr False by blast
    qed
  qed
qed

lemma BSD_calc_priority_loop_steady:
  "kin s \<Longrightarrow> BSD_calc_priority_loop ts (y, s) = Some (y', s') \<Longrightarrow> steady s s'"
proof (induction ts arbitrary: y s)
  case Nil then show ?case by (simp add: steady_refl)
next
  case (Cons t ts)
  then obtain y1 s1 where s1: "BSD_calc_priority_body t (y, s) = Some (y1, s1)" "BSD_calc_priority_loop ts (y1, s1) = Some (y', s')"
    by (auto simp: bind_eq_Some_conv)
  have "steady s s1" by (rule BSD_calc_priority_body_steady [OF Cons.prems(1) s1(1)])
  then show ?case using Cons.IH [OF _ s1(2)] steady_trans steady_kin by blast
qed

lemma intr_yield_on_return_steady: "kin s \<Longrightarrow> intr_yield_on_return s = Some s' \<Longrightarrow> steady s s'"
  by (rule steady_cong) (auto simp: intr_yield_on_return_def)

lemma BSD_calc_priority_steady:
  assumes k: "kin s" and e: "BSD_calc_priority s = Some s'"
  shows "steady s s'"
proof -
  obtain y s1 where s1: "BSD_calc_priority_loop (all_list s) (False, s) = Some (y, s1)"
    "(if y \<and> intr_context s1 then intr_yield_on_return s1 else Some s1) = Some s'"
    using e by (auto simp: BSD_calc_priority_def bind_eq_Some_conv)
  have st: "steady s s1" by (rule BSD_calc_priority_loop_steady [OF k s1(1)])
  then show ?thesis using s1(2) intr_yield_on_return_steady [OF steady_kin [OF st]] steady_trans [OF st]
    by (auto split: if_splits)
qed

lemma BSD_calc_load_average_steady: "kin s \<Longrightarrow> BSD_calc_load_average s = Some s' \<Longrightarrow> steady s s'"
  by (rule steady_cong) (auto simp: BSD_calc_load_average_def bind_eq_Some_conv Let_def)

lemma foreach_steady:
  "(\<And>t s s'. kin s \<Longrightarrow> f t s = Some s' \<Longrightarrow> steady s s') \<Longrightarrow> kin s \<Longrightarrow> foreach_loop f ts s = Some s' \<Longrightarrow> steady s s'"
proof (induction ts arbitrary: s)
  case Nil then show ?case by (simp add: steady_refl)
next
  case (Cons t ts)
  then obtain s1 where s1: "f t s = Some s1" "foreach_loop f ts s1 = Some s'" by (auto simp: bind_eq_Some_conv)
  have a: "steady s s1" by (rule Cons.prems(1) [OF Cons.prems(2) s1(1)])
  have "steady s1 s'" using Cons.prems(1) by (rule Cons.IH) (use steady_kin [OF a] s1(2) in auto)
  with a show ?case by (rule steady_trans)
qed

lemma BSD_recent_cpu_body_steady:
  assumes "kin s" "BSD_recent_cpu_body c t s = Some s'" shows "steady s s'"
proof -
  obtain th where th: "threads s t = Some th" "(if name th = ''idle'' then Some s
     else upd_thread t (\<lambda>th. th\<lparr>recent_cpu := fp_add (fp_mult c (recent_cpu th) FP_REAR) (nice th) INT_REAR\<rparr>) s) = Some s'"
    using assms(2) by (auto simp: BSD_recent_cpu_body_def bind_eq_Some_conv)
  show ?thesis
  proof (cases "name th = ''idle''")
    case True then show ?thesis using th(2) steady_refl [OF assms(1)] by simp
  next
    case False
    then have "upd_thread t (\<lambda>th. th\<lparr>recent_cpu := fp_add (fp_mult c (recent_cpu th) FP_REAR) (nice th) INT_REAR\<rparr>) s = Some s'"
      using th(2) by simp
    then show ?thesis by (rule steady_upd_thread [OF assms(1)]) (auto simp: tview_def)
  qed
qed

lemma BSD_calc_recent_cpu_steady: "kin s \<Longrightarrow> BSD_calc_recent_cpu s = Some s' \<Longrightarrow> steady s s'"
  using foreach_steady [OF BSD_recent_cpu_body_steady] by (auto simp: BSD_calc_recent_cpu_def bind_eq_Some_conv Let_def)

lemma BSD_schedule_steady:
  assumes k: "kin s" and e: "BSD_schedule s = Some s'"
  shows "steady s s'"
proof -
  obtain c where c: "threads s (running_thread s) = Some c" using kcore_running k unfolding kin_def by blast
  obtain s1 s2 where s1: "(if name c \<noteq> ''idle''
        then upd_thread (running_thread s) (\<lambda>th. th\<lparr>recent_cpu := fp_add (recent_cpu th) 1 INT_REAR\<rparr>) s else Some s) = Some s1"
    and s2: "(if ticks s smod TIMER_FREQ = 0 then do { s \<leftarrow> BSD_calc_load_average s1; BSD_calc_recent_cpu s } else Some s1) = Some s2"
    and s': "(if ticks s smod 4 = 0 then BSD_calc_priority s2 else Some s2) = Some s'"
    using e by (auto simp: BSD_schedule_def kin_ticks [OF k] kin_cur [OF k] c elim!: bind_SomeE)
  have a: "steady s s1"
  proof (cases "name c = ''idle''")
    case False
    then have "upd_thread (running_thread s) (\<lambda>th. th\<lparr>recent_cpu := fp_add (recent_cpu th) 1 INT_REAR\<rparr>) s = Some s1" using s1 by simp
    then show ?thesis by (rule steady_upd_thread [OF k]) (auto simp: tview_def)
  qed (use s1 steady_refl [OF k] in simp)
  have b: "steady s1 s2"
  proof (cases "ticks s smod TIMER_FREQ = 0")
    case True
    then obtain s1' where "BSD_calc_load_average s1 = Some s1'" "BSD_calc_recent_cpu s1' = Some s2" using s2 by (auto elim!: bind_SomeE)
    then show ?thesis using BSD_calc_load_average_steady BSD_calc_recent_cpu_steady a steady_kin steady_trans by blast
  next
    case False then show ?thesis using s2 steady_refl steady_kin [OF a] by simp
  qed
  have "steady s2 s'"
    using s' BSD_calc_priority_steady steady_kin [OF b] steady_refl by (auto split: if_splits)
  then show ?thesis using a b steady_trans by blast
qed

lemma ready_member:
  assumes "kin s" "t \<in> set (ready_list s i)"
  shows "\<exists>th. threads s t = Some th \<and> status th = THREAD_READY \<and> priority th = i \<and> t \<noteq> idle_thread s \<and> PRI_MIN \<le> i \<and> i \<le> PRI_MAX"
proof -
  have co: "core (view s) (occ s) (Some (running_thread s)) (idle_thread s)" using assms(1) by (simp add: kin_def kcore_def)
  have t: "t \<in> set (occ s (At_ready i))" using assms(2) by simp
  obtain th where th: "threads s t = Some th" "status th = THREAD_READY" "priority th = i"
    using core_place_ex [OF co t] view_SomeD by (fastforce simp: tview_def)
  then show ?thesis using core_place [OF co t] core_info [OF co, of t] by (auto simp: tview_def)
qed

lemma aging_level_steady:
  assumes "PRI_MIN \<le> i" "i < PRI_MAX"
  shows "kin s \<Longrightarrow> set ts \<subseteq> set (ready_list s i) \<Longrightarrow> distinct ts \<Longrightarrow> aging_level i ts (y, s) = Some (y', s') \<Longrightarrow> steady s s'"
proof (induction ts arbitrary: y s)
  case Nil then show ?case by (simp add: steady_refl)
next
  case (Cons t ts)
  note k = Cons.prems(1)
  obtain th where th: "threads s t = Some th" "status th = THREAD_READY" "priority th = i" "t \<noteq> idle_thread s"
    using ready_member [OF k, of t i] Cons.prems(2) by auto
  let ?el = "s64 (ticks s - recent_unused th)" and ?p = "i + 1"
  have te: "timer_elapsed (recent_unused th) s = Some (?el, s)" by (simp add: timer_elapsed_def kin_ticks [OF k])
  have p: "s32 (i + 1) = ?p" "PRI_MIN \<le> ?p" "?p \<le> PRI_MAX" "?p \<noteq> priority th"
    using assms th(3) by (auto intro!: s32_id simp: in_s32_def pri_consts)
  show ?case
  proof (cases "?el smod 100 = 0")
    case False
    then have "aging_level i ts (y, s) = Some (y', s')" using Cons.prems(4) th(1) te by simp
    then show ?thesis using Cons.IH [OF k] Cons.prems(2,3) by simp
  next
    case True
    let ?s = "s\<lparr>threads := (threads s)(t \<mapsto> th\<lparr>priority := ?p\<rparr>)\<rparr>"
    let ?s' = "?s\<lparr>ready_list := refile t ?p (ready_list s)\<rparr>"
    note rf = refile_steady [OF k th(1,2) p(2,3,4) th(4)]
    have "do { s \<leftarrow> ready_remove t ?s; ready_push ?p t s } = Some (?s\<lparr>ready_list := refile t ?p (ready_list ?s)\<rparr>)"
      using rf(2) p by (intro refile_eq) auto
    then obtain s1 where s1: "ready_remove t ?s = Some s1" "ready_push ?p t s1 = Some ?s'" by (auto elim!: bind_SomeE)
    then obtain y1 where r: "aging_level i ts (y1, ?s') = Some (y', s')"
      using Cons.prems(4) True th te p(1) by (auto simp: upd_thread_def Let_def elim!: bind_SomeE)
    have "set ts \<subseteq> set (ready_list ?s' i)"
    proof
      fix x assume x: "x \<in> set ts"
      then have "t \<noteq> x" "x \<in> set (ready_list s i)" using Cons.prems(2,3) by auto
      then show "x \<in> set (ready_list ?s' i)" using rf(3) [of x i] by simp
    qed
    moreover have "kin ?s'" using steady_kin [OF rf(1)] by simp
    ultimately have "steady ?s' s'" using Cons.IH [of ?s' y1] r Cons.prems(3) by simp
    then show ?thesis using rf(1) steady_trans by simp
  qed
qed

lemma aging_loop_steady:
  "kin s \<Longrightarrow> n \<le> nat PRI_MAX \<Longrightarrow> aging_loop n (y, s) = Some (y', s') \<Longrightarrow> steady s s'"
proof (induction n arbitrary: y s)
  case 0 then show ?case by (simp add: steady_refl)
next
  case (Suc n)
  obtain y1 s1 where s1: "aging_level (int n) (ready_list s (int n)) (y, s) = Some (y1, s1)" "aging_loop n (y1, s1) = Some (y', s')"
    using Suc.prems(3) by (auto elim!: bind_SomeE)
  have "distinct (occ s (At_ready (int n)))" using Suc.prems(1) core_distinct unfolding kin_def kcore_def by blast
  then have d: "distinct (ready_list s (int n))" by simp
  have "int n < PRI_MAX" "PRI_MIN \<le> int n" using Suc.prems(2) by (auto simp: pri_consts)
  then have a: "steady s s1" using aging_level_steady [OF _ _ Suc.prems(1) _ d s1(1)] by simp
  have "steady s1 s'" using Suc.IH [OF steady_kin [OF a] _ s1(2)] Suc.prems(2) by simp
  with a show ?case by (rule steady_trans)
qed

lemma thread_aging_steady:
  assumes "kin s" "thread_aging s = Some s'" shows "steady s s'"
proof -
  obtain y s1 where s1: "aging_loop (nat PRI_MAX) (False, s) = Some (y, s1)" "(if y then intr_yield_on_return s1 else Some s1) = Some s'"
    using assms(2) by (auto simp: thread_aging_def elim!: bind_SomeE)
  have a: "steady s s1" by (rule aging_loop_steady [OF assms(1) _ s1(1)]) simp
  then show ?thesis using s1(2) intr_yield_on_return_steady [OF steady_kin [OF a]] steady_trans [OF a] by (auto split: if_splits)
qed

lemma thread_tick_steady:
  assumes k: "kin s" and e: "thread_tick s = Some s'" shows "steady s s'"
proof -
  obtain c where c: "threads s (running_thread s) = Some c" using kcore_running k unfolding kin_def by blast
  define s0 where "s0 = (if running_thread s = idle_thread s then s\<lparr>idle_ticks := s64 (idle_ticks s + 1)\<rparr>
              else if userprog s \<and> pagedir c \<noteq> NULL then s\<lparr>user_ticks := s64 (user_ticks s + 1)\<rparr>
              else s\<lparr>kernel_ticks := s64 (kernel_ticks s + 1)\<rparr>)"
  define s1 where "s1 = s0\<lparr>thread_ticks := u32 (thread_ticks s0 + 1)\<rparr>"
  have a: "steady s s1" by (rule steady_cong [OF k]) (auto simp: s1_def s0_def)
  have eq: "thread_tick s = do {
      s \<leftarrow> (if thread_ticks s1 \<ge> TIME_SLICE then intr_yield_on_return s1 else Some s1);
      s \<leftarrow> (if thread_mlfqs s then BSD_schedule s else Some s);
      if \<not> userprog s \<and> thread_prior_aging s then thread_aging s else Some s }"
    unfolding s1_def s0_def thread_tick_def kin_cur [OF k] c Let_def bind.bind_lunit by (rule refl)
  obtain s2 s3 where s2: "(if thread_ticks s1 \<ge> TIME_SLICE then intr_yield_on_return s1 else Some s1) = Some s2"
    and s3: "(if thread_mlfqs s2 then BSD_schedule s2 else Some s2) = Some s3"
    and s': "(if \<not> userprog s3 \<and> thread_prior_aging s3 then thread_aging s3 else Some s3) = Some s'"
    using e unfolding eq by (auto elim!: bind_SomeE)
  have b: "steady s1 s2"
    using s2 intr_yield_on_return_steady steady_refl steady_kin [OF a] by (auto split: if_splits)
  have c: "steady s2 s3" using s3 BSD_schedule_steady steady_refl steady_kin [OF b] by (auto split: if_splits)
  have "steady s3 s'" using s' thread_aging_steady steady_refl steady_kin [OF c] by (auto split: if_splits)
  then show ?thesis using a b c steady_trans by blast
qed


text \<open>Waking the sleepers: every thread whose time has come moves from the alarm list to its ready list.\<close>

lemma map_remove1_distinct: "distinct (map f xs) \<Longrightarrow> x \<in> set xs \<Longrightarrow> map f (remove1 x xs) = remove1 (f x) (map f xs)"
  by (induction xs) (auto simp: image_iff)

lemma kin_wake:
  assumes k: "kin s" and e: "e \<in> set (list_alarm s)" and u: "thread_unblock (snd e) s = Some s1"
    and s2: "s2 = s1\<lparr>yield_on_return := True, list_alarm := remove1 e (list_alarm s1)\<rparr>"
  shows "kin s2" "running_thread s2 = running_thread s" "idle_thread s2 = idle_thread s" "list_alarm s2 = remove1 e (list_alarm s)"
    "ticks s2 = ticks s" "semas s2 = semas s" "holders s2 = holders s" "conds s2 = conds s" "all_list s2 = all_list s"
    "map_option kont (threads s2 t) = map_option kont (threads s t)" "wiped s2 = wiped s"
    "\<exists>th. threads s (snd e) = Some th \<and> s1 = unblocked (snd e) th s"
proof -
  let ?t = "snd e"
  let ?s = "s\<lparr>list_alarm := remove1 e (list_alarm s)\<rparr>"
  have co: "core (view s) (occ s) (Some (running_thread s)) (idle_thread s)" using k by (simp add: kin_def kcore_def)
  have mo: "?t \<in> set (occ s At_alarm)" using e by simp
  have d: "distinct (map snd (list_alarm s))" using core_distinct [OF co, of At_alarm] by simp
  obtain th where th: "threads s ?t = Some th" "status th = THREAD_BLOCKED"
    using core_place_ex [OF co mo] view_SomeD by (fastforce simp: tview_def)
  have kc: "kcore s (Some (running_thread s))" using k by (simp add: kin_def)
  have s1: "s1 = unblocked ?t th s" using thread_unblock_eq [OF kc th] u k by (simp add: kin_def)
  then show "\<exists>th. threads s ?t = Some th \<and> s1 = unblocked ?t th s" using th by blast
  have rm: "map snd (remove1 e (list_alarm s)) = remove1 ?t (map snd (list_alarm s))"
    by (rule map_remove1_distinct [OF d e])
  have "occ ?s = (occ s)(At_alarm := remove1 ?t (occ s At_alarm))" using rm by simp
  then have c2: "core (view ?s) (occ ?s) (Some (running_thread s)) (idle_thread s)" and np: "?t \<notin> set (occ ?s pl)" for pl
    using core_unpark [OF co mo] view_cong [of ?s s] by simp_all
  have "kcore ?s (Some (running_thread s))" using c2 by (simp add: kcore_def)
  then have "kcore (unblocked ?t th ?s) (Some (running_thread s))"
    by (rule kcore_unblocked) (use th core_place [OF co mo] np in simp_all)
  then have "kcore s2 (Some (running_thread s))"
    using kcore_cong [of s2 "unblocked ?t th ?s"] s1 s2 by (simp add: unblocked_def)
  moreover have "kont_inv s2" by (rule kont_inv_steady [of s]) (use k th s1 s2 in \<open>auto simp: kin_def unblocked_def\<close>)
  ultimately show "kin s2" using k s1 s2 by (simp add: kin_def unblocked_def)
  show "running_thread s2 = running_thread s" "idle_thread s2 = idle_thread s" "list_alarm s2 = remove1 e (list_alarm s)"
    "ticks s2 = ticks s" "semas s2 = semas s" "holders s2 = holders s" "conds s2 = conds s" "all_list s2 = all_list s"
    "map_option kont (threads s2 t) = map_option kont (threads s t)" "wiped s2 = wiped s"
    using s1 s2 th by (auto simp: unblocked_def)
qed

definition due :: "int \<Rightarrow> (int \<times> addr) list \<Rightarrow> addr set" where
  "due now es = {t. \<exists>w. (w, t) \<in> set es \<and> w \<le> now}"

lemma wake_total:
  assumes k: "kin s" and e: "e \<in> set (list_alarm s)"
  shows "\<exists>s1. thread_unblock (snd e) s = Some s1 \<and> intr_yield_on_return s1 = Some (s1\<lparr>yield_on_return := True\<rparr>)"
proof -
  have co: "core (view s) (occ s) (Some (running_thread s)) (idle_thread s)" using k by (simp add: kin_def kcore_def)
  have mo: "snd e \<in> set (occ s At_alarm)" using e by simp
  obtain th where th: "threads s (snd e) = Some th" "status th = THREAD_BLOCKED"
    using core_place_ex [OF co mo] view_SomeD by (fastforce simp: tview_def)
  have kc: "kcore s (Some (running_thread s))" using k by (simp add: kin_def)
  show ?thesis using thread_unblock_eq [OF kc th] k
    by (simp add: kin_def intr_yield_on_return_def intr_context_def unblocked_def)
qed

lemma kin_alarm_distinct: "kin s \<Longrightarrow> distinct (map snd (list_alarm s))"
  using core_distinct [of "view s" "occ s" _ "idle_thread s" At_alarm] by (auto simp: kin_def kcore_def)

lemma alarm_loop_total:
  "kin s \<Longrightarrow> set es \<subseteq> set (list_alarm s) \<Longrightarrow> distinct es \<Longrightarrow>
   \<exists>s'. alarm_loop es s = Some s' \<and> kin s' \<and> running_thread s' = running_thread s \<and> idle_thread s' = idle_thread s \<and>
     semas s' = semas s \<and> holders s' = holders s \<and> conds s' = conds s \<and> wiped s' = wiped s \<and> ticks s' = ticks s \<and> all_list s' = all_list s \<and>
     list_alarm s' = filter (\<lambda>e. e \<in> set es \<longrightarrow> ticks s < fst e) (list_alarm s) \<and>
     (\<forall>t. map_option kont (threads s' t) = map_option kont (threads s t)) \<and>
     (\<forall>t. map_option status (threads s' t) = (if t \<in> due (ticks s) es then Some THREAD_READY else map_option status (threads s t)))"
proof (induction es arbitrary: s)
  case Nil then show ?case by (simp add: due_def)
next
  case (Cons e es)
  show ?case
  proof (cases "fst e \<le> ticks s")
    case False
    then have "due (ticks s) (e # es) = due (ticks s) es" by (auto simp: due_def)
    moreover have "filter (\<lambda>x. x \<in> set (e # es) \<longrightarrow> ticks s < fst x) (list_alarm s) =
      filter (\<lambda>x. x \<in> set es \<longrightarrow> ticks s < fst x) (list_alarm s)" using False by (intro filter_cong) auto
    ultimately show ?thesis using Cons.IH [OF Cons.prems(1)] Cons.prems(2,3) False by simp
  next
    case True
    have e: "e \<in> set (list_alarm s)" using Cons.prems(2) by simp
    obtain s1 where s1: "thread_unblock (snd e) s = Some s1" "intr_yield_on_return s1 = Some (s1\<lparr>yield_on_return := True\<rparr>)"
      using wake_total [OF Cons.prems(1) e] by auto
    define s2 where "s2 = s1\<lparr>yield_on_return := True, list_alarm := remove1 e (list_alarm s1)\<rparr>"
    note w = kin_wake [OF Cons.prems(1) e s1(1) s2_def]
    have de: "distinct (list_alarm s)" using kin_alarm_distinct [OF Cons.prems(1)] by (simp add: distinct_map)
    have "set es \<subseteq> set (list_alarm s2)" using w(4) de Cons.prems(2,3) by auto
    from Cons.IH [OF w(1) this] Cons.prems(3) obtain s' where s': "alarm_loop es s2 = Some s'" "kin s'"
      "running_thread s' = running_thread s2 \<and> idle_thread s' = idle_thread s2 \<and>
       semas s' = semas s2 \<and> holders s' = holders s2 \<and> conds s' = conds s2 \<and> wiped s' = wiped s2 \<and> ticks s' = ticks s2 \<and> all_list s' = all_list s2"
      "list_alarm s' = filter (\<lambda>e. e \<in> set es \<longrightarrow> ticks s2 < fst e) (list_alarm s2)"
      "\<forall>t. map_option kont (threads s' t) = map_option kont (threads s2 t)"
      "\<forall>t. map_option status (threads s' t) = (if t \<in> due (ticks s2) es then Some THREAD_READY else map_option status (threads s2 t))"
      by auto
    have al: "alarm_loop (e # es) s = Some s'" using True s1 s'(1) by (simp add: s2_def)
    have fl: "list_alarm s' = filter (\<lambda>x. x \<in> set (e # es) \<longrightarrow> ticks s < fst x) (list_alarm s)"
      unfolding s'(4) w(4,5) using de True by (auto simp: distinct_remove1_removeAll removeAll_filter_not_eq intro!: filter_cong)
    have st: "map_option status (threads s2 t) = (if t = snd e then Some THREAD_READY else map_option status (threads s t))" for t
      using w(12) by (auto simp: s2_def unblocked_def)
    have "due (ticks s) (e # es) = insert (snd e) (due (ticks s) es)" using True by (cases e) (auto simp: due_def)
    then have "map_option status (threads s' t) =
      (if t \<in> due (ticks s) (e # es) then Some THREAD_READY else map_option status (threads s t))" for t
      using s'(6) st w(5) by simp
    then show ?thesis using al s'(2,3,5) w fl by simp
  qed
qed

lemma timer_interrupt_kin:
  assumes k: "kin s" and e: "timer_interrupt s = Some s'"
  shows "kin s' \<and> running_thread s' = running_thread s \<and> idle_thread s' = idle_thread s \<and>
     semas s' = semas s \<and> holders s' = holders s \<and> conds s' = conds s \<and> wiped s' = wiped s \<and> all_list s' = all_list s \<and> ticks s' = s64 (ticks s + 1) \<and>
     list_alarm s' = filter (\<lambda>e. ticks s' < fst e) (list_alarm s) \<and>
     (\<forall>t. map_option kont (threads s' t) = map_option kont (threads s t)) \<and>
     (\<forall>t. map_option status (threads s' t) =
        (if t \<in> due (ticks s') (list_alarm s) then Some THREAD_READY else map_option status (threads s t)))"
proof -
  let ?s0 = "s\<lparr>ticks := s64 (ticks s + 1)\<rparr>"
  have k0: "kin ?s0" using k kcore_cong [of ?s0 s] kont_inv_cong [of ?s0 s] by (simp add: kin_def)
  obtain s1 where s1: "thread_tick ?s0 = Some s1" "alarm_loop (list_alarm s1) s1 = Some s'"
    using e by (auto simp: timer_interrupt_def elim!: bind_SomeE)
  have a: "steady ?s0 s1" by (rule thread_tick_steady [OF k0 s1(1)])
  have "distinct (list_alarm s1)" using kin_alarm_distinct [OF steady_kin [OF a]] by (simp add: distinct_map)
  from alarm_loop_total [OF steady_kin [OF a] _ this] s1(2) a show ?thesis by (simp add: steady_def cong: filter_cong)
qed

lemma kin_enter: "kinv s \<Longrightarrow> \<not> if_flag s \<Longrightarrow> kin (s\<lparr>in_external_intr := True, yield_on_return := y\<rparr>)"
  using kcore_cong [of "s\<lparr>in_external_intr := True, yield_on_return := y\<rparr>" s]
    kont_inv_cong [of "s\<lparr>in_external_intr := True, yield_on_return := y\<rparr>" s] by (simp add: kin_def kinv_def)

lemma kin_leave: "kin s \<Longrightarrow> kinv (s\<lparr>in_external_intr := False\<rparr>)"
  using kcore_cong [of "s\<lparr>in_external_intr := False\<rparr>" s]
    kont_inv_cong [of "s\<lparr>in_external_intr := False\<rparr>" s] by (simp add: kin_def kinv_def)

lemma timer_irq_Some:
  assumes "timer_irq s = Some s'"
  obtains s1 s3 where "push_kont [F_set_level INTR_ON] (s\<lparr>if_flag := False\<rparr>) = Some s1"
    "timer_interrupt (s1\<lparr>in_external_intr := True, yield_on_return := False\<rparr>) = Some s3"
    "(if yield_on_return s3 then thread_yield (s3\<lparr>in_external_intr := False\<rparr>) else Some (s3\<lparr>in_external_intr := False\<rparr>)) = Some s'"
  using assms by (auto simp: timer_irq_def intr_handler_def Let_def elim!: bind_SomeE)

lemma timer_irq_kinv:
  assumes k: "kinv s" and e: "timer_irq s = Some s'"
  shows "kinv s'"
proof -
  obtain s1 s3 where s1: "push_kont [F_set_level INTR_ON] (s\<lparr>if_flag := False\<rparr>) = Some s1"
    and s3: "timer_interrupt (s1\<lparr>in_external_intr := True, yield_on_return := False\<rparr>) = Some s3"
    and s': "(if yield_on_return s3 then thread_yield (s3\<lparr>in_external_intr := False\<rparr>) else Some (s3\<lparr>in_external_intr := False\<rparr>)) = Some s'"
    using timer_irq_Some [OF e] by blast
  have "kinv (s\<lparr>if_flag := False\<rparr>)" using k by simp
  then have "kinv s1" by (rule kinv_push_kont [OF _ s1]) auto
  moreover have "\<not> if_flag s1" using s1 by (auto simp: push_kont_Some)
  ultimately have "kin s3" using timer_interrupt_kin [OF kin_enter s3] by blast
  then have "kinv (s3\<lparr>in_external_intr := False\<rparr>)" by (rule kin_leave)
  then show ?thesis using s' thread_yield_kinv by (auto split: if_splits)
qed

subsection \<open>The step relation\<close>

text \<open>What a client function may call, and with which arguments: priorities in range, thread pages that
  are not in use, functions other than the idle thread's.  \<open>free_lock\<close> says that no stack and no condition
  variable refers to a lock or to its semaphore; semaphores given by clients are not those of locks.  So a released page becomes
  the page of a new thread only after every thread that was still using the locks of its dead owner has finished with them.\<close>

fun frame_locks :: "frame \<Rightarrow> addr set" where
  "frame_locks (F_lock_acquire l) = {l}"
| "frame_locks (F_lock_acquire_other l t) = {l}"
| "frame_locks (F_lock_release l) = {l}"
| "frame_locks (F_set_holder l t) = {l}"
| "frame_locks (F_cond_signal c l) = {l}"
| "frame_locks (F_cond_broadcast c l) = {l}"
| "frame_locks F_allocate_tid = {tid_lock}"
| "frame_locks F_next_tid = {tid_lock}"
| "frame_locks _ = {}"

fun frame_semas :: "frame \<Rightarrow> addr set" where
  "frame_semas (F_sema_down a) = {a}"
| "frame_semas (F_sema_loop a lv) = {a}"
| "frame_semas (F_sema_up a) = {a}"
| "frame_semas (F_sema_init a v) = {a}"
| "frame_semas (F_sema_try_down a) = {a}"
| "frame_semas (F_cond_wait c l w) = {w}"
| "frame_semas _ = {}"

definition free_lock :: "kstate \<Rightarrow> addr \<Rightarrow> bool" where
  "free_lock s l \<longleftrightarrow> (\<forall>t th f. threads s t = Some th \<longrightarrow> f \<in> set (kont th) \<longrightarrow>
     l \<notin> frame_locks f \<and> lock_sema l \<notin> frame_semas f) \<and>
     (\<forall>c ws. conds s c = Some ws \<longrightarrow> lock_sema l \<notin> set ws)"

definition plain_sema :: "kstate \<Rightarrow> addr \<Rightarrow> bool" where
  "plain_sema s a \<longleftrightarrow> (\<forall>l. l \<in> dom (holders s) \<longrightarrow> a \<noteq> lock_sema l)"

fun may_call :: "kstate \<Rightarrow> frame \<Rightarrow> bool" where
  "may_call s F_yield = True"
| "may_call s (F_set_priority p) = (PRI_MIN \<le> p \<and> p \<le> PRI_MAX)"
| "may_call s (F_set_nice n) = True"
| "may_call s (F_sleep n a) = True"
| "may_call s (F_create nm p (Client n) page) =
     (threads s page = None \<and> (\<forall>l \<in> set (thread_locks page). free_lock s l))"
| "may_call s (F_sema_init a v) = plain_sema s a"
| "may_call s (F_sema_down a) = plain_sema s a"
| "may_call s (F_sema_try_down a) = plain_sema s a"
| "may_call s (F_sema_up a) = plain_sema s a"
| "may_call s (F_lock_init l) = free_lock s l"
| "may_call s (F_lock_acquire l) = True"
| "may_call s (F_lock_try_acquire l) = True"
| "may_call s (F_lock_release l) = True"
| "may_call s (F_cond_wait c l w) = plain_sema s w"
| "may_call s (F_cond_signal c l) = True"
| "may_call s (F_cond_broadcast c l) = True"
| "may_call s _ = False"

inductive kstep :: "kstate \<Rightarrow> kstate \<Rightarrow> bool" where
  run: "run_frame s = Some s' \<Longrightarrow> kstep s s'"
| call: "cur_kont s = F_function (Client n) # k \<Longrightarrow> may_call s f \<Longrightarrow> exec f s = Some s' \<Longrightarrow> kstep s s'"
| tick: "if_flag s \<Longrightarrow> timer_irq s = Some s' \<Longrightarrow> kstep s s'"
| garbage: "kstep s (s\<lparr>stack_garbage := g\<rparr>)"

inductive_cases kstepE: "kstep s s'"

lemma client_running:
  assumes "kinv s" "cur_kont s = F_function (Client n) # k"
  shows "running_thread s \<noteq> idle_thread s"
proof -
  obtain c where c: "threads s (running_thread s) = Some c" "kont c = F_function (Client n) # k"
    using kinv_cur [OF assms(1)] assms(2) by (auto simp: cur_kont_def)
  then have "if running_thread s = idle_thread s then name c = ''idle'' \<and> idle_kont (kont c) else list_all client_frame (kont c)"
    using assms(1) unfolding kinv_def kont_inv_def by blast
  then show ?thesis using c(2) by (auto simp: idle_kont_def Cons_eq_append_conv)
qed

text \<open>Every frame that the idle thread or a client may run keeps the invariant.\<close>

lemma exec_idle_kinv: "kinv s \<Longrightarrow> idle_frame f \<Longrightarrow> exec f s = Some s' \<Longrightarrow> kinv s'"
  by (cases f) (auto simp: idle_sti_hlt_def elim!: bind_SomeE dest!: intr_set_level_kinv [rotated] intro: sema_up_yield_kinv)

lemma allocate_kinv:
  assumes "kinv s" "running_thread s \<noteq> idle_thread s"
  shows "allocate_tid s = Some s' \<Longrightarrow> kinv s'" "allocate_next_tid s = Some s' \<Longrightarrow> kinv s'"
proof -
  show "allocate_tid s = Some s' \<Longrightarrow> kinv s'"
    using assms by (auto simp: allocate_tid_def elim!: kinv_push_client)
  show "kinv s'" if "allocate_next_tid s = Some s'"
  proof -
    have "push_kont [F_lock_release tid_lock, F_return (next_tid s)]
      (s\<lparr>next_tid := s32 (next_tid s + 1), max_tid := next_tid s\<rparr>) = Some s'"
      using that by (simp add: allocate_next_tid_def tid_range_def Let_def)
    then show ?thesis by (rule kinv_push_client [rotated]) (use assms in auto)
  qed
qed

lemma exec_client_kinv:
  assumes k: "kinv s" and ni: "running_thread s \<noteq> idle_thread s" and f: "client_frame f \<or> may_call s f" "\<And>t func. f \<noteq> F_create_tail t func"
    and e: "exec f s = Some s'"
  shows "kinv s'"
proof (cases f)
  case (F_kernel_thread func)
  then show ?thesis using f e kernel_thread_kinv [OF k ni] by (cases func) auto
next
  case (F_function func)
  then show ?thesis using f e k by (cases func) auto
next
  case (F_create nm p func page)
  then show ?thesis using f e thread_create_kinv [OF k ni] by (cases func) auto
next
  case (F_set_tid t)
  then obtain i where "upd_thread t (\<lambda>th. th\<lparr>tid := i\<rparr>) s = Some s'" using e by (auto elim!: bind_SomeE)
  then show ?thesis by (rule kinv_upd_thread [OF k]) (auto simp: tview_def)
next
  case (F_sema_try_down a)
  then obtain b s1 where "sema_try_down a s = Some (b, s1)" "set_retval (of_bool b) s1 = Some s'" using e by (auto elim!: bind_SomeE)
  then show ?thesis using sema_try_down_kinv [OF k] kinv_set_retval by blast
next
  case (F_lock_try_acquire l)
  then obtain b s1 where "lock_try_acquire l s = Some (b, s1)" "set_retval (of_bool b) s1 = Some s'" using e by (auto elim!: bind_SomeE)
  then show ?thesis using lock_kinv(5) [OF k ni] kinv_set_retval by blast
next
  case (F_set_level lv)
  then show ?thesis using e k by (auto elim!: bind_SomeE dest!: intr_set_level_kinv [rotated])
next
  case (F_push_all t)
  then show ?thesis using e k by (auto simp: init_thread_push_all_def)
next
  case (F_set_holder l t)
  then show ?thesis using e k by auto
qed (use e f thread_yield_kinv [OF k] thread_set_priority_kinv [OF k] thread_set_nice_kinv [OF k]
  timer_sleep_kinv [OF k ni] timer_sleep_check_kinv [OF k ni] allocate_kinv [OF k ni] kinv_set_retval [OF k]
  thread_exit_kinv [OF k ni] sema_init_kinv [OF k] sema_down_kinv [OF k ni] sema_down_loop_kinv [OF k ni]
  sema_up_kinv [OF k _ ni] sema_up_yield_kinv [OF k] lock_kinv(1-4) [OF k ni] cond_kinv [OF k ni] in auto)


theorem kstep_kinv:
  assumes k: "kinv s" and st: "kstep s s'"
  shows "kinv s'"
  using st
proof (cases rule: kstep.cases)
  case run
  then obtain f fs s1 where kt: "cur_kont s = f # fs" and s1: "set_kont fs s = Some s1" "exec f s1 = Some s'"
    by (auto simp: run_frame_def split: list.splits elim!: bind_SomeE)
  show ?thesis
  proof (cases "f = F_idle_loop")
    case True then show ?thesis using idle_loop_kinv [OF k] kt s1 by simp
  next
    case False
    note pop = pop_kinv [OF k kt False s1(1)]
    have rt: "running_thread s1 = running_thread s" "idle_thread s1 = idle_thread s" using s1(1) by (auto simp: set_kont_Some)
    show ?thesis
    proof (cases "running_thread s = idle_thread s")
      case True then show ?thesis using exec_idle_kinv [OF pop(1) pop(2) s1(2)] by simp
    next
      case ni: False
      show ?thesis
      proof (cases "\<exists>t func. f = F_create_tail t func")
        case True
        then obtain t func where f: "f = F_create_tail t func" by blast
        with pop(3) [OF ni] obtain n where "func = Client n" by (cases func) auto
        then show ?thesis using create_tail_kinv [OF k _ _ s1(1)] kt s1(2) f by simp
      next
        case nc: False
        show ?thesis by (rule exec_client_kinv [OF pop(1) _ _ _ s1(2)]) (use nc ni rt pop(3) [OF ni] in auto)
      qed
    qed
  qed
next
  case (call n fs f)
  have ni: "running_thread s \<noteq> idle_thread s" by (rule client_running [OF k call(1)])
  show ?thesis
    by (rule exec_client_kinv [OF k ni _ _ call(3)]) (use call(2) in auto)
next
  case tick
  then show ?thesis using timer_irq_kinv [OF k] by simp
next
  case (garbage g)
  then show ?thesis using k by simp
qed

end
