(* ===== verification/Lock_Tokens.thy ===== *)
theory Lock_Tokens
  imports Timer_Inv
begin

text \<open>
  Mutual exclusion of locks, first part: each lock has one token, which is the value of its semaphore, or its holder,
  or a frame of a thread that is about to store the holder or to increment the semaphore.  The lemmas say how the
  tokens change with the stacks, and that the switching operations of the scheduler only push frames.
\<close>

subsection \<open>Tokens\<close>

text \<open>Each lock has one token: it is the value of its semaphore, or its holder, or a frame of some thread that is
  about to store the holder or to increment the semaphore.  A frame about to decrement the semaphore counts
  negatively and stands directly before the frame that stores the holder.\<close>

fun ftok :: "addr \<Rightarrow> frame \<Rightarrow> int" where
  "ftok l (F_set_holder l' t) = of_bool (l' = l)"
| "ftok l (F_sema_down a) = - of_bool (a = lock_sema l)"
| "ftok l (F_sema_loop a lv) = - of_bool (a = lock_sema l)"
| "ftok l (F_sema_up a) = of_bool (a = lock_sema l)"
| "ftok l _ = 0"

definition ktok :: "addr \<Rightarrow> frame list \<Rightarrow> int" where
  "ktok l k = sum_list (map (ftok l) k)"

lemma ktok_simps [simp]: "ktok l [] = 0" "ktok l (f # k) = ftok l f + ktok l k" "ktok l (k @ k') = ktok l k + ktok l k'"
  by (simp_all add: ktok_def)

definition next_sets :: "addr \<Rightarrow> frame list \<Rightarrow> bool" where
  "next_sets a k \<longleftrightarrow> (\<exists>l t k'. k = F_set_holder l t # k' \<and> a = lock_sema l)"

fun frame_ok :: "addr set \<Rightarrow> frame \<Rightarrow> frame list \<Rightarrow> bool" where
  "frame_ok L (F_sema_down a) k = (a \<in> L \<longrightarrow> next_sets a k)"
| "frame_ok L (F_sema_loop a lv) k = (a \<in> L \<longrightarrow> next_sets a k)"
| "frame_ok L (F_set_holder l t) k = (t \<noteq> NULL \<and> lock_sema l \<in> L)"
| "frame_ok L (F_lock_acquire_other l t) k = (t \<noteq> NULL \<and> lock_sema l \<in> L)"
| "frame_ok L (F_sema_init a v) k = (a \<notin> L)"
| "frame_ok L (F_sema_try_down a) k = (a \<notin> L)"
| "frame_ok L (F_cond_wait c l w) k = (w \<notin> L)"
| "frame_ok L (F_lock_init l) k = False"
| "frame_ok L F_exit k = (k = [])"
| "frame_ok L F_exit_user k = (k = [])"
| "frame_ok L F_exit_wait k = (k = [])"
| "frame_ok L F_exit_off k = (k = [])"
| "frame_ok L F_exit_die k = (k = [])"
| "frame_ok L (F_kernel_thread func) k = (k = [])"
| "frame_ok L F_idle_loop k = (k = [F_exit])"
| "frame_ok L _ k = True"

fun paired :: "addr set \<Rightarrow> frame list \<Rightarrow> bool" where
  "paired L [] = True"
| "paired L (f # k) = (frame_ok L f k \<and> paired L k)"

lemma lock_sema_inj [simp]: "lock_sema l = lock_sema l' \<longleftrightarrow> l = l'"
  by (simp add: lock_sema_def)

lemma ktok_nonneg:
  assumes "lock_sema l \<in> L"
  shows "paired L k \<Longrightarrow> 0 \<le> ktok l k \<and> (\<forall>t k'. k = F_set_holder l t # k' \<longrightarrow> 1 \<le> ktok l k)"
proof (induction k)
  case (Cons f k)
  then have IH: "0 \<le> ktok l k" "\<And>t k'. k = F_set_holder l t # k' \<Longrightarrow> 1 \<le> ktok l k" by auto
  have neg: "ftok l f = - 1 \<Longrightarrow> 1 \<le> ktok l k"
    using Cons.prems assms IH(2) by (cases f) (auto simp: next_sets_def of_bool_def split: if_splits)
  have "ftok l f \<ge> 0 \<or> ftok l f = - 1" by (cases f) auto
  then show ?case using IH(1) neg by auto
qed simp

definition ktoks :: "(addr \<Rightarrow> frame list) \<Rightarrow> addr \<Rightarrow> int" where
  "ktoks kf l = (\<Sum>t\<in>{t. kf t \<noteq> []}. ktok l (kf t))"

lemma ktoks_upd:
  assumes "finite {t. kf t \<noteq> []}"
  shows "ktoks (kf(t := k)) l = ktoks kf l - ktok l (kf t) + ktok l k" "finite {x. (kf(t := k)) x \<noteq> []}"
proof -
  let ?A = "insert t {x. kf x \<noteq> []}"
  have fin: "finite ?A" using assms by simp
  have s: "ktoks g l = (\<Sum>x\<in>?A. ktok l (g x))" if "{x. g x \<noteq> []} \<subseteq> ?A" for g
    unfolding ktoks_def using fin that by (intro sum.mono_neutral_left) auto
  have sub: "{x. (kf(t := k)) x \<noteq> []} \<subseteq> ?A" by auto
  then show "finite {x. (kf(t := k)) x \<noteq> []}" using fin by (rule finite_subset)
  have e: "(\<Sum>x\<in>?A. ktok l (g x)) = ktok l (g t) + (\<Sum>x\<in>?A - {t}. ktok l (g x))" for g
    by (rule sum.remove [OF fin]) simp
  show "ktoks (kf(t := k)) l = ktoks kf l - ktok l (kf t) + ktok l k"
  proof -
    have "(\<Sum>x\<in>?A - {t}. ktok l ((kf(t := k)) x)) = (\<Sum>x\<in>?A - {t}. ktok l (kf x))" by (intro sum.cong) auto
    moreover have "ktoks kf l = (\<Sum>x\<in>?A. ktok l (kf x))" by (rule s) auto
    ultimately show ?thesis using s [OF sub] e [of "kf(t := k)"] e [of kf] by (simp only: fun_upd_same)
  qed
qed

text \<open>What the lock invariant sees of a state.\<close>

definition kont_at :: "kstate \<Rightarrow> addr \<Rightarrow> frame list" where
  "kont_at s t = (case threads s t of None \<Rightarrow> [] | Some th \<Rightarrow> kont th)"

definition vals :: "kstate \<Rightarrow> addr \<Rightarrow> nat option" where
  "vals s a = map_option sema_value (semas s a)"

definition lock_semas :: "(addr \<rightharpoonup> addr) \<Rightarrow> addr set" where
  "lock_semas h = lock_sema ` dom h"

definition linv :: "(addr \<Rightarrow> frame list) \<Rightarrow> (addr \<rightharpoonup> addr) \<Rightarrow> addr set \<Rightarrow> (addr \<Rightarrow> nat option) \<Rightarrow> (addr \<rightharpoonup> addr list) \<Rightarrow> bool" where
  "linv kf h W v cs \<longleftrightarrow> finite {t. kf t \<noteq> []} \<and>
     (\<forall>l x. h l = Some x \<longrightarrow> lock_sema l \<notin> W \<longrightarrow> (\<exists>n. v (lock_sema l) = Some n \<and> int n + of_bool (x \<noteq> NULL) + ktoks kf l = 1)) \<and>
     (\<forall>t. paired (lock_semas h) (kf t)) \<and>
     (\<forall>c ws w. cs c = Some ws \<longrightarrow> w \<in> set ws \<longrightarrow> w \<notin> lock_semas h)"

text \<open>Threads under creation have no stack yet, dead threads have none any more.\<close>

definition creating_ok :: "(addr \<Rightarrow> frame list) \<Rightarrow> bool" where
  "creating_ok kf \<longleftrightarrow> (\<forall>b t. t \<in> set (creating (kf b)) \<longrightarrow> kf t = [])"

definition dying_ok :: "kstate \<Rightarrow> bool" where
  "dying_ok s \<longleftrightarrow> (\<forall>t th. threads s t = Some th \<longrightarrow> status th = THREAD_DYING \<longrightarrow> kont th = [])"

definition lkinv :: "(addr \<Rightarrow> frame list) \<Rightarrow> (addr \<rightharpoonup> addr) \<Rightarrow> addr set \<Rightarrow> (addr \<Rightarrow> nat option) \<Rightarrow> (addr \<rightharpoonup> addr list) \<Rightarrow> bool" where
  "lkinv kf h W v cs \<longleftrightarrow> linv kf h W v cs \<and> creating_ok kf"

definition lockinv :: "kstate \<Rightarrow> bool" where
  "lockinv s \<longleftrightarrow> lkinv (kont_at s) (holders s) (wiped s) (vals s) (conds s) \<and> dying_ok s"

text \<open>Mutual exclusion from the tokens.\<close>

lemma linv_mutex:
  assumes "linv kf h W v cs" "h l = Some x" "lock_sema l \<notin> W"
  shows "kf t = F_set_holder l u # k \<Longrightarrow> x = NULL \<and> v (lock_sema l) = Some 0 \<and>
      (\<forall>t' u' k'. kf t' = F_set_holder l u' # k' \<longrightarrow> t' = t)"
    and "v (lock_sema l) = Some n \<Longrightarrow> n \<le> 1 \<and> (n = 1 \<longrightarrow> x = NULL)"
    and "x \<noteq> NULL \<Longrightarrow> v (lock_sema l) = Some 0 \<and> (\<forall>t u k. kf t \<noteq> F_set_holder l u # k)"
proof -
  obtain m where m: "v (lock_sema l) = Some m" "int m + of_bool (x \<noteq> NULL) + ktoks kf l = 1"
    using assms unfolding linv_def by blast
  have L: "lock_sema l \<in> lock_semas h" using assms(2) by (auto simp: lock_semas_def)
  have pos: "0 \<le> ktok l (kf t)" "kf t = F_set_holder l u # k \<Longrightarrow> 1 \<le> ktok l (kf t)" for t u k
    using ktok_nonneg [OF L, of "kf t"] assms(1) unfolding linv_def by blast+
  have fin: "finite {t. kf t \<noteq> []}" using assms(1) unfolding linv_def by blast
  have nn: "0 \<le> ktoks kf l" unfolding ktoks_def by (rule sum_nonneg) (simp add: pos)
  have one: "1 \<le> ktoks kf l" if "kf t = F_set_holder l u # k" for t u k
  proof -
    have "ktok l (kf t) \<le> ktoks kf l" unfolding ktoks_def using fin that by (intro member_le_sum) (auto simp: pos)
    then show ?thesis using pos(2) [OF that] by simp
  qed
  have two: "2 \<le> ktoks kf l" if "kf t = F_set_holder l u # k" "kf t' = F_set_holder l u' # k'" "t \<noteq> t'" for t t' u u' k k'
  proof -
    have "(\<Sum>x\<in>{t, t'}. ktok l (kf x)) \<le> ktoks kf l"
      unfolding ktoks_def using fin that by (intro sum_mono2) (auto simp: pos)
    then show ?thesis using pos(2) [OF that(1)] pos(2) [OF that(2)] that(3) by simp
  qed
  show "x = NULL \<and> v (lock_sema l) = Some 0 \<and> (\<forall>t' u' k'. kf t' = F_set_holder l u' # k' \<longrightarrow> t' = t)"
    if t: "kf t = F_set_holder l u # k"
  proof -
    have "x = NULL" "m = 0" using one [OF t] m(2) by (auto split: if_splits simp: of_bool_def)
    moreover have "t' = t" if "kf t' = F_set_holder l u' # k'" for t' u' k'
      using two [OF t that] m(2) by (auto simp: of_bool_def split: if_splits)
    ultimately show ?thesis using m(1) by blast
  qed
  show "v (lock_sema l) = Some n \<Longrightarrow> n \<le> 1 \<and> (n = 1 \<longrightarrow> x = NULL)"
    using m nn by (auto simp: of_bool_def split: if_splits)
  show "v (lock_sema l) = Some 0 \<and> (\<forall>t u k. kf t \<noteq> F_set_holder l u # k)" if "x \<noteq> NULL"
  proof -
    have "m = 0" using that m(2) nn by (auto simp: of_bool_def split: if_splits)
    moreover have "kf t \<noteq> F_set_holder l u # k" for t u k using one [of t u k] that m(2) by (auto simp: of_bool_def split: if_splits)
    ultimately show ?thesis using m(1) by blast
  qed
qed

subsection \<open>Changes that keep the tokens\<close>

lemma linvD:
  assumes "linv kf h W v cs"
  shows "finite {t. kf t \<noteq> []}"
    "h l = Some x \<Longrightarrow> lock_sema l \<notin> W \<Longrightarrow> \<exists>n. v (lock_sema l) = Some n \<and> int n + of_bool (x \<noteq> NULL) + ktoks kf l = 1"
    "paired (lock_semas h) (kf t)"
    "cs c = Some ws \<Longrightarrow> w \<in> set ws \<Longrightarrow> w \<notin> lock_semas h"
  using assms unfolding linv_def by blast+

lemma in_lock_semas [simp]: "lock_sema l \<in> lock_semas h \<longleftrightarrow> l \<in> dom h"
  by (auto simp: lock_semas_def)

lemma lock_semas_upd [simp]: "l \<in> dom h \<Longrightarrow> lock_semas (h(l \<mapsto> x)) = lock_semas h"
  by (auto simp: lock_semas_def)

text \<open>The frame \<open>f\<close> of thread \<open>c\<close> is replaced by \<open>fs\<close> with the same tokens.\<close>

lemma linv_replace:
  assumes l: "linv kf h W v cs" and c: "kf c = k0"
    and t: "\<And>l. l \<in> dom h \<Longrightarrow> lock_sema l \<notin> W \<Longrightarrow> ktok l k1 = ktok l k0" and p: "paired (lock_semas h) k1"
  shows "linv (kf(c := k1)) h W v cs"
  using linvD [OF l] ktoks_upd [OF linvD(1) [OF l], of c k1] t c p unfolding linv_def by (auto 0 3 simp: dom_def)

lemma linv_value:
  assumes l: "linv kf h W v cs" and c: "kf c = k0" and a: "v a = Some n"
    and t: "\<And>l. l \<in> dom h \<Longrightarrow> lock_sema l \<notin> W \<Longrightarrow> ktok l k1 + of_bool (a = lock_sema l) * (int n' - int n) = ktok l k0" and p: "paired (lock_semas h) k1"
  shows "linv (kf(c := k1)) h W (v(a \<mapsto> n')) cs"
proof -
  have "\<exists>m. (v(a \<mapsto> n')) (lock_sema l) = Some m \<and> int m + of_bool (x \<noteq> NULL) + ktoks (kf(c := k1)) l = 1" if h: "h l = Some x" and w: "lock_sema l \<notin> W" for l x
  proof -
    obtain m where m: "v (lock_sema l) = Some m" "int m + of_bool (x \<noteq> NULL) + ktoks kf l = 1" using linvD(2) [OF l h w] by blast
    have "ktok l k1 + of_bool (a = lock_sema l) * (int n' - int n) = ktok l k0" using t h w by (auto simp: dom_def)
    then show ?thesis using m ktoks_upd(1) [OF linvD(1) [OF l], of c k1 l] c a by (cases "a = lock_sema l") auto
  qed
  then show ?thesis using linvD [OF l] ktoks_upd(2) [OF linvD(1) [OF l], of c k1] p unfolding linv_def by auto
qed

lemma linv_holder:
  assumes l: "linv kf h W v cs" and c: "kf c = k0" and hl: "h l = Some x"
    and t: "\<And>l'. l' \<in> dom h \<Longrightarrow> lock_sema l' \<notin> W \<Longrightarrow> ktok l' k1 + of_bool (l' = l) * (of_bool (x' \<noteq> NULL) - of_bool (x \<noteq> NULL)) = ktok l' k0"
    and p: "paired (lock_semas h) k1"
  shows "linv (kf(c := k1)) (h(l \<mapsto> x')) W v cs"
proof -
  have "\<exists>m. v (lock_sema l') = Some m \<and> int m + of_bool (y \<noteq> NULL) + ktoks (kf(c := k1)) l' = 1" if h: "(h(l \<mapsto> x')) l' = Some y" and w: "lock_sema l' \<notin> W" for l' y
  proof -
    obtain y0 where y0: "h l' = Some y0" using h hl by (auto split: if_splits)
    obtain m where m: "v (lock_sema l') = Some m" "int m + of_bool (y0 \<noteq> NULL) + ktoks kf l' = 1" using linvD(2) [OF l y0 w] by blast
    have "ktok l' k1 + of_bool (l' = l) * (of_bool (x' \<noteq> NULL) - of_bool (x \<noteq> NULL)) = ktok l' k0" using t y0 w by (auto simp: dom_def)
    then show ?thesis using m ktoks_upd(1) [OF linvD(1) [OF l], of c k1 l'] c hl h y0 by (cases "l' = l") auto
  qed
  moreover have "lock_semas (h(l \<mapsto> x')) = lock_semas h" using hl by (auto simp: lock_semas_def)
  ultimately show ?thesis using linvD [OF l] ktoks_upd(2) [OF linvD(1) [OF l], of c k1] p unfolding linv_def by auto
qed

lemma linv_plain:
  assumes l: "linv kf h W v cs" and a: "a \<notin> lock_semas h"
  shows "linv kf h (W - {a}) (v(a \<mapsto> n)) cs"
proof -
  have "(v(a \<mapsto> n)) (lock_sema l) = v (lock_sema l)" "lock_sema l \<notin> W - {a} \<longleftrightarrow> lock_sema l \<notin> W" if "h l = Some x" for l x
    using a that by (auto simp: lock_semas_def)
  then show ?thesis using linvD [OF l] unfolding linv_def by auto
qed

text \<open>The page of a thread is overwritten: its locks and condition variables are no longer among those that the invariant
  speaks of.\<close>

lemma linv_wipe:
  assumes l: "linv kf h W v cs" and h: "dom h' = dom h" "\<And>l. lock_sema l \<notin> W' \<Longrightarrow> h' l = h l" and w: "W \<subseteq> W'"
    and v: "\<And>a. a \<notin> W' \<Longrightarrow> v' a = v a" and c: "cs' \<subseteq>\<^sub>m cs"
  shows "linv kf h' W' v' cs'"
proof -
  have L: "lock_semas h' = lock_semas h" using h(1) by (simp add: lock_semas_def)
  have "cs c = Some ws" if "cs' c = Some ws" for c ws using c that by (metis domI map_le_def)
  moreover have "\<exists>n. v' (lock_sema l) = Some n \<and> int n + of_bool (x \<noteq> NULL) + ktoks kf l = 1"
    if "h' l = Some x" "lock_sema l \<notin> W'" for l x
  proof -
    have "h l = Some x" "lock_sema l \<notin> W" using h(2) [OF that(2)] w that by auto
    from linvD(2) [OF l this] show ?thesis using v [OF that(2)] by simp
  qed
  ultimately show ?thesis using linvD(1,3,4) [OF l] unfolding linv_def L by blast
qed

lemma ktok_free:
  assumes "\<And>f. f \<in> set k \<Longrightarrow> l \<notin> frame_locks f \<and> lock_sema l \<notin> frame_semas f"
  shows "ktok l k = 0"
  using assms
proof (induction k)
  case (Cons f k)
  then have "l \<notin> frame_locks f \<and> lock_sema l \<notin> frame_semas f" by simp
  then have "ftok l f = 0" by (cases f) auto
  then show ?case using Cons by simp
qed simp

lemma paired_insert:
  assumes "\<And>f. f \<in> set k \<Longrightarrow> lock_sema l \<notin> frame_semas f"
  shows "paired L k \<Longrightarrow> paired (insert (lock_sema l) L) k"
  using assms
proof (induction k)
  case (Cons f k)
  then have "lock_sema l \<notin> frame_semas f" "frame_ok L f k" by simp_all
  then have "frame_ok (insert (lock_sema l) L) f k" by (cases f) auto
  then show ?case using Cons by simp
qed simp

definition unused :: "(addr \<Rightarrow> frame list) \<Rightarrow> (addr \<rightharpoonup> addr list) \<Rightarrow> addr \<Rightarrow> bool" where
  "unused kf cs l \<longleftrightarrow> (\<forall>t f. f \<in> set (kf t) \<longrightarrow> l \<notin> frame_locks f \<and> lock_sema l \<notin> frame_semas f) \<and>
     (\<forall>c ws. cs c = Some ws \<longrightarrow> lock_sema l \<notin> set ws)"

lemma linv_new_lock:
  assumes i: "linv kf h W v cs" and u: "unused kf cs l"
  shows "linv kf (h(l \<mapsto> NULL)) (W - {lock_sema l}) (v(lock_sema l \<mapsto> 1)) cs"
proof -
  have z: "ktoks kf l = 0" unfolding ktoks_def
    using u by (intro sum.neutral) (auto simp: unused_def intro!: ktok_free)
  have L: "lock_semas (h(l \<mapsto> NULL)) = insert (lock_sema l) (lock_semas h)" by (auto simp: lock_semas_def)
  have "paired (insert (lock_sema l) (lock_semas h)) (kf t)" for t
    using u linvD(3) [OF i, of t] by (intro paired_insert) (auto simp: unused_def)
  moreover have "w \<notin> insert (lock_sema l) (lock_semas h)" if "cs c = Some ws" "w \<in> set ws" for c ws w
    using linvD(4) [OF i that] u that by (auto simp: unused_def)
  moreover have "\<exists>m. (v(lock_sema l \<mapsto> 1)) (lock_sema l') = Some m \<and> int m + of_bool (x \<noteq> NULL) + ktoks kf l' = 1"
    if "(h(l \<mapsto> NULL)) l' = Some x" "lock_sema l' \<notin> W - {lock_sema l}" for l' x
    using that linvD(2) [OF i, of l' x] z by (cases "l' = l") auto
  ultimately show ?thesis using linvD(1) [OF i] unfolding linv_def L by blast
qed

lemma creating_ok_replace:
  assumes "creating_ok kf" "kf c = k0" "set (creating k1) \<subseteq> set (creating k0)" "k0 \<noteq> [] \<or> (\<forall>b. c \<notin> set (creating (kf b)))"
  shows "creating_ok (kf(c := k1))"
proof -
  have "c \<notin> set (creating (kf b))" for b using assms(1,2,4) unfolding creating_ok_def by metis
  then show ?thesis using assms(1-3) unfolding creating_ok_def by (auto split: if_splits)
qed

text \<open>\<open>pending s f\<close>: the invariant with the frame \<open>f\<close>, about to be executed, still on the stack of the running thread.\<close>

definition pending :: "kstate \<Rightarrow> frame \<Rightarrow> bool" where
  "pending s f \<longleftrightarrow> lkinv ((kont_at s)(running_thread s := f # kont_at s (running_thread s))) (holders s) (wiped s) (vals s) (conds s) \<and> dying_ok s"

subsection \<open>What the switching operations do to the stacks\<close>

text \<open>\<open>stacks s fs s'\<close>: the frames \<open>fs\<close> are pushed on the stack of the running thread; locks, semaphore values and
  condition variables are as before.\<close>

definition stacks :: "kstate \<Rightarrow> frame list \<Rightarrow> kstate \<Rightarrow> bool" where
  "stacks s fs s' \<longleftrightarrow> (dying_ok s \<longrightarrow> dying_ok s' \<and>
     kont_at s' = (kont_at s)(running_thread s := fs @ kont_at s (running_thread s)) \<and>
     holders s' = holders s \<and> wiped s' = wiped s \<and> vals s' = vals s \<and> conds s' = conds s)"

lemma pending_stacks:
  assumes p: "pending s f" and st: "stacks s fs s'"
    and t: "\<And>l. l \<in> dom (holders s) \<Longrightarrow> ktok l fs = ftok l f"
    and w: "frame_ok (lock_semas (holders s)) f (kont_at s (running_thread s)) \<Longrightarrow>
      paired (lock_semas (holders s)) (kont_at s (running_thread s)) \<Longrightarrow> paired (lock_semas (holders s)) (fs @ kont_at s (running_thread s))"
    and cr: "set (creating fs) \<subseteq> set (creating [f])"
  shows "lockinv s'"
proof -
  let ?k = "kont_at s (running_thread s)"
  let ?kf = "(kont_at s)(running_thread s := f # ?k)"
  have l: "linv ?kf (holders s) (wiped s) (vals s) (conds s)" "creating_ok ?kf" "dying_ok s" using p by (simp_all add: pending_def lkinv_def)
  have "frame_ok (lock_semas (holders s)) f ?k \<and> paired (lock_semas (holders s)) ?k" using linvD(3) [OF l(1), of "running_thread s"] by simp
  then have "paired (lock_semas (holders s)) (fs @ ?k)" using w by blast
  then have "linv (?kf(running_thread s := fs @ ?k)) (holders s) (wiped s) (vals s) (conds s)"
    by (intro linv_replace [OF l(1), of _ "f # ?k"]) (use t in auto)
  moreover have "set (creating (fs @ ?k)) \<subseteq> set (creating (f # ?k))" using cr by (auto simp: creating_def)
  then have "creating_ok (?kf(running_thread s := fs @ ?k))" by (intro creating_ok_replace [OF l(2), of _ "f # ?k"]) simp_all
  ultimately show ?thesis using st l(3) by (simp add: lockinv_def lkinv_def stacks_def)
qed

lemma stacks_trans: "stacks s fs s1 \<Longrightarrow> running_thread s1 = running_thread s \<Longrightarrow> stacks s1 gs s2 \<Longrightarrow> stacks s (gs @ fs) s2"
  by (auto simp: stacks_def)

lemma stacks_trans0: "stacks s [] s1 \<Longrightarrow> running_thread s1 = running_thread s \<Longrightarrow> stacks s1 gs s2 \<Longrightarrow> stacks s gs s2"
  using stacks_trans by fastforce

lemma kont_at_Some [simp]: "threads s t = Some th \<Longrightarrow> kont_at s t = kont th"
  by (simp add: kont_at_def)

lemma vals_cong: "semas s' = semas s \<Longrightarrow> vals s' = vals s"
  by (simp add: vals_def fun_eq_iff)

lemma status_same [simp]: "\<exists>st. th = th\<lparr>status := st\<rparr> \<and> (st = status th \<or> st = THREAD_RUNNING)"
  by (rule exI [of _ "status th"]) simp

lemma schedule_switched:
  assumes "schedule s = Some s'"
  shows "switched s s'" "ready_list s' = ready_list (snd (next_thread_to_run s))"
proof -
  have "\<exists>n rl. next_thread_to_run s = (n, s\<lparr>ready_list := rl\<rparr>)"
    by (rule next_thread_cases [of s]) (auto intro: exI [of _ "ready_list s"])
  then obtain n rl where n: "next_thread_to_run s = (n, s\<lparr>ready_list := rl\<rparr>)" by blast
  define s1 where "s1 = s\<lparr>ready_list := rl, running_thread := n\<rparr>"
  define prev where "prev = (if running_thread s = n then NULL else running_thread s)"
  have "s1 = s\<lparr>ready_list := rl\<rparr>" if "running_thread s = n" using that by (cases s) (simp add: s1_def)
  then have t: "thread_schedule_tail prev s1 = Some s'" using assms n
    by (cases "running_thread s = n") (auto simp: schedule_def Let_def s1_def prev_def bind_eq_Some_conv)
  obtain th where th: "threads s n = Some th"
    using t by (auto simp: thread_schedule_tail_def upd_thread_Some s1_def bind_eq_Some_conv)
  define s2 where "s2 = s1\<lparr>threads := (threads s)(n \<mapsto> th\<lparr>status := THREAD_RUNNING\<rparr>), thread_ticks := 0\<rparr>"
  have u: "upd_thread (running_thread s1) (\<lambda>th. th\<lparr>status := THREAD_RUNNING\<rparr>) s1 = Some (s1\<lparr>threads := (threads s)(n \<mapsto> th\<lparr>status := THREAD_RUNNING\<rparr>)\<rparr>)"
    using th by (simp add: upd_thread_Some s1_def)
  obtain s3 where s3: "(if userprog s2 then process_activate s2 else Some s2) = Some s3"
    "(if prev = NULL then Some s3 else do {
       p \<leftarrow> threads s3 prev;
       if status p = THREAD_DYING \<and> prev \<noteq> initial_thread s3 then do {
         k_assert (prev \<noteq> running_thread s1);
         Some (palloc_free_thread prev s3) }
       else Some s3 }) = Some s'"
    using t u unfolding thread_schedule_tail_def s2_def by (auto simp: bind_eq_Some_conv Let_def)
  have ev: "s3 = s2\<lparr>events := events s3\<rparr>"
    using s3(1) by (cases "userprog s2") (auto simp: process_activate_def log_event_def bind_eq_Some_conv)
  define ev3 where "ev3 = events s3"
  note ev = ev [folded ev3_def]
  have "s' = s3 \<or> (\<exists>p. threads s3 prev = Some p \<and> status p = THREAD_DYING \<and> prev \<noteq> n \<and> prev \<noteq> NULL \<and> s' = palloc_free_thread prev s3)"
    using s3(2) by (auto simp: bind_eq_Some_conv s1_def split: if_splits)
  then have "switched s s' \<and> ready_list s' = rl"
  proof
    assume "s' = s3" then show ?thesis using th ev by (auto simp: switched_def same_locks_def s2_def s1_def)
  next
    assume "\<exists>p. threads s3 prev = Some p \<and> status p = THREAD_DYING \<and> prev \<noteq> n \<and> prev \<noteq> NULL \<and> s' = palloc_free_thread prev s3"
    then obtain p where "threads s (running_thread s) = Some p" "status p = THREAD_DYING" "running_thread s \<noteq> n"
      "s' = palloc_free_thread (running_thread s) s3" using ev by (auto simp: s2_def s1_def prev_def split: if_splits)
    moreover have "same_locks (wipe_page (running_thread s) s) (palloc_free_thread (running_thread s) s3)"
      by (subst ev) (simp add: same_locks_def s2_def s1_def palloc_free_thread_def log_event_def wipe_page_def cong: if_cong)
    ultimately show ?thesis using th ev by (auto simp: switched_def cur_dying_def s2_def s1_def palloc_free_thread_def log_event_def)
  qed
  then show "switched s s'" "ready_list s' = ready_list (snd (next_thread_to_run s))" using n by simp_all
qed

lemma switched_kept:
  assumes sw: "switched s s'" and d: "dying_ok s"
  shows "kont_at s' = kont_at s" "dying_ok s'"
proof -
  have n: "threads s' t = None \<Longrightarrow> threads s t = None \<or> (\<exists>th. threads s t = Some th \<and> status th = THREAD_DYING)" for t
    using sw unfolding switched_def by blast
  have y: "threads s' t = Some th' \<Longrightarrow> \<exists>th st. threads s t = Some th \<and> th' = th\<lparr>status := st\<rparr> \<and> (st = status th \<or> st = THREAD_RUNNING)" for t th'
    using sw unfolding switched_def by blast
  have "kont_at s' t = kont_at s t" for t
  proof (cases "threads s' t")
    case None then show ?thesis using n [OF None] d by (auto simp: kont_at_def dying_ok_def)
  next
    case (Some th') then show ?thesis using y [OF Some] by (auto simp: kont_at_def)
  qed
  then show "kont_at s' = kont_at s" by blast
  show "dying_ok s'" unfolding dying_ok_def
  proof (intro allI impI)
    fix t th' assume "threads s' t = Some th'" "status th' = THREAD_DYING"
    with y obtain th where "threads s t = Some th" "status th = THREAD_DYING" "kont th' = kont th" by fastforce
    then show "kont th' = []" using d by (simp add: dying_ok_def)
  qed
qed

lemma switched_stacks: "switched s s' \<Longrightarrow> \<not> cur_dying s \<Longrightarrow> stacks s [] s'"
proof -
  assume sw: "switched s s'" and "\<not> cur_dying s"
  then have "same_locks s s'" unfolding switched_def by blast
  then show ?thesis using switched_kept [OF sw] by (simp add: stacks_def same_locks_def vals_def fun_eq_iff)
qed

lemmas schedule_stacks = switched_stacks [OF schedule_switched(1)]

lemma stacks_cong:
  assumes "\<And>t. map_option kont (threads s' t) = map_option kont (threads s t)"
    "\<And>t. map_option status (threads s' t) = map_option status (threads s t)"
    "holders s' = holders s" "wiped s' = wiped s" "\<And>a. map_option sema_value (semas s' a) = map_option sema_value (semas s a)" "conds s' = conds s"
  shows "stacks s [] s'"
proof -
  have "kont_at s' t = kont_at s t" for t using assms(1) [of t] by (auto simp: kont_at_def split: option.splits)
  moreover have "dying_ok s'" if "dying_ok s" unfolding dying_ok_def
  proof (intro allI impI)
    fix t th assume "threads s' t = Some th" "status th = THREAD_DYING"
    then show "kont th = []" using assms(1,2) [of t] that by (cases "threads s t") (auto simp: dying_ok_def)
  qed
  ultimately show ?thesis using assms(3-6) by (auto simp: stacks_def vals_def fun_eq_iff)
qed

lemma stacks_push:
  assumes "push_kont fs s = Some s'" "threads s (running_thread s) = Some c" "status c \<noteq> THREAD_DYING"
  shows "stacks s fs s'"
  using assms by (auto simp: stacks_def push_kont_Some kont_at_def fun_eq_iff vals_def dying_ok_def)

lemma stacks_status:
  assumes "threads s t = Some c" "st \<noteq> THREAD_DYING \<or> kont c = []"
  shows "stacks s [] (s\<lparr>threads := (threads s)(t \<mapsto> c\<lparr>status := st\<rparr>)\<rparr>)"
  using assms by (auto simp: stacks_def kont_at_def fun_eq_iff vals_def dying_ok_def)

lemma thread_block_stacks:
  assumes "thread_block s = Some s'"
  shows "stacks s [] s'"
proof -
  obtain c where c: "threads s (running_thread s) = Some c"
    and s: "schedule (s\<lparr>threads := (threads s)(running_thread s \<mapsto> c\<lparr>status := THREAD_BLOCKED\<rparr>)\<rparr>) = Some s'"
    using assms by (auto simp: thread_block_def thread_current_def upd_thread_Some bind_eq_Some_conv Let_def)
  show ?thesis by (rule stacks_trans0 [OF stacks_status [OF c] _ schedule_stacks [OF s]]) (simp_all add: cur_dying_def)
qed

lemma thread_yield_stacks:
  assumes "thread_yield s = Some s'"
  shows "stacks s [F_set_level (intr_get_level s)] s'"
proof -
  obtain c where c: "threads s (running_thread s) = Some c" "status c = THREAD_RUNNING"
    using assms by (auto simp: thread_yield_def thread_current_def bind_eq_Some_conv Let_def)
  obtain s2 where s2: "schedule s2 = Some s'" "stacks s [F_set_level (intr_get_level s)] s2" "running_thread s2 = running_thread s" "\<not> cur_dying s2"
    using assms c by (cases "running_thread s = idle_thread s")
      (auto simp: thread_yield_def thread_current_def intr_disable_def ready_push_def timer_ticks_off upd_thread_Some push_kont_Some
        bind_eq_Some_conv Let_def stacks_def kont_at_def fun_eq_iff vals_def dying_ok_def cur_dying_def)
  then show ?thesis using stacks_trans [OF s2(2,3) schedule_stacks [OF s2(1,4)]] by simp
qed

definition maybe_yield :: "frame list \<Rightarrow> bool" where
  "maybe_yield fs \<longleftrightarrow> (\<exists>lvs. fs = map F_set_level lvs)"

lemma maybe_yieldI [simp, intro]: "maybe_yield []" "maybe_yield [F_set_level lv]" "maybe_yield (fs @ gs) \<longleftrightarrow> maybe_yield fs \<and> maybe_yield gs"
proof -
  show "maybe_yield []" by (simp add: maybe_yield_def)
  show "maybe_yield [F_set_level lv]" by (auto simp: maybe_yield_def intro: exI [of _ "[lv]"])
  show "maybe_yield (fs @ gs) \<longleftrightarrow> maybe_yield fs \<and> maybe_yield gs"
    by (auto simp: maybe_yield_def append_eq_map_conv map_eq_append_conv)
qed

lemma maybe_yield_tok [simp]: "maybe_yield fs \<Longrightarrow> ktok l fs = 0" "maybe_yield fs \<Longrightarrow> creating fs = []"
  "maybe_yield fs \<Longrightarrow> paired L (fs @ k) = paired L k"
proof -
  have a: "ktok l (map F_set_level lvs) = 0 \<and> creating (map F_set_level lvs) = [] \<and> paired L (map F_set_level lvs @ k) = paired L k" for lvs
    by (induction lvs) auto
  show "maybe_yield fs \<Longrightarrow> ktok l fs = 0" "maybe_yield fs \<Longrightarrow> creating fs = []" "maybe_yield fs \<Longrightarrow> paired L (fs @ k) = paired L k"
    using a by (auto simp: maybe_yield_def)
qed

lemma thread_unblock_stacks:
  assumes "thread_unblock t s = Some s'"
  shows "\<exists>fs. stacks s fs s' \<and> maybe_yield fs" "\<not> if_flag s \<Longrightarrow> stacks s [] s' \<and> running_thread s' = running_thread s \<and>
      (\<forall>x th'. threads s' x = Some th' \<longrightarrow> status th' = THREAD_DYING \<longrightarrow> threads s x = Some th')"
proof -
  obtain th lv old s1 where th: "threads s t = Some th" "status th = THREAD_BLOCKED" "lv = intr_get_level s"
    and s1: "intr_set_level lv (s\<lparr>if_flag := False, ready_list := (ready_list s)(priority th := ready_list s (priority th) @ [t]),
      threads := (threads s)(t \<mapsto> th\<lparr>status := THREAD_READY\<rparr>)\<rparr>) = Some (old, s1)"
    and s': "(if thread_top_priority (s\<lparr>if_flag := False\<rparr>) < priority th \<and> intr_get_level s1 = INTR_ON then thread_yield s1 else Some s1) = Some s'"
    using assms by (auto simp: thread_unblock_def intr_disable_def ready_push_def upd_thread_Some bind_eq_Some_conv Let_def)
  have st: "stacks s [] s1" "running_thread s1 = running_thread s" "if_flag s1 = if_flag s"
    "\<forall>x th'. threads s1 x = Some th' \<longrightarrow> status th' = THREAD_DYING \<longrightarrow> threads s x = Some th'"
    using s1 th by (auto simp: intr_set_level_def intr_enable_def intr_disable_def intr_get_level_def stacks_def kont_at_def fun_eq_iff vals_def dying_ok_def
      split: if_splits)
  show "\<exists>fs. stacks s fs s' \<and> maybe_yield fs"
  proof (cases "thread_top_priority (s\<lparr>if_flag := False\<rparr>) < priority th \<and> intr_get_level s1 = INTR_ON")
    case True
    then have "thread_yield s1 = Some s'" using s' by simp
    from thread_yield_stacks [OF this] have "stacks s1 [F_set_level (intr_get_level s1)] s'" .
    then show ?thesis using stacks_trans0 [OF st(1,2)] by blast
  next
    case False then show ?thesis using s' st(1) by (auto intro: exI [of _ "[]"] split: if_splits)
  qed
  show "stacks s [] s' \<and> running_thread s' = running_thread s \<and>
      (\<forall>x th'. threads s' x = Some th' \<longrightarrow> status th' = THREAD_DYING \<longrightarrow> threads s x = Some th')" if "\<not> if_flag s"
  proof -
    have "s' = s1" using s' st(3) that by (simp add: intr_get_level_def)
    then show ?thesis using st by blast
  qed
qed

end
