(* ===== verification/Lock_Inv.thy ===== *)
theory Lock_Inv
  imports Lock_Tokens
begin

text \<open>
  Mutual exclusion of locks, second part: every frame that a thread executes and every step of the kernel keeps the
  tokens.
\<close>

subsection \<open>The invariant under one frame\<close>

definition cur_running :: "kstate \<Rightarrow> bool" where
  "cur_running s \<longleftrightarrow> (\<exists>c. threads s (running_thread s) = Some c \<and> status c = THREAD_RUNNING)"

lemma pendingD:
  assumes "pending s f"
  shows "linv ((kont_at s)(running_thread s := f # kont_at s (running_thread s))) (holders s) (wiped s) (vals s) (conds s)"
    "creating_ok ((kont_at s)(running_thread s := f # kont_at s (running_thread s)))" "dying_ok s"
    "frame_ok (lock_semas (holders s)) f (kont_at s (running_thread s))" "paired (lock_semas (holders s)) (kont_at s (running_thread s))"
proof -
  show l: "linv ((kont_at s)(running_thread s := f # kont_at s (running_thread s))) (holders s) (wiped s) (vals s) (conds s)"
    "creating_ok ((kont_at s)(running_thread s := f # kont_at s (running_thread s)))" "dying_ok s"
    using assms by (simp_all add: pending_def lkinv_def)
  show "frame_ok (lock_semas (holders s)) f (kont_at s (running_thread s))" "paired (lock_semas (holders s)) (kont_at s (running_thread s))"
    using linvD(3) [OF l(1), of "running_thread s"] by simp_all
qed

lemma pending_creating:
  assumes "pending s f" "set (creating k1) \<subseteq> set (creating (f # kont_at s (running_thread s)))"
  shows "creating_ok ((kont_at s)(running_thread s := k1))"
  using creating_ok_replace [OF pendingD(2) [OF assms(1)], of "running_thread s" _ k1] assms(2) by simp

lemma pending_maybe:
  assumes "pending s f" "\<exists>fs. stacks s fs s' \<and> maybe_yield fs" "\<And>l. l \<in> dom (holders s) \<Longrightarrow> ftok l f = 0"
  shows "lockinv s'"
proof -
  obtain fs where fs: "stacks s fs s'" "maybe_yield fs" using assms(2) by blast
  show ?thesis by (rule pending_stacks [OF assms(1) fs(1)]) (use fs(2) assms(3) in auto)
qed

lemma stacks_push_upd:
  assumes "push_kont fs s1 = Some s'" "threads s1 = threads s" "running_thread s1 = running_thread s" "cur_running s"
    "holders s1 = holders s" "wiped s1 = wiped s" "vals s1 = vals s" "conds s1 = conds s"
  shows "stacks s fs s'"
proof -
  obtain c where c: "threads s1 (running_thread s1) = Some c" "status c \<noteq> THREAD_DYING" using assms(2-4) by (auto simp: cur_running_def)
  have "stacks s [] s1" using assms by (intro stacks_cong) (auto simp: vals_def fun_eq_iff)
  from stacks_trans0 [OF this assms(3) stacks_push [OF assms(1) c]] show ?thesis .
qed

lemma stacks_yield_if:
  assumes "stacks s [] s1" "running_thread s1 = running_thread s" "(if b then thread_yield s1 else Some s1) = Some s'"
  shows "\<exists>fs. stacks s fs s' \<and> maybe_yield fs"
proof (cases b)
  case True
  then have "thread_yield s1 = Some s'" using assms(3) by simp
  from stacks_trans0 [OF assms(1,2) thread_yield_stacks [OF this]] show ?thesis by blast
next
  case False then show ?thesis using assms(1,3) by (auto intro: exI [of _ "[]"])
qed

lemma upd_thread_stacks:
  assumes "upd_thread t g s = Some s'" "\<And>th. kont (g th) = kont th" "\<And>th. status (g th) = status th"
  shows "stacks s [] s'" "running_thread s' = running_thread s"
proof -
  show "stacks s [] s'" using assms by (intro stacks_cong) (auto simp: upd_thread_Some)
  show "running_thread s' = running_thread s" using assms(1) by (auto simp: upd_thread_Some)
qed

lemma timer_ticks_flag: "timer_ticks s = Some (t, s') \<Longrightarrow> s' = s\<lparr>if_flag := if_flag s'\<rparr>"
  by (auto simp: timer_ticks_def intr_disable_def intr_set_level_def intr_enable_def Let_def split: if_splits)

subsection \<open>Frames that touch no lock\<close>

lemma priority_lock:
  assumes "pending s f" "\<And>l. ftok l f = 0"
  shows "thread_set_priority p s = Some s' \<Longrightarrow> lockinv s'" "thread_set_nice n s = Some s' \<Longrightarrow> lockinv s'"
    "sema_up_yield p s = Some s' \<Longrightarrow> lockinv s'" "thread_yield s = Some s' \<Longrightarrow> lockinv s'"
proof -
  show "lockinv s'" if e: "thread_set_priority p s = Some s'"
  proof -
    obtain s1 b where "upd_thread (running_thread s) (\<lambda>th. th\<lparr>priority := p\<rparr>) s = Some s1" "(if b then thread_yield s1 else Some s1) = Some s'"
      using e by (auto simp: thread_set_priority_def thread_current_def bind_eq_Some_conv Let_def)
    then show ?thesis using stacks_yield_if [OF upd_thread_stacks] pending_maybe [OF assms(1)] assms(2) by auto
  qed
  show "lockinv s'" if e: "thread_set_nice n s = Some s'"
  proof -
    obtain s1 s2 b pri where s: "upd_thread (running_thread s) (\<lambda>th. th\<lparr>nice := n\<rparr>) s = Some s1"
      "upd_thread (running_thread s) (\<lambda>th. th\<lparr>priority := pri\<rparr>) s1 = Some s2" "(if b then thread_yield s2 else Some s2) = Some s'"
      using e by (auto simp: thread_set_nice_def thread_current_def bind_eq_Some_conv Let_def)
    have "stacks s [] s2" "running_thread s2 = running_thread s"
      using upd_thread_stacks [OF s(1)] upd_thread_stacks [OF s(2)] stacks_trans0 by auto
    then show ?thesis using stacks_yield_if [OF _ _ s(3)] pending_maybe [OF assms(1)] assms(2) by auto
  qed
  have r: "stacks s [] s" by (rule stacks_cong) auto
  show "sema_up_yield p s = Some s' \<Longrightarrow> lockinv s'"
    using stacks_yield_if [OF r] pending_maybe [OF assms(1)] assms(2) by (auto simp: sema_up_yield_def bind_eq_Some_conv)
  show "thread_yield s = Some s' \<Longrightarrow> lockinv s'"
    using stacks_yield_if [OF r, of True] pending_maybe [OF assms(1)] assms(2) by auto
qed

lemma sleep_lock:
  assumes p: "pending s f" and r: "cur_running s"
  shows "f = F_sleep n a \<Longrightarrow> timer_sleep n a s = Some s' \<Longrightarrow> lockinv s'"
    "f = F_sleep_check n st a \<Longrightarrow> timer_sleep_check n st a s = Some s' \<Longrightarrow> lockinv s'"
proof -
  show "lockinv s'" if f: "f = F_sleep n a" and e: "timer_sleep n a s = Some s'"
  proof -
    obtain t s1 where s1: "timer_ticks s = Some (t, s1)" "push_kont [F_sleep_check n t a] s1 = Some s'"
      using e by (auto simp: timer_sleep_def bind_eq_Some_conv)
    then obtain b where "s1 = s\<lparr>if_flag := b\<rparr>" using timer_ticks_flag by blast
    then have "stacks s [F_sleep_check n t a] s'" using stacks_push_upd [OF s1(2)] r by (simp add: vals_def fun_eq_iff)
    then show ?thesis by (rule pending_stacks [OF p]) (use f in auto)
  qed
  show "lockinv s'" if f: "f = F_sleep_check n st a" and e: "timer_sleep_check n st a s = Some s'"
  proof -
    obtain t s1 where s1: "timer_ticks s = Some (t, s1)" using e by (auto simp: timer_sleep_check_def timer_elapsed_def bind_eq_Some_conv)
    then obtain b where b: "s1 = s\<lparr>if_flag := b\<rparr>" using timer_ticks_flag by blast
    show ?thesis
    proof (cases "s64 (t - st) < n")
      case True
      then obtain s2 where s2: "push_kont [F_set_level (intr_get_level s1)]
          (s1\<lparr>if_flag := False, list_alarm := list_alarm s @ [(s64 (n + st), running_thread s)]\<rparr>) = Some s2" "thread_block s2 = Some s'"
        using e s1 b by (auto simp: timer_sleep_check_def timer_elapsed_def intr_disable_def thread_current_def bind_eq_Some_conv Let_def)
      have "stacks s [F_set_level (intr_get_level s1)] s2" using stacks_push_upd [OF s2(1)] r b by (simp add: vals_def fun_eq_iff)
      moreover have "running_thread s2 = running_thread s" using s2(1) b by (auto simp: push_kont_Some)
      ultimately have "stacks s [F_set_level (intr_get_level s1)] s'" using stacks_trans [OF _ _ thread_block_stacks [OF s2(2)]] by fastforce
      then show ?thesis using pending_maybe [OF p] f by auto
    next
      case False
      then have "s' = s1" using e s1 by (simp add: timer_sleep_check_def timer_elapsed_def)
      then have "stacks s [] s'" using b by (intro stacks_cong) auto
      then show ?thesis using pending_maybe [OF p] f by auto
    qed
  qed
qed

lemma process_exit_stacks:
  assumes "process_exit s = Some s'"
  shows "stacks s [] s'" "running_thread s' = running_thread s"
proof -
  consider "s' = s" | pd s1 where "upd_thread (running_thread s) (\<lambda>th. th\<lparr>pagedir := NULL\<rparr>) s = Some s1"
      "s' = log_event (E_pagedir_destroy pd) (log_event (E_pagedir_activate NULL) s1)"
    using assms by (auto simp: process_exit_def thread_current_def bind_eq_Some_conv Let_def split: if_splits)
  then have "stacks s [] s' \<and> running_thread s' = running_thread s"
  proof cases
    case 1 then show ?thesis by (auto intro: stacks_cong)
  next
    case 2
    have "stacks s1 [] s'" using 2(2) by (intro stacks_cong) (auto simp: log_event_def)
    then show ?thesis using stacks_trans0 [OF upd_thread_stacks [OF 2(1)]] upd_thread_stacks(2) [OF 2(1)] 2(2) by (simp add: log_event_def)
  qed
  then show "stacks s [] s'" "running_thread s' = running_thread s" by simp_all
qed

lemma close_files_stacks:
  assumes "close_files n i s = Some s'"
  shows "stacks s [] s' \<and> running_thread s' = running_thread s"
  using assms
proof (induction n arbitrary: i s)
  case 0
  then show ?case by (auto intro: stacks_cong)
next
  case (Suc n)
  obtain f s1 where s1: "(if f \<noteq> NULL
      then upd_thread (running_thread s) (\<lambda>th. th\<lparr>files_table := (files_table th)[i := NULL]\<rparr>) (log_event (E_file_close f) s)
      else Some s) = Some s1" "close_files n (Suc i) s1 = Some s'"
    using Suc.prems by (auto simp: thread_current_def bind_eq_Some_conv Let_def)
  have "stacks s [] s1 \<and> running_thread s1 = running_thread s"
  proof (cases "f \<noteq> NULL")
    case True
    have a: "stacks s [] (log_event (E_file_close f) s)" by (rule stacks_cong) (auto simp: log_event_def)
    show ?thesis using s1(1) True stacks_trans0 [OF a] upd_thread_stacks by (fastforce simp: log_event_def)
  next
    case False then show ?thesis using s1(1) by (auto intro: stacks_cong)
  qed
  then show ?case using Suc.IH [OF s1(2)] stacks_trans0 by auto
qed

lemma linv_wipe_page:
  assumes "linv kf (holders s) (wiped s) (vals s) (conds s)"
  shows "linv kf (holders (wipe_page t s)) (wiped (wipe_page t s)) (vals (wipe_page t s)) (conds (wipe_page t s))"
  by (rule linv_wipe [OF assms]) (auto simp: wipe_page_def vals_def map_le_def dom_def split: if_splits)

lemma lockinv_switched:
  assumes l: "lockinv s" and sw: "switched s s'"
  shows "lockinv s'"
proof -
  have L: "linv (kont_at s) (holders s) (wiped s) (vals s) (conds s)" "creating_ok (kont_at s)" "dying_ok s"
    using l by (simp_all add: lockinv_def lkinv_def)
  have "linv (kont_at s) (holders s') (wiped s') (vals s') (conds s')" if "same_locks s s' \<or> same_locks (wipe_page t s) s'" for t
    using that
  proof
    assume "same_locks s s'" then show ?thesis using L(1) by (simp add: same_locks_def vals_def [abs_def])
  next
    assume "same_locks (wipe_page t s) s'" then show ?thesis using linv_wipe_page [OF L(1), of t] by (simp add: same_locks_def vals_def [abs_def])
  qed
  then have "linv (kont_at s) (holders s') (wiped s') (vals s') (conds s')" using sw unfolding switched_def by blast
  then show ?thesis using switched_kept [OF sw L(3)] L(2) by (simp add: lockinv_def lkinv_def)
qed

lemma exit_lock:
  assumes p: "pending s f" and r: "cur_running s"
  shows "f = F_exit \<Longrightarrow> thread_exit s = Some s' \<Longrightarrow> lockinv s'" "f = F_exit_user \<Longrightarrow> thread_exit_user s = Some s' \<Longrightarrow> lockinv s'"
    "f = F_exit_wait \<Longrightarrow> thread_exit_wait s = Some s' \<Longrightarrow> lockinv s'" "f = F_exit_off \<Longrightarrow> thread_exit_off s = Some s' \<Longrightarrow> lockinv s'"
    "f = F_exit_die \<Longrightarrow> thread_exit_die s = Some s' \<Longrightarrow> lockinv s'"
proof -
  show "lockinv s'" if f: "f = F_exit" and e: "thread_exit s = Some s'"
  proof -
    obtain fs where fs: "push_kont fs s = Some s'" "fs = [F_exit_user] \<or> (\<exists>l. fs = [F_lock_release l, F_exit_user])"
      using e by (auto simp: thread_exit_def bind_eq_Some_conv split: if_splits)
    have "stacks s fs s'" using stacks_push_upd [OF fs(1)] r by simp
    then show ?thesis by (rule pending_stacks [OF p]) (use f fs(2) in auto)
  qed
  show "lockinv s'" if f: "f = F_exit_wait" and e: "thread_exit_wait s = Some s'"
  proof -
    obtain fs where fs: "push_kont fs s = Some s'" "fs = [F_exit_off] \<or> (\<exists>l. fs = [F_lock_acquire l, F_exit_off])"
      using e by (auto simp: thread_exit_wait_def bind_eq_Some_conv split: if_splits)
    have "stacks s fs s'" using stacks_push_upd [OF fs(1)] r by simp
    then show ?thesis by (rule pending_stacks [OF p]) (use f fs(2) in auto)
  qed
  show "lockinv s'" if f: "f = F_exit_off" and e: "thread_exit_off s = Some s'"
  proof -
    obtain l where "push_kont [F_lock_release l, F_exit_die] (s\<lparr>if_flag := False\<rparr>) = Some s'"
      using e by (auto simp: thread_exit_off_def intr_disable_def bind_eq_Some_conv)
    then have "stacks s [F_lock_release l, F_exit_die] s'" using r by (auto elim!: stacks_push_upd simp: vals_def)
    then show ?thesis by (rule pending_stacks [OF p]) (use f in auto)
  qed
  show "lockinv s'" if f: "f = F_exit_user" and e: "thread_exit_user s = Some s'"
  proof -
    obtain s1 l where s1: "(if \<not> userprog s then Some s else do {
       s \<leftarrow> process_exit s;
       cur \<leftarrow> thread_current s;
       th \<leftarrow> threads s cur;
       let file = file_cur th;
       k_assert (file \<noteq> NULL);
       let s = log_event (E_file_close file) (log_event (E_file_allow_write file) s);
       s \<leftarrow> close_files (nat (fd th - 1)) 0 s;
       Some (log_event E_free_files_table s) }) = Some s1" "push_kont [F_lock_release l, F_exit_wait] s1 = Some s'"
      "cur_running s1"
      using e unfolding thread_exit_user_def cur_running_def by (auto simp: thread_current_def bind_eq_Some_conv Let_def)
    have st: "stacks s [] s1 \<and> running_thread s1 = running_thread s"
    proof (cases "userprog s")
      case False then show ?thesis using s1(1) by (auto intro: stacks_cong)
    next
      case True
      then obtain s2 g m s3 where s2: "process_exit s = Some s2"
        "close_files m 0 (log_event (E_file_close g) (log_event (E_file_allow_write g) s2)) = Some s3"
        "s1 = log_event E_free_files_table s3"
        using s1(1) by (auto simp: bind_eq_Some_conv Let_def)
      have a: "stacks s2 [] (log_event (E_file_close g) (log_event (E_file_allow_write g) s2))" by (rule stacks_cong) (auto simp: log_event_def)
      have b: "stacks s3 [] s1" using s2(3) by (intro stacks_cong) (auto simp: log_event_def)
      note x = process_exit_stacks [OF s2(1)] and y = close_files_stacks [OF s2(2)]
      have c: "stacks s [] s3" by (rule stacks_trans0 [OF x stacks_trans0 [OF a]]) (use y in \<open>simp_all add: log_event_def\<close>)
      have d: "running_thread s3 = running_thread s" using x(2) y by (simp add: log_event_def)
      show ?thesis using stacks_trans0 [OF c d b] d s2(3) by (simp add: log_event_def)
    qed
    have "stacks s1 [F_lock_release l, F_exit_wait] s'" using stacks_push_upd [OF s1(2)] s1(3) by simp
    then have "stacks s [F_lock_release l, F_exit_wait] s'" using st stacks_trans0 by blast
    then show ?thesis by (rule pending_stacks [OF p]) (use f in auto)
  qed
  show "lockinv s'" if f: "f = F_exit_die" and e: "thread_exit_die s = Some s'"
  proof -
    obtain c where c: "threads s (running_thread s) = Some c"
      "schedule (s\<lparr>all_list := remove1 (running_thread s) (all_list s), threads := (threads s)(running_thread s \<mapsto> c\<lparr>status := THREAD_DYING\<rparr>)\<rparr>) = Some s'"
      using e by (auto simp: thread_exit_die_def thread_current_def upd_thread_Some bind_eq_Some_conv Let_def)
    have "kont c = []" using pendingD(4) [OF p] f c(1) by simp
    then have st: "stacks s [] (s\<lparr>all_list := remove1 (running_thread s) (all_list s), threads := (threads s)(running_thread s \<mapsto> c\<lparr>status := THREAD_DYING\<rparr>)\<rparr>)"
      using c(1) by (auto simp: stacks_def kont_at_def fun_eq_iff vals_def dying_ok_def)
    have "lockinv (s\<lparr>all_list := remove1 (running_thread s) (all_list s), threads := (threads s)(running_thread s \<mapsto> c\<lparr>status := THREAD_DYING\<rparr>)\<rparr>)"
      by (rule pending_maybe [OF p]) (use st f in auto)
    then show ?thesis by (rule lockinv_switched [OF _ schedule_switched(1) [OF c(2)]])
  qed
qed

lemma push_lock:
  assumes p: "pending s f" and r: "cur_running s"
  shows "f = F_allocate_tid \<Longrightarrow> allocate_tid s = Some s' \<Longrightarrow> lockinv s'" "f = F_next_tid \<Longrightarrow> allocate_next_tid s = Some s' \<Longrightarrow> lockinv s'"
    "f = F_kernel_thread func \<Longrightarrow> kernel_thread func s = Some s' \<Longrightarrow> func = Client n \<Longrightarrow> lockinv s'"
    "f = F_cond_broadcast c l \<Longrightarrow> cond_broadcast c l s = Some s' \<Longrightarrow> lockinv s'"
    "f = F_idle_loop \<Longrightarrow> idle_loop s = Some s' \<Longrightarrow> lockinv s'"
proof -
  show "lockinv s'" if f: "f = F_allocate_tid" and e: "allocate_tid s = Some s'"
  proof -
    have "stacks s [F_lock_acquire tid_lock, F_next_tid] s'" using e r by (auto simp: allocate_tid_def elim!: stacks_push_upd)
    then show ?thesis by (rule pending_stacks [OF p]) (use f in auto)
  qed
  show "lockinv s'" if f: "f = F_next_tid" and e: "allocate_next_tid s = Some s'"
  proof -
    have "stacks s [F_lock_release tid_lock, F_return (next_tid s)] s'"
      using e r by (auto simp: allocate_next_tid_def tid_range_def Let_def vals_def elim!: stacks_push_upd)
    then show ?thesis by (rule pending_stacks [OF p]) (use f in auto)
  qed
  show "lockinv s'" if f: "f = F_kernel_thread func" and e: "kernel_thread func s = Some s'" "func = Client n"
  proof -
    have "stacks s [F_function func, F_exit] s'"
      using e r by (auto simp: kernel_thread_def intr_enable_def Let_def vals_def elim!: stacks_push_upd)
    then show ?thesis by (rule pending_stacks [OF p]) (use f e in auto)
  qed
  show "lockinv s'" if f: "f = F_cond_broadcast c l" and e: "cond_broadcast c l s = Some s'"
  proof -
    consider "s' = s" | "push_kont [F_cond_signal c l, F_cond_broadcast c l] s = Some s'"
      using e by (auto simp: cond_broadcast_def bind_eq_Some_conv split: if_splits)
    then show ?thesis
    proof cases
      case 1
      then have "stacks s [] s'" by (auto intro: stacks_cong)
      then show ?thesis using pending_maybe [OF p] f by auto
    next
      case 2
      then have "stacks s [F_cond_signal c l, F_cond_broadcast c l] s'" using r by (auto elim!: stacks_push_upd)
      then show ?thesis by (rule pending_stacks [OF p]) (use f in auto)
    qed
  qed
  show "lockinv s'" if f: "f = F_idle_loop" and e: "idle_loop s = Some s'"
  proof -
    obtain s2 where s2: "push_kont [F_sti_hlt, F_idle_loop] (s\<lparr>if_flag := False\<rparr>) = Some s2" "thread_block s2 = Some s'"
      using e by (auto simp: idle_loop_def intr_disable_def bind_eq_Some_conv Let_def)
    have "stacks s [F_sti_hlt, F_idle_loop] s2" using stacks_push_upd [OF s2(1)] r by (simp add: vals_def fun_eq_iff)
    moreover have "running_thread s2 = running_thread s" using s2(1) by (auto simp: push_kont_Some)
    ultimately have "stacks s [F_sti_hlt, F_idle_loop] s'" using stacks_trans [OF _ _ thread_block_stacks [OF s2(2)]] by fastforce
    then show ?thesis by (rule pending_stacks [OF p]) (use f in auto)
  qed
qed

subsection \<open>Frames on semaphores, locks and condition variables\<close>

lemma dying_ok_cong:
  assumes "dying_ok s" "\<And>t. map_option kont (threads s' t) = map_option kont (threads s t)"
    "\<And>t. map_option status (threads s' t) = map_option status (threads s t)"
  shows "dying_ok s'"
  unfolding dying_ok_def
proof (intro allI impI)
  fix t th assume "threads s' t = Some th" "status th = THREAD_DYING"
  then show "kont th = []" using assms(2,3) [of t] assms(1) by (cases "threads s t") (auto simp: dying_ok_def)
qed

lemma vals_set_sema: "vals (set_sema a sm s) = (vals s)(a \<mapsto> sema_value sm)"
  by (auto simp: vals_def set_sema_def fun_eq_iff)

lemma vals_Some: "semas s a = Some sm \<Longrightarrow> vals s a = Some (sema_value sm)"
  by (simp add: vals_def)

text \<open>The value of one semaphore changes together with the top of the stack.\<close>

lemma pending_value:
  assumes p: "pending s f" and v: "vals s a = Some n"
    and t: "\<And>l. l \<in> dom (holders s) \<Longrightarrow> lock_sema l \<notin> wiped s \<Longrightarrow> ktok l fs + of_bool (a = lock_sema l) * (int n' - int n) = ftok l f"
    and pr: "paired (lock_semas (holders s)) (fs @ kont_at s (running_thread s))" and cr: "creating fs = []"
    and s': "dying_ok s'" "kont_at s' = (kont_at s)(running_thread s := fs @ kont_at s (running_thread s))"
      "holders s' = holders s" "wiped s' = wiped s" "vals s' = (vals s)(a \<mapsto> n')" "conds s' = conds s"
  shows "lockinv s'"
proof -
  let ?k = "kont_at s (running_thread s)"
  let ?kf = "(kont_at s)(running_thread s := f # ?k)"
  have "linv (?kf(running_thread s := fs @ ?k)) (holders s) (wiped s) ((vals s)(a \<mapsto> n')) (conds s)"
    by (rule linv_value [OF pendingD(1) [OF p] _ v _ pr, of _ "f # ?k"]) (use t in auto)
  moreover have "creating_ok ((kont_at s)(running_thread s := fs @ ?k))" by (rule pending_creating [OF p]) (use cr in \<open>auto simp: creating_def\<close>)
  ultimately show ?thesis using s' by (simp add: lockinv_def lkinv_def)
qed

lemma sema_down_loop_lock:
  assumes p: "pending s f" and f: "f = F_sema_down a \<or> (\<exists>lv. f = F_sema_loop a lv)" and r: "cur_running s"
    and e: "sema_down_loop a lv s = Some s'"
  shows "lockinv s'"
proof -
  obtain sm where sm: "semas s a = Some sm" using e by (auto simp: sema_down_loop_def bind_eq_Some_conv)
  show ?thesis
  proof (cases "sema_value sm = 0")
    case True
    then obtain s2 where s2: "push_kont [F_sema_loop a lv] (set_sema a (sm\<lparr>waiters := waiters sm @ [running_thread s]\<rparr>) s) = Some s2"
      "thread_block s2 = Some s'"
      using e sm by (auto simp: sema_down_loop_def thread_current_def bind_eq_Some_conv Let_def)
    have "stacks s [F_sema_loop a lv] s2"
      using stacks_push_upd [OF s2(1)] r sm by (auto simp: set_sema_def vals_def fun_eq_iff)
    moreover have "running_thread s2 = running_thread s" using s2(1) by (auto simp: push_kont_Some set_sema_def)
    ultimately have "stacks s [F_sema_loop a lv] s'" using stacks_trans [OF _ _ thread_block_stacks [OF s2(2)]] by fastforce
    then show ?thesis by (rule pending_stacks [OF p]) (use f in auto)
  next
    case False
    then have s': "s' = set_sema a (sm\<lparr>sema_value := sema_value sm - 1\<rparr>) s\<lparr>if_flag := if_flag s'\<rparr>"
      using e sm by (auto simp: sema_down_loop_def intr_set_level_def intr_enable_def intr_disable_def bind_eq_Some_conv Let_def split: if_splits)
    then obtain b where b: "s' = set_sema a (sm\<lparr>sema_value := sema_value sm - 1\<rparr>) s\<lparr>if_flag := b\<rparr>" by blast
    show ?thesis
    proof (rule pending_value [OF p vals_Some [OF sm], of "[]" "sema_value sm - 1"])
      show "dying_ok s'" using pendingD(3) [OF p] by (rule dying_ok_cong) (simp_all add: b set_sema_def)
    qed (use f False pendingD(5) [OF p] in \<open>auto simp: b set_sema_def vals_def kont_at_def fun_eq_iff of_nat_diff\<close>)
  qed
qed

lemma sema_down_lock:
  assumes p: "pending s (F_sema_down a)" and r: "cur_running s" and e: "sema_down a s = Some s'"
  shows "lockinv s'"
proof -
  let ?s = "s\<lparr>if_flag := False\<rparr>"
  have "kont_at ?s = kont_at s" "vals ?s = vals s" by (simp_all add: kont_at_def vals_def fun_eq_iff)
  then have "pending ?s (F_sema_down a)" "cur_running ?s" using p r by (simp_all add: pending_def cur_running_def dying_ok_def)
  moreover have "sema_down_loop a (intr_get_level s) ?s = Some s'" using e by (auto simp: sema_down_def intr_disable_def)
  ultimately show ?thesis using sema_down_loop_lock by blast
qed

lemma sema_up_lock:
  assumes p: "pending s (F_sema_up a)" and r: "cur_running s" and e: "sema_up a s = Some s'"
  shows "lockinv s'"
proof -
  let ?s0 = "s\<lparr>if_flag := False\<rparr>"
  obtain sm q s1 sm1 old s2 where sm: "semas s a = Some sm"
    and q: "(case waiters sm of [] \<Rightarrow> Some (stack_garbage ?s0, ?s0)
       | w # ws \<Rightarrow> do {
           th \<leftarrow> threads ?s0 w;
           (max_elem, pri_max) \<leftarrow> max_waiter ?s0 (w # ws) (w, priority th);
           let s = set_sema a (sm\<lparr>waiters := remove1 max_elem (waiters sm)\<rparr>) ?s0;
           s \<leftarrow> thread_unblock max_elem s;
           Some (pri_max, s) }) = Some (q, s1)"
    and sm1: "semas s1 a = Some sm1"
    and s2: "intr_set_level (intr_get_level s) (set_sema a (sm1\<lparr>sema_value := u32 (sema_value sm1 + 1)\<rparr>) s1) = Some (old, s2)"
    and s': "push_kont [F_sema_up_yield q] s2 = Some s'"
    using e by (rule sema_up_parts)
  have st: "stacks s [] s1 \<and> running_thread s1 = running_thread s \<and> (\<forall>x th'. threads s1 x = Some th' \<longrightarrow> status th' = THREAD_DYING \<longrightarrow> threads s x = Some th')"
  proof (cases "waiters sm")
    case Nil then show ?thesis using q by (auto intro: stacks_cong)
  next
    case (Cons w ws)
    then obtain m where u: "thread_unblock m (set_sema a (sm\<lparr>waiters := remove1 m (waiters sm)\<rparr>) ?s0) = Some s1"
      using q by (auto simp: bind_eq_Some_conv Let_def)
    have "stacks s [] (set_sema a (sm\<lparr>waiters := remove1 m (waiters sm)\<rparr>) ?s0)"
      using sm by (intro stacks_cong) (auto simp: set_sema_def)
    moreover have "threads (set_sema a (sm\<lparr>waiters := remove1 m (waiters sm)\<rparr>) ?s0) = threads s" by (simp add: set_sema_def)
    ultimately show ?thesis using thread_unblock_stacks(2) [OF u] stacks_trans0 by (simp add: set_sema_def)
  qed
  have d: "dying_ok s1" "kont_at s1 = kont_at s" "holders s1 = holders s" "vals s1 = vals s" "conds s1 = conds s" "wiped s1 = wiped s"
    using st pendingD(3) [OF p] by (simp_all add: stacks_def)
  have eq: "sema_value sm1 = sema_value sm" using d(4) sm sm1 by (metis vals_Some option.inject)
  define n where "n = sema_value sm"
  obtain b where b: "s2 = set_sema a (sm1\<lparr>sema_value := u32 (n + 1)\<rparr>) s1\<lparr>if_flag := b\<rparr>"
    using s2 eq by (auto simp: intr_set_level_def intr_enable_def intr_disable_def n_def Let_def split: if_splits)
  obtain th where th: "threads s1 (running_thread s) = Some th"
      "s' = s2\<lparr>threads := (threads s1)(running_thread s \<mapsto> th\<lparr>kont := F_sema_up_yield q # kont th\<rparr>)\<rparr>"
    using s' b st by (auto simp: push_kont_Some set_sema_def)
  have nd: "status th \<noteq> THREAD_DYING" using st th(1) r by (auto simp: cur_running_def)
  have kt: "kont_at s (running_thread s) = kont th" using d(2) kont_at_Some [OF th(1)] by simp
  have tok: "of_bool (a = lock_sema l) * (int (u32 (n + 1)) - int n) = of_bool (a = lock_sema l)" if "l \<in> dom (holders s)" "lock_sema l \<notin> wiped s" for l
  proof (cases "a = lock_sema l")
    case True
    obtain x where "holders s l = Some x" using \<open>l \<in> dom (holders s)\<close> by blast
    then have "n \<le> 1" using linv_mutex(2) [OF pendingD(1) [OF p]] that(2) True vals_Some [OF sm] by (simp add: n_def)
    then show ?thesis by (simp add: u32_def)
  qed simp
  show ?thesis
  proof (rule pending_value [OF p vals_Some [OF sm], of "[F_sema_up_yield q]" "u32 (n + 1)"])
    show "dying_ok s'" using d(1) th nd by (auto simp: dying_ok_def b set_sema_def)
    show "kont_at s' = (kont_at s)(running_thread s := [F_sema_up_yield q] @ kont_at s (running_thread s))"
      unfolding kt using th(2) by (auto simp: kont_at_def fun_eq_iff d(2) [symmetric])
    show "vals s' = (vals s)(a \<mapsto> u32 (n + 1))" using d(4) th(2) by (auto simp: b vals_def set_sema_def fun_eq_iff)
    show "ktok l [F_sema_up_yield q] + of_bool (a = lock_sema l) * (int (u32 (n + 1)) - int (sema_value sm)) = ftok l (F_sema_up a)"
      if "l \<in> dom (holders s)" "lock_sema l \<notin> wiped s" for l using tok [OF that] by (simp add: n_def)
  qed (use pendingD(5) [OF p] d th(2) b in \<open>auto simp: set_sema_def creating_def\<close>)
qed

lemma sema_try_down_Some:
  assumes "sema_try_down a s = Some (b, s')"
  shows "\<exists>sm lv. semas s a = Some sm \<and> b = (sema_value sm > 0) \<and>
    s' = (if b then set_sema a (sm\<lparr>sema_value := sema_value sm - 1\<rparr>) s else s)\<lparr>if_flag := lv\<rparr>"
proof -
  obtain sm where sm: "semas s a = Some sm" using assms by (auto simp: sema_try_down_def intr_disable_def bind_eq_Some_conv)
  have "b = (sema_value sm > 0) \<and> s' = (if b then set_sema a (sm\<lparr>sema_value := sema_value sm - 1\<rparr>) s else s)\<lparr>if_flag := if_flag s'\<rparr>"
    using assms sm by (auto simp: sema_try_down_def intr_disable_def intr_set_level_def intr_enable_def set_sema_def bind_eq_Some_conv Let_def
      split: if_splits)
  then show ?thesis using sm by blast
qed

lemma set_retval_stacks:
  assumes "set_retval v s = Some s'" shows "stacks s [] s'" "running_thread s' = running_thread s"
  using upd_thread_stacks [OF assms [unfolded set_retval_def]] by simp_all

lemma lockinv_stacks:
  assumes "lockinv s" "stacks s [] s'" shows "lockinv s'"
  using assms by (simp add: lockinv_def stacks_def)

lemma plain_lock:
  assumes p: "pending s f" and r: "cur_running s"
  shows "f = F_sema_try_down a \<Longrightarrow> sema_try_down a s = Some (b, s1) \<Longrightarrow> lockinv s1"
    "f = F_sema_init a v \<Longrightarrow> sema_init a v s = Some s1 \<Longrightarrow> lockinv s1"
proof -
  show "lockinv s1" if f: "f = F_sema_try_down a" and e: "sema_try_down a s = Some (b, s1)"
  proof -
    obtain sm lv where sm: "semas s a = Some sm" and s1: "s1 = (if b then set_sema a (sm\<lparr>sema_value := sema_value sm - 1\<rparr>) s else s)\<lparr>if_flag := lv\<rparr>"
      using sema_try_down_Some [OF e] by blast
    have na: "a \<notin> lock_semas (holders s)" using pendingD(4) [OF p] f by simp
    define n' where "n' = (if b then sema_value sm - 1 else sema_value sm)"
    show ?thesis
    proof (rule pending_value [OF p vals_Some [OF sm], of "[]" n'])
      show "dying_ok s1" using pendingD(3) [OF p] by (rule dying_ok_cong) (simp_all add: s1 set_sema_def)
      show "vals s1 = (vals s)(a \<mapsto> n')" using sm by (auto simp: s1 n'_def vals_def set_sema_def fun_eq_iff)
    qed (use f na pendingD(5) [OF p] in \<open>auto simp: s1 set_sema_def kont_at_def fun_eq_iff lock_semas_def\<close>)
  qed
  show "lockinv s1" if f: "f = F_sema_init a v" and e: "sema_init a v s = Some s1"
  proof -
    have s1: "s1 = set_sema a \<lparr>sema_value = v, waiters = []\<rparr> (s\<lparr>wiped := wiped s - {a}\<rparr>)" using e by (simp add: sema_init_def)
    have na: "a \<notin> lock_semas (holders s)" using pendingD(4) [OF p] f by simp
    have "stacks s [] s" by (rule stacks_cong) auto
    then have "lockinv s" using pending_maybe [OF p] f by auto
    then have "lkinv (kont_at s) (holders s) (wiped s - {a}) ((vals s)(a \<mapsto> v)) (conds s)" "dying_ok s"
      using linv_plain [OF _ na] by (simp_all add: lockinv_def lkinv_def)
    moreover have "kont_at s1 = kont_at s" "dying_ok s1 = dying_ok s" "holders s1 = holders s" "conds s1 = conds s" "wiped s1 = wiped s - {a}" "vals s1 = (vals s)(a \<mapsto> v)"
      by (simp_all add: s1 set_sema_def vals_def kont_at_def dying_ok_def fun_eq_iff)
    ultimately show ?thesis unfolding lockinv_def by simp
  qed
qed

subsection \<open>Locks\<close>

lemma lock_acquire_lock:
  assumes p: "pending s f" and r: "cur_running s"
  shows "f = F_lock_acquire l \<Longrightarrow> lock_acquire l s = Some s' \<Longrightarrow> lockinv s'"
    "f = F_lock_acquire_other l t \<Longrightarrow> lock_acquire_other l t s = Some s' \<Longrightarrow> lockinv s'"
proof -
  show "lockinv s'" if f: "f = F_lock_acquire l" and e: "lock_acquire l s = Some s'"
  proof -
    have pk: "push_kont [F_sema_down (lock_sema l), F_set_holder l (running_thread s)] s = Some s'"
      and nn: "running_thread s \<noteq> NULL" and l: "l \<in> dom (holders s)"
      using e by (auto simp: lock_acquire_def lock_held_by_current_thread_def thread_current_def is_thread_def bind_eq_Some_conv Let_def)
    have "stacks s [F_sema_down (lock_sema l), F_set_holder l (running_thread s)] s'" using stacks_push_upd [OF pk] r by simp
    then show ?thesis by (rule pending_stacks [OF p]) (use f nn l in \<open>auto simp: next_sets_def\<close>)
  qed
  show "lockinv s'" if f: "f = F_lock_acquire_other l t" and e: "lock_acquire_other l t s = Some s'"
  proof -
    have pk: "push_kont [F_sema_down (lock_sema l), F_set_holder l t] s = Some s'"
      using e by (auto simp: lock_acquire_other_def)
    have "stacks s [F_sema_down (lock_sema l), F_set_holder l t] s'" using stacks_push_upd [OF pk] r by simp
    then show ?thesis by (rule pending_stacks [OF p]) (use f pendingD(4) [OF p] in \<open>auto simp: next_sets_def\<close>)
  qed
qed

text \<open>The holder of one lock changes together with the top of the stack.\<close>

lemma pending_holder:
  assumes p: "pending s f" and h: "holders s l = Some x"
    and t: "\<And>l'. l' \<in> dom (holders s) \<Longrightarrow> lock_sema l' \<notin> wiped s \<Longrightarrow> ktok l' fs + of_bool (l' = l) * (of_bool (x' \<noteq> NULL) - of_bool (x \<noteq> NULL)) = ftok l' f"
    and pr: "paired (lock_semas (holders s)) (fs @ kont_at s (running_thread s))" and cr: "creating fs = []"
    and s': "stacks (set_holder l x' s) fs s'"
  shows "lockinv s'"
proof -
  let ?k = "kont_at s (running_thread s)"
  let ?kf = "(kont_at s)(running_thread s := f # ?k)"
  have "linv (?kf(running_thread s := fs @ ?k)) ((holders s)(l \<mapsto> x')) (wiped s) (vals s) (conds s)"
    by (rule linv_holder [OF pendingD(1) [OF p] _ h _ pr, of _ "f # ?k"]) (use t in auto)
  moreover have "creating_ok ((kont_at s)(running_thread s := fs @ ?k))" by (rule pending_creating [OF p]) (use cr in \<open>auto simp: creating_def\<close>)
  moreover have "dying_ok (set_holder l x' s)" "kont_at (set_holder l x' s) = kont_at s" "wiped (set_holder l x' s) = wiped s" "vals (set_holder l x' s) = vals s"
    "running_thread (set_holder l x' s) = running_thread s"
    using pendingD(3) [OF p] by (simp_all add: set_holder_def dying_ok_def kont_at_def vals_def fun_eq_iff)
  ultimately show ?thesis using s' by (simp add: lockinv_def lkinv_def stacks_def set_holder_def)
qed

lemma lock_release_lock:
  assumes p: "pending s (F_lock_release l)" and r: "cur_running s" and e: "lock_release l s = Some s'"
  shows "lockinv s'"
proof -
  have pk: "push_kont [F_sema_up (lock_sema l)] (set_holder l NULL s) = Some s'"
    and nn: "running_thread s \<noteq> NULL" and l: "holders s l = Some (running_thread s)"
    using e by (auto simp: lock_release_def lock_held_by_current_thread_def thread_current_def is_thread_def bind_eq_Some_conv Let_def)
  have "cur_running (set_holder l NULL s)" using r by (simp add: cur_running_def set_holder_def)
  then have "stacks (set_holder l NULL s) [F_sema_up (lock_sema l)] s'" using stacks_push_upd [OF pk] by simp
  then show ?thesis by (intro pending_holder [OF p l]) (use nn pendingD(5) [OF p] in \<open>auto simp: creating_def\<close>)
qed

lemma set_holder_lock:
  assumes p: "pending s (F_set_holder l t)"
  shows "lockinv (set_holder l t s)"
proof -
  have t: "t \<noteq> NULL" "l \<in> dom (holders s)" using pendingD(4) [OF p] by simp_all
  obtain x where x: "holders s l = Some x" using t(2) by blast
  have "x = NULL" if "lock_sema l \<notin> wiped s" using linv_mutex(1) [OF pendingD(1) [OF p] x that, of "running_thread s" t] by simp
  moreover have "stacks (set_holder l t s) [] (set_holder l t s)" by (rule stacks_cong) auto
  ultimately show ?thesis by (intro pending_holder [OF p x]) (use t pendingD(5) [OF p] in \<open>auto simp: creating_def\<close>)
qed

lemma lock_try_acquire_lock:
  assumes p: "pending s (F_lock_try_acquire l)" and e: "lock_try_acquire l s = Some (b, s')"
  shows "lockinv s'"
proof -
  obtain s1 where s1: "sema_try_down (lock_sema l) s = Some (b, s1)" and nn: "running_thread s \<noteq> NULL" and l: "l \<in> dom (holders s)"
    and s': "s' = (if b then set_holder l (running_thread s1) s1 else s1)"
    using e by (auto simp: lock_try_acquire_def lock_held_by_current_thread_def thread_current_def is_thread_def bind_eq_Some_conv Let_def domI split: if_splits)
  obtain sm lv where sm: "semas s (lock_sema l) = Some sm" "b = (sema_value sm > 0)"
    and eq: "s1 = (if b then set_sema (lock_sema l) (sm\<lparr>sema_value := sema_value sm - 1\<rparr>) s else s)\<lparr>if_flag := lv\<rparr>"
    using sema_try_down_Some [OF s1] by blast
  show ?thesis
  proof (cases b)
    case False
    then have "stacks s [] s'" using eq s' by (intro stacks_cong) auto
    then show ?thesis using pending_maybe [OF p] by auto
  next
    case True
    let ?k = "kont_at s (running_thread s)"
    let ?kf = "(kont_at s)(running_thread s := F_lock_try_acquire l # ?k)"
    have rt: "running_thread s1 = running_thread s" "holders s1 = holders s" "conds s1 = conds s" "threads s1 = threads s" "wiped s1 = wiped s"
      using eq by (simp_all add: set_sema_def)
    have ka: "kont_at s1 = kont_at s" using rt(4) by (simp add: kont_at_def fun_eq_iff)
    have v1: "vals s1 = (vals s)(lock_sema l \<mapsto> sema_value sm - 1)" using eq True by (auto simp: vals_def set_sema_def fun_eq_iff)
    have "linv (?kf(running_thread s := F_set_holder l (running_thread s) # ?k)) (holders s) (wiped s) ((vals s)(lock_sema l \<mapsto> sema_value sm - 1)) (conds s)"
      by (rule linv_value [OF pendingD(1) [OF p] _ vals_Some [OF sm(1)], of _ "F_lock_try_acquire l # ?k"])
        (use True sm(2) nn l pendingD(5) [OF p] in \<open>auto simp: of_nat_diff\<close>)
    moreover have "creating_ok ((kont_at s)(running_thread s := F_set_holder l (running_thread s) # ?k))" by (rule pending_creating [OF p]) auto
    moreover have "dying_ok s1" using pendingD(3) [OF p] rt(4) by (simp add: dying_ok_def)
    ultimately have "pending s1 (F_set_holder l (running_thread s1))" by (simp add: pending_def lkinv_def rt ka v1)
    then show ?thesis using set_holder_lock s' True by simp
  qed
qed

subsection \<open>Condition variables\<close>

lemma linv_conds:
  assumes "linv kf h W v cs" "\<And>w. w \<in> set ws \<Longrightarrow> w \<notin> lock_semas h"
  shows "linv kf h W v (cs(c \<mapsto> ws))"
  using assms unfolding linv_def by auto

lemma pending_conds:
  assumes "pending s f" "\<And>w. w \<in> set ws \<Longrightarrow> w \<notin> lock_semas (holders s)"
  shows "pending (s\<lparr>conds := (conds s)(c \<mapsto> ws)\<rparr>) f"
proof -
  have "kont_at (s\<lparr>conds := (conds s)(c \<mapsto> ws)\<rparr>) = kont_at s" "vals (s\<lparr>conds := (conds s)(c \<mapsto> ws)\<rparr>) = vals s"
    by (simp_all add: kont_at_def vals_def fun_eq_iff)
  then show ?thesis using assms linv_conds by (simp add: pending_def lkinv_def dying_ok_def)
qed

lemma cond_lock:
  assumes p: "pending s f" and r: "cur_running s"
  shows "f = F_cond_signal c l \<Longrightarrow> cond_signal c l s = Some s' \<Longrightarrow> lockinv s'"
    "f = F_cond_wait c l w \<Longrightarrow> cond_wait c l w s = Some s' \<Longrightarrow> lockinv s'"
proof -
  have nw: "u \<notin> lock_semas (holders s)" if "conds s d = Some us" "u \<in> set us" for d u us
    using linvD(4) [OF pendingD(1) [OF p] that] .
  show "lockinv s'" if f: "f = F_cond_signal c l" and e: "cond_signal c l s = Some s'"
  proof -
    obtain ws where ws: "conds s c = Some ws" "(case ws of [] \<Rightarrow> Some s
      | w # ws \<Rightarrow> push_kont [F_sema_up w] (s\<lparr>conds := (conds s)(c \<mapsto> ws)\<rparr>)) = Some s'"
      using e by (auto simp: cond_signal_def bind_eq_Some_conv)
    show ?thesis
    proof (cases ws)
      case Nil
      then have "stacks s [] s'" using ws(2) by (auto intro: stacks_cong)
      then show ?thesis using pending_maybe [OF p] f by auto
    next
      case (Cons u us)
      let ?s = "s\<lparr>conds := (conds s)(c \<mapsto> us)\<rparr>"
      have pk: "push_kont [F_sema_up u] ?s = Some s'" using ws(2) Cons by simp
      have p1: "pending ?s f" by (rule pending_conds [OF p]) (use nw [OF ws(1)] Cons in auto)
      have "cur_running ?s" using r by (simp add: cur_running_def)
      then have "stacks ?s [F_sema_up u] s'" using stacks_push_upd [OF pk] by simp
      moreover have "u \<notin> lock_semas (holders s)" using nw [OF ws(1)] Cons by simp
      ultimately show ?thesis by (intro pending_stacks [OF p1]) (use f in \<open>auto simp: lock_semas_def\<close>)
    qed
  qed
  show "lockinv s'" if f: "f = F_cond_wait c l w" and e: "cond_wait c l w s = Some s'"
  proof -
    have na: "w \<notin> lock_semas (holders s)" using pendingD(4) [OF p] f by simp
    let ?s = "set_sema w \<lparr>sema_value = 0, waiters = []\<rparr> (s\<lparr>wiped := wiped s - {w}\<rparr>)"
    obtain ws where ws: "conds s c = Some ws"
      and pk: "push_kont [F_lock_release l, F_sema_down w, F_lock_acquire l] (?s\<lparr>conds := (conds ?s)(c \<mapsto> ws @ [w])\<rparr>) = Some s'"
      using e by (auto simp: cond_wait_def sema_init_def set_sema_def bind_eq_Some_conv Let_def)
    have hs: "holders ?s = holders s" "threads ?s = threads s" "kont_at ?s = kont_at s" "running_thread ?s = running_thread s" "conds ?s = conds s"
      "wiped ?s = wiped s - {w}" "vals ?s = (vals s)(w \<mapsto> 0)"
      by (simp_all add: set_sema_def kont_at_def vals_def fun_eq_iff)
    have "pending ?s f" using p linv_plain [OF pendingD(1) [OF p] na] unfolding pending_def hs
      by (simp add: lkinv_def dying_ok_def hs)
    then have p1: "pending (?s\<lparr>conds := (conds ?s)(c \<mapsto> ws @ [w])\<rparr>) f"
      by (rule pending_conds) (use nw [OF ws] na hs in auto)
    have "cur_running (?s\<lparr>conds := (conds ?s)(c \<mapsto> ws @ [w])\<rparr>)" using r by (simp add: cur_running_def hs)
    then have "stacks (?s\<lparr>conds := (conds ?s)(c \<mapsto> ws @ [w])\<rparr>) [F_lock_release l, F_sema_down w, F_lock_acquire l] s'"
      using stacks_push_upd [OF pk] by simp
    then show ?thesis by (rule pending_stacks [OF p1]) (use f na hs in \<open>auto simp: lock_semas_def\<close>)
  qed
qed

subsection \<open>Every frame, every step\<close>

lemma exec_lock:
  assumes p: "pending s f" and r: "cur_running s" and e: "exec f s = Some s'"
    and f: "\<And>nm p func page. f \<noteq> F_create nm p func page" "\<And>l. f \<noteq> F_lock_init l" "\<And>t func. f \<noteq> F_create_tail t func"
      "\<And>a. f \<noteq> F_function (Idle a)" "\<And>a. f \<noteq> F_kernel_thread (Idle a)"
  shows "lockinv s'"
proof (cases f)
  case (F_set_level lv)
  then have "stacks s [] s'"
    using e by (intro stacks_cong) (auto simp: intr_set_level_def intr_enable_def intr_disable_def bind_eq_Some_conv Let_def split: if_splits)
  then show ?thesis using pending_maybe [OF p] F_set_level by auto
next
  case (F_kernel_thread func)
  then show ?thesis using e f push_lock(3) [OF p r] by (cases func) auto
next
  case (F_function func)
  then have "stacks s [] s'" using e f by (cases func) (auto intro: stacks_cong)
  then show ?thesis using pending_maybe [OF p] F_function by auto
next
  case F_sti_hlt
  then have "stacks s [] s'" using e by (intro stacks_cong) (auto simp: idle_sti_hlt_def)
  then show ?thesis using pending_maybe [OF p] F_sti_hlt by auto
next
  case (F_push_all t)
  then have "stacks s [] s'" using e by (intro stacks_cong) (auto simp: init_thread_push_all_def)
  then show ?thesis using pending_maybe [OF p] F_push_all by auto
next
  case (F_return i)
  then have "stacks s [] s'" using e set_retval_stacks by simp
  then show ?thesis using pending_maybe [OF p] F_return by auto
next
  case (F_set_tid t)
  then obtain i where "upd_thread t (\<lambda>th. th\<lparr>tid := i\<rparr>) s = Some s'" using e by (auto elim!: bind_SomeE)
  then have "stacks s [] s'" by (rule upd_thread_stacks) auto
  then show ?thesis using pending_maybe [OF p] F_set_tid by auto
next
  case (F_sema_try_down a)
  then obtain b s1 where "sema_try_down a s = Some (b, s1)" "set_retval (of_bool b) s1 = Some s'" using e by (auto elim!: bind_SomeE)
  then show ?thesis using plain_lock(1) [OF p r F_sema_try_down] set_retval_stacks(1) lockinv_stacks by blast
next
  case (F_lock_try_acquire l)
  then obtain b s1 where "lock_try_acquire l s = Some (b, s1)" "set_retval (of_bool b) s1 = Some s'" using e by (auto elim!: bind_SomeE)
  then show ?thesis using lock_try_acquire_lock p F_lock_try_acquire set_retval_stacks(1) lockinv_stacks by blast
next
  case (F_set_holder l t)
  then show ?thesis using e p set_holder_lock by auto
next
  case (F_sema_loop a lv)
  then show ?thesis using e sema_down_loop_lock [OF p _ r] by auto
qed (use e f p r priority_lock [OF p] sleep_lock [OF p r] exit_lock [OF p r] push_lock [OF p r] plain_lock(2) [OF p r]
    lock_acquire_lock [OF p r] lock_release_lock cond_lock [OF p r] sema_down_lock sema_up_lock in auto)

lemma pending_call:
  assumes l: "lockinv s" and k: "cur_kont s = F_function (Client n) # k" and f: "may_call s f" "\<And>l. f \<noteq> F_lock_init l"
    "\<And>nm p func page. f \<noteq> F_create nm p func page"
  shows "pending s f"
proof -
  have ka: "kont_at s (running_thread s) = F_function (Client n) # k" using k by (simp add: kont_at_def cur_kont_def split: option.splits)
  have l: "linv (kont_at s) (holders s) (wiped s) (vals s) (conds s)" "creating_ok (kont_at s)" "dying_ok s"
    using l by (simp_all add: lockinv_def lkinv_def)
  have pl: "plain_sema s a \<longleftrightarrow> a \<notin> lock_semas (holders s)" for a by (auto simp: plain_sema_def lock_semas_def)
  have t: "ftok l f = 0" if "l \<in> dom (holders s)" for l using f that by (cases f) (auto simp: plain_sema_def)
  have o: "frame_ok (lock_semas (holders s)) f (kont_at s (running_thread s))" using f by (cases f) (auto simp: pl)
  have c: "creating (f # kont_at s (running_thread s)) = creating (kont_at s (running_thread s))" using f by (cases f) auto
  have "linv ((kont_at s)(running_thread s := f # kont_at s (running_thread s))) (holders s) (wiped s) (vals s) (conds s)"
    by (rule linv_replace [OF l(1)]) (use t o linvD(3) [OF l(1)] in auto)
  moreover have "creating_ok ((kont_at s)(running_thread s := f # kont_at s (running_thread s)))"
    by (rule creating_ok_replace [OF l(2)]) (use c ka in auto)
  ultimately show ?thesis using l(3) by (simp add: pending_def lkinv_def)
qed

lemma unused_free: "free_lock s l \<Longrightarrow> unused (kont_at s) (conds s) l"
proof -
  assume f: "free_lock s l"
  have "\<exists>th. threads s t = Some th \<and> g \<in> set (kont th)" if "g \<in> set (kont_at s t)" for t g
    using that by (cases "threads s t") (auto simp: kont_at_def)
  then show ?thesis using f unfolding free_lock_def unused_def by blast
qed

lemma linv_new_locks:
  assumes "linv kf (holders s) (wiped s) (vals s) (conds s)" "\<And>l. l \<in> set ls \<Longrightarrow> unused kf (conds s) l"
  shows "linv kf (holders (fold new_lock ls s)) (wiped (fold new_lock ls s)) (vals (fold new_lock ls s)) (conds s)"
  using assms
proof (induction ls arbitrary: s)
  case (Cons l ls)
  have "vals (new_lock l s) = (vals s)(lock_sema l \<mapsto> 1)" "wiped (new_lock l s) = wiped s - {lock_sema l}" by (auto simp: vals_def new_lock_def fun_eq_iff)
  moreover have cs: "conds (new_lock l s) = conds s" "holders (new_lock l s) = (holders s)(l \<mapsto> NULL)" by (simp_all add: new_lock_def)
  ultimately have "linv kf (holders (new_lock l s)) (wiped (new_lock l s)) (vals (new_lock l s)) (conds s)"
    using linv_new_lock [OF Cons.prems(1), of l] Cons.prems(2) by simp
  then show ?case using Cons.IH [of "new_lock l s"] Cons.prems(2) cs(1) by simp
qed simp

lemma dom_new_locks: "dom (holders (fold new_lock ls s)) = set ls \<union> dom (holders s)"
  by (induction ls arbitrary: s) (auto simp: new_lock_def)

lemma lock_init_lock:
  assumes "lockinv s" "free_lock s l" "lock_init l s = Some s'"
  shows "lockinv s'"
proof -
  have s': "s' = new_lock l s" using assms(3) by (auto simp: lock_init_def sema_init_def set_sema_def set_holder_def new_lock_def)
  have "linv (kont_at s) (holders s') (wiped s') (vals s') (conds s)"
    using linv_new_locks [of "kont_at s" s "[l]"] assms(1) unused_free [OF assms(2)] by (simp add: s' lockinv_def lkinv_def)
  then show ?thesis using assms(1) by (simp add: lockinv_def lkinv_def s' new_lock_def kont_at_def [abs_def] dying_ok_def)
qed

lemma thread_create_lock:
  assumes l: "lockinv s" and k: "cur_kont s = F_function (Client n) # k" and r: "cur_running s" and x: "\<not> in_external_intr s"
    and fr: "threads s page = None" "\<And>l. l \<in> set (thread_locks page) \<Longrightarrow> free_lock s l"
    and e: "thread_create nm p (Client m) page s = Some s'"
  shows "lockinv s'"
proof (cases "page = NULL")
  case True
  then show ?thesis using e l set_retval_stacks(1) lockinv_stacks by (auto simp: thread_create_def)
next
  case False
  obtain c where c: "threads s (running_thread s) = Some c" "status c = THREAD_RUNNING" using r by (auto simp: cur_running_def)
  have kc: "kont c = F_function (Client n) # k" using k c by (simp add: cur_kont_def)
  have pc: "page \<noteq> running_thread s" using fr(1) c by auto
  let ?fs = "[F_allocate_tid, F_create_tail page (Client m)]"
  let ?s1 = "s\<lparr>threads := (threads s)(running_thread s \<mapsto> c\<lparr>kont := ?fs @ kont c\<rparr>)\<rparr>"
  have it: "init_thread page nm p ?s1 = Some s'" using e False c by (simp add: thread_create_def push_kont_def upd_thread_def)
  obtain nc rc where pk: "push_kont (init_frames page)
      (fold new_lock (thread_locks page) (?s1\<lparr>threads := (threads ?s1)(page \<mapsto> new_thread page nm p (ticks s) nc rc)\<rparr>)) = Some s'"
    using init_thread_Some [OF it] x by auto
  let ?th = "new_thread page nm p (ticks s) nc rc"
  let ?k = "init_frames page @ ?fs @ kont c"
  define s2 where "s2 = ?s1\<lparr>threads := (threads ?s1)(page \<mapsto> ?th)\<rparr>"
  define s3 where "s3 = fold new_lock (thread_locks page) s2"
  have th: "kont ?th = []" "status ?th = THREAD_BLOCKED" by (simp_all add: new_thread_def)
  have s': "s' = s3\<lparr>threads := (threads s2)(running_thread s \<mapsto> c\<lparr>kont := ?k\<rparr>)\<rparr>"
    using pk pc unfolding s2_def [symmetric] s3_def [symmetric] by (auto simp: push_kont_Some s3_def fold_new_lock) (auto simp: s2_def)
  have ka: "kont_at s' = (kont_at s)(running_thread s := ?k)"
    using th(1) fr(1) c(1) pc by (auto simp: s' s2_def kont_at_def fun_eq_iff)
  have L: "linv (kont_at s) (holders s) (wiped s) (vals s) (conds s)" "creating_ok (kont_at s)" "dying_ok s" using l by (simp_all add: lockinv_def lkinv_def)
  have "holders s = holders s2" "wiped s = wiped s2" "vals s = vals s2" "conds s = conds s2" by (simp_all add: s2_def vals_def fun_eq_iff)
  then have n: "linv (kont_at s) (holders s3) (wiped s3) (vals s3) (conds s)"
    using linv_new_locks [of "kont_at s" s2 "thread_locks page"] L(1) unused_free [OF fr(2)] by (simp add: s3_def)
  have d: "set (thread_locks page) \<subseteq> dom (holders s3)" by (simp add: s3_def dom_new_locks)
  have kas: "kont_at s (running_thread s) = kont c" using c by simp
  have "linv ((kont_at s)(running_thread s := ?k)) (holders s3) (wiped s3) (vals s3) (conds s)"
  proof (rule linv_replace [OF n kas])
    show "paired (lock_semas (holders s3)) ?k"
      using linvD(3) [OF n, of "running_thread s"] kas d False by (simp add: init_frames_def thread_locks_def)
  qed (simp add: init_frames_def)
  moreover have "holders s' = holders s3" "wiped s' = wiped s3" "vals s' = vals s3" "conds s' = conds s"
    by (simp_all add: s' vals_def fun_eq_iff s3_def fold_new_lock) (simp add: s2_def)
  moreover have "creating_ok ((kont_at s)(running_thread s := ?k))"
  proof -
    have kp: "kont_at s page = []" using fr(1) by (simp add: kont_at_def)
    have nc: "running_thread s \<notin> set (creating (kont_at s b))" for b
    proof -
      have "kont_at s (running_thread s) \<noteq> []" using kc kas by simp
      then show ?thesis using L(2) unfolding creating_ok_def by blast
    qed
    have ck: "t \<in> set (creating ?k) \<Longrightarrow> t = page \<or> t \<in> set (creating (kont_at s (running_thread s)))" for t
      using kas by (auto simp: init_frames_def)
    have em: "kont_at s t = [] \<and> t \<noteq> running_thread s" if "t \<in> set (creating (kont_at s b))" for b t
      using L(2) nc that unfolding creating_ok_def by blast
    show ?thesis unfolding creating_ok_def
    proof (intro allI impI)
      fix b t assume "t \<in> set (creating (((kont_at s)(running_thread s := ?k)) b))"
      then have "t = page \<or> (\<exists>b. t \<in> set (creating (kont_at s b)))" using ck by (cases "b = running_thread s") auto
      then have "kont_at s t = [] \<and> t \<noteq> running_thread s" using em kp pc by blast
      then show "((kont_at s)(running_thread s := ?k)) t = []" by simp
    qed
  qed
  moreover have "dying_ok s'" using L(3) c th by (auto simp: dying_ok_def s' s2_def)
  ultimately show ?thesis by (simp add: lockinv_def lkinv_def ka)
qed


lemma create_tail_eq:
  assumes "thread_create_tail t func s = Some s'" "running_thread s = r" "threads s r = Some c" "t \<noteq> r"
  shows "\<exists>b th th' c'. threads s t = Some th \<and> thread_unblock t (s\<lparr>if_flag := b, threads := (threads s)(t \<mapsto> th', r \<mapsto> c')\<rparr>) = Some s' \<and>
    kont th' = [F_kernel_thread func] \<and> status th' = status th \<and> kont c' = kont c \<and> status c' = status c"
proof -
  obtain th where th: "threads s t = Some th" using assms by (auto simp: thread_create_tail_def upd_thread_Some bind_eq_Some_conv Let_def)
  define i where "i = retval c"
  define th' where "th' = th\<lparr>tid := i, stack := stack th - 12 - 4 - 28, kont := [F_kernel_thread func]\<rparr>"
  have "\<exists>b. thread_unblock t (s\<lparr>if_flag := b, threads := (threads s)(t \<mapsto> th', r \<mapsto> c\<lparr>retval := i\<rparr>)\<rparr>) = Some s'"
    using assms th by (auto simp: thread_create_tail_def upd_thread_def intr_disable_def alloc_frame_def is_thread_def
      intr_set_level_def intr_enable_def set_retval_def i_def th'_def Let_def bind_eq_Some_conv split: if_splits)
  then obtain b where "thread_unblock t (s\<lparr>if_flag := b, threads := (threads s)(t \<mapsto> th', r \<mapsto> c\<lparr>retval := i\<rparr>)\<rparr>) = Some s'" by blast
  then show ?thesis using th by (intro exI [of _ b] exI [of _ th] exI [of _ th'] exI [of _ "c\<lparr>retval := i\<rparr>"]) (simp add: th'_def)
qed

lemma lockinv_maybe:
  assumes l: "lockinv s" and nc: "\<And>b. running_thread s \<notin> set (creating (kont_at s b))" and st: "\<exists>fs. stacks s fs s' \<and> maybe_yield fs"
  shows "lockinv s'"
proof -
  obtain fs where fs: "stacks s fs s'" "maybe_yield fs" using st by blast
  have L: "linv (kont_at s) (holders s) (wiped s) (vals s) (conds s)" "creating_ok (kont_at s)" "dying_ok s" using l by (simp_all add: lockinv_def lkinv_def)
  have "linv ((kont_at s)(running_thread s := fs @ kont_at s (running_thread s))) (holders s) (wiped s) (vals s) (conds s)"
    by (rule linv_replace [OF L(1)]) (use fs(2) linvD(3) [OF L(1)] in auto)
  moreover have "creating_ok ((kont_at s)(running_thread s := fs @ kont_at s (running_thread s)))"
    by (rule creating_ok_replace [OF L(2)]) (use fs(2) nc in auto)
  ultimately show ?thesis using fs(1) L(3) by (simp add: lockinv_def lkinv_def stacks_def)
qed

lemma create_tail_lock:
  assumes k: "kinv s" and l: "lockinv s" and kt: "cur_kont s = F_create_tail t (Client n) # k" and p: "set_kont k s = Some s1"
    and e: "thread_create_tail t (Client n) s1 = Some s'"
  shows "lockinv s'"
proof -
  obtain c where c: "threads s (running_thread s) = Some c" "kont c = F_create_tail t (Client n) # k" "status c = THREAD_RUNNING"
    "s1 = s\<lparr>threads := (threads s)(running_thread s \<mapsto> c\<lparr>kont := k\<rparr>)\<rparr>"
    using kt p kinv_cur [OF k] by (auto simp: set_kont_Some cur_kont_def)
  have co: "core (view s) (occ s) (Some (running_thread s)) (idle_thread s)" using k by (simp add: kinv_def kcore_def)
  have mo: "t \<in> set (occ s (At_create (running_thread s)))" using c by simp
  have oc1: "occ s1 = (occ s)(At_create (running_thread s) := remove1 t (occ s (At_create (running_thread s))))" using c by simp
  have np: "t \<notin> set (occ s1 pl)" for pl using core_unpark(2) [OF co mo] oc1 by simp
  have nt: "t \<notin> set (creating (kont_at s1 b))" for b
    using np [of "At_create b"] by (cases "threads s1 b") (auto simp: kont_at_def)
  have L: "linv (kont_at s) (holders s) (wiped s) (vals s) (conds s)" "creating_ok (kont_at s)" "dying_ok s" using l by (simp_all add: lockinv_def lkinv_def)
  have kc: "kont_at s (running_thread s) = F_create_tail t (Client n) # k" using c by simp
  have "t \<in> set (creating (kont_at s (running_thread s)))" unfolding kc by simp
  then have kt0: "kont_at s t = []" using L(2) unfolding creating_ok_def by blast
  then have tc: "t \<noteq> running_thread s" using kc by auto
  have k1: "kont_at s1 = (kont_at s)(running_thread s := k)" using c by (auto simp: kont_at_def fun_eq_iff)
  have l1: "linv (kont_at s1) (holders s) (wiped s) (vals s) (conds s)" unfolding k1
    by (rule linv_replace [OF L(1) kc]) (use linvD(3) [OF L(1), of "running_thread s"] kc in auto)
  have "linv ((kont_at s1)(t := [F_kernel_thread (Client n)])) (holders s) (wiped s) (vals s) (conds s)"
    by (rule linv_replace [OF l1, of _ "[]"]) (use kt0 tc k1 in auto)
  moreover have "creating_ok ((kont_at s1)(t := [F_kernel_thread (Client n)]))"
  proof -
    have "creating_ok (kont_at s1)" unfolding k1 by (rule creating_ok_replace [OF L(2) kc]) auto
    then show ?thesis by (rule creating_ok_replace [of _ _ "[]"]) (use kt0 tc k1 nt in auto)
  qed
  moreover obtain b th' c' where s2: "thread_unblock t (s1\<lparr>if_flag := b, threads := (threads s1)(t \<mapsto> th', running_thread s \<mapsto> c')\<rparr>) = Some s'"
      and u: "kont th' = [F_kernel_thread (Client n)]" "status th' = THREAD_BLOCKED" "kont c' = k" "status c' = THREAD_RUNNING"
    using create_tail_eq [OF e, of "running_thread s" "c\<lparr>kont := k\<rparr>"] core_place_ex [OF co mo] c tc by (auto simp: tview_def dest!: view_SomeD)
  define s2 where "s2 = s1\<lparr>if_flag := b, threads := (threads s1)(t \<mapsto> th', running_thread s \<mapsto> c')\<rparr>"
  have "kont_at s2 = (kont_at s1)(t := [F_kernel_thread (Client n)])" "holders s2 = holders s" "wiped s2 = wiped s" "vals s2 = vals s" "conds s2 = conds s"
    "dying_ok s2" "running_thread s2 = running_thread s"
    using u c tc L(3) by (auto simp: s2_def kont_at_def vals_def fun_eq_iff dying_ok_def)
  ultimately have l2: "lockinv s2" and r2: "running_thread s2 = running_thread s" and k2: "kont_at s2 = (kont_at s1)(t := [F_kernel_thread (Client n)])"
    by (simp_all add: lockinv_def lkinv_def)
  have "running_thread s \<notin> set (creating (kont_at s b))" for b
    using core_cur_free [OF co, of "At_create b"] by (cases "threads s b") (auto simp: kont_at_def)
  note nc = this
  have "running_thread s \<notin> set (creating (kont_at s2 b))" for b
    using kc nc [of b] nc [of "running_thread s"] by (cases "b = running_thread s"; cases "b = t") (auto simp: k2 k1)
  then show ?thesis using lockinv_maybe [OF l2] thread_unblock_stacks(1) [OF s2 [folded s2_def]] r2 by metis
qed


lemma timer_irq_lock:
  assumes k: "kinv s" and l: "lockinv s" and e: "timer_irq s = Some s'"
  shows "lockinv s'"
proof -
  obtain s1 s3 where s1: "push_kont [F_set_level INTR_ON] (s\<lparr>if_flag := False\<rparr>) = Some s1"
    and s3: "timer_interrupt (s1\<lparr>in_external_intr := True, yield_on_return := False\<rparr>) = Some s3"
    and s': "(if yield_on_return s3 then thread_yield (s3\<lparr>in_external_intr := False\<rparr>) else Some (s3\<lparr>in_external_intr := False\<rparr>)) = Some s'"
    using timer_irq_Some [OF e] by blast
  have r: "cur_running s" using kinv_cur [OF k] by (simp add: cur_running_def)
  have st1: "stacks s [F_set_level INTR_ON] s1" using stacks_push_upd [OF s1] r by (simp add: vals_def fun_eq_iff)
  have "kinv s1" by (rule kinv_push_kont [OF _ s1]) (use k in auto)
  moreover have "\<not> if_flag s1" using s1 by (auto simp: push_kont_Some)
  ultimately have ki: "kin (s1\<lparr>in_external_intr := True, yield_on_return := False\<rparr>)" by (rule kin_enter)
  note ti = timer_interrupt_kin [OF ki s3]
  have d: "threads s3 t = Some th \<Longrightarrow> status th = THREAD_DYING \<Longrightarrow> \<exists>th'. threads s1 t = Some th' \<and> status th' = THREAD_DYING \<and> kont th = kont th'" for t th
  proof -
    assume a: "threads s3 t = Some th" "status th = THREAD_DYING"
    have "map_option status (threads s3 t) = (if t \<in> due (ticks s3) (list_alarm s1) then Some THREAD_READY else map_option status (threads s1 t))"
      "map_option kont (threads s3 t) = map_option kont (threads s1 t)" using ti by auto
    then show ?thesis using a by (cases "threads s1 t") (auto split: if_splits)
  qed
  have "stacks s1 [] (s3\<lparr>in_external_intr := False\<rparr>)"
  proof -
    have "kont_at s3 t = kont_at s1 t" for t
    proof -
      have "map_option kont (threads s3 t) = map_option kont (threads s1 t)" using ti by auto
      then show ?thesis by (auto simp: kont_at_def split: option.splits)
    qed
    moreover have "holders s3 = holders s1" "wiped s3 = wiped s1" "vals s3 = vals s1" "conds s3 = conds s1" using ti by (auto simp: vals_def fun_eq_iff)
    moreover have "dying_ok s3" if "dying_ok s1" using d that unfolding dying_ok_def by metis
    ultimately show ?thesis by (simp add: stacks_def kont_at_def [abs_def] vals_def [abs_def] dying_ok_def fun_eq_iff)
  qed
  moreover have r1: "running_thread s1 = running_thread s" using s1 by (auto simp: push_kont_Some)
  moreover have r3: "running_thread s3 = running_thread s1" using ti by auto
  ultimately have st3: "stacks s [F_set_level INTR_ON] (s3\<lparr>in_external_intr := False\<rparr>)" using stacks_trans [OF st1] by fastforce
  have "\<exists>fs. stacks s fs s' \<and> maybe_yield fs"
  proof (cases "yield_on_return s3")
    case True
    then have "thread_yield (s3\<lparr>in_external_intr := False\<rparr>) = Some s'" using s' by simp
    from stacks_trans [OF st3 _ thread_yield_stacks [OF this]] r1 r3
    have "stacks s ([F_set_level (intr_get_level (s3\<lparr>in_external_intr := False\<rparr>))] @ [F_set_level INTR_ON]) s'" by simp
    then show ?thesis using maybe_yieldI by blast
  next
    case False then show ?thesis using s' st3 by auto
  qed
  moreover have "running_thread s \<notin> set (creating (kont_at s b))" for b
    using core_cur_free [of "view s" "occ s" "running_thread s" "idle_thread s" "At_create b"] k
    by (cases "threads s b") (auto simp: kont_at_def kinv_def kcore_def)
  ultimately show ?thesis using lockinv_maybe [OF l] by blast
qed

lemma pop_pending:
  assumes l: "lockinv s" and kt: "cur_kont s = f # k" and p: "set_kont k s = Some s1"
    and r: "cur_running s"
  shows "pending s1 f" "cur_running s1"
proof -
  obtain c where c: "threads s (running_thread s) = Some c" "kont c = f # k" "status c = THREAD_RUNNING"
    "s1 = s\<lparr>threads := (threads s)(running_thread s \<mapsto> c\<lparr>kont := k\<rparr>)\<rparr>"
    using kt p r by (auto simp: set_kont_Some cur_kont_def cur_running_def)
  have "(kont_at s1)(running_thread s1 := f # kont_at s1 (running_thread s1)) = kont_at s" using c by (auto simp: kont_at_def fun_eq_iff)
  moreover have "holders s1 = holders s" "wiped s1 = wiped s" "vals s1 = vals s" "conds s1 = conds s" "dying_ok s \<Longrightarrow> dying_ok s1"
    using c by (auto simp: vals_def fun_eq_iff dying_ok_def)
  ultimately show "pending s1 f" using l by (simp add: pending_def lockinv_def)
  show "cur_running s1" using c by (simp add: cur_running_def)
qed

lemma kstep_lockinv:
  assumes k: "kinv s" and l: "lockinv s" and st: "kstep s s'"
  shows "lockinv s'"
  using st
proof (cases rule: kstep.cases)
  case run
  then obtain f fs s1 where kt: "cur_kont s = f # fs" and s1: "set_kont fs s = Some s1" "exec f s1 = Some s'"
    by (auto simp: run_frame_def split: list.splits elim!: bind_SomeE)
  have r: "cur_running s" using kinv_cur [OF k] by (simp add: cur_running_def)
  note pp = pop_pending [OF l kt s1(1) r]
  obtain c where c: "threads s (running_thread s) = Some c" "kont c = f # fs"
    using kinv_cur [OF k] kt by (auto simp: cur_kont_def)
  have "if running_thread s = idle_thread s then name c = ''idle'' \<and> idle_kont (kont c) else list_all client_frame (kont c)"
    using k c(1) unfolding kinv_def kont_inv_def by blast
  then have cf: "f = F_idle_loop \<or> idle_frame f \<or> client_frame f" using c(2) by (auto simp: idle_kont_def Cons_eq_append_conv split: if_splits)
  have nl: "f \<noteq> F_lock_init l" for l using pendingD(4) [OF pp(1)] by auto
  show ?thesis
  proof (cases "\<exists>t func. f = F_create_tail t func")
    case True
    then obtain t func where f: "f = F_create_tail t func" by blast
    then obtain n where "func = Client n" using cf by (cases func) auto
    then show ?thesis using create_tail_lock [OF k l _ s1(1)] kt s1(2) f by simp
  next
    case False
    show ?thesis by (rule exec_lock [OF pp s1(2)]) (use False cf nl in auto)
  qed
next
  case (call n fs f)
  have r: "cur_running s" using kinv_cur [OF k] by (simp add: cur_running_def)
  have x: "\<not> in_external_intr s" using k by (simp add: kinv_def)
  consider (a) nm p func page where "f = F_create nm p func page" | (b) l where "f = F_lock_init l"
    | (c) "\<And>nm p func page. f \<noteq> F_create nm p func page" "\<And>l. f \<noteq> F_lock_init l" by blast
  then show ?thesis
  proof cases
    case a
    then obtain m where f: "f = F_create nm p (Client m) page" "threads s page = None" "\<And>l. l \<in> set (thread_locks page) \<Longrightarrow> free_lock s l"
      using call(2) by (cases func) auto
    then show ?thesis using thread_create_lock [OF l call(1) r x f(2,3)] call(3) by simp
  next
    case b then show ?thesis using lock_init_lock [OF l] call(2,3) by simp
  next
    case c
    show ?thesis by (rule exec_lock [OF pending_call [OF l call(1,2) c(2,1)] r call(3)]) (use c call(2) in auto)
  qed
next
  case tick
  then show ?thesis using timer_irq_lock [OF k l] by simp
next
  case (garbage g)
  then have "stacks s [] s'" by (intro stacks_cong) auto
  then show ?thesis using lockinv_stacks [OF l] by simp
qed

end
