(* ===== verification/Kernel_Props.thy ===== *)
theory Kernel_Props
  imports Lock_Inv
begin

text \<open>
  What the thread system promises: the scheduler's data stay consistent on every reachable state, locks exclude
  each other's owners, a yield switches to the first thread of the highest level, \<open>sema_up\<close> wakes the first waiter of the
  highest priority, the timer wakes the sleepers that are due, and the BSD scheduler's arithmetic stays in range.
\<close>

subsection \<open>A running system\<close>

text \<open>A state after start-up for the examples below: the main thread runs a client function, a worker of higher priority
  is ready, the idle thread is blocked, two threads wait for the semaphore at address 600, two threads sleep, and there is a
  free lock at address 512.\<close>

definition demo_thread :: "int \<Rightarrow> thread_status \<Rightarrow> string \<Rightarrow> nat \<Rightarrow> int \<Rightarrow> frame list \<Rightarrow> thread" where
  "demo_thread i st nm stk pri k = \<lparr>tid = i, status = st, name = nm, stack = stk, priority = pri, pagedir = NULL,
     magic = THREAD_MAGIC, exit_status = 0, exit_soon = False, files_table = [], fd = 1, file_cur = NULL, recent_unused = 0,
     nice = 0, recent_cpu = 0, kont = k, retval = 0\<rparr>"

definition demo_kstate :: kstate where
  "demo_kstate = \<lparr>threads = [4096 \<mapsto> demo_thread 1 THREAD_RUNNING ''main'' 8192 31 [F_function (Client 0), F_exit],
       8192 \<mapsto> demo_thread 2 THREAD_BLOCKED ''idle'' 12288 0 [F_sti_hlt, F_idle_loop, F_exit],
       12288 \<mapsto> demo_thread 3 THREAD_READY ''worker'' 16340 40 [F_kernel_thread (Client 1)],
       16384 \<mapsto> demo_thread 4 THREAD_BLOCKED ''low'' 20436 20 [F_sema_loop 600 INTR_ON, F_exit],
       20480 \<mapsto> demo_thread 5 THREAD_BLOCKED ''high'' 24532 50 [F_sema_loop 600 INTR_ON, F_exit],
       24576 \<mapsto> demo_thread 6 THREAD_BLOCKED ''nap'' 28628 10 [F_set_level INTR_ON, F_exit],
       28672 \<mapsto> demo_thread 7 THREAD_BLOCKED ''sleep'' 32724 10 [F_set_level INTR_ON, F_exit]],
     ready_list = (\<lambda>_. [])(40 := [12288]), all_list = [4096, 8192, 12288, 16384, 20480, 24576, 28672], idle_thread = 8192, initial_thread = 4096,
     running_thread = 4096, if_flag = True, in_external_intr = False, yield_on_return = False, idle_ticks = 0,
     kernel_ticks = 0, user_ticks = 0, thread_ticks = 0, thread_prior_aging = False, thread_mlfqs = False,
     userprog = False, load_avg = 0, next_tid = 8, max_tid = 7,
     semas = [516 \<mapsto> \<lparr>sema_value = 1, waiters = []\<rparr>, 600 \<mapsto> \<lparr>sema_value = 0, waiters = [16384, 20480]\<rparr>], holders = [512 \<mapsto> NULL],
     conds = Map.empty, wiped = {}, ticks = 7, list_alarm = [(20, 28672), (8, 24576)], stack_garbage = 0, unexpected_cnt = (\<lambda>_. 0), events = []\<rparr>"

lemmas demo_defs = demo_kstate_def demo_thread_def

lemma demo_kinv: "kinv demo_kstate"
proof -
  have v: "view demo_kstate = [4096 \<mapsto> (THREAD_RUNNING, 31, THREAD_MAGIC), 8192 \<mapsto> (THREAD_BLOCKED, 0, THREAD_MAGIC),
      12288 \<mapsto> (THREAD_READY, 40, THREAD_MAGIC), 16384 \<mapsto> (THREAD_BLOCKED, 20, THREAD_MAGIC), 20480 \<mapsto> (THREAD_BLOCKED, 50, THREAD_MAGIC),
      24576 \<mapsto> (THREAD_BLOCKED, 10, THREAD_MAGIC), 28672 \<mapsto> (THREAD_BLOCKED, 10, THREAD_MAGIC)]"
    by (auto simp: demo_defs view_def fun_eq_iff)
  have o: "occ demo_kstate = (\<lambda>pl. if pl = At_ready 40 then [12288] else if pl = At_sema 600 then [16384, 20480] else if pl = At_alarm then [28672, 24576] else [])"
  proof
    fix pl show "occ demo_kstate pl = (if pl = At_ready 40 then [12288] else if pl = At_sema 600 then [16384, 20480] else if pl = At_alarm then [28672, 24576] else [])" by (cases pl) (auto simp: demo_defs creating_def)
  qed
  have "core (view demo_kstate) (occ demo_kstate) (Some 4096) 8192"
    unfolding v o by (rule coreI) (auto simp: pri_consts split: if_splits)
  moreover have "kont_inv demo_kstate"
    by (auto simp: kont_inv_def demo_defs idle_kont_def split: if_splits)
  ultimately show ?thesis by (simp add: kinv_def kcore_def demo_defs)
qed

lemma demo_lockinv: "lockinv demo_kstate"
proof -
  have k: "kont_at demo_kstate = (\<lambda>_. [])(4096 := [F_function (Client 0), F_exit], 8192 := [F_sti_hlt, F_idle_loop, F_exit],
      12288 := [F_kernel_thread (Client 1)], 16384 := [F_sema_loop 600 INTR_ON, F_exit], 20480 := [F_sema_loop 600 INTR_ON, F_exit],
      24576 := [F_set_level INTR_ON, F_exit], 28672 := [F_set_level INTR_ON, F_exit])"
    by (auto simp: kont_at_def demo_defs fun_eq_iff)
  have t: "{t. kont_at demo_kstate t \<noteq> []} = {4096, 8192, 12288, 16384, 20480, 24576, 28672}" by (auto simp: k)
  have "ktoks (kont_at demo_kstate) 512 = 0" unfolding ktoks_def t by (simp add: k lock_sema_def)
  moreover have "paired {516} (kont_at demo_kstate t)" for t by (simp add: k)
  moreover have "holders demo_kstate = [512 \<mapsto> NULL]" "vals demo_kstate = [516 \<mapsto> 1, 600 \<mapsto> 0]" "conds demo_kstate = Map.empty"
    by (auto simp: demo_defs vals_def fun_eq_iff)
  ultimately have "linv (kont_at demo_kstate) (holders demo_kstate) (wiped demo_kstate) (vals demo_kstate) (conds demo_kstate)"
    unfolding linv_def t by (auto simp: lock_sema_def lock_semas_def split: if_splits)
  moreover have "creating_ok (kont_at demo_kstate)" unfolding creating_ok_def k by auto
  moreover have "dying_ok demo_kstate" by (auto simp: dying_ok_def demo_defs split: if_splits)
  ultimately show ?thesis by (simp add: lockinv_def lkinv_def)
qed

subsection \<open>Reachable states\<close>

lemma reach_inv:
  assumes "kstep\<^sup>*\<^sup>* s s'" "kinv s" "lockinv s"
  shows "kinv s' \<and> lockinv s'"
  using assms by (induction rule: rtranclp_induct) (auto intro: kstep_kinv kstep_lockinv)

lemma reach_kinv: "kstep\<^sup>*\<^sup>* s s' \<Longrightarrow> kinv s \<Longrightarrow> kinv s'"
  by (induction rule: rtranclp_induct) (auto intro: kstep_kinv)

text \<open>C2: from a state that satisfies the kernel invariant no sequence of kernel steps (frames of threads, calls by clients,
  timer interrupts) breaks the scheduler's data: exactly one thread has status running, and it is the one on the CPU; a thread
  sits in the ready list of level \<open>i\<close> exactly when it is ready with priority \<open>i\<close> (the idle thread excepted), at most once; a
  waiter of a semaphore or of the alarm list is blocked and in no ready list; every thread has its magic number and a
  priority from PRI_MIN to PRI_MAX.\<close>
theorem scheduler_invariant:
  assumes "kinv s" "kstep\<^sup>*\<^sup>* s s'"
  shows "(\<forall>t. t = running_thread s' \<longleftrightarrow> (\<exists>th. threads s' t = Some th \<and> status th = THREAD_RUNNING)) \<and>
    (\<forall>t i. t \<noteq> idle_thread s' \<longrightarrow> (t \<in> set (ready_list s' i) \<longleftrightarrow> (\<exists>th. threads s' t = Some th \<and> status th = THREAD_READY \<and> priority th = i))) \<and>
    (\<forall>i. distinct (ready_list s' i)) \<and>
    (\<forall>a sm t. semas s' a = Some sm \<longrightarrow> t \<in> set (waiters sm) \<longrightarrow> (\<exists>th. threads s' t = Some th \<and> status th = THREAD_BLOCKED) \<and> (\<forall>i. t \<notin> set (ready_list s' i))) \<and>
    (\<forall>t \<in> snd ` set (list_alarm s'). (\<exists>th. threads s' t = Some th \<and> status th = THREAD_BLOCKED) \<and> (\<forall>i. t \<notin> set (ready_list s' i))) \<and>
    (\<forall>t th. threads s' t = Some th \<longrightarrow> magic th = THREAD_MAGIC \<and> PRI_MIN \<le> priority th \<and> priority th \<le> PRI_MAX)"
proof -
  have co: "core (view s') (occ s') (Some (running_thread s')) (idle_thread s')"
    using reach_kinv [OF assms(2,1)] by (simp add: kinv_def kcore_def)
  have run: "\<exists>c. threads s' (running_thread s') = Some c \<and> status c = THREAD_RUNNING"
    using kinv_cur [OF reach_kinv [OF assms(2,1)]] .
  have one: "t = running_thread s'" if "threads s' t = Some th" "status th = THREAD_RUNNING" for t th
    using core_only_running [OF co, of t] that by (auto simp: tview_def)
  have rdy: "\<exists>th. threads s' t = Some th \<and> status th = THREAD_READY \<and> priority th = i" if "t \<in> set (ready_list s' i)" for t i
    using core_place_ex [OF co, of t "At_ready i"] that by (auto simp: tview_def dest!: view_SomeD)
  have rdy': "t \<in> set (ready_list s' (priority th))" if "t \<noteq> idle_thread s'" "threads s' t = Some th" "status th = THREAD_READY" for t th
    using core_ready [OF co, of t] that by (auto simp: tview_def)
  have blk: "(\<exists>th. threads s' t = Some th \<and> status th = THREAD_BLOCKED) \<and> (\<forall>i. t \<notin> set (ready_list s' i))"
    if "t \<in> set (occ s' pl)" "\<And>i. pl \<noteq> At_ready i" for t pl
  proof -
    have "\<exists>th. threads s' t = Some th \<and> status th = THREAD_BLOCKED"
      using core_place_ex [OF co that(1)] that(2) by (cases pl) (auto simp: tview_def dest!: view_SomeD)
    moreover have "t \<notin> set (ready_list s' i)" for i using core_unique [OF co that(1), of "At_ready i"] that(2) by auto
    ultimately show ?thesis by blast
  qed
  have sem: "t \<in> set (occ s' (At_sema a))" if "semas s' a = Some sm" "t \<in> set (waiters sm)" for a sm t using that by simp
  have al: "t \<in> set (occ s' At_alarm)" if "t \<in> snd ` set (list_alarm s')" for t using that by simp
  have mg: "magic th = THREAD_MAGIC \<and> PRI_MIN \<le> priority th \<and> priority th \<le> PRI_MAX" if "threads s' t = Some th" for t th
    using core_info [OF co, of t] that by (auto simp: tview_def)
  show ?thesis
  proof (intro conjI)
    show "\<forall>t. t = running_thread s' \<longleftrightarrow> (\<exists>th. threads s' t = Some th \<and> status th = THREAD_RUNNING)" using run one by blast
    show "\<forall>t i. t \<noteq> idle_thread s' \<longrightarrow> (t \<in> set (ready_list s' i) \<longleftrightarrow> (\<exists>th. threads s' t = Some th \<and> status th = THREAD_READY \<and> priority th = i))"
      using rdy rdy' by blast
    show "\<forall>i. distinct (ready_list s' i)" using core_distinct [OF co, of "At_ready _"] by simp
    show "\<forall>a sm t. semas s' a = Some sm \<longrightarrow> t \<in> set (waiters sm) \<longrightarrow> (\<exists>th. threads s' t = Some th \<and> status th = THREAD_BLOCKED) \<and> (\<forall>i. t \<notin> set (ready_list s' i))"
      using blk [OF sem] by blast
    show "\<forall>t \<in> snd ` set (list_alarm s'). (\<exists>th. threads s' t = Some th \<and> status th = THREAD_BLOCKED) \<and> (\<forall>i. t \<notin> set (ready_list s' i))"
      using blk [OF al] by blast
    show "\<forall>t th. threads s' t = Some th \<longrightarrow> magic th = THREAD_MAGIC \<and> PRI_MIN \<le> priority th \<and> priority th \<le> PRI_MAX" using mg by blast
  qed
qed

text \<open>One step of the example: the main thread calls \<open>lock_acquire\<close>.\<close>

lemma demo_step: "\<exists>s'. kstep demo_kstate s' \<and> wiped s' = {} \<and> cur_kont s' = [F_sema_down 516, F_set_holder 512 4096, F_function (Client 0), F_exit]"
proof -
  have "\<exists>s'. exec (F_lock_acquire 512) demo_kstate = Some s' \<and> wiped s' = {} \<and> cur_kont s' = [F_sema_down 516, F_set_holder 512 4096, F_function (Client 0), F_exit]"
    by (simp add: lock_acquire_def lock_held_by_current_thread_def thread_current_def is_thread_def intr_context_def push_kont_def
      upd_thread_def lock_sema_def cur_kont_def demo_defs)
  moreover have "cur_kont demo_kstate = F_function (Client 0) # [F_exit]" by (simp add: cur_kont_def demo_defs)
  ultimately show ?thesis using kstep.call [of demo_kstate 0 "[F_exit]" "F_lock_acquire 512"] by auto
qed

theorem scheduler_invariant_witness:
  "\<exists>s'. kstep\<^sup>*\<^sup>* demo_kstate s' \<and> cur_kont s' \<noteq> cur_kont demo_kstate \<and>
    (\<forall>t. t = running_thread s' \<longleftrightarrow> (\<exists>th. threads s' t = Some th \<and> status th = THREAD_RUNNING))"
proof -
  obtain s' where s': "kstep demo_kstate s'" "cur_kont s' = [F_sema_down 516, F_set_holder 512 4096, F_function (Client 0), F_exit]"
    using demo_step by blast
  then have r: "kstep\<^sup>*\<^sup>* demo_kstate s'" by blast
  have "cur_kont s' \<noteq> cur_kont demo_kstate" using s'(2) by (simp add: cur_kont_def demo_defs)
  then show ?thesis using r scheduler_invariant [OF demo_kinv r] by blast
qed

subsection \<open>Mutual exclusion\<close>

text \<open>A thread owns a lock when it is the recorded holder, or when it has come through \<open>sema_down\<close> and is about to record
  the holder.  (A frame that stores the holder is not yet reached when the frame directly before it still waits for the
  semaphore.)\<close>

fun sets_holder :: "addr \<Rightarrow> frame \<Rightarrow> bool" where
  "sets_holder l (F_set_holder l' u) = (l' = l)"
| "sets_holder l _ = False"

fun waits :: "frame \<Rightarrow> bool" where
  "waits (F_sema_down a) = True"
| "waits (F_sema_loop a lv) = True"
| "waits _ = False"

primrec entered_from :: "addr \<Rightarrow> bool \<Rightarrow> frame list \<Rightarrow> bool" where
  "entered_from l w [] = False"
| "entered_from l w (f # k) = (sets_holder l f \<and> \<not> w \<or> entered_from l (waits f) k)"

abbreviation entered :: "addr \<Rightarrow> frame list \<Rightarrow> bool" where
  "entered l k \<equiv> entered_from l False k"

definition owns :: "kstate \<Rightarrow> addr \<Rightarrow> addr \<Rightarrow> bool" where
  "owns s l t \<longleftrightarrow> (t \<noteq> NULL \<and> holders s l = Some t) \<or> entered l (kont_at s t)"

lemma entered_from_tok:
  assumes L: "lock_sema l \<in> L"
  shows "paired L k \<Longrightarrow> entered_from l w k \<Longrightarrow> 1 + of_bool (w \<and> (\<exists>u k'. k = F_set_holder l u # k')) \<le> ktok l k"
proof (induction k arbitrary: w)
  case (Cons f k)
  have nn: "0 \<le> ktok l k" using ktok_nonneg [OF L] Cons.prems(1) by simp
  show ?case
  proof (cases "waits f")
    case True
    then obtain a where a: "ftok l f = - of_bool (a = lock_sema l)" "frame_ok L f k = (a \<in> L \<longrightarrow> next_sets a k)" "\<not> sets_holder l f" by (cases f) auto
    then have "1 + of_bool (\<exists>u k'. k = F_set_holder l u # k') \<le> ktok l k" using Cons.IH [of True] Cons.prems True by auto
    moreover have "a = lock_sema l \<Longrightarrow> \<exists>u k'. k = F_set_holder l u # k'" using a(2) Cons.prems(1) L by (auto simp: next_sets_def)
    moreover have "\<not> (\<exists>u k'. f # k = F_set_holder l u # k')" using True by auto
    ultimately show ?thesis using a(1) by (auto simp: of_bool_def split: if_splits)
  next
    case False
    then have "0 \<le> ftok l f" "sets_holder l f \<Longrightarrow> ftok l f = 1" "(\<exists>u k'. f # k = F_set_holder l u # k') = sets_holder l f" by (cases f; auto)+
    moreover have "entered_from l False k \<Longrightarrow> 1 \<le> ktok l k" using Cons.IH [of False] Cons.prems(1) by simp
    ultimately show ?thesis using Cons.prems(2) nn False by (auto simp: of_bool_def split: if_splits)
  qed
qed simp

lemma entered_tok: "lock_sema l \<in> L \<Longrightarrow> paired L k \<Longrightarrow> entered l k \<Longrightarrow> 1 \<le> ktok l k"
  using entered_from_tok [of l L k False] by simp

lemma entered_lock: "paired L k \<Longrightarrow> entered_from l w k \<Longrightarrow> lock_sema l \<in> L"
proof (induction k arbitrary: w)
  case (Cons f k)
  then show ?case by (cases f) auto
qed simp

lemma linv_owner:
  assumes i: "linv kf h W v cs" and h: "h l = Some x" "lock_sema l \<notin> W"
  shows "entered l (kf t) \<Longrightarrow> x = NULL" "entered l (kf t) \<Longrightarrow> v (lock_sema l) = Some 0"
    "entered l (kf t) \<Longrightarrow> entered l (kf u) \<Longrightarrow> t = u"
proof -
  obtain m where m: "v (lock_sema l) = Some m" "int m + of_bool (x \<noteq> NULL) + ktoks kf l = 1" using linvD(2) [OF i h] by blast
  have L: "lock_sema l \<in> lock_semas h" using h by (auto simp: lock_semas_def)
  have nn: "0 \<le> ktok l (kf t)" for t using ktok_nonneg [OF L] linvD(3) [OF i] by blast
  have one: "1 \<le> ktok l (kf t)" if "entered l (kf t)" for t by (rule entered_tok [OF L linvD(3) [OF i] that])
  have sub: "(\<Sum>t\<in>T. ktok l (kf t)) \<le> ktoks kf l" if "T \<subseteq> {t. kf t \<noteq> []}" for T
    unfolding ktoks_def by (rule sum_mono2 [OF linvD(1) [OF i] that]) (simp add: nn)
  have ne: "kf t \<noteq> []" if "entered l (kf t)" for t using that by auto
  show "x = NULL" "v (lock_sema l) = Some 0" if "entered l (kf t)"
    using sub [of "{t}"] one [OF that] ne [OF that] m by (auto simp: of_bool_def split: if_splits)
  show "t = u" if t: "entered l (kf t)" "entered l (kf u)"
  proof (rule ccontr)
    assume "t \<noteq> u"
    then have "2 \<le> ktoks kf l" using sub [of "{t, u}"] one [OF t(1)] one [OF t(2)] ne [OF t(1)] ne [OF t(2)] by simp
    then show False using m(2) by (simp add: of_bool_def split: if_splits)
  qed
qed

text \<open>C1: locks give mutual exclusion.  After any sequence of kernel steps, at most one thread owns a given lock; while some
  thread owns it the lock's semaphore is 0, so no other thread can pass \<open>sema_down\<close>; and the semaphore never exceeds 1.  This
  holds of every lock whose memory has not been overwritten by the release of the page that contains it: a thread's own locks
  lie in its page, which \<open>palloc_free_thread\<close> fills with 0xcc when the thread is dead.\<close>
theorem lock_mutual_exclusion:
  assumes "kinv s" "lockinv s" "kstep\<^sup>*\<^sup>* s s'" "lock_sema l \<notin> wiped s'"
  shows "(\<forall>t u. owns s' l t \<longrightarrow> owns s' l u \<longrightarrow> t = u) \<and>
    (\<forall>t. owns s' l t \<longrightarrow> (\<exists>sm. semas s' (lock_sema l) = Some sm \<and> sema_value sm = 0)) \<and>
    (\<forall>sm. l \<in> dom (holders s') \<longrightarrow> semas s' (lock_sema l) = Some sm \<longrightarrow> sema_value sm \<le> 1)"
proof -
  have i: "linv (kont_at s') (holders s') (wiped s') (vals s') (conds s')"
    using reach_inv [OF assms(3,1,2)] by (simp add: lockinv_def lkinv_def)
  have d: "\<exists>x. holders s' l = Some x" if "owns s' l t" for t
  proof -
    have "entered l (kont_at s' t) \<Longrightarrow> lock_sema l \<in> lock_semas (holders s')" using entered_lock linvD(3) [OF i] by blast
    then show ?thesis using that by (auto simp: owns_def)
  qed
  have v0: "\<exists>sm. semas s' (lock_sema l) = Some sm \<and> sema_value sm = 0" if t: "owns s' l t" for t
  proof -
    obtain x where x: "holders s' l = Some x" using d [OF t] by blast
    have "vals s' (lock_sema l) = Some 0"
    proof (cases "entered l (kont_at s' t)")
      case True then show ?thesis using linv_owner(2) [OF i x assms(4)] by blast
    next
      case False then show ?thesis using t x linv_mutex(3) [OF i x assms(4)] by (auto simp: owns_def)
    qed
    then show ?thesis by (auto simp: vals_def)
  qed
  have un: "t = u" if t: "owns s' l t" "owns s' l u" for t u
  proof -
    obtain x where x: "holders s' l = Some x" using d [OF t(1)] by blast
    show ?thesis using t x linv_owner(1,3) [OF i x assms(4)] by (auto simp: owns_def)
  qed
  have le: "sema_value sm \<le> 1" if "l \<in> dom (holders s')" "semas s' (lock_sema l) = Some sm" for sm
    using linv_mutex(2) [OF i _ assms(4), of _ "sema_value sm"] that by (auto simp: vals_def)
  show ?thesis using un v0 le by blast
qed

theorem lock_mutual_exclusion_witness:
  "\<exists>s'. kstep\<^sup>*\<^sup>* demo_kstate s' \<and> lock_sema 512 \<notin> wiped s' \<and> (\<forall>t u. owns s' 512 t \<longrightarrow> owns s' 512 u \<longrightarrow> t = u)"
proof -
  obtain s' where "kstep demo_kstate s'" and w: "wiped s' = {}" using demo_step by blast
  then have "kstep\<^sup>*\<^sup>* demo_kstate s'" by blast
  then show ?thesis using lock_mutual_exclusion [OF demo_kinv demo_lockinv, of s' 512] w by auto
qed

subsection \<open>Choice of the next thread\<close>

text \<open>The ready lists at the moment of the choice: the yielding thread has been filed at the end of its level.\<close>

definition filed :: "kstate \<Rightarrow> thread \<Rightarrow> int \<Rightarrow> addr list" where
  "filed s c i = ready_list s i @ (if running_thread s \<noteq> idle_thread s \<and> i = priority c then [running_thread s] else [])"

lemma filed_yielding: "ready_list (yielding s c) = filed s c"
  by (auto simp: yielding_def filed_def fun_eq_iff)

text \<open>C3: \<open>thread_yield\<close> always returns (none of its assertions can fail), keeps the kernel invariant, and switches to the
  thread at the front of the highest non-empty level, after the yielding thread has been put at the back of its own level; the
  other threads keep their order.  Only if no thread is ready the idle thread runs.\<close>
theorem thread_yield_switches:
  assumes k: "kinv s" and c: "threads s (running_thread s) = Some c"
  shows "\<exists>s'. thread_yield s = Some s' \<and> kinv s' \<and>
    ((\<exists>i. PRI_MIN \<le> i \<and> i \<le> PRI_MAX \<and> filed s c i = running_thread s' # ready_list s' i \<and>
        (\<forall>j. i < j \<and> j \<le> PRI_MAX \<longrightarrow> filed s c j = []) \<and> (\<forall>j. j \<noteq> i \<longrightarrow> ready_list s' j = filed s c j)) \<or>
     ((\<forall>j. PRI_MIN \<le> j \<and> j \<le> PRI_MAX \<longrightarrow> filed s c j = []) \<and> running_thread s' = idle_thread s))"
proof -
  obtain s' where s': "thread_yield s = Some s'" "running_thread s' = fst (next_thread_to_run (yielding s c))"
    using thread_yield_ok [OF _ _ c] k by (auto simp: kinv_def)
  have "schedule (yielding s c) = Some s'" using thread_yield_eq [OF _ _ c] k s'(1) by (simp add: kinv_def)
  note rl = schedule_switched(2) [OF this]
  have "(\<exists>i. PRI_MIN \<le> i \<and> i \<le> PRI_MAX \<and> filed s c i = running_thread s' # ready_list s' i \<and>
        (\<forall>j. i < j \<and> j \<le> PRI_MAX \<longrightarrow> filed s c j = []) \<and> (\<forall>j. j \<noteq> i \<longrightarrow> ready_list s' j = filed s c j)) \<or>
     ((\<forall>j. PRI_MIN \<le> j \<and> j \<le> PRI_MAX \<longrightarrow> filed s c j = []) \<and> running_thread s' = idle_thread s)"
  proof (rule next_thread_cases [of "yielding s c"])
    fix i t ts
    assume a: "PRI_MIN \<le> i" "i \<le> PRI_MAX" "ready_list (yielding s c) i = t # ts"
      "\<And>j. i < j \<Longrightarrow> j \<le> PRI_MAX \<Longrightarrow> ready_list (yielding s c) j = []"
      "next_thread_to_run (yielding s c) = (t, yielding s c\<lparr>ready_list := (ready_list (yielding s c))(i := ts)\<rparr>)"
    then show ?thesis using s'(2) rl by (intro disjI1 exI [of _ i]) (auto simp: filed_yielding)
  next
    assume "\<And>j. PRI_MIN \<le> j \<Longrightarrow> j \<le> PRI_MAX \<Longrightarrow> ready_list (yielding s c) j = []"
      "next_thread_to_run (yielding s c) = (idle_thread (yielding s c), yielding s c)"
    then show ?thesis using s'(2) by (intro disjI2) (auto simp: filed_yielding, simp add: yielding_def)
  qed
  then show ?thesis using s'(1) thread_yield_kinv [OF k s'(1)] by blast
qed

theorem thread_yield_switches_witness:
  "\<exists>s'. thread_yield demo_kstate = Some s' \<and> kinv s' \<and> running_thread s' = 12288 \<and> ready_list s' 31 = [4096]"
proof -
  let ?c = "demo_thread 1 THREAD_RUNNING ''main'' 8192 31 [F_function (Client 0), F_exit]"
  have c: "threads demo_kstate (running_thread demo_kstate) = Some ?c" by (simp add: demo_defs)
  have f: "filed demo_kstate ?c = (\<lambda>_. [])(40 := [12288], 31 := [4096])" by (auto simp: filed_def demo_defs fun_eq_iff)
  from thread_yield_switches [OF demo_kinv c] obtain s' where s': "thread_yield demo_kstate = Some s'" "kinv s'"
    and d: "(\<exists>i. PRI_MIN \<le> i \<and> i \<le> PRI_MAX \<and> filed demo_kstate ?c i = running_thread s' # ready_list s' i \<and>
        (\<forall>j. i < j \<and> j \<le> PRI_MAX \<longrightarrow> filed demo_kstate ?c j = []) \<and> (\<forall>j. j \<noteq> i \<longrightarrow> ready_list s' j = filed demo_kstate ?c j)) \<or>
     ((\<forall>j. PRI_MIN \<le> j \<and> j \<le> PRI_MAX \<longrightarrow> filed demo_kstate ?c j = []) \<and> running_thread s' = idle_thread demo_kstate)"
    by blast
  have "running_thread s' = 12288 \<and> ready_list s' 31 = [4096]"
    using d unfolding f by (auto simp: pri_consts split: if_splits dest: spec [of _ 40])
  then show ?thesis using s' by blast
qed

subsection \<open>Waking waiters\<close>

text \<open>\<open>best s es m p m' p'\<close>: the loop, started with \<open>(m, p)\<close>, ends with \<open>(m', p')\<close>.\<close>

definition first_of :: "kstate \<Rightarrow> addr list \<Rightarrow> addr \<Rightarrow> int \<Rightarrow> bool" where
  "first_of s es m p \<longleftrightarrow> (\<exists>us vs th. es = us @ m # vs \<and> threads s m = Some th \<and> priority th = p \<and>
     (\<forall>u uth. u \<in> set us \<longrightarrow> threads s u = Some uth \<longrightarrow> priority uth < p))"

definition best :: "kstate \<Rightarrow> addr list \<Rightarrow> addr \<Rightarrow> int \<Rightarrow> addr \<Rightarrow> int \<Rightarrow> bool" where
  "best s es m p m' p' \<longleftrightarrow> p \<le> p' \<and> (\<forall>e th. e \<in> set es \<longrightarrow> threads s e = Some th \<longrightarrow> priority th \<le> p') \<and>
     (m' = m \<and> p' = p \<or> p < p' \<and> first_of s es m' p')"

lemma first_of_here: "threads s e = Some th \<Longrightarrow> first_of s (e # es) e (priority th)"
  unfolding first_of_def by (intro exI [of _ "[]"] exI [of _ es] exI [of _ th]) simp

lemma first_of_later:
  assumes "threads s e = Some th" "priority th < p" "first_of s es m p"
  shows "first_of s (e # es) m p"
proof -
  obtain us vs y where "es = us @ m # vs" "threads s m = Some y" "priority y = p"
    "\<forall>u uth. u \<in> set us \<longrightarrow> threads s u = Some uth \<longrightarrow> priority uth < p" using assms(3) unfolding first_of_def by blast
  then show ?thesis unfolding first_of_def using assms(1,2) by (intro exI [of _ "e # us"] exI [of _ vs] exI [of _ y]) auto
qed

lemma max_waiter_best:
  assumes "\<And>e. e \<in> set es \<Longrightarrow> threads s e \<noteq> None"
  shows "\<exists>m' p'. max_waiter s es (m, p) = Some (m', p') \<and> best s es m p m' p'"
  using assms
proof (induction es arbitrary: m p)
  case Nil
  then show ?case by (simp add: best_def)
next
  case (Cons e es)
  obtain th where th: "threads s e = Some th" using Cons.prems [of e] by auto
  define q where "q = (if p < priority th then (e, priority th) else (m, p))"
  obtain m0 p0 where q: "q = (m0, p0)" by fastforce
  obtain m' p' where mp: "max_waiter s es q = Some (m', p')" "best s es m0 p0 m' p'"
    using Cons.IH [of m0 p0] Cons.prems unfolding q by (metis list.set_intros(2))
  have "max_waiter s (e # es) (m, p) = Some (m', p')" using mp(1) th by (simp add: q_def split: if_splits)
  moreover have "best s (e # es) m p m' p'"
    using mp(2) q th first_of_here [OF th, of es] first_of_later [OF th, of p' es m']
    unfolding best_def q_def by (auto split: if_splits)
  ultimately show ?case by blast
qed

lemma max_waiter_choice:
  assumes "\<And>e. e \<in> set (w # ws) \<Longrightarrow> threads s e \<noteq> None" "threads s w = Some wt"
  shows "\<exists>m p. max_waiter s (w # ws) (w, priority wt) = Some (m, p) \<and> first_of s (w # ws) m p \<and>
    (\<forall>e y. e \<in> set (w # ws) \<longrightarrow> threads s e = Some y \<longrightarrow> priority y \<le> p)"
  using max_waiter_best [of "w # ws" s w "priority wt"] assms first_of_here [OF assms(2), of ws] unfolding best_def by blast

text \<open>C7: \<open>sema_up\<close> on a semaphore with waiters always returns; it takes from the waiters the first one of the highest
  priority, makes that thread ready at the end of its level, and increments the value.\<close>
theorem sema_up_wakes_highest:
  assumes k: "kinv s" and a: "a \<noteq> NULL" "semas s a = Some sm" "waiters sm \<noteq> []"
  shows "\<exists>s' t th us vs. sema_up a s = Some s' \<and> waiters sm = us @ t # vs \<and> threads s t = Some th \<and>
    (\<forall>w y. w \<in> set (waiters sm) \<longrightarrow> threads s w = Some y \<longrightarrow> priority y \<le> priority th) \<and>
    (\<forall>u y. u \<in> set us \<longrightarrow> threads s u = Some y \<longrightarrow> priority y < priority th) \<and>
    map_option status (threads s' t) = Some THREAD_READY \<and> ready_list s' (priority th) = ready_list s (priority th) @ [t] \<and>
    semas s' a = Some \<lparr>sema_value = u32 (sema_value sm + 1), waiters = us @ vs\<rparr>"
proof -
  let ?s0 = "s\<lparr>if_flag := False\<rparr>"
  have k0: "kinv ?s0" "\<not> if_flag ?s0" "semas ?s0 a = Some sm" using k a by simp_all
  have co: "core (view s) (occ s) (Some (running_thread s)) (idle_thread s)" using k by (simp add: kinv_def kcore_def)
  obtain w ws where ws: "waiters sm = w # ws" using a(3) by (cases "waiters sm") auto
  have ex: "threads s e \<noteq> None" if "e \<in> set (w # ws)" for e
    using core_place_ex [OF co, of e "At_sema a"] that a(2) ws by (auto simp: view_def)
  obtain wt where wt: "threads s w = Some wt" using ex [of w] by auto
  have "\<exists>m p. max_waiter ?s0 (w # ws) (w, priority wt) = Some (m, p) \<and> first_of ?s0 (w # ws) m p \<and>
    (\<forall>e y. e \<in> set (w # ws) \<longrightarrow> threads ?s0 e = Some y \<longrightarrow> priority y \<le> p)"
    by (rule max_waiter_choice) (use ex wt in auto)
  then obtain m p where mp: "max_waiter ?s0 (w # ws) (w, priority wt) = Some (m, p)" "first_of ?s0 (w # ws) m p"
    "\<forall>e y. e \<in> set (w # ws) \<longrightarrow> threads ?s0 e = Some y \<longrightarrow> priority y \<le> p" by blast
  then obtain th us vs where m: "threads s m = Some th" "w # ws = us @ m # vs" "priority th = p"
    "\<forall>u y. u \<in> set us \<longrightarrow> threads s u = Some y \<longrightarrow> priority y < p"
    unfolding first_of_def by auto
  have mi: "m \<in> set (waiters sm)" unfolding ws m(2) by simp
  have dist: "distinct (w # ws)" using core_distinct [OF co, of "At_sema a"] a(2) ws by simp
  then have rm: "remove1 m (w # ws) = us @ vs" unfolding m(2) by (auto simp: remove1_append)
  let ?s1 = "set_sema a (sm\<lparr>waiters := us @ vs\<rparr>) ?s0"
  obtain th' where "threads ?s0 m = Some th'" "status th' = THREAD_BLOCKED" "thread_unblock m ?s1 = Some (unblocked m th' ?s1)"
    using kinv_wake_total [OF k0 mi] unfolding ws rm by blast
  then have th: "status th = THREAD_BLOCKED" "thread_unblock m ?s1 = Some (unblocked m th ?s1)" using m(1) by simp_all
  let ?s2 = "unblocked m th ?s1"
  let ?s3 = "set_sema a (sm\<lparr>waiters := us @ vs, sema_value := u32 (sema_value sm + 1)\<rparr>) ?s2"
  have sl: "intr_set_level (intr_get_level s) ?s3 = Some (INTR_OFF, ?s3\<lparr>if_flag := if_flag s\<rparr>)"
    using k by (cases "if_flag s") (auto simp: intr_set_level_def intr_enable_def intr_disable_def intr_get_level_def intr_context_def kinv_def set_sema_def unblocked_def)
  obtain c where c: "threads s (running_thread s) = Some c" using kinv_cur [OF k] by auto
  have mc: "m \<noteq> running_thread s" using core_cur_free [OF co, of "At_sema a"] mi a(2) by auto
  let ?s4 = "?s3\<lparr>if_flag := if_flag s, threads := (threads ?s3)(running_thread s \<mapsto> c\<lparr>kont := F_sema_up_yield (priority th) # kont c\<rparr>)\<rparr>"
  have "sema_up a s = Some ?s4"
    using a ws wt mp(1) [unfolded m(3) [symmetric]] rm th(2) sl c mc
    by (simp add: sema_up_def intr_disable_def Let_def push_kont_def upd_thread_def unblocked_def set_sema_def)
  moreover have "map_option status (threads ?s4 m) = Some THREAD_READY" "ready_list ?s4 (priority th) = ready_list s (priority th) @ [m]"
    "semas ?s4 a = Some \<lparr>sema_value = u32 (sema_value sm + 1), waiters = us @ vs\<rparr>"
    using mc by (cases sm; simp add: set_sema_def unblocked_def)+
  moreover have "\<forall>w y. w \<in> set (waiters sm) \<longrightarrow> threads s w = Some y \<longrightarrow> priority y \<le> priority th" using mp(3) ws m(3) by simp
  moreover have "waiters sm = us @ m # vs" using ws m(2) by simp
  ultimately show ?thesis using m(1,4) unfolding m(3) [symmetric] by blast
qed

theorem sema_up_wakes_highest_witness:
  "\<exists>s'. sema_up 600 demo_kstate = Some s' \<and> map_option status (threads s' 20480) = Some THREAD_READY \<and>
    semas s' 600 = Some \<lparr>sema_value = 1, waiters = [16384]\<rparr>"
proof -
  let ?sm = "\<lparr>sema_value = 0, waiters = [16384, 20480]\<rparr>"
  have sm: "semas demo_kstate 600 = Some ?sm" by (simp add: demo_defs)
  have "600 \<noteq> NULL" "waiters ?sm \<noteq> []" by simp_all
  from sema_up_wakes_highest [OF demo_kinv this(1) sm this(2)] obtain s' t th us vs where s': "sema_up 600 demo_kstate = Some s'"
    "[16384, 20480] = us @ t # vs" "threads demo_kstate t = Some th"
    "\<forall>w y. w \<in> set (waiters ?sm) \<longrightarrow> threads demo_kstate w = Some y \<longrightarrow> priority y \<le> priority th"
    "map_option status (threads s' t) = Some THREAD_READY" "semas s' 600 = Some \<lparr>sema_value = u32 (sema_value ?sm + 1), waiters = us @ vs\<rparr>"
    unfolding semaphore.select_convs by blast
  have "t = 20480 \<and> us = [16384] \<and> vs = []"
    using s'(2,3) spec [OF s'(4), of 20480] by (auto simp: demo_defs Cons_eq_append_conv)
  then show ?thesis using s' by (simp add: u32_def)
qed

subsection \<open>The timer interrupt\<close>

text \<open>C8: the handler of the timer interrupt advances the clock by one tick (as a 64-bit number) and wakes exactly the sleepers
  whose time has come: these become ready and leave the alarm list; the other sleepers stay in it in order, and the status of
  every other thread is unchanged.\<close>
theorem timer_interrupt_wakes_due:
  assumes "kin s" "timer_interrupt s = Some s'"
  shows "ticks s' = s64 (ticks s + 1) \<and> list_alarm s' = filter (\<lambda>(w, t). ticks s' < w) (list_alarm s) \<and>
    (\<forall>t. map_option status (threads s' t) =
      (if \<exists>w \<le> ticks s'. (w, t) \<in> set (list_alarm s) then Some THREAD_READY else map_option status (threads s t)))"
proof -
  have "filter (\<lambda>(w, t). ticks s' < w) (list_alarm s) = filter (\<lambda>e. ticks s' < fst e) (list_alarm s)" by (simp add: case_prod_unfold)
  moreover have "t \<in> due (ticks s') (list_alarm s) \<longleftrightarrow> (\<exists>w \<le> ticks s'. (w, t) \<in> set (list_alarm s))" for t by (auto simp: due_def)
  ultimately show ?thesis using timer_interrupt_kin [OF assms] by (metis (no_types, lifting))
qed

lemma thread_tick_total:
  assumes "kin s" "\<not> thread_mlfqs s" "userprog s \<or> \<not> thread_prior_aging s"
  shows "\<exists>s'. thread_tick s = Some s'"
proof -
  obtain c where c: "threads s (running_thread s) = Some c" using kcore_running assms(1) by (auto simp: kin_def)
  show ?thesis using assms c kin_cur [OF assms(1)]
    by (auto simp: thread_tick_def Let_def intr_yield_on_return_def intr_context_def kin_def)
qed

lemma timer_interrupt_total:
  assumes k: "kin s" and m: "\<not> thread_mlfqs s" "userprog s \<or> \<not> thread_prior_aging s"
  shows "\<exists>s'. timer_interrupt s = Some s'"
proof -
  let ?s0 = "s\<lparr>ticks := s64 (ticks s + 1)\<rparr>"
  have k0: "kin ?s0" using k kcore_cong [of ?s0 s] kont_inv_cong [of ?s0 s] by (simp add: kin_def)
  obtain s1 where s1: "thread_tick ?s0 = Some s1" using thread_tick_total [OF k0] m by auto
  have a: "kin s1" using steady_kin [OF thread_tick_steady [OF k0 s1]] .
  have "distinct (list_alarm s1)" using kin_alarm_distinct [OF a] by (simp add: distinct_map)
  then obtain s' where "alarm_loop (list_alarm s1) s1 = Some s'" using alarm_loop_total [OF a, of "list_alarm s1"] by auto
  then show ?thesis using s1 by (simp add: timer_interrupt_def)
qed

text \<open>C9: with the round-robin scheduler a timer interrupt that arrives in a state satisfying the kernel invariant, with
  interrupts enabled, is always handled to the end: no assertion fails, the state it leaves satisfies the invariant again, and
  one more tick has been counted.\<close>
theorem timer_irq_returns:
  assumes k: "kinv s" and i: "if_flag s" and m: "\<not> thread_mlfqs s" "userprog s \<or> \<not> thread_prior_aging s"
  shows "\<exists>s'. timer_irq s = Some s' \<and> kinv s' \<and> ticks s' = s64 (ticks s + 1)"
proof -
  obtain c where c: "threads s (running_thread s) = Some c" using kinv_cur [OF k] by auto
  let ?s1 = "s\<lparr>if_flag := False, threads := (threads s)(running_thread s \<mapsto> c\<lparr>kont := F_set_level INTR_ON # kont c\<rparr>)\<rparr>"
  have s1: "push_kont [F_set_level INTR_ON] (s\<lparr>if_flag := False\<rparr>) = Some ?s1" using c by (simp add: push_kont_def upd_thread_def)
  have "kinv ?s1" by (rule kinv_push_kont [OF _ s1]) (use k in auto)
  then have ke: "kin (?s1\<lparr>in_external_intr := True, yield_on_return := False\<rparr>)" by (rule kin_enter) simp
  obtain s3 where s3: "timer_interrupt (?s1\<lparr>in_external_intr := True, yield_on_return := False\<rparr>) = Some s3"
    using timer_interrupt_total [OF ke] m by auto
  note ti = timer_interrupt_kin [OF ke s3]
  have k3: "kin s3" using ti by blast
  have kl: "kinv (s3\<lparr>in_external_intr := False\<rparr>)" by (rule kin_leave [OF k3])
  have eq: "timer_irq s = (if yield_on_return s3 then thread_yield (s3\<lparr>in_external_intr := False\<rparr>) else Some (s3\<lparr>in_external_intr := False\<rparr>))"
    using s1 s3 k3 k by (simp add: timer_irq_def intr_handler_def Let_def intr_get_level_def intr_context_def kin_def kinv_def)
  obtain d where d: "threads (s3\<lparr>in_external_intr := False\<rparr>) (running_thread (s3\<lparr>in_external_intr := False\<rparr>)) = Some d" using kinv_cur [OF kl] by blast
  obtain s' where s': "thread_yield (s3\<lparr>in_external_intr := False\<rparr>) = Some s'" "switched (yielding (s3\<lparr>in_external_intr := False\<rparr>) d) s'"
    using thread_yield_ok [OF _ _ d] kl by (auto simp: kinv_def)
  have "ticks s' = ticks s3" using s'(2) by (simp add: switched_def yielding_def split: if_splits)
  then show ?thesis using eq s'(1) kl thread_yield_kinv [OF kl s'(1)] ti by (cases "yield_on_return s3") auto
qed

theorem timer_irq_returns_witness:
  "\<exists>s'. timer_irq demo_kstate = Some s' \<and> kinv s' \<and> ticks s' = 8"
proof -
  have "if_flag demo_kstate" "\<not> thread_mlfqs demo_kstate" "userprog demo_kstate \<or> \<not> thread_prior_aging demo_kstate" "ticks demo_kstate = 7"
    by (simp_all add: demo_defs)
  then show ?thesis using timer_irq_returns [OF demo_kinv] by (simp add: s64_def)
qed

theorem timer_interrupt_wakes_due_witness:
  "\<exists>s'. timer_interrupt (demo_kstate\<lparr>if_flag := False, in_external_intr := True\<rparr>) = Some s' \<and> list_alarm s' = [(20, 28672)] \<and>
    map_option status (threads s' 24576) = Some THREAD_READY"
proof -
  have "kinv (demo_kstate\<lparr>if_flag := False\<rparr>)" using demo_kinv by simp
  from kin_enter [OF this, of False] have k: "kin (demo_kstate\<lparr>if_flag := False, in_external_intr := True\<rparr>)" by (simp add: demo_defs)
  have "\<not> thread_mlfqs (demo_kstate\<lparr>if_flag := False, in_external_intr := True\<rparr>)" "\<not> thread_prior_aging (demo_kstate\<lparr>if_flag := False, in_external_intr := True\<rparr>)"
    by (simp_all add: demo_defs)
  then obtain s' where s': "timer_interrupt (demo_kstate\<lparr>if_flag := False, in_external_intr := True\<rparr>) = Some s'"
    using timer_interrupt_total [OF k] by blast
  have t: "ticks demo_kstate = 7" "list_alarm demo_kstate = [(20, 28672), (8, 24576)]" by (simp_all add: demo_defs)
  note w = timer_interrupt_wakes_due [OF k s']
  have t8: "ticks s' = 8" using w t by (simp add: s64_def)
  have "\<exists>w \<le> ticks s'. (w, 24576) \<in> set (list_alarm (demo_kstate\<lparr>if_flag := False, in_external_intr := True\<rparr>))"
    using t t8 by (intro exI [of _ 8]) simp
  then have "map_option status (threads s' 24576) = Some THREAD_READY" using w by (metis (no_types, lifting))
  moreover have "list_alarm s' = [(20, 28672)]" using w t t8 by simp
  ultimately show ?thesis using s' by blast
qed

subsection \<open>The BSD scheduler's arithmetic\<close>

definition bsd_priority :: "int \<Rightarrow> int \<Rightarrow> int" where
  "bsd_priority rcpu nice_v = max PRI_MIN (min PRI_MAX (((PRI_MAX - 2 * nice_v) * 16384 - rcpu sdiv 4) sdiv 16384))"

lemma sdiv4_bound: "in_s32 r \<Longrightarrow> - (2 ^ 29) \<le> r sdiv 4 \<and> r sdiv 4 \<le> 2 ^ 29"
  using sdiv_mono [of 4 "- (2 ^ 31)" r] sdiv_mono [of 4 r "2 ^ 31"] by (simp add: in_s32_def signed_divide_int_def)

text \<open>C10: for every recent_cpu and every nice value of the documented range the priority computed in 32-bit arithmetic is
  PRI_MAX - recent_cpu / 4 - 2 nice, truncated and clamped to the range of priorities: nothing overflows.  A thread that has
  used more CPU or is nicer never gets a higher priority.\<close>
theorem BSD_priority_formula:
  assumes "in_s32 rcpu" "- 20 \<le> nice_v" "nice_v \<le> 20"
  shows "BSD_calc_priority_this rcpu nice_v = Some (bsd_priority rcpu nice_v) \<and>
    (\<forall>r n. rcpu \<le> r \<and> nice_v \<le> n \<longrightarrow> bsd_priority r n \<le> bsd_priority rcpu nice_v)"
proof -
  have r: "in_s32 (rcpu sdiv 4)" "- (2 ^ 29) \<le> rcpu sdiv 4" "rcpu sdiv 4 \<le> 2 ^ 29" using sdiv4_bound [OF assms(1)] by (simp_all add: in_s32_def)
  have n: "s32 (nice_v * 2) = nice_v * 2" "s32 (63 - nice_v * 2) = 63 - nice_v * 2" "s32 ((63 - nice_v * 2) * 16384) = (63 - nice_v * 2) * 16384"
    using assms(2,3) by (auto intro!: s32_id simp: in_s32_def)
  have "s32 ((63 - nice_v * 2) * 16384 - rcpu sdiv 4) = (63 - nice_v * 2) * 16384 - rcpu sdiv 4"
    using assms(2,3) r by (intro s32_id) (auto simp: in_s32_def)
  then have "BSD_calc_priority_this rcpu nice_v = Some (bsd_priority rcpu nice_v)"
    using r(1) n by (auto simp: BSD_calc_priority_this_def fp_devide_def fp_sub_def fp_convert_to_fp_def fp_convert_to_int_down_def fp_consts
      bsd_priority_def pri_consts Let_def mult.commute max_def min_def)
  moreover have "bsd_priority x m \<le> bsd_priority rcpu nice_v" if "rcpu \<le> x" "nice_v \<le> m" for x m
  proof -
    have "rcpu sdiv 4 \<le> x sdiv 4" using that(1) by (intro sdiv_mono) auto
    then have "((PRI_MAX - 2 * m) * 16384 - x sdiv 4) sdiv 16384 \<le> ((PRI_MAX - 2 * nice_v) * 16384 - rcpu sdiv 4) sdiv 16384"
      using that(2) by (intro sdiv_mono) auto
    then show ?thesis by (auto simp: bsd_priority_def)
  qed
  ultimately show ?thesis by blast
qed

theorem BSD_priority_formula_witness: "BSD_calc_priority_this 163840 5 = Some 50"
proof -
  have "in_s32 163840" by (simp add: in_s32_def)
  then have "BSD_calc_priority_this 163840 5 = Some (bsd_priority 163840 5)" using BSD_priority_formula [of 163840 5] by simp
  then show ?thesis by (simp add: bsd_priority_def pri_consts signed_divide_int_def)
qed

text \<open>C11: the load average stays between 0 and the largest number of ready threads there has been.  With at most \<open>n\<close> threads
  ready or running and a load average of at most \<open>n\<close> the recomputation returns, without overflow, a load average of at
  most \<open>n\<close>, and an idle system's load average falls.\<close>
theorem load_average_bounded:
  assumes "kinv s" "0 \<le> load_avg s" "load_avg s \<le> n * 16384" "ready_count s + 1 \<le> n" "n \<le> 131071"
  shows "\<exists>s'. BSD_calc_load_average s = Some s' \<and> 0 \<le> load_avg s' \<and> load_avg s' \<le> n * 16384 \<and>
    (ready_count s = 0 \<and> thread_name s = Some ''idle'' \<and> 0 < load_avg s \<longrightarrow> load_avg s' < load_avg s)"
proof -
  obtain c where c: "thread_cur s = Some c" using kinv_cur [OF assms(1)] thread_current_kinv [OF assms(1)] by (auto simp: thread_cur_def)
  define r where "r = ready_count s + (if name c = ''idle'' then 0 else 1)"
  have rc: "0 \<le> ready_count s" unfolding ready_count_def by (rule sum_list_nonneg) auto
  have r: "0 \<le> r" "r \<le> n" using assms(4) rc by (auto simp: r_def)
  have d: "fp_devide (fp_convert_to_fp 59) 60 INT_REAR = Some 16110" "fp_devide (fp_convert_to_fp 1) 60 INT_REAR = Some 273"
    by (simp_all add: fp_devide_def fp_convert_to_fp_def fp_consts s32_def signed_take_bit_eq_if_positive in_s32_def signed_divide_int_def)
  define q where "q = load_avg s * 16110 div 16384"
  have q: "0 \<le> q" "q \<le> n * 16110" "0 < load_avg s \<Longrightarrow> q < load_avg s" using assms(2,3) by (auto simp: q_def)
  have la: "load_avg s * 16110 < 2 ^ 63" using assms(3,5) by simp
  have m1: "fp_mult (load_avg s) 16110 FP_REAR = q"
  proof -
    have "s64 (load_avg s * 16110) = load_avg s * 16110" using assms(2) la by (intro s64_id) auto
    moreover have "s32 q = q" using q assms(5) by (intro s32_id) (auto simp: in_s32_def)
    ultimately show ?thesis using assms(2) by (simp add: fp_mult_def fp_consts sdiv_pos q_def)
  qed
  have m2: "fp_mult 273 (s32 r) INT_REAR = 273 * r"
  proof -
    have "s32 r = r" "s32 (273 * r) = 273 * r" using r assms(5) by (auto intro!: s32_id simp: in_s32_def)
    then show ?thesis by (simp add: fp_mult_def fp_consts)
  qed
  have m3: "fp_add q (273 * r) FP_REAR = q + 273 * r"
  proof -
    have "s32 (q + 273 * r) = q + 273 * r" using q r assms(5) by (intro s32_id) (auto simp: in_s32_def)
    then show ?thesis by (simp add: fp_add_def fp_consts)
  qed
  have "BSD_calc_load_average s = Some (s\<lparr>load_avg := q + 273 * r\<rparr>)"
    using c d m1 m2 m3 by (simp add: BSD_calc_load_average_def Let_def r_def)
  moreover have "q + 273 * r \<le> n * 16384" using q r by linarith
  moreover have "r = 0" if "ready_count s = 0" "thread_name s = Some ''idle''" using that c by (simp add: r_def thread_name_def)
  ultimately show ?thesis using q r by auto
qed

theorem load_average_bounded_witness:
  "\<exists>s'. BSD_calc_load_average demo_kstate = Some s' \<and> 0 \<le> load_avg s' \<and> load_avg s' \<le> 2 * 16384"
proof -
  have "ready_count demo_kstate = 1" unfolding ready_count_def pri_consts by (simp add: upto_rec1 demo_defs)
  then show ?thesis using load_average_bounded [OF demo_kinv, of 2] by (auto simp: demo_defs)
qed

subsection \<open>Calibration\<close>

lemma or_next_bit:
  assumes "(2::nat) ^ Suc i dvd n"
  shows "or n (2 ^ i) = n + 2 ^ i"
proof -
  obtain q where q: "n = 2 ^ Suc i * q" using assms by blast
  have "\<not> bit n j \<or> \<not> bit (2 ^ i :: nat) j" for j
  proof (cases "j = i")
    case True
    have "n div 2 ^ i = 2 * q" using q by simp
    then show ?thesis unfolding True bit_iff_odd by simp
  qed (simp add: bit_exp_iff)
  then have "and n (2 ^ i) = 0" by (auto simp: bit_eq_iff bit_and_iff)
  then show ?thesis by (simp add: disjunctive_add_eq_or)
qed

text \<open>The doubling loop finds the highest power of two that is not too large.\<close>

lemma calibrate_double_power:
  assumes "too (2 ^ Suc k)" "\<And>i. i \<le> k \<Longrightarrow> \<not> too (2 ^ i)" "k \<le> 30" "j \<le> k"
  shows "calibrate_double too (2 ^ j) = Some (2 ^ k)"
  using assms(4)
proof (induction "k - j" arbitrary: j)
  case 0
  then have j: "j = k" by simp
  have "(2::nat) ^ Suc k < 2 ^ 32" using assms(3) by (intro power_strict_increasing) simp_all
  then have "u32 (2 ^ j * 2) = 2 ^ Suc k" unfolding j u32_def by simp
  then show ?case using assms(1) j by (subst calibrate_double.simps) simp
next
  case (Suc n)
  have "(2::nat) ^ Suc j < 2 ^ 32" using assms(3) Suc by (intro power_strict_increasing) simp_all
  then have u: "u32 (2 ^ j * 2) = 2 ^ Suc j" unfolding u32_def by simp
  have "\<not> too (2 ^ Suc j)" using Suc by (intro assms(2)) simp
  moreover have "calibrate_double too (2 ^ Suc j) = Some (2 ^ k)" using Suc by (intro Suc.hyps(1)) simp_all
  ultimately show ?case using u by (subst calibrate_double.simps) simp
qed

text \<open>The refinement loop accepts every bit from \<open>m\<close> downwards.\<close>

definition refined :: "nat \<Rightarrow> nat \<Rightarrow> nat \<Rightarrow> nat" where
  "refined k m i = (if i < m then 2 ^ k + 2 ^ Suc m - 2 ^ Suc i else 2 ^ k)"

lemma refined_step:
  assumes "0 < i" "i < k"
  shows "refined k m (i - 1) = (if i \<le> m then or (refined k m i) (2 ^ i) else refined k m i)"
proof -
  have k: "(2::nat) ^ Suc i dvd 2 ^ k" using assms by (intro le_imp_power_dvd) simp
  have v: "refined k m i + 2 ^ i = refined k m (i - 1)" if "i \<le> m"
  proof (cases "i = m")
    case False
    have "i - 1 < m" "Suc (i - 1) = i" "i < m" using that False assms(1) by auto
    then have "refined k m i = 2 ^ k + 2 * 2 ^ m - 2 * 2 ^ i" "refined k m (i - 1) = 2 ^ k + 2 * 2 ^ m - 2 ^ i" by (simp_all add: refined_def)
    moreover have "(2::nat) ^ i \<le> 2 ^ m" using that by (intro power_increasing) simp_all
    ultimately show ?thesis by linarith
  qed (use assms(1) in \<open>simp add: refined_def\<close>)
  have "(2::nat) ^ Suc i dvd 2 ^ Suc m" if "i < m" using that by (intro le_imp_power_dvd) simp
  then have "2 ^ Suc i dvd refined k m i" unfolding refined_def using k by (auto intro!: dvd_diff_nat dvd_add)
  then show ?thesis using or_next_bit v by (auto simp: refined_def)
qed

lemma calibrate_refine_bits:
  assumes too: "\<And>i. i < k \<Longrightarrow> too (2 ^ k + 2 ^ i) = (m < i)" and k: "10 \<le> k" "k \<le> m + 9" and i: "k \<le> i + 10" "i < k"
  shows "calibrate_refine too (2 ^ k) (2 ^ i) (refined k m i) = Some (2 ^ k + 2 ^ Suc m - 2 ^ (k - 9))"
  using i
proof (induction "i + 10 - k" arbitrary: i)
  case 0
  then have "i = k - 10" by simp
  moreover have "(2::nat) ^ k div 2 ^ 10 = 2 ^ (k - 10)" using k(1) by (simp add: power_diff)
  moreover have "Suc (k - 10) = k - 9" using k(1) by simp
  ultimately show ?case using k by (subst calibrate_refine.simps) (simp add: refined_def)
next
  case (Suc n)
  have i: "0 < i" "i \<noteq> k - 10" using Suc k(1) by auto
  have d: "(2::nat) ^ k div 2 ^ 10 = 2 ^ (k - 10)" using k(1) by (simp add: power_diff)
  then have ne: "(2::nat) ^ i \<noteq> 2 ^ k div 2 ^ 10" using i(2) by (metis one_less_numeral_iff power_inject_exp semiring_norm(76))
  have "(2::nat) ^ i div 2 = 2 ^ (i - 1)" using i(1) by (cases i) simp_all
  moreover have "or (2 ^ k) ((2::nat) ^ i) = 2 ^ k + 2 ^ i" using Suc.prems by (intro or_next_bit le_imp_power_dvd) simp
  moreover have "calibrate_refine too (2 ^ k) (2 ^ (i - 1)) (refined k m (i - 1)) = Some (2 ^ k + 2 ^ Suc m - 2 ^ (k - 9))"
    using Suc i by (intro Suc.hyps(1)) auto
  ultimately show ?case using ne too [OF Suc.prems(2)] refined_step [OF i(1) Suc.prems(2), of m]
    by (subst calibrate_refine.simps) (simp add: not_less split: if_splits)
qed

lemma multiple_below:
  fixes g t :: nat
  assumes "t < r + g" "g dvd r" "0 < g"
  shows "t div g * g \<le> r" "r = t div g * g \<longleftrightarrow> r \<le> t"
proof -
  obtain q where q: "r = g * q" using assms(2) by blast
  have "t < g * Suc q" using assms(1) q by simp
  then have le: "t div g \<le> q" using assms(3) by (simp add: less_mult_imp_div_less mult.commute flip: less_Suc_eq_le)
  then show "t div g * g \<le> r" using q by (simp add: mult.commute)
  show "r = t div g * g \<longleftrightarrow> r \<le> t"
  proof
    assume "r = t div g * g" then show "r \<le> t" by simp
  next
    assume "r \<le> t"
    then have "q \<le> t div g" using q assms(3) by (simp add: less_eq_div_iff_mult_less_eq mult.commute)
    then show "r = t div g * g" using le q by simp
  qed
qed

text \<open>C12: \<open>timer_calibrate\<close> refines \<open>loops_per_tick\<close> bit by bit but tests each bit only together with the highest one, not with
  the bits already accepted.  If \<open>T\<close> is the largest number of loops that fits into a tick, \<open>2 ^ k\<close> its highest bit and \<open>2 ^ m\<close>
  the next one that is set, every bit from \<open>2 ^ m\<close> down to the granularity \<open>2 ^ (k - 9)\<close> is accepted whatever \<open>T\<close> is below.  The
  calibration returns; its result is never less than \<open>T\<close> rounded down to the granularity, the value meant, and it is that value
  only if it does not exceed \<open>T\<close>.\<close>
theorem timer_calibrate_overshoots:
  assumes "if_flag s" "10 \<le> k" "k \<le> 30" "m < k" "k \<le> m + 9" "2 ^ k + 2 ^ m \<le> T" "T < 2 ^ k + 2 ^ Suc m"
  shows "\<exists>r. timer_calibrate (\<lambda>n. T < n) s = Some r \<and> r = 2 ^ k + 2 ^ Suc m - 2 ^ (k - 9) \<and>
    T div 2 ^ (k - 9) * 2 ^ (k - 9) \<le> r \<and> (r = T div 2 ^ (k - 9) * 2 ^ (k - 9) \<longleftrightarrow> r \<le> T)"
proof -
  let ?r = "2 ^ k + 2 ^ Suc m - 2 ^ (k - 9) :: nat"
  have "(2::nat) ^ Suc m \<le> 2 ^ k" using assms(4) by (intro power_increasing) simp_all
  then have "T < 2 ^ Suc k" using assms(7) by simp
  moreover have "\<not> T < 2 ^ i" if "i \<le> k" for i
    using assms(6) power_increasing [OF that, of "2::nat"] by linarith
  ultimately have d: "calibrate_double (\<lambda>n. T < n) (2 ^ 10) = Some (2 ^ k)" using assms(2,3) by (intro calibrate_double_power) auto
  have "(T < 2 ^ k + 2 ^ i) = (m < i)" if "i < k" for i
  proof (cases "m < i")
    case True
    then have "(2::nat) ^ Suc m \<le> 2 ^ i" by (intro power_increasing) simp_all
    then show ?thesis using assms(7) True by linarith
  next
    case False
    then have "(2::nat) ^ i \<le> 2 ^ m" by (intro power_increasing) simp_all
    then show ?thesis using assms(6) False by linarith
  qed
  then have "calibrate_refine (\<lambda>n. T < n) (2 ^ k) (2 ^ (k - 1)) (refined k m (k - 1)) = Some ?r"
    using assms(2,5) by (intro calibrate_refine_bits) auto
  moreover have "refined k m (k - 1) = 2 ^ k" using assms(4) by (simp add: refined_def)
  moreover have "(2::nat) ^ k div 2 = 2 ^ (k - 1)" using assms(2) by (cases k) simp_all
  ultimately have c: "timer_calibrate (\<lambda>n. T < n) s = Some ?r" using d assms(1) by (simp add: timer_calibrate_def intr_get_level_def)
  have e: "k - 9 \<le> Suc m" "k - 9 \<le> k" using assms(5) by simp_all
  have g: "(2::nat) ^ (k - 9) \<le> 2 ^ Suc m" "(2::nat) ^ (k - 9) dvd 2 ^ Suc m" "(2::nat) ^ (k - 9) dvd 2 ^ k"
    using power_increasing [OF e(1), of "2::nat"] le_imp_power_dvd [OF e(1), of "2::nat"] le_imp_power_dvd [OF e(2), of "2::nat"] by simp_all
  have "T < ?r + 2 ^ (k - 9)" "2 ^ (k - 9) dvd ?r" using assms(7) g by (auto intro!: dvd_diff_nat dvd_add)
  from multiple_below [OF this] have "T div 2 ^ (k - 9) * 2 ^ (k - 9) \<le> ?r" "?r = T div 2 ^ (k - 9) * 2 ^ (k - 9) \<longleftrightarrow> ?r \<le> T" by simp_all
  then show ?thesis using c by blast
qed

theorem timer_calibrate_overshoots_witness:
  "\<exists>r. timer_calibrate (\<lambda>n. 1536 < n) demo_kstate = Some r \<and> r = 2046 \<and> r \<noteq> 1536 div 2 * 2"
  using timer_calibrate_overshoots [of demo_kstate 10 9 1536] by (simp add: demo_defs)

end
