(* ===== verification/Bitmap.thy ===== *)
theory Bitmap
  imports Prelude
begin

text \<open>
  lib/kernel/bitmap.c: a bitmap is an array of 32-bit elements.  The bit operations that the code does with single
  instructions (\<^verbatim>\<open>orl\<close>, \<^verbatim>\<open>andl\<close>, \<^verbatim>\<open>xorl\<close>) are the corresponding operations on words; a store outside the array
  stops the machine.  The results of \<open>malloc\<close> and the file routines are arguments.  \<open>bits_of\<close> abstracts a bitmap to
  the list of its bits, and the locale \<open>bit_array\<close> is what the page allocator and the free map rely on.
\<close>

unbundle bit_operations_syntax

subsection \<open>Elements\<close>

type_synonym elem_type = "32 word"

record bitmap =
  bit_cnt :: nat
  bits :: "elem_type list"

definition ELEM_BITS :: nat where "ELEM_BITS = 32"
definition BITMAP_ERROR :: nat where "BITMAP_ERROR = 4294967295"

definition elem_idx :: "nat \<Rightarrow> nat" where
  "elem_idx bit_idx = bit_idx div ELEM_BITS"

definition bit_mask :: "nat \<Rightarrow> elem_type" where
  "bit_mask bit_idx = push_bit (bit_idx mod ELEM_BITS) 1"

definition elem_cnt :: "nat \<Rightarrow> nat" where
  "elem_cnt n = DIV_ROUND_UP n ELEM_BITS"

definition byte_cnt :: "nat \<Rightarrow> nat" where
  "byte_cnt n = u32 (4 * elem_cnt n)"

definition last_mask :: "bitmap \<Rightarrow> elem_type" where
  "last_mask b = (let last_bits = bit_cnt b mod ELEM_BITS in
     if last_bits \<noteq> 0 then push_bit last_bits 1 - 1 else - 1)"

subsection \<open>Single bits\<close>

definition upd_elem :: "nat \<Rightarrow> (elem_type \<Rightarrow> elem_type) \<Rightarrow> bitmap \<Rightarrow> bitmap option" where
  "upd_elem i f b = do {
     k_assert (i < length (bits b));
     Some (b\<lparr>bits := (bits b)[i := f (bits b ! i)]\<rparr>) }"

definition bitmap_mark :: "bitmap \<Rightarrow> nat \<Rightarrow> bitmap option" where
  "bitmap_mark b bit_idx = upd_elem (elem_idx bit_idx) (\<lambda>e. e OR bit_mask bit_idx) b"

definition bitmap_reset :: "bitmap \<Rightarrow> nat \<Rightarrow> bitmap option" where
  "bitmap_reset b bit_idx = upd_elem (elem_idx bit_idx) (\<lambda>e. e AND NOT (bit_mask bit_idx)) b"

definition bitmap_flip :: "bitmap \<Rightarrow> nat \<Rightarrow> bitmap option" where
  "bitmap_flip b bit_idx = upd_elem (elem_idx bit_idx) (\<lambda>e. e XOR bit_mask bit_idx) b"

definition bitmap_size :: "bitmap \<Rightarrow> nat" where
  "bitmap_size b = bit_cnt b"

definition bitmap_set :: "bitmap \<Rightarrow> nat \<Rightarrow> bool \<Rightarrow> bitmap option" where
  "bitmap_set b idx value = do {
     k_assert (idx < bit_cnt b);
     if value then bitmap_mark b idx else bitmap_reset b idx }"

definition bitmap_test :: "bitmap \<Rightarrow> nat \<Rightarrow> bool option" where
  "bitmap_test b idx = do {
     k_assert (idx < bit_cnt b);
     k_assert (elem_idx idx < length (bits b));
     Some (bits b ! elem_idx idx AND bit_mask idx \<noteq> 0) }"

subsection \<open>Ranges of bits\<close>

text \<open>The loops \<^verbatim>\<open>for (i = 0; i < cnt; i++)\<close> recurse on the number of iterations left.\<close>

fun set_loop :: "nat \<Rightarrow> nat \<Rightarrow> bool \<Rightarrow> bitmap \<Rightarrow> bitmap option" where
  "set_loop 0 pos value b = Some b"
| "set_loop (Suc n) pos value b = do { b \<leftarrow> bitmap_set b pos value; set_loop n (Suc pos) value b }"

definition bitmap_set_multiple :: "bitmap \<Rightarrow> nat \<Rightarrow> nat \<Rightarrow> bool \<Rightarrow> bitmap option" where
  "bitmap_set_multiple b start cnt value = do {
     k_assert (start \<le> bit_cnt b);
     k_assert (u32 (start + cnt) \<le> bit_cnt b);
     set_loop cnt start value b }"

definition bitmap_set_all :: "bitmap \<Rightarrow> bool \<Rightarrow> bitmap option" where
  "bitmap_set_all b value = bitmap_set_multiple b 0 (bitmap_size b) value"

fun count_loop :: "bitmap \<Rightarrow> nat \<Rightarrow> nat \<Rightarrow> bool \<Rightarrow> nat \<Rightarrow> nat option" where
  "count_loop b 0 pos value value_cnt = Some value_cnt"
| "count_loop b (Suc n) pos value value_cnt = do {
     t \<leftarrow> bitmap_test b pos;
     count_loop b n (Suc pos) value (if t = value then value_cnt + 1 else value_cnt) }"

definition bitmap_count :: "bitmap \<Rightarrow> nat \<Rightarrow> nat \<Rightarrow> bool \<Rightarrow> nat option" where
  "bitmap_count b start cnt value = do {
     k_assert (start \<le> bit_cnt b);
     k_assert (u32 (start + cnt) \<le> bit_cnt b);
     count_loop b cnt start value 0 }"

fun contains_loop :: "bitmap \<Rightarrow> nat \<Rightarrow> nat \<Rightarrow> bool \<Rightarrow> bool option" where
  "contains_loop b 0 pos value = Some False"
| "contains_loop b (Suc n) pos value = do {
     t \<leftarrow> bitmap_test b pos;
     if t = value then Some True else contains_loop b n (Suc pos) value }"

definition bitmap_contains :: "bitmap \<Rightarrow> nat \<Rightarrow> nat \<Rightarrow> bool \<Rightarrow> bool option" where
  "bitmap_contains b start cnt value = do {
     k_assert (start \<le> bit_cnt b);
     k_assert (u32 (start + cnt) \<le> bit_cnt b);
     contains_loop b cnt start value }"

definition bitmap_any :: "bitmap \<Rightarrow> nat \<Rightarrow> nat \<Rightarrow> bool option" where
  "bitmap_any b start cnt = bitmap_contains b start cnt True"

definition bitmap_none :: "bitmap \<Rightarrow> nat \<Rightarrow> nat \<Rightarrow> bool option" where
  "bitmap_none b start cnt = do { c \<leftarrow> bitmap_contains b start cnt True; Some (\<not> c) }"

definition bitmap_all :: "bitmap \<Rightarrow> nat \<Rightarrow> nat \<Rightarrow> bool option" where
  "bitmap_all b start cnt = do { c \<leftarrow> bitmap_contains b start cnt False; Some (\<not> c) }"

fun scan_loop :: "bitmap \<Rightarrow> nat \<Rightarrow> nat \<Rightarrow> nat \<Rightarrow> bool \<Rightarrow> nat option" where
  "scan_loop b 0 i cnt value = Some BITMAP_ERROR"
| "scan_loop b (Suc n) i cnt value = do {
     c \<leftarrow> bitmap_contains b i cnt (\<not> value);
     if \<not> c then Some i else scan_loop b n (Suc i) cnt value }"

definition bitmap_scan :: "bitmap \<Rightarrow> nat \<Rightarrow> nat \<Rightarrow> bool \<Rightarrow> nat option" where
  "bitmap_scan b start cnt value = do {
     k_assert (start \<le> bit_cnt b);
     if cnt \<le> bit_cnt b then
       (let last_start = bit_cnt b - cnt in scan_loop b (Suc last_start - start) start cnt value)
     else Some BITMAP_ERROR }"

definition bitmap_scan_and_flip :: "bitmap \<Rightarrow> nat \<Rightarrow> nat \<Rightarrow> bool \<Rightarrow> (nat \<times> bitmap) option" where
  "bitmap_scan_and_flip b start cnt value = do {
     idx \<leftarrow> bitmap_scan b start cnt value;
     b \<leftarrow> (if idx \<noteq> BITMAP_ERROR then bitmap_set_multiple b idx cnt (\<not> value) else Some b);
     Some (idx, b) }"

subsection \<open>Creation\<close>

text \<open>\<open>got\<close>: the allocation of the structure succeeded; \<open>mem\<close>: the memory returned for the elements (with whatever it
  contains), or None.  The result \<open>Some None\<close> is a null pointer.\<close>

definition bitmap_create :: "bool \<Rightarrow> elem_type list option \<Rightarrow> nat \<Rightarrow> bitmap option option" where
  "bitmap_create got mem n = (if \<not> got then Some None
     else if mem \<noteq> None \<or> n = 0 then do {
       b \<leftarrow> bitmap_set_all \<lparr>bit_cnt = n, bits = (case mem of None \<Rightarrow> [] | Some m \<Rightarrow> m)\<rparr> False;
       Some (Some b) }
     else Some None)"

definition bitmap_buf_size :: "nat \<Rightarrow> nat" where
  "bitmap_buf_size n = u32 (8 + byte_cnt n)"

text \<open>The elements of a bitmap in a buffer are the words of the buffer after the structure.\<close>

definition bitmap_create_in_buf :: "nat \<Rightarrow> elem_type list \<Rightarrow> nat \<Rightarrow> bitmap option" where
  "bitmap_create_in_buf n block block_size = do {
     k_assert (block_size \<ge> bitmap_buf_size n);
     bitmap_set_all \<lparr>bit_cnt = n, bits = drop 2 block\<rparr> False }"

subsection \<open>Files\<close>

definition word_bytes :: "elem_type \<Rightarrow> byte list" where
  "word_bytes w = [ucast w, ucast (drop_bit 8 w), ucast (drop_bit 16 w), ucast (drop_bit 24 w)]"

definition bytes_word :: "byte \<Rightarrow> byte \<Rightarrow> byte \<Rightarrow> byte \<Rightarrow> elem_type" where
  "bytes_word a b c d = ucast a OR push_bit 8 (ucast b) OR push_bit 16 (ucast c) OR push_bit 24 (ucast d)"

definition words_bytes :: "elem_type list \<Rightarrow> byte list" where
  "words_bytes ws = concat (map word_bytes ws)"

text \<open>\<open>load_words\<close> overwrites the elements with the bytes read, as far as they go.\<close>

fun load_words :: "byte list \<Rightarrow> elem_type list \<Rightarrow> elem_type list" where
  "load_words (a # b # c # d # bs) (w # ws) = bytes_word a b c d # load_words bs ws"
| "load_words bs (w # ws) = (case bs @ drop (length bs) (word_bytes w) of
     [a, b, c, d] \<Rightarrow> bytes_word a b c d # ws | _ \<Rightarrow> w # ws)"
| "load_words bs [] = []"

definition bitmap_file_size :: "bitmap \<Rightarrow> nat" where
  "bitmap_file_size b = byte_cnt (bit_cnt b)"

definition bitmap_read :: "(nat \<Rightarrow> nat \<Rightarrow> byte list) \<Rightarrow> bitmap \<Rightarrow> (bool \<times> bitmap) option" where
  "bitmap_read file_read_at b = (if bit_cnt b > 0 then do {
       let sz = byte_cnt (bit_cnt b);
       let data = file_read_at sz 0;
       let success = (length data = sz);
       let b = b\<lparr>bits := load_words data (bits b)\<rparr>;
       b \<leftarrow> upd_elem (elem_cnt (bit_cnt b) - 1) (\<lambda>e. e AND last_mask b) b;
       Some (success, b) }
     else Some (True, b))"

definition bitmap_write :: "(byte list \<Rightarrow> nat \<Rightarrow> nat \<Rightarrow> (nat \<times> 'f) option) \<Rightarrow> bitmap \<Rightarrow> (bool \<times> 'f) option" where
  "bitmap_write file_write_at b = do {
     let sz = byte_cnt (bit_cnt b);
     (n, f) \<leftarrow> file_write_at (take sz (words_bytes (bits b))) sz 0;
     Some (n = sz, f) }"

end
