(* ===== verification/Vaddr.thy ===== *)
theory Vaddr
  imports Prelude
begin

text \<open>
  threads/vaddr.h and threads/pte.h: virtual addresses and page table entries.  Addresses are natural numbers below
  \<open>2\<^sup>3\<^sup>2\<close>, entries are 32-bit words.
\<close>

unbundle bit_operations_syntax

subsection \<open>Addresses\<close>

definition PGBITS :: nat where "PGBITS = 12"
definition PGMASK :: nat where "PGMASK = 0xFFF"
definition PHYS_BASE :: addr where "PHYS_BASE = 0xC0000000"

definition pg_ofs :: "addr \<Rightarrow> nat" where
  "pg_ofs va = va AND PGMASK"

definition pg_no :: "addr \<Rightarrow> nat" where
  "pg_no va = drop_bit PGBITS va"

text \<open>\<^verbatim>\<open>~PGMASK\<close> on 32 bits.\<close>

definition pg_round_up :: "addr \<Rightarrow> addr" where
  "pg_round_up va = u32 (va + PGSIZE - 1) AND 0xFFFFF000"

definition pg_round_down :: "addr \<Rightarrow> addr" where
  "pg_round_down va = va AND 0xFFFFF000"

definition is_user_vaddr :: "addr \<Rightarrow> bool" where
  "is_user_vaddr vaddr = (vaddr < PHYS_BASE)"

definition is_kernel_vaddr :: "addr \<Rightarrow> bool" where
  "is_kernel_vaddr vaddr = (vaddr \<ge> PHYS_BASE)"

definition ptov :: "nat \<Rightarrow> addr option" where
  "ptov paddr = do {
     k_assert (paddr < PHYS_BASE);
     Some (u32 (paddr + PHYS_BASE)) }"

definition vtop :: "addr \<Rightarrow> nat option" where
  "vtop vaddr = do {
     k_assert (is_kernel_vaddr vaddr);
     Some (vaddr - PHYS_BASE) }"

subsection \<open>Page table entries\<close>

type_synonym pte = "32 word"

definition PTBITS :: nat where "PTBITS = 10"
definition PTSHIFT :: nat where "PTSHIFT = PGBITS"
definition PTMASK :: nat where "PTMASK = 0x3FF000"
definition PDSHIFT :: nat where "PDSHIFT = PTSHIFT + PTBITS"

definition pt_no :: "addr \<Rightarrow> nat" where
  "pt_no va = drop_bit PTSHIFT (va AND PTMASK)"

definition pd_no :: "addr \<Rightarrow> nat" where
  "pd_no va = drop_bit PDSHIFT va"

definition PTE_ADDR :: pte where "PTE_ADDR = 0xFFFFF000"
definition PTE_P :: pte where "PTE_P = 0x1"
definition PTE_W :: pte where "PTE_W = 0x2"
definition PTE_U :: pte where "PTE_U = 0x4"
definition PTE_A :: pte where "PTE_A = 0x20"
definition PTE_D :: pte where "PTE_D = 0x40"

lemmas pte_flags = PTE_P_def PTE_W_def PTE_U_def PTE_A_def PTE_D_def

definition pde_create :: "addr \<Rightarrow> pte option" where
  "pde_create pt = do {
     k_assert (pg_ofs pt = 0);
     p \<leftarrow> vtop pt;
     Some (of_nat p OR PTE_U OR PTE_P OR PTE_W) }"

definition pde_get_pt :: "pte \<Rightarrow> addr option" where
  "pde_get_pt pde = do {
     k_assert (pde AND PTE_P \<noteq> 0);
     ptov (unat (pde AND PTE_ADDR)) }"

definition pte_create_kernel :: "addr \<Rightarrow> bool \<Rightarrow> pte option" where
  "pte_create_kernel page writable = do {
     k_assert (pg_ofs page = 0);
     p \<leftarrow> vtop page;
     Some (of_nat p OR PTE_P OR (if writable then PTE_W else 0)) }"

definition pte_create_user :: "addr \<Rightarrow> bool \<Rightarrow> pte option" where
  "pte_create_user page writable = do {
     e \<leftarrow> pte_create_kernel page writable;
     Some (e OR PTE_U) }"

definition pte_get_page :: "pte \<Rightarrow> addr option" where
  "pte_get_page p = ptov (unat (p AND PTE_ADDR))"

subsection \<open>Arithmetic of page numbers and offsets\<close>

lemma pg_ofs_mod: "pg_ofs va = va mod PGSIZE"
proof -
  have "PGMASK = mask 12" by (simp add: PGMASK_def mask_eq_exp_minus_1)
  then have "pg_ofs va = take_bit 12 va" by (simp only: pg_ofs_def take_bit_eq_mask)
  then show ?thesis by (simp add: PGSIZE_def take_bit_eq_mod)
qed

lemma pg_no_div: "pg_no va = va div PGSIZE"
  by (simp add: pg_no_def PGBITS_def PGSIZE_def drop_bit_eq_div)

lemma pd_no_div: "pd_no va = va div 4194304"
  by (simp add: pd_no_def PDSHIFT_def PTSHIFT_def PTBITS_def PGBITS_def drop_bit_eq_div)

lemma and_high:
  assumes "va < 2 ^ 32"
  shows "va AND 0xFFFFF000 = va div 4096 * (4096 :: nat)"
proof (rule bit_eqI)
  fix n
  have m: "(0xFFFFF000 :: nat) = push_bit 12 (mask 20)" by (simp add: mask_eq_exp_minus_1 push_bit_eq_mult)
  have b: "\<not> bit va n" if "32 \<le> n"
  proof -
    have "va < 2 ^ n" using assms that by (meson less_le_trans one_le_numeral power_increasing)
    then show ?thesis by (simp add: bit_iff_odd)
  qed
  have "va div 4096 * 4096 = push_bit 12 (drop_bit 12 va)" by (simp add: push_bit_eq_mult drop_bit_eq_div)
  then show "bit (va AND 0xFFFFF000) n = bit (va div 4096 * 4096) n"
    unfolding m using b
    by (cases "n < 12"; cases "n < 32") (auto simp: bit_and_iff bit_push_bit_iff bit_drop_bit_eq bit_mask_iff not_less)
qed

lemma pg_round_down_eq: "va < 2 ^ 32 \<Longrightarrow> pg_round_down va = va div PGSIZE * PGSIZE"
  by (simp add: pg_round_down_def and_high PGSIZE_def)

lemma pg_round_up_eq: "va + PGSIZE \<le> 2 ^ 32 \<Longrightarrow> pg_round_up va = (va + PGSIZE - 1) div PGSIZE * PGSIZE"
  by (simp add: pg_round_up_def and_high PGSIZE_def)

lemma pt_no_div: "pt_no va = va div 4096 mod 1024"
proof -
  have m: "PTMASK = push_bit 12 (mask 10)" by (simp add: PTMASK_def mask_eq_exp_minus_1 push_bit_eq_mult)
  have "drop_bit 12 (va AND push_bit 12 (mask 10)) = take_bit 10 (drop_bit 12 va)"
    by (rule bit_eqI) (auto simp: bit_and_iff bit_push_bit_iff bit_drop_bit_eq bit_mask_iff bit_take_bit_iff)
  then show ?thesis by (simp add: pt_no_def m PTSHIFT_def PGBITS_def take_bit_eq_mod drop_bit_eq_div)
qed

text \<open>The two indices determine the page.\<close>

lemma same_page: "pg_no a = pg_no b \<longleftrightarrow> pd_no a = pd_no b \<and> pt_no a = pt_no b"
proof -
  have d: "x div 4194304 = x div 4096 div 1024" for x :: nat by (simp add: div_mult2_eq [symmetric])
  show ?thesis unfolding pg_no_div PGSIZE_def pd_no_div pt_no_div d by (metis div_mult_mod_eq)
qed

end
