(* ===== verification/Cstring.thy ===== *)
theory Cstring
  imports Prelude
begin

text \<open>
  lib/string.c over a byte memory.  A memory maps addresses to bytes.  Loops that end at a null byte are partial functions
  whose value None is a loop that never ends; loops that count \<open>sz\<close> (\<^verbatim>\<open>size\<close>) down recurse on it.  The variable behind
  \<^verbatim>\<open>save_ptr\<close> is passed in and returned.
\<close>

subsection \<open>Blocks\<close>

fun memcpy_loop :: "nat \<Rightarrow> addr \<Rightarrow> addr \<Rightarrow> memory \<Rightarrow> addr \<times> memory" where
  "memcpy_loop 0 dst src m = (dst, m)"
| "memcpy_loop (Suc sz) dst src m = memcpy_loop sz (dst + 1) (src + 1) (m(dst := m src))"

definition memcpy :: "addr \<Rightarrow> addr \<Rightarrow> nat \<Rightarrow> memory \<Rightarrow> (addr \<times> memory) option" where
  "memcpy dst src sz m = do {
     k_assert (dst \<noteq> NULL \<or> sz = 0);
     k_assert (src \<noteq> NULL \<or> sz = 0);
     let (_, m) = memcpy_loop sz dst src m;
     Some (dst, m) }"

fun memmove_down :: "nat \<Rightarrow> addr \<Rightarrow> addr \<Rightarrow> memory \<Rightarrow> addr \<times> memory" where
  "memmove_down 0 dst src m = (dst, m)"
| "memmove_down (Suc sz) dst src m = memmove_down sz (dst - 1) (src - 1) (m(dst - 1 := m (src - 1)))"

definition memmove :: "addr \<Rightarrow> addr \<Rightarrow> nat \<Rightarrow> memory \<Rightarrow> (addr \<times> memory) option" where
  "memmove dst src sz m = do {
     k_assert (dst \<noteq> NULL \<or> sz = 0);
     k_assert (src \<noteq> NULL \<or> sz = 0);
     Some (if dst < src then memcpy_loop sz dst src m
           else memmove_down sz (dst + sz) (src + sz) m) }"

fun memcmp_loop :: "nat \<Rightarrow> addr \<Rightarrow> addr \<Rightarrow> memory \<Rightarrow> int" where
  "memcmp_loop 0 a b m = 0"
| "memcmp_loop (Suc sz) a b m =
     (if m a \<noteq> m b then (if m a > m b then 1 else -1) else memcmp_loop sz (a + 1) (b + 1) m)"

definition memcmp :: "addr \<Rightarrow> addr \<Rightarrow> nat \<Rightarrow> memory \<Rightarrow> int option" where
  "memcmp a b sz m = do {
     k_assert (a \<noteq> NULL \<or> sz = 0);
     k_assert (b \<noteq> NULL \<or> sz = 0);
     Some (memcmp_loop sz a b m) }"

fun memchr_loop :: "nat \<Rightarrow> addr \<Rightarrow> byte \<Rightarrow> memory \<Rightarrow> addr" where
  "memchr_loop 0 block ch m = NULL"
| "memchr_loop (Suc sz) block ch m = (if m block = ch then block else memchr_loop sz (block + 1) ch m)"

definition memchr :: "addr \<Rightarrow> int \<Rightarrow> nat \<Rightarrow> memory \<Rightarrow> addr option" where
  "memchr block ch sz m = do {
     k_assert (block \<noteq> NULL \<or> sz = 0);
     Some (memchr_loop sz block (of_int ch) m) }"

fun memset_loop :: "nat \<Rightarrow> addr \<Rightarrow> byte \<Rightarrow> memory \<Rightarrow> memory" where
  "memset_loop 0 dst v m = m"
| "memset_loop (Suc sz) dst v m = memset_loop sz (dst + 1) v (m(dst := v))"

definition memset :: "addr \<Rightarrow> int \<Rightarrow> nat \<Rightarrow> memory \<Rightarrow> memory option" where
  "memset dst v sz m = do {
     k_assert (dst \<noteq> NULL \<or> sz = 0);
     Some (memset_loop sz dst (of_int v) m) }"

subsection \<open>Strings\<close>

partial_function (option) strlen_loop :: "memory \<Rightarrow> addr \<Rightarrow> addr option" where
  "strlen_loop m p = (if m p \<noteq> 0 then strlen_loop m (p + 1) else Some p)"

definition strlen :: "memory \<Rightarrow> addr \<Rightarrow> nat option" where
  "strlen m string = do {
     k_assert (string \<noteq> NULL);
     p \<leftarrow> strlen_loop m string;
     Some (p - string) }"

partial_function (option) strnlen_loop :: "memory \<Rightarrow> addr \<Rightarrow> nat \<Rightarrow> nat \<Rightarrow> nat option" where
  "strnlen_loop m string maxlen n =
     (if m (string + n) \<noteq> 0 \<and> n < maxlen then strnlen_loop m string maxlen (n + 1) else Some n)"

definition strnlen :: "memory \<Rightarrow> addr \<Rightarrow> nat \<Rightarrow> nat option" where
  "strnlen m string maxlen = strnlen_loop m string maxlen 0"

partial_function (option) strcmp_loop :: "memory \<Rightarrow> addr \<Rightarrow> addr \<Rightarrow> (addr \<times> addr) option" where
  "strcmp_loop m a b = (if m a \<noteq> 0 \<and> m a = m b then strcmp_loop m (a + 1) (b + 1) else Some (a, b))"

definition strcmp :: "memory \<Rightarrow> addr \<Rightarrow> addr \<Rightarrow> int option" where
  "strcmp m a b = do {
     k_assert (a \<noteq> NULL);
     k_assert (b \<noteq> NULL);
     (a, b) \<leftarrow> strcmp_loop m a b;
     Some (if m a < m b then -1 else if m a > m b then 1 else 0) }"

partial_function (option) strchr_loop :: "memory \<Rightarrow> addr \<Rightarrow> byte \<Rightarrow> addr option" where
  "strchr_loop m string c = (if m string = c then Some string
     else if m string = 0 then Some NULL
     else strchr_loop m (string + 1) c)"

definition strchr :: "memory \<Rightarrow> addr \<Rightarrow> byte \<Rightarrow> addr option" where
  "strchr m string c = do {
     k_assert (string \<noteq> NULL);
     strchr_loop m string c }"

partial_function (option) strcspn_loop :: "memory \<Rightarrow> addr \<Rightarrow> addr \<Rightarrow> nat \<Rightarrow> nat option" where
  "strcspn_loop m string stop n = (if m (string + n) \<noteq> 0 then do {
       p \<leftarrow> strchr m stop (m (string + n));
       if p \<noteq> NULL then Some n else strcspn_loop m string stop (n + 1) }
     else Some n)"

definition strcspn :: "memory \<Rightarrow> addr \<Rightarrow> addr \<Rightarrow> nat option" where
  "strcspn m string stop = strcspn_loop m string stop 0"

partial_function (option) strpbrk :: "memory \<Rightarrow> addr \<Rightarrow> addr \<Rightarrow> addr option" where
  "strpbrk m string stop = (if m string \<noteq> 0 then do {
       p \<leftarrow> strchr m stop (m string);
       if p \<noteq> NULL then Some string else strpbrk m (string + 1) stop }
     else Some NULL)"

partial_function (option) strrchr_loop :: "memory \<Rightarrow> addr \<Rightarrow> byte \<Rightarrow> addr \<Rightarrow> addr option" where
  "strrchr_loop m string c p = (if m string \<noteq> 0
     then strrchr_loop m (string + 1) c (if m string = c then string else p)
     else Some p)"

definition strrchr :: "memory \<Rightarrow> addr \<Rightarrow> byte \<Rightarrow> addr option" where
  "strrchr m string c = strrchr_loop m string c NULL"

partial_function (option) strspn_loop :: "memory \<Rightarrow> addr \<Rightarrow> addr \<Rightarrow> nat \<Rightarrow> nat option" where
  "strspn_loop m string skip n = (if m (string + n) \<noteq> 0 then do {
       p \<leftarrow> strchr m skip (m (string + n));
       if p = NULL then Some n else strspn_loop m string skip (n + 1) }
     else Some n)"

definition strspn :: "memory \<Rightarrow> addr \<Rightarrow> addr \<Rightarrow> nat option" where
  "strspn m string skip = strspn_loop m string skip 0"

fun strstr_loop :: "memory \<Rightarrow> addr \<Rightarrow> addr \<Rightarrow> nat \<Rightarrow> nat \<Rightarrow> nat \<Rightarrow> addr option" where
  "strstr_loop m haystack needle needle_len 0 i = Some NULL"
| "strstr_loop m haystack needle needle_len (Suc n) i = do {
     c \<leftarrow> memcmp (haystack + i) needle needle_len m;
     if c = 0 then Some (haystack + i) else strstr_loop m haystack needle needle_len n (i + 1) }"

definition strstr :: "memory \<Rightarrow> addr \<Rightarrow> addr \<Rightarrow> addr option" where
  "strstr m haystack needle = do {
     haystack_len \<leftarrow> strlen m haystack;
     needle_len \<leftarrow> strlen m needle;
     if haystack_len \<ge> needle_len
     then strstr_loop m haystack needle needle_len (Suc (haystack_len - needle_len)) 0
     else Some NULL }"

subsection \<open>Tokens\<close>

text \<open>The result of \<open>skip_delims\<close> is the position and whether the end of the string was reached.\<close>

partial_function (option) skip_delims :: "memory \<Rightarrow> addr \<Rightarrow> addr \<Rightarrow> (addr \<times> bool) option" where
  "skip_delims m delimiters s = do {
     p \<leftarrow> strchr m delimiters (m s);
     if p \<noteq> NULL then (if m s = 0 then Some (s, True) else skip_delims m delimiters (s + 1))
     else Some (s, False) }"

partial_function (option) skip_token :: "memory \<Rightarrow> addr \<Rightarrow> addr \<Rightarrow> addr option" where
  "skip_token m delimiters s = do {
     p \<leftarrow> strchr m delimiters (m s);
     if p = NULL then skip_token m delimiters (s + 1) else Some s }"

definition strtok_r :: "addr \<Rightarrow> addr \<Rightarrow> addr \<Rightarrow> memory \<Rightarrow> (addr \<times> addr \<times> memory) option" where
  "strtok_r s delimiters save_ptr m = do {
     k_assert (delimiters \<noteq> NULL);
     let s = (if s = NULL then save_ptr else s);
     k_assert (s \<noteq> NULL);
     (s, finished) \<leftarrow> skip_delims m delimiters s;
     if finished then Some (NULL, s, m)
     else do {
       let token = s;
       s \<leftarrow> skip_token m delimiters s;
       if m s \<noteq> 0 then Some (token, s + 1, m(s := 0))
       else Some (token, s, m) } }"

subsection \<open>Copying strings\<close>

definition strlcpy :: "addr \<Rightarrow> addr \<Rightarrow> nat \<Rightarrow> memory \<Rightarrow> (nat \<times> memory) option" where
  "strlcpy dst src sz m = do {
     k_assert (dst \<noteq> NULL);
     k_assert (src \<noteq> NULL);
     src_len \<leftarrow> strlen m src;
     if sz > 0 then do {
       let dst_len = (if src_len < sz - 1 then src_len else sz - 1);
       (_, m) \<leftarrow> memcpy dst src dst_len m;
       Some (src_len, m(dst + dst_len := 0)) }
     else Some (src_len, m) }"

definition strlcat :: "addr \<Rightarrow> addr \<Rightarrow> nat \<Rightarrow> memory \<Rightarrow> (nat \<times> memory) option" where
  "strlcat dst src sz m = do {
     k_assert (dst \<noteq> NULL);
     k_assert (src \<noteq> NULL);
     src_len \<leftarrow> strlen m src;
     dst_len \<leftarrow> strlen m dst;
     if sz > 0 \<and> dst_len < sz then do {
       let copy_cnt = sz - dst_len - 1;
       let copy_cnt = (if src_len < copy_cnt then src_len else copy_cnt);
       (_, m) \<leftarrow> memcpy (dst + dst_len) src copy_cnt m;
       Some (src_len + dst_len, m(dst + dst_len + copy_cnt := 0)) }
     else Some (src_len + dst_len, m) }"

end
