(* ===== verification/Palloc.thy ===== *)
theory Palloc
  imports Bitmap Vaddr Cstring
begin

text \<open>
  threads/palloc.c: the page allocator.  A pool has its bitmap and its base; the bitmap, which the code keeps in the first
  pages of the pool, is a component of the pool here.  The pool's lock is a flag that says whether the running thread
  holds it: the calls are those of one thread, and the lock itself is the subject of the synchronisation theories.
\<close>

subsection \<open>Words in memory\<close>

definition ld32 :: "memory \<Rightarrow> addr \<Rightarrow> 32 word" where
  "ld32 m a = bytes_word (m a) (m (a + 1)) (m (a + 2)) (m (a + 3))"

definition st32 :: "addr \<Rightarrow> 32 word \<Rightarrow> memory \<Rightarrow> memory" where
  "st32 a w m = m(a := ucast w, a + 1 := ucast (drop_bit 8 w), a + 2 := ucast (drop_bit 16 w), a + 3 := ucast (drop_bit 24 w))"

subsection \<open>Pools\<close>

record pool =
  lock :: bool
  used_map :: bitmap
  base :: addr

record palloc_state =
  kernel_pool :: pool
  user_pool :: pool
  pmem :: memory

definition PAL_ASSERT :: nat where "PAL_ASSERT = 1"
definition PAL_ZERO :: nat where "PAL_ZERO = 2"
definition PAL_USER :: nat where "PAL_USER = 4"

text \<open>\<open>lock_acquire\<close> and \<open>lock_release\<close> check that the running thread does not, or does, hold the lock.\<close>

definition pool_acquire :: "pool \<Rightarrow> pool option" where
  "pool_acquire p = do { k_assert (\<not> lock p); Some (p\<lparr>lock := True\<rparr>) }"

definition pool_release :: "pool \<Rightarrow> pool option" where
  "pool_release p = do { k_assert (lock p); Some (p\<lparr>lock := False\<rparr>) }"

definition init_pool :: "memory \<Rightarrow> addr \<Rightarrow> nat \<Rightarrow> pool option" where
  "init_pool m start page_cnt = do {
     let bm_pages = DIV_ROUND_UP (bitmap_buf_size page_cnt) PGSIZE;
     k_assert (\<not> bm_pages > page_cnt);
     let page_cnt = page_cnt - bm_pages;
     let block = map (\<lambda>i. ld32 m (start + 4 * i)) [0..<bm_pages * (PGSIZE div 4)];
     um \<leftarrow> bitmap_create_in_buf page_cnt block (bm_pages * PGSIZE);
     Some \<lparr>lock = False, used_map = um, base = u32 (start + bm_pages * PGSIZE)\<rparr> }"

definition page_from_pool :: "pool \<Rightarrow> addr \<Rightarrow> bool" where
  "page_from_pool p page = (let page_no = pg_no page;
       start_page = pg_no (base p);
       end_page = u32 (start_page + bitmap_size (used_map p))
     in page_no \<ge> start_page \<and> page_no < end_page)"

definition palloc_init :: "nat \<Rightarrow> nat \<Rightarrow> memory \<Rightarrow> palloc_state option" where
  "palloc_init init_ram_pages user_page_limit m = do {
     free_start \<leftarrow> ptov (1024 * 1024);
     free_end \<leftarrow> ptov (u32 (init_ram_pages * PGSIZE));
     let free_pages = u32 (free_end + 2 ^ 32 - free_start) div PGSIZE;
     let user_pages = free_pages div 2;
     let user_pages = (if user_pages > user_page_limit then user_page_limit else user_pages);
     let kernel_pages = free_pages - user_pages;
     kp \<leftarrow> init_pool m free_start kernel_pages;
     up \<leftarrow> init_pool m (u32 (free_start + kernel_pages * PGSIZE)) user_pages;
     Some \<lparr>kernel_pool = kp, user_pool = up, pmem = m\<rparr> }"

text \<open>The pool that a pointer of the code stands for.\<close>

definition get_pool :: "bool \<Rightarrow> palloc_state \<Rightarrow> pool" where
  "get_pool user s = (if user then user_pool s else kernel_pool s)"

definition set_pool :: "bool \<Rightarrow> pool \<Rightarrow> palloc_state \<Rightarrow> palloc_state" where
  "set_pool user p s = (if user then s\<lparr>user_pool := p\<rparr> else s\<lparr>kernel_pool := p\<rparr>)"

definition palloc_get_multiple :: "nat \<Rightarrow> nat \<Rightarrow> palloc_state \<Rightarrow> (addr \<times> palloc_state) option" where
  "palloc_get_multiple flags page_cnt s = (if page_cnt = 0 then Some (NULL, s) else do {
     let user = (flags AND PAL_USER \<noteq> 0);
     p \<leftarrow> pool_acquire (get_pool user s);
     (page_idx, um) \<leftarrow> bitmap_scan_and_flip (used_map p) 0 page_cnt False;
     p \<leftarrow> pool_release (p\<lparr>used_map := um\<rparr>);
     let s = set_pool user p s;
     let pages = (if page_idx \<noteq> BITMAP_ERROR then u32 (base p + PGSIZE * page_idx) else NULL);
     if pages \<noteq> NULL then do {
       m \<leftarrow> (if flags AND PAL_ZERO \<noteq> 0 then memset pages 0 (u32 (PGSIZE * page_cnt)) (pmem s) else Some (pmem s));
       Some (pages, s\<lparr>pmem := m\<rparr>) }
     else do {
       k_assert (\<not> flags AND PAL_ASSERT \<noteq> 0);
       Some (pages, s) } })"

definition palloc_get_page :: "nat \<Rightarrow> palloc_state \<Rightarrow> (addr \<times> palloc_state) option" where
  "palloc_get_page flags s = palloc_get_multiple flags 1 s"

definition palloc_free_multiple :: "addr \<Rightarrow> nat \<Rightarrow> palloc_state \<Rightarrow> palloc_state option" where
  "palloc_free_multiple pages page_cnt s = do {
     k_assert (pg_ofs pages = 0);
     if pages = NULL \<or> page_cnt = 0 then Some s else do {
       k_assert (page_from_pool (kernel_pool s) pages \<or> page_from_pool (user_pool s) pages);
       let user = (\<not> page_from_pool (kernel_pool s) pages);
       let p = get_pool user s;
       let page_idx = pg_no pages - pg_no (base p);
       m \<leftarrow> memset pages 0xCC (u32 (PGSIZE * page_cnt)) (pmem s);
       all \<leftarrow> bitmap_all (used_map p) page_idx page_cnt;
       k_assert all;
       um \<leftarrow> bitmap_set_multiple (used_map p) page_idx page_cnt False;
       Some (set_pool user (p\<lparr>used_map := um\<rparr>) (s\<lparr>pmem := m\<rparr>)) } }"

definition palloc_free_page :: "addr \<Rightarrow> palloc_state \<Rightarrow> palloc_state option" where
  "palloc_free_page page s = palloc_free_multiple page 1 s"

end
