(* ===== verification/Pagedir.thy ===== *)
theory Pagedir
  imports Palloc
begin

text \<open>
  userprog/pagedir.c: two-level page tables in the memory of the page allocator.  The processor's part is the register
  CR3 and the translations it has cached; a write to CR3 empties the cache.
\<close>

record mmu =
  pal :: palloc_state
  init_page_dir :: addr
  init_ram_pages :: nat
  cr3 :: nat
  tlb :: "(addr \<times> pte) list"

definition rd32 :: "mmu \<Rightarrow> addr \<Rightarrow> pte" where
  "rd32 s a = ld32 (pmem (pal s)) a"

definition wr32 :: "addr \<Rightarrow> pte \<Rightarrow> mmu \<Rightarrow> mmu" where
  "wr32 a w s = s\<lparr>pal := (pal s)\<lparr>pmem := st32 a w (pmem (pal s))\<rparr>\<rparr>"

definition mmu_get_page :: "nat \<Rightarrow> mmu \<Rightarrow> (addr \<times> mmu) option" where
  "mmu_get_page flags s = do { (page, p) \<leftarrow> palloc_get_page flags (pal s); Some (page, s\<lparr>pal := p\<rparr>) }"

definition mmu_free_page :: "addr \<Rightarrow> mmu \<Rightarrow> mmu option" where
  "mmu_free_page page s = do { p \<leftarrow> palloc_free_page page (pal s); Some (s\<lparr>pal := p\<rparr>) }"

definition pagedir_activate :: "addr \<Rightarrow> mmu \<Rightarrow> mmu option" where
  "pagedir_activate pd s = do {
     let pd = (if pd = NULL then init_page_dir s else pd);
     p \<leftarrow> vtop pd;
     Some (s\<lparr>cr3 := p, tlb := []\<rparr>) }"

definition active_pd :: "mmu \<Rightarrow> addr option" where
  "active_pd s = ptov (cr3 s)"

definition invalidate_pagedir :: "addr \<Rightarrow> mmu \<Rightarrow> mmu option" where
  "invalidate_pagedir pd s = do {
     a \<leftarrow> active_pd s;
     if a = pd then pagedir_activate pd s else Some s }"

definition pagedir_create :: "mmu \<Rightarrow> (addr \<times> mmu) option" where
  "pagedir_create s = do {
     (pd, s) \<leftarrow> mmu_get_page 0 s;
     if pd \<noteq> NULL then do {
       (_, m) \<leftarrow> memcpy pd (init_page_dir s) PGSIZE (pmem (pal s));
       Some (pd, s\<lparr>pal := (pal s)\<lparr>pmem := m\<rparr>\<rparr>) }
     else Some (pd, s) }"

fun destroy_ptes :: "nat \<Rightarrow> addr \<Rightarrow> mmu \<Rightarrow> mmu option" where
  "destroy_ptes 0 pte s = Some s"
| "destroy_ptes (Suc n) pte s = do {
     s \<leftarrow> (if rd32 s pte AND PTE_P \<noteq> 0 then do {
              page \<leftarrow> pte_get_page (rd32 s pte);
              mmu_free_page page s }
           else Some s);
     destroy_ptes n (pte + 4) s }"

fun destroy_pdes :: "nat \<Rightarrow> addr \<Rightarrow> mmu \<Rightarrow> mmu option" where
  "destroy_pdes 0 pde s = Some s"
| "destroy_pdes (Suc n) pde s = do {
     s \<leftarrow> (if rd32 s pde AND PTE_P \<noteq> 0 then do {
              pt \<leftarrow> pde_get_pt (rd32 s pde);
              s \<leftarrow> destroy_ptes (PGSIZE div 4) pt s;
              mmu_free_page pt s }
           else Some s);
     destroy_pdes n (pde + 4) s }"

definition pagedir_destroy :: "addr \<Rightarrow> mmu \<Rightarrow> mmu option" where
  "pagedir_destroy pd s = (if pd = NULL then Some s else do {
     k_assert (pd \<noteq> init_page_dir s);
     s \<leftarrow> destroy_pdes (pd_no PHYS_BASE) pd s;
     mmu_free_page pd s })"

definition lookup_page :: "addr \<Rightarrow> addr \<Rightarrow> bool \<Rightarrow> mmu \<Rightarrow> (addr \<times> mmu) option" where
  "lookup_page pd vaddr create s = do {
     k_assert (pd \<noteq> NULL);
     k_assert (\<not> create \<or> is_user_vaddr vaddr);
     let pde = pd + 4 * pd_no vaddr;
     (missing, s) \<leftarrow> (if rd32 s pde = 0 then
         (if create then do {
            (pt, s) \<leftarrow> mmu_get_page PAL_ZERO s;
            if pt = NULL then Some (True, s) else do {
              e \<leftarrow> pde_create pt;
              Some (False, wr32 pde e s) } }
          else Some (True, s))
       else Some (False, s));
     if missing then Some (NULL, s) else do {
       pt \<leftarrow> pde_get_pt (rd32 s pde);
       Some (pt + 4 * pt_no vaddr, s) } }"

definition pagedir_set_page :: "addr \<Rightarrow> addr \<Rightarrow> addr \<Rightarrow> bool \<Rightarrow> mmu \<Rightarrow> (bool \<times> mmu) option" where
  "pagedir_set_page pd upage kpage writable s = do {
     k_assert (pg_ofs upage = 0);
     k_assert (pg_ofs kpage = 0);
     k_assert (is_user_vaddr upage);
     p \<leftarrow> vtop kpage;
     k_assert (drop_bit PTSHIFT p < init_ram_pages s);
     k_assert (pd \<noteq> init_page_dir s);
     (pte, s) \<leftarrow> lookup_page pd upage True s;
     if pte \<noteq> NULL then do {
       k_assert (rd32 s pte AND PTE_P = 0);
       e \<leftarrow> pte_create_user kpage writable;
       Some (True, wr32 pte e s) }
     else Some (False, s) }"

definition pagedir_get_page :: "addr \<Rightarrow> addr \<Rightarrow> mmu \<Rightarrow> addr option" where
  "pagedir_get_page pd uaddr s = do {
     k_assert (is_user_vaddr uaddr);
     (pte, s) \<leftarrow> lookup_page pd uaddr False s;
     if pte \<noteq> NULL \<and> rd32 s pte AND PTE_P \<noteq> 0 then do {
       page \<leftarrow> pte_get_page (rd32 s pte);
       Some (page + pg_ofs uaddr) }
     else Some NULL }"

definition pagedir_clear_page :: "addr \<Rightarrow> addr \<Rightarrow> mmu \<Rightarrow> mmu option" where
  "pagedir_clear_page pd upage s = do {
     k_assert (pg_ofs upage = 0);
     k_assert (is_user_vaddr upage);
     (pte, s) \<leftarrow> lookup_page pd upage False s;
     if pte \<noteq> NULL \<and> rd32 s pte AND PTE_P \<noteq> 0
     then invalidate_pagedir pd (wr32 pte (rd32 s pte AND NOT PTE_P) s)
     else Some s }"

definition pagedir_is_dirty :: "addr \<Rightarrow> addr \<Rightarrow> mmu \<Rightarrow> bool option" where
  "pagedir_is_dirty pd vpage s = do {
     (pte, s) \<leftarrow> lookup_page pd vpage False s;
     Some (pte \<noteq> NULL \<and> rd32 s pte AND PTE_D \<noteq> 0) }"

definition pagedir_set_dirty :: "addr \<Rightarrow> addr \<Rightarrow> bool \<Rightarrow> mmu \<Rightarrow> mmu option" where
  "pagedir_set_dirty pd vpage dirty s = do {
     (pte, s) \<leftarrow> lookup_page pd vpage False s;
     if pte \<noteq> NULL then
       (if dirty then Some (wr32 pte (rd32 s pte OR PTE_D) s)
        else invalidate_pagedir pd (wr32 pte (rd32 s pte AND NOT PTE_D) s))
     else Some s }"

definition pagedir_is_accessed :: "addr \<Rightarrow> addr \<Rightarrow> mmu \<Rightarrow> bool option" where
  "pagedir_is_accessed pd vpage s = do {
     (pte, s) \<leftarrow> lookup_page pd vpage False s;
     Some (pte \<noteq> NULL \<and> rd32 s pte AND PTE_A \<noteq> 0) }"

definition pagedir_set_accessed :: "addr \<Rightarrow> addr \<Rightarrow> bool \<Rightarrow> mmu \<Rightarrow> mmu option" where
  "pagedir_set_accessed pd vpage accessed s = do {
     (pte, s) \<leftarrow> lookup_page pd vpage False s;
     if pte \<noteq> NULL then
       (if accessed then Some (wr32 pte (rd32 s pte OR PTE_A) s)
        else invalidate_pagedir pd (wr32 pte (rd32 s pte AND NOT PTE_A) s))
     else Some s }"

definition pagedir_is_mapped :: "addr \<Rightarrow> addr \<Rightarrow> mmu \<Rightarrow> bool option" where
  "pagedir_is_mapped pd vpage s = do {
     (pte, s) \<leftarrow> lookup_page pd vpage False s;
     Some (pte \<noteq> NULL) }"

end
