(* ===== verification/Bitmap_Props.thy ===== *)
theory Bitmap_Props
  imports Bitmap
begin

text \<open>
  The bitmap routines refine operations on the list of bits; the locale \<open>bit_array\<close> is the interface of an array of
  bits from which runs are allocated, and its lemmas hold of every allocator built on it.
\<close>

subsection \<open>Abstraction\<close>

definition bit_at :: "bitmap \<Rightarrow> nat \<Rightarrow> bool" where
  "bit_at b i = bit (bits b ! (i div 32)) (i mod 32)"

definition bits_of :: "bitmap \<Rightarrow> bool list" where
  "bits_of b = map (bit_at b) [0..<bit_cnt b]"

definition bm_inv :: "bitmap \<Rightarrow> bool" where
  "bm_inv b \<longleftrightarrow> bit_cnt b \<le> 32 * length (bits b) \<and> bit_cnt b < 2 ^ 31"

lemma length_bits_of [simp]: "length (bits_of b) = bit_cnt b"
  by (simp add: bits_of_def)

lemma nth_bits_of [simp]: "i < bit_cnt b \<Longrightarrow> bits_of b ! i = bit_at b i"
  by (simp add: bits_of_def)

lemma elem_in: "bm_inv b \<Longrightarrow> i < bit_cnt b \<Longrightarrow> i div 32 < length (bits b)"
  by (simp add: bm_inv_def less_mult_imp_div_less mult.commute)

lemma bit_bit_mask: "bit (bit_mask i) n \<longleftrightarrow> n = i mod 32"
  by (auto simp: bit_mask_def ELEM_BITS_def bit_exp_iff)

lemma mask_test: "(w AND bit_mask i \<noteq> 0) = bit w (i mod 32)"
proof
  assume "w AND bit_mask i \<noteq> 0"
  then obtain n where "bit (w AND bit_mask i) n" by (auto simp: bit_eq_iff)
  then show "bit w (i mod 32)" by (auto simp: bit_and_iff bit_bit_mask)
next
  assume "bit w (i mod 32)"
  then have "bit (w AND bit_mask i) (i mod 32)" by (simp add: bit_and_iff bit_bit_mask)
  then show "w AND bit_mask i \<noteq> 0" by auto
qed

lemma bitmap_test_eq [simp]: "bm_inv b \<Longrightarrow> i < bit_cnt b \<Longrightarrow> bitmap_test b i = Some (bits_of b ! i)"
  using elem_in [of b i] by (simp add: bitmap_test_def elem_idx_def ELEM_BITS_def mask_test bit_at_def)

text \<open>Changing one bit of one element.\<close>

lemma upd_elem_bit:
  assumes b: "bm_inv b" "i < bit_cnt b"
    and f: "\<And>w n. n < 32 \<Longrightarrow> bit (f w) n = (if n = i mod 32 then v w else bit w n)"
  shows "\<exists>b'. upd_elem (elem_idx i) f b = Some b' \<and> bm_inv b' \<and> bit_cnt b' = bit_cnt b \<and>
    bits_of b' = (bits_of b)[i := v (bits b ! (i div 32))]"
proof -
  let ?b = "b\<lparr>bits := (bits b)[i div 32 := f (bits b ! (i div 32))]\<rparr>"
  have e: "i div 32 < length (bits b)" by (rule elem_in [OF b])
  have "upd_elem (elem_idx i) f b = Some ?b" using e by (simp add: upd_elem_def elem_idx_def ELEM_BITS_def)
  moreover have "bits_of ?b = (bits_of b)[i := v (bits b ! (i div 32))]"
  proof (rule nth_equalityI)
    fix j assume "j < length (bits_of ?b)"
    then have j: "j < bit_cnt b" by simp
    have ij: "j div 32 = i div 32 \<and> j mod 32 = i mod 32 \<longleftrightarrow> j = i" by (metis div_mult_mod_eq)
    have "bit_at ?b j = (if j = i then v (bits b ! (i div 32)) else bit_at b j)"
    proof (cases "j div 32 = i div 32")
      case True
      then have "bit_at ?b j = bit (f (bits b ! (i div 32))) (j mod 32)" using e by (simp add: bit_at_def)
      also have "\<dots> = (if j mod 32 = i mod 32 then v (bits b ! (i div 32)) else bit (bits b ! (i div 32)) (j mod 32))" by (rule f) simp
      finally show ?thesis using True ij by (simp add: bit_at_def)
    next
      case False then show ?thesis by (auto simp: bit_at_def)
    qed
    then show "bits_of ?b ! j = (bits_of b)[i := v (bits b ! (i div 32))] ! j" using j b(2) by (simp add: nth_list_update)
  qed simp
  ultimately show ?thesis using b by (auto simp: bm_inv_def)
qed

lemma bitmap_set_eq:
  assumes "bm_inv b" "i < bit_cnt b"
  shows "\<exists>b'. bitmap_set b i v = Some b' \<and> bm_inv b' \<and> bit_cnt b' = bit_cnt b \<and> bits_of b' = (bits_of b)[i := v]"
proof (cases v)
  case True
  then show ?thesis using upd_elem_bit [OF assms, of "\<lambda>e. e OR bit_mask i" "\<lambda>_. True"] assms(2)
    by (simp add: bitmap_set_def bitmap_mark_def bit_or_iff bit_bit_mask)
next
  case False
  then show ?thesis using upd_elem_bit [OF assms, of "\<lambda>e. e AND NOT (bit_mask i)" "\<lambda>_. False"] assms(2)
    by (simp add: bitmap_set_def bitmap_reset_def bit_and_iff bit_not_iff bit_bit_mask)
qed

lemma bitmap_flip_eq:
  assumes "bm_inv b" "i < bit_cnt b"
  shows "\<exists>b'. bitmap_flip b i = Some b' \<and> bm_inv b' \<and> bit_cnt b' = bit_cnt b \<and> bits_of b' = (bits_of b)[i := \<not> bits_of b ! i]"
  using upd_elem_bit [OF assms, of "\<lambda>e. e XOR bit_mask i" "\<lambda>w. \<not> bit w (i mod 32)"] assms(2)
  by (simp add: bitmap_flip_def bit_xor_iff bit_bit_mask bit_at_def)

subsection \<open>Ranges\<close>

definition fill :: "nat \<Rightarrow> nat \<Rightarrow> 'a \<Rightarrow> 'a list \<Rightarrow> 'a list" where
  "fill start cnt v xs = take start xs @ replicate cnt v @ drop (start + cnt) xs"

lemma fill_0 [simp]: "fill start 0 v xs = xs"
  by (simp add: fill_def)

lemma length_fill [simp]: "start + cnt \<le> length xs \<Longrightarrow> length (fill start cnt v xs) = length xs"
  by (simp add: fill_def)

lemma nth_fill: "start + cnt \<le> length xs \<Longrightarrow> i < length xs \<Longrightarrow>
    fill start cnt v xs ! i = (if start \<le> i \<and> i < start + cnt then v else xs ! i)"
  by (auto simp: fill_def nth_append)

lemma fill_Suc: "start + Suc cnt \<le> length xs \<Longrightarrow> fill start (Suc cnt) v xs = fill (Suc start) cnt v (xs[start := v])"
  by (rule nth_equalityI) (auto simp: nth_fill nth_list_update)

lemma set_loop_eq:
  "bm_inv b \<Longrightarrow> pos + n \<le> bit_cnt b \<Longrightarrow>
   \<exists>b'. set_loop n pos v b = Some b' \<and> bm_inv b' \<and> bit_cnt b' = bit_cnt b \<and> bits_of b' = fill pos n v (bits_of b)"
proof (induction n arbitrary: pos b)
  case (Suc n)
  then obtain b1 where b1: "bitmap_set b pos v = Some b1" "bm_inv b1" "bit_cnt b1 = bit_cnt b" "bits_of b1 = (bits_of b)[pos := v]"
    using bitmap_set_eq [of b pos v] by auto
  then obtain b2 where "set_loop n (Suc pos) v b1 = Some b2" "bm_inv b2" "bit_cnt b2 = bit_cnt b1" "bits_of b2 = fill (Suc pos) n v (bits_of b1)"
    using Suc.IH [of b1 "Suc pos"] Suc.prems by auto
  then show ?case using b1 Suc.prems by (simp add: fill_Suc)
qed simp

lemma set_multiple_eq:
  assumes "bm_inv b" "start + cnt \<le> bit_cnt b"
  shows "\<exists>b'. bitmap_set_multiple b start cnt v = Some b' \<and> bm_inv b' \<and> bit_cnt b' = bit_cnt b \<and> bits_of b' = fill start cnt v (bits_of b)"
proof -
  have "u32 (start + cnt) = start + cnt" using assms by (simp add: bm_inv_def)
  then show ?thesis using set_loop_eq [OF assms] assms(2) by (simp add: bitmap_set_multiple_def)
qed

lemma count_loop_eq:
  "bm_inv b \<Longrightarrow> pos + n \<le> bit_cnt b \<Longrightarrow>
   count_loop b n pos v k = Some (k + length (filter (\<lambda>x. x = v) (take n (drop pos (bits_of b)))))"
proof (induction n arbitrary: pos k)
  case (Suc n)
  then show ?case using Cons_nth_drop_Suc [of pos "bits_of b", symmetric] by simp
qed simp

lemma contains_loop_eq:
  "bm_inv b \<Longrightarrow> pos + n \<le> bit_cnt b \<Longrightarrow> contains_loop b n pos v = Some (v \<in> set (take n (drop pos (bits_of b))))"
proof (induction n arbitrary: pos)
  case (Suc n)
  then show ?case using Cons_nth_drop_Suc [of pos "bits_of b", symmetric] by simp
qed simp

lemma contains_eq:
  assumes "bm_inv b" "start + cnt \<le> bit_cnt b"
  shows "bitmap_contains b start cnt v = Some (v \<in> set (take cnt (drop start (bits_of b))))"
proof -
  have "u32 (start + cnt) = start + cnt" using assms by (simp add: bm_inv_def)
  then show ?thesis using contains_loop_eq [OF assms] assms(2) by (simp add: bitmap_contains_def)
qed

subsection \<open>Scanning\<close>

definition is_run :: "bool list \<Rightarrow> nat \<Rightarrow> nat \<Rightarrow> bool \<Rightarrow> bool" where
  "is_run bs i cnt v \<longleftrightarrow> i + cnt \<le> length bs \<and> (\<forall>j < cnt. bs ! (i + j) = v)"

lemma is_run_set: "start + cnt \<le> length bs \<Longrightarrow> is_run bs start cnt v \<longleftrightarrow> (\<not> v) \<notin> set (take cnt (drop start bs))"
  by (auto simp: is_run_def in_set_conv_nth)

lemma scan_loop_eq:
  "bm_inv b \<Longrightarrow> i + n + cnt \<le> Suc (bit_cnt b) \<Longrightarrow>
   (\<exists>j. scan_loop b n i cnt v = Some j \<and> i \<le> j \<and> j < i + n \<and> is_run (bits_of b) j cnt v \<and> (\<forall>k. i \<le> k \<longrightarrow> k < j \<longrightarrow> \<not> is_run (bits_of b) k cnt v)) \<or>
   (scan_loop b n i cnt v = Some BITMAP_ERROR \<and> (\<forall>k. i \<le> k \<longrightarrow> k < i + n \<longrightarrow> \<not> is_run (bits_of b) k cnt v))"
proof (induction n arbitrary: i)
  case (Suc n)
  have c: "bitmap_contains b i cnt (\<not> v) = Some (\<not> is_run (bits_of b) i cnt v)"
    using contains_eq [of b i cnt "\<not> v"] is_run_set [of i cnt "bits_of b" v] Suc.prems by simp
  show ?case
  proof (cases "is_run (bits_of b) i cnt v")
    case True then show ?thesis using c by (intro disjI1 exI [of _ i]) simp
  next
    case False
    have eq: "scan_loop b (Suc n) i cnt v = scan_loop b n (Suc i) cnt v" using c False by simp
    have k: "i \<le> k \<Longrightarrow> k = i \<or> Suc i \<le> k" for k by auto
    have i: "i + n + cnt \<le> bit_cnt b" "Suc i + n = i + Suc n" using Suc.prems by simp_all
    from Suc.IH [of "Suc i"] Suc.prems show ?thesis unfolding eq using False k i(2) by (metis Suc_leD add_Suc_shift)
  qed
qed auto

lemma scan_eq:
  assumes b: "bm_inv b" "start \<le> bit_cnt b"
  shows "(\<exists>j. bitmap_scan b start cnt v = Some j \<and> start \<le> j \<and> j + cnt \<le> bit_cnt b \<and> is_run (bits_of b) j cnt v \<and>
      (\<forall>k. start \<le> k \<longrightarrow> k < j \<longrightarrow> \<not> is_run (bits_of b) k cnt v)) \<or>
   (bitmap_scan b start cnt v = Some BITMAP_ERROR \<and> (\<forall>k. start \<le> k \<longrightarrow> \<not> is_run (bits_of b) k cnt v))"
proof (cases "cnt \<le> bit_cnt b \<and> start \<le> bit_cnt b - cnt")
  case True
  define n where "n = Suc (bit_cnt b - cnt) - start"
  have n: "start + n + cnt \<le> Suc (bit_cnt b)" "k < start + n \<longleftrightarrow> k + cnt \<le> bit_cnt b" for k using True by (auto simp: n_def)
  have "bitmap_scan b start cnt v = scan_loop b n start cnt v" using True b by (simp add: bitmap_scan_def n_def)
  moreover have "is_run (bits_of b) k cnt v \<Longrightarrow> k < start + n" for k unfolding n(2) by (simp add: is_run_def)
  ultimately show ?thesis using scan_loop_eq [OF b(1) n(1), of v] n(2) by metis
next
  case False
  have "bitmap_scan b start cnt v = Some BITMAP_ERROR"
  proof (cases "cnt \<le> bit_cnt b")
    case True
    then have "Suc (bit_cnt b - cnt) - start = 0" using False by simp
    then show ?thesis using True b by (simp add: bitmap_scan_def Let_def)
  qed (use b in \<open>simp add: bitmap_scan_def\<close>)
  moreover have "\<not> is_run (bits_of b) k cnt v" if "start \<le> k" for k using False that by (auto simp: is_run_def)
  ultimately show ?thesis by blast
qed

lemma scan_not_error: "bm_inv b \<Longrightarrow> j \<le> bit_cnt b \<Longrightarrow> j \<noteq> BITMAP_ERROR"
  by (auto simp: bm_inv_def BITMAP_ERROR_def)

subsection \<open>The interface of an array of bits\<close>

text \<open>An allocator of runs of bits: \<open>alloc b start cnt v\<close> finds the first run of \<open>cnt\<close> bits \<open>v\<close> at or after \<open>start\<close> and flips
  it, \<open>put\<close> overwrites a range.  \<open>none\<close> is the index returned when there is no run.\<close>

locale bit_array =
  fixes invar :: "'b \<Rightarrow> bool" and abs_bits :: "'b \<Rightarrow> bool list"
    and alloc :: "'b \<Rightarrow> nat \<Rightarrow> nat \<Rightarrow> bool \<Rightarrow> (nat \<times> 'b) option"
    and put :: "'b \<Rightarrow> nat \<Rightarrow> nat \<Rightarrow> bool \<Rightarrow> 'b option"
    and none :: nat
  assumes alloc_ok: "invar b \<Longrightarrow> start \<le> length (abs_bits b) \<Longrightarrow>
      (\<exists>i b'. alloc b start cnt v = Some (i, b') \<and> i \<noteq> none \<and> start \<le> i \<and> is_run (abs_bits b) i cnt v \<and>
        (\<forall>k. start \<le> k \<longrightarrow> k < i \<longrightarrow> \<not> is_run (abs_bits b) k cnt v) \<and> invar b' \<and> abs_bits b' = fill i cnt (\<not> v) (abs_bits b)) \<or>
      (alloc b start cnt v = Some (none, b) \<and> (\<forall>k. start \<le> k \<longrightarrow> \<not> is_run (abs_bits b) k cnt v))"
    and put_ok: "invar b \<Longrightarrow> start + cnt \<le> length (abs_bits b) \<Longrightarrow>
      \<exists>b'. put b start cnt v = Some b' \<and> invar b' \<and> abs_bits b' = fill start cnt v (abs_bits b)"
begin

lemma alloc_got:
  assumes "invar b" "start \<le> length (abs_bits b)" "alloc b start cnt v = Some (i, b')" "i \<noteq> none"
  shows "start \<le> i" "is_run (abs_bits b) i cnt v" "invar b'" "abs_bits b' = fill i cnt (\<not> v) (abs_bits b)"
  using alloc_ok [OF assms(1,2), of cnt v] assms(3,4) by auto

lemma alloc_failed:
  assumes "invar b" "start \<le> length (abs_bits b)" "alloc b start cnt v = Some (none, b')"
  shows "b' = b" "start \<le> k \<Longrightarrow> \<not> is_run (abs_bits b) k cnt v"
  using alloc_ok [OF assms(1,2), of cnt v] assms(3) by auto

lemma alloc_inv:
  assumes "invar b" "start \<le> length (abs_bits b)"
  shows "\<exists>i b'. alloc b start cnt v = Some (i, b') \<and> invar b' \<and> length (abs_bits b') = length (abs_bits b)"
  using alloc_ok [OF assms, of cnt v] assms(1) by (auto simp: is_run_def)

text \<open>Runs allocated one after the other do not overlap.\<close>

lemma alloc_disjoint:
  assumes b: "invar b" "s1 \<le> length (abs_bits b)" "alloc b s1 c1 v = Some (i, b1)" "i \<noteq> none"
    and b1: "s2 \<le> length (abs_bits b)" "alloc b1 s2 c2 v = Some (j, b2)" "j \<noteq> none"
  shows "{i..<i + c1} \<inter> {j..<j + c2} = {}"
proof -
  note x = alloc_got [OF b]
  have len: "length (abs_bits b1) = length (abs_bits b)" using x by (simp add: is_run_def)
  have y: "is_run (abs_bits b1) j c2 v" using alloc_got [OF x(3) _ b1(2,3)] b1(1) len by simp
  have False if k: "i \<le> k" "k < i + c1" "j \<le> k" "k < j + c2" for k
  proof -
    have "abs_bits b1 ! k = (\<not> v)" using x(2,4) k by (simp add: is_run_def nth_fill)
    moreover obtain m where "k = j + m" "m < c2" using k(3,4) by (metis le_Suc_ex nat_add_left_cancel_less)
    ultimately show False using y by (simp add: is_run_def)
  qed
  then show ?thesis by fastforce
qed

text \<open>Giving a run back restores the bits.\<close>

lemma put_restores:
  assumes b: "invar b" "start \<le> length (abs_bits b)" "alloc b start cnt v = Some (i, b1)" "i \<noteq> none"
  shows "\<exists>b2. put b1 i cnt v = Some b2 \<and> invar b2 \<and> abs_bits b2 = abs_bits b"
proof -
  note x = alloc_got [OF b]
  have r: "i + cnt \<le> length (abs_bits b)" "length (abs_bits b1) = length (abs_bits b)" using x(2,4) by (simp_all add: is_run_def)
  obtain b2 where b2: "put b1 i cnt v = Some b2" "invar b2" "abs_bits b2 = fill i cnt v (abs_bits b1)" using put_ok [OF x(3), of i cnt v] r by auto
  have "fill i cnt v (fill i cnt (\<not> v) (abs_bits b)) ! k = abs_bits b ! k" if k: "k < length (abs_bits b)" for k
  proof (cases "i \<le> k \<and> k < i + cnt")
    case True
    then obtain m where "k = i + m" "m < cnt" by (metis le_Suc_ex nat_add_left_cancel_less)
    then show ?thesis using x(2) r k by (simp add: nth_fill is_run_def)
  next
    case False then show ?thesis using r k by (auto simp: nth_fill)
  qed
  then have "abs_bits b2 = abs_bits b" using b2(3) x(4) r by (auto intro!: nth_equalityI)
  then show ?thesis using b2 by blast
qed

text \<open>An allocation fails only if there is no free run.\<close>

lemma alloc_complete:
  assumes "invar b" "is_run (abs_bits b) k cnt v" "start \<le> k"
  shows "\<exists>i b'. alloc b start cnt v = Some (i, b') \<and> i \<noteq> none \<and> i \<le> k"
proof -
  have "start \<le> length (abs_bits b)" using assms by (simp add: is_run_def)
  from alloc_ok [OF assms(1) this, of cnt v] assms(2,3) show ?thesis by (metis linorder_not_less)
qed

end

lemma scan_and_flip_ok:
  assumes "bm_inv b" "start \<le> length (bits_of b)"
  shows "(\<exists>i b'. bitmap_scan_and_flip b start cnt v = Some (i, b') \<and> i \<noteq> BITMAP_ERROR \<and> start \<le> i \<and> is_run (bits_of b) i cnt v \<and>
        (\<forall>k. start \<le> k \<longrightarrow> k < i \<longrightarrow> \<not> is_run (bits_of b) k cnt v) \<and> bm_inv b' \<and> bits_of b' = fill i cnt (\<not> v) (bits_of b)) \<or>
      (bitmap_scan_and_flip b start cnt v = Some (BITMAP_ERROR, b) \<and> (\<forall>k. start \<le> k \<longrightarrow> \<not> is_run (bits_of b) k cnt v))"
proof -
  from assms(2) have s: "start \<le> bit_cnt b" by simp
  from scan_eq [OF assms(1) s, of cnt v] show ?thesis
  proof
    assume "\<exists>j. bitmap_scan b start cnt v = Some j \<and> start \<le> j \<and> j + cnt \<le> bit_cnt b \<and> is_run (bits_of b) j cnt v \<and>
      (\<forall>k. start \<le> k \<longrightarrow> k < j \<longrightarrow> \<not> is_run (bits_of b) k cnt v)"
    then obtain j where j: "bitmap_scan b start cnt v = Some j" "start \<le> j" "j + cnt \<le> bit_cnt b" "is_run (bits_of b) j cnt v"
      "\<forall>k. start \<le> k \<longrightarrow> k < j \<longrightarrow> \<not> is_run (bits_of b) k cnt v" by blast
    have ne: "j \<noteq> BITMAP_ERROR" using scan_not_error [OF assms(1), of j] j(3) by simp
    obtain b' where b': "bitmap_set_multiple b j cnt (\<not> v) = Some b'" "bm_inv b'" "bits_of b' = fill j cnt (\<not> v) (bits_of b)"
      using set_multiple_eq [OF assms(1) j(3)] by blast
    have "bitmap_scan_and_flip b start cnt v = Some (j, b')" using j(1) ne b'(1) by (simp add: bitmap_scan_and_flip_def)
    then show ?thesis using j ne b' by blast
  qed (simp add: bitmap_scan_and_flip_def)
qed

interpretation bm: bit_array bm_inv bits_of bitmap_scan_and_flip bitmap_set_multiple BITMAP_ERROR
proof
  fix b start cnt v
  assume "bm_inv b" "start + cnt \<le> length (bits_of b)"
  then show "\<exists>b'. bitmap_set_multiple b start cnt v = Some b' \<and> bm_inv b' \<and> bits_of b' = fill start cnt v (bits_of b)"
    using set_multiple_eq [of b start cnt v] by auto
qed (rule scan_and_flip_ok)

subsection \<open>Reading and writing\<close>

lemma bytes_word_bytes: "bytes_word (ucast w) (ucast (drop_bit 8 w)) (ucast (drop_bit 16 w)) (ucast (drop_bit 24 w)) = (w :: elem_type)"
proof (rule bit_word_eqI)
  fix n assume "n < LENGTH(32)"
  then have n: "n < 32" by simp
  consider "n < 8" | "8 \<le> n" "n < 16" | "16 \<le> n" "n < 24" | "24 \<le> n" by linarith
  then show "bit (bytes_word (ucast w) (ucast (drop_bit 8 w)) (ucast (drop_bit 16 w)) (ucast (drop_bit 24 w))) n = bit w n"
    using n by cases (auto simp: bytes_word_def bit_or_iff bit_push_bit_iff bit_ucast_iff bit_drop_bit_eq)
qed

lemma load_words_bytes: "length ws = length vs \<Longrightarrow> load_words (words_bytes ws) vs = ws"
  by (induction ws vs rule: list_induct2) (simp_all add: words_bytes_def word_bytes_def bytes_word_bytes)

lemma length_words_bytes [simp]: "length (words_bytes ws) = 4 * length ws"
  by (induction ws) (simp_all add: words_bytes_def word_bytes_def)

definition bm_exact :: "bitmap \<Rightarrow> bool" where
  "bm_exact b \<longleftrightarrow> length (bits b) = elem_cnt (bit_cnt b) \<and> bit_cnt b < 2 ^ 31"

lemma elem_cnt_bounds: "n < 2 ^ 31 \<Longrightarrow> n \<le> 32 * elem_cnt n \<and> 32 * elem_cnt n < n + 32"
  using div_round_up_bounds [of 32 n] by (simp add: elem_cnt_def ELEM_BITS_def)

lemma bm_exact_inv: "bm_exact b \<Longrightarrow> bm_inv b"
  using elem_cnt_bounds [of "bit_cnt b"] by (simp add: bm_exact_def bm_inv_def)

lemma byte_cnt_exact: "bm_exact b \<Longrightarrow> byte_cnt (bit_cnt b) = 4 * length (bits b)"
  using elem_cnt_bounds [of "bit_cnt b"] by (simp add: bm_exact_def byte_cnt_def)

lemma last_mask_bit: "n < 32 \<Longrightarrow> bit (last_mask b) n \<longleftrightarrow> bit_cnt b mod 32 = 0 \<or> n < bit_cnt b mod 32"
  using mask_eq_exp_minus_1 [of "bit_cnt b mod 32", where ?'a = "32 word"]
  by (auto simp: last_mask_def ELEM_BITS_def Let_def bit_mask_iff bit_minus_1_iff simp flip: mask_eq_exp_minus_1)

lemma last_bit:
  assumes "bm_exact b" "i < bit_cnt b" "i div 32 = elem_cnt (bit_cnt b) - 1"
  shows "bit (last_mask b) (i mod 32)"
proof (cases "bit_cnt b mod 32 = 0")
  case True then show ?thesis by (simp add: last_mask_bit)
next
  case False
  have c: "bit_cnt b \<le> 32 * elem_cnt (bit_cnt b)" "32 * elem_cnt (bit_cnt b) < bit_cnt b + 32"
    using elem_cnt_bounds [of "bit_cnt b"] assms(1) by (auto simp: bm_exact_def)
  moreover have "bit_cnt b \<noteq> 32 * elem_cnt (bit_cnt b)" using False by (metis mod_mult_self1_is_0)
  ultimately have "bit_cnt b div 32 = elem_cnt (bit_cnt b) - 1" by (intro div_nat_eqI) auto
  then have "i mod 32 < bit_cnt b mod 32" using assms(2,3) by (metis div_mult_mod_eq nat_add_left_cancel_less)
  then show ?thesis by (simp add: last_mask_bit)
qed

text \<open>A bitmap written to a file and read back, into any bitmap of the same size, has the same bits; both operations
  report success.\<close>
theorem bitmap_file_round_trip:
  assumes "bm_exact b" "bm_exact c" "bit_cnt c = bit_cnt b"
  shows "\<exists>data. bitmap_write (\<lambda>bs n ofs. Some (n, bs)) b = Some (True, data) \<and>
    (\<exists>c'. bitmap_read (\<lambda>n ofs. take n (drop ofs data)) c = Some (True, c') \<and> bits_of c' = bits_of b)"
proof -
  let ?data = "words_bytes (bits b)"
  have len: "length (bits c) = length (bits b)" using assms by (simp add: bm_exact_def)
  have w: "bitmap_write (\<lambda>bs n ofs. Some (n, bs)) b = Some (True, ?data)" using byte_cnt_exact [OF assms(1)] by (simp add: bitmap_write_def Let_def)
  have "\<exists>c'. bitmap_read (\<lambda>n ofs. take n (drop ofs ?data)) c = Some (True, c') \<and> bits_of c' = bits_of b"
  proof (cases "bit_cnt b = 0")
    case True then show ?thesis using assms(3) by (simp add: bitmap_read_def bits_of_def)
  next
    case False
    let ?e = "elem_cnt (bit_cnt b) - 1"
    define m where "m = last_mask c"
    let ?c = "c\<lparr>bits := (bits b)[?e := bits b ! ?e AND m]\<rparr>"
    have e: "?e < length (bits b)" using elem_cnt_bounds [of "bit_cnt b"] assms(1) False by (auto simp: bm_exact_def)
    have lm: "last_mask (c\<lparr>bits := bits b\<rparr>) = m" by (simp add: last_mask_def m_def)
    have "bitmap_read (\<lambda>n ofs. take n (drop ofs ?data)) c = Some (True, ?c)"
      using False e byte_cnt_exact [OF assms(1)] load_words_bytes [OF len [symmetric]] lm assms(3)
      by (simp add: bitmap_read_def upd_elem_def Let_def)
    moreover have "bit_at ?c i = bit_at b i" if i: "i < bit_cnt b" for i
    proof (cases "i div 32 = ?e")
      case True
      then have "bit m (i mod 32)" using last_bit [OF assms(2), of i] i assms(3) by (simp add: m_def)
      then show ?thesis using True e by (simp add: bit_at_def bit_and_iff)
    next
      case False then show ?thesis by (simp add: bit_at_def)
    qed
    then have "bits_of ?c = bits_of b" using assms(3) by (simp add: bits_of_def)
    ultimately show ?thesis by blast
  qed
  then show ?thesis using w by blast
qed

definition demo_bitmap :: bitmap where
  "demo_bitmap = \<lparr>bit_cnt = 40, bits = [0x0000FF0F, 0xFFFFFFF2]\<rparr>"

lemma demo_bitmap_exact: "bm_exact demo_bitmap" "bm_exact \<lparr>bit_cnt = 40, bits = [7, 9]\<rparr>"
  by (simp_all add: bm_exact_def demo_bitmap_def elem_cnt_def DIV_ROUND_UP_def ELEM_BITS_def)

theorem bitmap_file_round_trip_witness:
  "\<exists>data c'. bitmap_write (\<lambda>bs n ofs. Some (n, bs)) demo_bitmap = Some (True, data) \<and>
    bitmap_read (\<lambda>n ofs. take n (drop ofs data)) \<lparr>bit_cnt = 40, bits = [7, 9]\<rparr> = Some (True, c') \<and> bits_of c' = bits_of demo_bitmap"
  using bitmap_file_round_trip [OF demo_bitmap_exact] by (fastforce simp: demo_bitmap_def)

text \<open>C19: \<open>bitmap_scan_and_flip\<close> never fails on a well-formed bitmap.  If there is a run of \<open>cnt\<close> bits equal to \<open>v\<close> at or
  after \<open>start\<close> it returns the first one, flips exactly these bits and leaves the others; otherwise it returns
  BITMAP_ERROR and changes nothing.  With \<open>cnt = 0\<close> the run is empty and the result is \<open>start\<close>, whereas the comment in the
  source says 0.\<close>
theorem bitmap_scan_and_flip_correct:
  assumes "bm_inv b" "start \<le> bit_cnt b"
  shows "(\<exists>i b'. bitmap_scan_and_flip b start cnt v = Some (i, b') \<and> i \<noteq> BITMAP_ERROR \<and> start \<le> i \<and> i + cnt \<le> bit_cnt b \<and>
        (\<forall>j < cnt. bits_of b ! (i + j) = v) \<and> (\<forall>k. start \<le> k \<and> k < i \<longrightarrow> (\<exists>j < cnt. bits_of b ! (k + j) \<noteq> v)) \<and>
        bits_of b' = take i (bits_of b) @ replicate cnt (\<not> v) @ drop (i + cnt) (bits_of b)) \<or>
      (bitmap_scan_and_flip b start cnt v = Some (BITMAP_ERROR, b) \<and>
        (\<forall>k. start \<le> k \<and> k + cnt \<le> bit_cnt b \<longrightarrow> (\<exists>j < cnt. bits_of b ! (k + j) \<noteq> v)))"
proof -
  have r: "is_run (bits_of b) k cnt v \<longleftrightarrow> k + cnt \<le> bit_cnt b \<and> (\<forall>j < cnt. bits_of b ! (k + j) = v)" for k by (simp add: is_run_def)
  have s: "start \<le> length (bits_of b)" using assms(2) by simp
  from bm.alloc_ok [OF assms(1) s, of cnt v] show ?thesis
  proof
    assume "\<exists>i b'. bitmap_scan_and_flip b start cnt v = Some (i, b') \<and> i \<noteq> BITMAP_ERROR \<and> start \<le> i \<and> is_run (bits_of b) i cnt v \<and>
        (\<forall>k. start \<le> k \<longrightarrow> k < i \<longrightarrow> \<not> is_run (bits_of b) k cnt v) \<and> bm_inv b' \<and> bits_of b' = fill i cnt (\<not> v) (bits_of b)"
    then obtain i b' where i: "bitmap_scan_and_flip b start cnt v = Some (i, b')" "i \<noteq> BITMAP_ERROR" "start \<le> i" "is_run (bits_of b) i cnt v"
      "\<forall>k. start \<le> k \<longrightarrow> k < i \<longrightarrow> \<not> is_run (bits_of b) k cnt v" "bits_of b' = fill i cnt (\<not> v) (bits_of b)" by blast
    have "\<exists>j < cnt. bits_of b ! (k + j) \<noteq> v" if "start \<le> k \<and> k < i" for k
      using i(4,5) that unfolding r by (metis add_le_mono1 le_trans less_imp_le)
    then show ?thesis using i unfolding r fill_def by blast
  next
    assume "bitmap_scan_and_flip b start cnt v = Some (BITMAP_ERROR, b) \<and> (\<forall>k. start \<le> k \<longrightarrow> \<not> is_run (bits_of b) k cnt v)"
    then show ?thesis unfolding r by blast
  qed
qed

theorem bitmap_scan_and_flip_correct_witness:
  "\<exists>i b'. bitmap_scan_and_flip demo_bitmap 1 3 False = Some (i, b') \<and> i \<noteq> BITMAP_ERROR \<and> i + 3 \<le> 40"
proof -
  have s: "bit_cnt demo_bitmap = 40" "1 \<le> bit_cnt demo_bitmap" by (simp_all add: demo_bitmap_def)
  have b: "bits_of demo_bitmap ! 4 = False" "bits_of demo_bitmap ! 5 = False" "bits_of demo_bitmap ! 6 = False"
    by (simp_all add: s(1) nth_bits_of) (simp_all add: demo_bitmap_def bit_at_def)
  have "bits_of demo_bitmap ! (4 + j) = False" if "j < 3" for j
  proof -
    have "j = 0 \<or> j = 1 \<or> j = 2" using that by linarith
    then show ?thesis using b by auto
  qed
  then show ?thesis using bitmap_scan_and_flip_correct [OF bm_exact_inv [OF demo_bitmap_exact(1)] s(2), of 3 False] unfolding s(1)
    by (auto dest: spec [of _ 4])
qed

end
