(* ===== verification/Cstring_Props.thy ===== *)
theory Cstring_Props
  imports Cstring "HOL-Library.List_Lexorder" "HOL-Library.Sublist"
begin

text \<open>
  Correctness of lib/string.c.  \<open>blit\<close> is a copied block, \<open>cstr m a s\<close> says that the null-terminated string \<open>s\<close> is stored at
  \<open>a\<close>; each routine is related to the corresponding list function.
\<close>

definition order_sign :: "'a :: ord \<Rightarrow> 'a \<Rightarrow> int" where
  "order_sign x y = (if x < y then -1 else if y < x then 1 else 0)"

lemma order_sign_Cons [simp]: "order_sign (x # xs) (x # ys) = order_sign xs (ys :: 'a :: linorder list)"
  by (simp add: order_sign_def)

subsection \<open>Blocks\<close>

definition blit :: "memory \<Rightarrow> addr \<Rightarrow> addr \<Rightarrow> nat \<Rightarrow> memory" where
  "blit m dst src n = (\<lambda>x. if dst \<le> x \<and> x < dst + n then m (src + (x - dst)) else m x)"

definition bytes_at :: "memory \<Rightarrow> addr \<Rightarrow> nat \<Rightarrow> byte list" where
  "bytes_at m a n = map m [a..<a + n]"

lemma length_bytes_at [simp]: "length (bytes_at m a n) = n"
  by (simp add: bytes_at_def)

lemma nth_bytes_at [simp]: "i < n \<Longrightarrow> bytes_at m a n ! i = m (a + i)"
  by (simp add: bytes_at_def)

lemma bytes_at_Suc: "bytes_at m a (Suc n) = m a # bytes_at m (Suc a) n"
  by (rule nth_equalityI) (auto simp: nth_Cons' )

lemma bytes_at_blit [simp]: "bytes_at (blit m dst src n) dst n = bytes_at m src n"
  by (rule nth_equalityI) (auto simp: blit_def)

lemma memcpy_loop_eq:
  "dst \<le> src \<or> src + n \<le> dst \<Longrightarrow> memcpy_loop n dst src m = (dst + n, blit m dst src n)"
proof (induction n dst src m rule: memcpy_loop.induct)
  case (2 n dst src m)
  have "blit (m(dst := m src)) (dst + 1) (src + 1) n x = blit m dst src (Suc n) x" for x
  proof (cases "dst + 1 \<le> x \<and> x < dst + Suc n")
    case True
    then have "src + 1 + (x - (dst + 1)) = src + (x - dst)" "src + (x - dst) \<noteq> dst" using "2.prems" by auto
    then show ?thesis using True by (simp add: blit_def)
  qed (auto simp: blit_def)
  then have "blit (m(dst := m src)) (dst + 1) (src + 1) n = blit m dst src (Suc n)" by blast
  moreover have "dst + 1 \<le> src + 1 \<or> src + 1 + n \<le> dst + 1" using "2.prems" by linarith
  ultimately show ?case using "2.IH" by (simp only: memcpy_loop.simps) simp
qed (auto simp: blit_def fun_eq_iff)

lemma memmove_down_eq:
  "src \<le> dst \<Longrightarrow> memmove_down n (dst + n) (src + n) m = (dst, blit m dst src n)"
proof (induction n arbitrary: m)
  case (Suc n)
  have "blit (m(dst + n := m (src + n))) dst src n = blit m dst src (Suc n)" using Suc.prems by (auto simp: blit_def fun_eq_iff)
  then show ?case using Suc by simp
qed (auto simp: blit_def fun_eq_iff)

lemma memcpy_eq: "dst \<noteq> 0 \<Longrightarrow> src \<noteq> 0 \<Longrightarrow> dst \<le> src \<or> src + n \<le> dst \<Longrightarrow> memcpy dst src n m = Some (dst, blit m dst src n)"
  by (simp add: memcpy_def memcpy_loop_eq)

lemma memset_loop_eq: "memset_loop n dst v m = (\<lambda>x. if dst \<le> x \<and> x < dst + n then v else m x)"
proof (induction n dst v m rule: memset_loop.induct)
  case (2 n dst v m) then show ?case by (simp only: memset_loop.simps) auto
qed (auto simp: fun_eq_iff)

lemma memset_eq: "dst \<noteq> 0 \<Longrightarrow> memset dst v n m = Some (\<lambda>x. if dst \<le> x \<and> x < dst + n then of_int v else m x)"
  by (simp add: memset_def memset_loop_eq)

lemma memcmp_loop_eq:
  "memcmp_loop n a b m = order_sign (bytes_at m a n) (bytes_at m b n)"
  by (induction n a b m rule: memcmp_loop.induct) (auto simp: bytes_at_Suc, auto simp: order_sign_def bytes_at_def)

lemma memcmp_0: "memcmp_loop n a b m = 0 \<longleftrightarrow> bytes_at m a n = bytes_at m b n"
  by (auto simp: memcmp_loop_eq order_sign_def)

subsection \<open>Strings\<close>

primrec cstr :: "memory \<Rightarrow> addr \<Rightarrow> byte list \<Rightarrow> bool" where
  "cstr m a [] \<longleftrightarrow> m a = 0"
| "cstr m a (c # s) \<longleftrightarrow> c \<noteq> 0 \<and> m a = c \<and> cstr m (a + 1) s"

lemma cstr_end: "cstr m a s \<Longrightarrow> m (a + length s) = 0"
proof (induction s arbitrary: a)
  case (Cons c s) from Cons.IH [of "a + 1"] Cons.prems show ?case by simp
qed simp

lemma cstr_nth: "cstr m a s \<Longrightarrow> i < length s \<Longrightarrow> m (a + i) = s ! i"
proof (induction s arbitrary: a i)
  case (Cons c s) then show ?case by (cases i) force+
qed simp

lemma cstr_nz: "cstr m a s \<Longrightarrow> 0 \<notin> set s"
  by (induction s arbitrary: a) auto

lemma cstr_iff: "cstr m a s \<longleftrightarrow> bytes_at m a (length s) = s \<and> 0 \<notin> set s \<and> m (a + length s) = 0"
  by (induction s arbitrary: a) (auto simp: bytes_at_Suc, simp_all add: bytes_at_def)

lemma cstr_drop: "cstr m a s \<Longrightarrow> n \<le> length s \<Longrightarrow> cstr m (a + n) (drop n s)"
proof (induction s arbitrary: a n)
  case (Cons c s) then show ?case by (cases n) force+
qed simp

lemma cstr_cong: "cstr m a s \<Longrightarrow> (\<And>x. a \<le> x \<Longrightarrow> x \<le> a + length s \<Longrightarrow> m' x = m x) \<Longrightarrow> cstr m' a s"
proof (induction s arbitrary: a)
  case (Cons c s) from Cons.IH [of "a + 1"] Cons.prems show ?case by simp
qed simp

lemma cstr_det: "cstr m a s \<Longrightarrow> cstr m a t \<Longrightarrow> s = t"
proof (induction s arbitrary: a t)
  case Nil then show ?case by (cases t) auto
next
  case (Cons c s) then show ?case by (cases t) auto
qed

lemma strlen_loop_eq: "cstr m a s \<Longrightarrow> strlen_loop m a = Some (a + length s)"
  by (induction s arbitrary: a) (simp_all add: strlen_loop.simps)

lemma strlen_eq [simp]: "cstr m a s \<Longrightarrow> a \<noteq> 0 \<Longrightarrow> strlen m a = Some (length s)"
  by (simp add: strlen_def strlen_loop_eq)

lemma strcmp_eq:
  assumes "cstr m a s" "cstr m b t" "a \<noteq> 0" "b \<noteq> 0"
  shows "strcmp m a b = Some (order_sign s t)"
proof -
  have "\<exists>a' b'. strcmp_loop m a b = Some (a', b') \<and> order_sign (m a') (m b') = order_sign s t"
    using assms(1,2)
  proof (induction s arbitrary: a b t)
    case Nil then show ?case by (cases t) (auto simp: strcmp_loop.simps word_gt_0 order_sign_def)
  next
    case (Cons c s)
    show ?case
    proof (cases t)
      case Nil then show ?thesis using Cons.prems by (auto simp: strcmp_loop.simps word_gt_0 order_sign_def)
    next
      case (Cons d t')
      show ?thesis
      proof (cases "c = d")
        case True then show ?thesis using Cons.IH [of "a + 1" "b + 1" t'] Cons.prems Cons by (simp add: strcmp_loop.simps [of m a b])
      next
        case False then show ?thesis using Cons.prems Cons by (auto simp: strcmp_loop.simps [of m a b] order_sign_def)
      qed
    qed
  qed
  then show ?thesis using assms(3,4) by (auto simp: strcmp_def order_sign_def)
qed

lemma strchr_loop_eq:
  "cstr m a s \<Longrightarrow> strchr_loop m a c = Some (if c = 0 then a + length s else if c \<in> set s then a + length (takeWhile (\<lambda>x. x \<noteq> c) s) else NULL)"
  by (induction s arbitrary: a) (simp_all add: strchr_loop.simps)

lemma strchr_eq:
  "cstr m a s \<Longrightarrow> a \<noteq> 0 \<Longrightarrow>
    strchr m a c = Some (if c = 0 then a + length s else if c \<in> set s then a + length (takeWhile (\<lambda>x. x \<noteq> c) s) else NULL)"
  by (simp add: strchr_def strchr_loop_eq)

lemma strchr_found: "cstr m a s \<Longrightarrow> a \<noteq> 0 \<Longrightarrow> \<exists>p. strchr m a c = Some p \<and> (p = NULL \<longleftrightarrow> c \<noteq> 0 \<and> c \<notin> set s)"
  by (auto simp: strchr_eq)

lemma strcspn_eq:
  assumes "cstr m a s" "cstr m d ds" "d \<noteq> 0"
  shows "strcspn m a d = Some (length (takeWhile (\<lambda>c. c \<notin> set ds) s))"
proof -
  have "strcspn_loop m a d n = Some (n + length (takeWhile (\<lambda>c. c \<notin> set ds) s))" if "cstr m (a + n) s" for n s
    using that
  proof (induction s arbitrary: n)
    case (Cons c s)
    have "cstr m (a + Suc n) s" using Cons.prems by simp
    from Cons.IH [OF this] show ?case using Cons.prems assms(3) by (auto simp: strcspn_loop.simps [of m a d n] strchr_eq [OF assms(2)])
  qed (simp add: strcspn_loop.simps)
  from this [of 0] show ?thesis using assms(1) by (simp add: strcspn_def)
qed

lemma strspn_eq:
  assumes "cstr m a s" "cstr m d ds" "d \<noteq> 0"
  shows "strspn m a d = Some (length (takeWhile (\<lambda>c. c \<in> set ds) s))"
proof -
  have "strspn_loop m a d n = Some (n + length (takeWhile (\<lambda>c. c \<in> set ds) s))" if "cstr m (a + n) s" for n s
    using that
  proof (induction s arbitrary: n)
    case (Cons c s)
    have "cstr m (a + Suc n) s" using Cons.prems by simp
    from Cons.IH [OF this] show ?case using Cons.prems assms(3) by (auto simp: strspn_loop.simps [of m a d n] strchr_eq [OF assms(2)])
  qed (simp add: strspn_loop.simps)
  from this [of 0] show ?thesis using assms(1) by (simp add: strspn_def)
qed

lemma strpbrk_eq:
  assumes "cstr m d ds" "d \<noteq> 0"
  shows "cstr m a s \<Longrightarrow> strpbrk m a d = Some (if \<exists>c \<in> set s. c \<in> set ds then a + length (takeWhile (\<lambda>c. c \<notin> set ds) s) else NULL)"
proof (induction s arbitrary: a)
  case (Cons c s)
  then show ?case using assms(2) by (auto simp: strpbrk.simps [of m a] strchr_eq [OF assms(1)])
qed (simp add: strpbrk.simps)

lemma strrchr_eq:
  assumes "cstr m a s" "a \<noteq> 0"
  shows "strrchr m a c = Some (if c \<in> set s then a + (length s - 1 - length (takeWhile (\<lambda>x. x \<noteq> c) (rev s))) else NULL)"
proof -
  have "strrchr_loop m a c p = Some (if c \<in> set s then a + (length s - 1 - length (takeWhile (\<lambda>x. x \<noteq> c) (rev s))) else p)" for p
    using assms(1)
  proof (induction s arbitrary: a p)
    case (Cons x s)
    have t: "length (takeWhile (\<lambda>x. x \<noteq> c) (rev s)) < length s" if "c \<in> set s"
    proof -
      have "takeWhile (\<lambda>x. x \<noteq> c) (rev s) \<noteq> rev s" using that by (metis (full_types) set_rev takeWhile_eq_all_conv)
      then have "length (takeWhile (\<lambda>x. x \<noteq> c) (rev s)) \<noteq> length (rev s)" by (metis takeWhile_eq_take take_all_iff order_refl)
      then show ?thesis using length_takeWhile_le [of "\<lambda>x. x \<noteq> c" "rev s"] by simp
    qed
    show ?case
    proof (cases "c \<in> set s")
      case True then show ?thesis using Cons t [OF True] by (auto simp: strrchr_loop.simps [of m a] takeWhile_append)
    next
      case False
      then have "takeWhile (\<lambda>y. y \<noteq> c) (rev s @ [x]) = rev s @ takeWhile (\<lambda>y. y \<noteq> c) [x]" by (auto simp: takeWhile_append)
      then show ?thesis using Cons False by (auto simp: strrchr_loop.simps [of m a])
    qed
  qed (simp add: strrchr_loop.simps)
  then show ?thesis by (simp add: strrchr_def)
qed

lemma strstr_loop_eq:
  assumes "haystack \<noteq> 0" "needle \<noteq> 0"
  shows "strstr_loop m haystack needle l n i =
    Some (case find (\<lambda>j. bytes_at m (haystack + j) l = bytes_at m needle l) [i..<i + n] of None \<Rightarrow> NULL | Some k \<Rightarrow> haystack + k)"
proof (induction n arbitrary: i)
  case (Suc n)
  have "memcmp (haystack + i) needle l m = Some (memcmp_loop l (haystack + i) needle m)" using assms by (simp add: memcmp_def)
  moreover have "[i..<i + Suc n] = i # [Suc i..<Suc i + n]" by (simp add: upt_rec)
  ultimately show ?case using Suc.IH [of "i + 1"] by (simp add: memcmp_0)
qed simp

lemma strstr_eq:
  assumes "cstr m h hs" "cstr m nd ns" "h \<noteq> 0" "nd \<noteq> 0"
  shows "strstr m h nd = Some (case find (\<lambda>j. take (length ns) (drop j hs) = ns) [0..<length hs + 1 - length ns] of
    None \<Rightarrow> NULL | Some k \<Rightarrow> h + k)"
proof -
  have ns: "bytes_at m nd (length ns) = ns" and hs: "bytes_at m h (length hs) = hs" using assms(1,2) by (simp_all add: cstr_iff)
  have "bytes_at m (h + j) (length ns) = take (length ns) (drop j hs)" if "j + length ns \<le> length hs" for j
    using that cstr_nth [OF assms(1)] by (auto intro!: nth_equalityI simp: add.assoc)
  then have "find (\<lambda>j. bytes_at m (h + j) (length ns) = bytes_at m nd (length ns)) [0..<length hs + 1 - length ns] =
      find (\<lambda>j. take (length ns) (drop j hs) = ns) [0..<length hs + 1 - length ns]"
    unfolding ns by (intro find_cong) auto
  moreover have "Suc (length hs - length ns) = length hs + 1 - length ns" if "length ns \<le> length hs" using that by simp
  ultimately show ?thesis using assms strstr_loop_eq [OF assms(3,4), of m "length ns" "length hs + 1 - length ns" 0]
    by (simp add: strstr_def del: strstr_loop.simps)
qed

subsection \<open>Copying strings\<close>

lemma bytes_at_prefix: "k \<le> n \<Longrightarrow> bytes_at m a k = take k (bytes_at m a n)"
  by (rule nth_equalityI) auto

lemma strlcpy_eq:
  assumes "cstr m src s" "dst \<noteq> 0" "src \<noteq> 0" "n > 0" "dst + n \<le> src \<or> src + length s < dst"
  shows "\<exists>m'. strlcpy dst src n m = Some (length s, m') \<and> cstr m' dst (take (n - 1) s) \<and>
    (\<forall>x. x < dst \<or> dst + n \<le> x \<longrightarrow> m' x = m x)"
proof -
  define l where "l = min (length s) (n - 1)"
  have d: "(if length s < n - 1 then length s else n - 1) = l" by (simp add: l_def)
  let ?m = "(blit m dst src l)(dst + l := 0)"
  have sl: "strlen m src = Some (length s)" using assms by simp
  have o: "dst \<le> src \<or> src + l \<le> dst" using assms(5) by (auto simp: l_def)
  have e: "strlcpy dst src n m = Some (length s, ?m)"
    using assms(2-4) memcpy_eq [OF assms(2,3) o] by (cases "length s < n - 1") (simp_all add: strlcpy_def sl Let_def l_def)
  have "bytes_at ?m dst l = bytes_at m src l" by (rule nth_equalityI) (auto simp: blit_def)
  also have "\<dots> = take l s" using assms(1) bytes_at_prefix [of l "length s" m src] unfolding cstr_iff by (simp add: l_def)
  finally have b: "bytes_at ?m dst l = take l s" .
  have t: "take (n - 1) s = take l s" "length (take l s) = l" by (simp_all add: l_def min_def)
  have "cstr ?m dst (take l s)" unfolding cstr_iff t(2) using b cstr_nz [OF assms(1)] by (auto dest: in_set_takeD)
  moreover have "\<forall>x. x < dst \<or> dst + n \<le> x \<longrightarrow> ?m x = m x" using assms(4) by (auto simp: blit_def l_def)
  ultimately show ?thesis using e t(1) by metis
qed

subsection \<open>Tokens\<close>

lemma skip_delims_eq:
  assumes "cstr m d ds" "d \<noteq> 0"
  shows "cstr m s xs \<Longrightarrow> skip_delims m d s =
    Some (s + length (takeWhile (\<lambda>c. c \<in> set ds) xs), dropWhile (\<lambda>c. c \<in> set ds) xs = [])"
proof (induction xs arbitrary: s)
  case Nil then show ?case using assms(2) by (simp add: skip_delims.simps strchr_eq [OF assms(1)])
next
  case (Cons c xs)
  then show ?case using assms(2) by (simp add: skip_delims.simps [of m d s] strchr_eq [OF assms(1)])
qed

lemma skip_token_eq:
  assumes "cstr m d ds" "d \<noteq> 0"
  shows "cstr m s xs \<Longrightarrow> skip_token m d s = Some (s + length (takeWhile (\<lambda>c. c \<notin> set ds) xs))"
proof (induction xs arbitrary: s)
  case Nil then show ?case using assms(2) by (simp add: skip_token.simps strchr_eq [OF assms(1)])
next
  case (Cons c xs)
  then show ?case using assms(2) by (simp add: skip_token.simps [of m d s] strchr_eq [OF assms(1)])
qed

text \<open>One call of \<open>strtok_r\<close>: the token it cuts off, the string that remains, and the bytes it may change.\<close>

lemma strtok_r_step:
  assumes s: "cstr m s xs" "s \<noteq> 0" and d: "cstr m d ds" "d \<noteq> 0"
    and p: "p \<noteq> 0 \<and> p = s \<or> p = 0 \<and> save = s"
    and r: "dropWhile (\<lambda>c. c \<in> set ds) xs = c # r" and t: "tok = takeWhile (\<lambda>c. c \<notin> set ds) (c # r)"
    and s0: "s0 = s + length (takeWhile (\<lambda>c. c \<in> set ds) xs)"
  shows "\<exists>save' m'. strtok_r p d save m = Some (s0, save', m') \<and> cstr m' s0 tok \<and>
    cstr m' save' (tl (dropWhile (\<lambda>c. c \<notin> set ds) (c # r))) \<and> s \<le> save' \<and> tok \<noteq> [] \<and>
    save' = s0 + length tok + (if dropWhile (\<lambda>c. c \<notin> set ds) (c # r) = [] then 0 else 1) \<and>
    (\<forall>x. x \<noteq> s0 + length tok \<longrightarrow> m' x = m x)"
proof -
  define s1 where "s1 = s0 + length tok"
  have pre: "(if p = 0 then save else p) = s" using p by auto
  have xs: "drop (length (takeWhile (\<lambda>c. c \<in> set ds) xs)) xs = c # r" using r by (simp add: dropWhile_eq_drop)
  have c0: "cstr m s0 (c # r)" using cstr_drop [OF s(1), of "length (takeWhile (\<lambda>c. c \<in> set ds) xs)"] unfolding xs s0 by (simp add: length_takeWhile_le)
  have k: "skip_token m d s0 = Some s1" unfolding s1_def t by (rule skip_token_eq [OF d c0])
  have l: "length tok \<le> length (c # r)" unfolding t by (rule length_takeWhile_le)
  have dr: "drop (length tok) (c # r) = dropWhile (\<lambda>c. c \<notin> set ds) (c # r)" unfolding t by (simp only: dropWhile_eq_drop)
  have c1: "cstr m s1 (dropWhile (\<lambda>c. c \<notin> set ds) (c # r))" using cstr_drop [OF c0 l] unfolding dr s1_def .
  have tk: "take (length tok) (c # r) = tok" unfolding t by (metis takeWhile_eq_take)
  have "c \<in> set ds \<Longrightarrow> False" using r by (metis hd_dropWhile list.distinct(1) list.sel(1))
  then have ne: "tok \<noteq> []" using t by auto
  let ?m = "m(s1 := 0)"
  have ct: "cstr ?m s0 tok"
  proof -
    have "bytes_at ?m s0 (length tok) = bytes_at m s0 (length tok)" by (rule nth_equalityI) (auto simp: s1_def)
    also have "\<dots> = take (length tok) (bytes_at m s0 (length (c # r)))" using bytes_at_prefix [OF l] by simp
    also have "\<dots> = tok" using c0 tk unfolding cstr_iff by metis
    finally show ?thesis unfolding cstr_iff using cstr_nz [OF c0] by (auto simp: s1_def t dest: set_takeWhileD)
  qed
  have fin: "strtok_r p d save m = (if m s1 \<noteq> 0 then Some (s0, s1 + 1, ?m) else Some (s0, s1, m))"
    using skip_delims_eq [OF d s(1)] r k s0 d(2) s(2) by (simp add: strtok_r_def pre Let_def)
  show ?thesis
  proof (cases "dropWhile (\<lambda>c. c \<notin> set ds) (c # r)")
    case Nil
    then have z: "m s1 = 0" "?m = m" using c1 by auto
    show ?thesis using fin z ct c1 ne Nil s0 by (auto simp: s1_def)
  next
    case (Cons y ys)
    then have z: "m s1 \<noteq> 0" "cstr m (s1 + 1) ys" using c1 by auto
    then have "cstr ?m (s1 + 1) ys" by (auto intro: cstr_cong)
    then show ?thesis using fin z(1) ct ne Cons s0 by (auto simp: s1_def)
  qed
qed

lemma strtok_r_end:
  assumes "cstr m s xs" "s \<noteq> 0" "cstr m d ds" "d \<noteq> 0" "p \<noteq> 0 \<and> p = s \<or> p = 0 \<and> save = s"
    "dropWhile (\<lambda>c. c \<in> set ds) xs = []"
  shows "strtok_r p d save m = Some (NULL, s + length xs, m)"
proof -
  have "length (takeWhile (\<lambda>c. c \<in> set ds) xs) = length xs" using assms(6) by (metis append_Nil2 takeWhile_dropWhile_id)
  then show ?thesis using skip_delims_eq [OF assms(3,4,1)] assms(2,4,5,6) by (auto simp: strtok_r_def Let_def)
qed

subsection \<open>Properties\<close>

text \<open>C25: \<open>memmove\<close> copies the block as it was before the call, also when source and destination overlap, and changes no
  byte outside the destination.  It returns the destination only when it copies downwards; when the destination lies below
  the source the pointer returned is the end of the copy.\<close>
theorem memmove_correct:
  assumes "dst \<noteq> NULL" "src \<noteq> NULL"
  shows "\<exists>p m'. memmove dst src n m = Some (p, m') \<and> bytes_at m' dst n = bytes_at m src n \<and>
    (\<forall>x. x < dst \<or> dst + n \<le> x \<longrightarrow> m' x = m x) \<and> p = (if dst < src then dst + n else dst)"
proof -
  have "memmove dst src n m = Some (if dst < src then dst + n else dst, blit m dst src n)"
    using assms memcpy_loop_eq [of dst src n m] memmove_down_eq [of src dst n m] by (simp add: memmove_def)
  then show ?thesis by (simp add: blit_def [of m dst src n]) (simp flip: blit_def)
qed

theorem memmove_correct_witness:
  "\<exists>p m'. memmove 5 3 4 (\<lambda>a. of_nat a) = Some (p, m') \<and> bytes_at m' 5 4 = bytes_at (\<lambda>a. of_nat a) 3 4 \<and> p = 5"
  using memmove_correct [of 5 3 4 "\<lambda>a. of_nat a"] by auto

text \<open>\<open>strlcpy\<close> into a buffer of \<open>n\<close> bytes leaves there the first \<open>n - 1\<close> characters of the source as a terminated
  string, returns the length of the whole source, and writes nothing outside the buffer.\<close>
theorem strlcpy_bounded:
  assumes "cstr m src s" "dst \<noteq> NULL" "src \<noteq> NULL" "n > 0" "dst + n \<le> src \<or> src + length s < dst"
  shows "\<exists>m'. strlcpy dst src n m = Some (length s, m') \<and> cstr m' dst (take (n - 1) s) \<and>
    (\<forall>x. x < dst \<or> dst + n \<le> x \<longrightarrow> m' x = m x)"
  by (rule strlcpy_eq [OF assms])

theorem strlcpy_bounded_witness:
  "\<exists>m'. strlcpy 100 10 3 ((\<lambda>_. 0)(10 := 97, 11 := 98, 12 := 99)) = Some (3, m') \<and> cstr m' 100 [97, 98]"
proof -
  have "cstr ((\<lambda>_. 0)(10 := 97, 11 := 98, 12 := 99)) 10 [97, 98, 99]" by simp
  from strlcpy_bounded [OF this, of 100 3] have "\<exists>m'. strlcpy 100 10 3 ((\<lambda>_. 0)(10 := 97, 11 := 98, 12 := 99)) =
      Some (length [97 :: byte, 98, 99], m') \<and> cstr m' 100 (take (3 - 1) [97, 98, 99])" by (simp del: cstr.simps) blast
  moreover have "length [97 :: byte, 98, 99] = 3" "take (3 - 1) [97 :: byte, 98, 99] = [97, 98]" by simp_all
  ultimately show ?thesis by metis
qed

end
