(* ===== verification/Palloc_Props.thy ===== *)
theory Palloc_Props
  imports Palloc Bitmap_Props Cstring_Props
begin

text \<open>
  Correctness of the page allocator.  \<open>pal_ok\<close> is its invariant; \<open>used_pages\<close> and \<open>pool_pages\<close> are the addresses of the
  pages in use and of all pages of a pool.  The facts about the bitmap come from the interpretation \<open>bm\<close>.
\<close>

subsection \<open>Words in memory\<close>

lemma ld32_st32 [simp]: "ld32 (st32 a w m) a = w"
  by (simp add: ld32_def st32_def bytes_word_bytes)

lemma ld32_st32_other: "a + 4 \<le> b \<or> b + 4 \<le> a \<Longrightarrow> ld32 (st32 a w m) b = ld32 m b"
  by (auto simp: ld32_def st32_def)

lemma ld32_cong: "(\<And>x. a \<le> x \<Longrightarrow> x < a + 4 \<Longrightarrow> m' x = m x) \<Longrightarrow> ld32 m' a = ld32 m a"
  by (simp add: ld32_def)

lemma ld32_zero: "(\<And>x. a \<le> x \<Longrightarrow> x < a + 4 \<Longrightarrow> m x = 0) \<Longrightarrow> ld32 m a = 0"
  by (simp add: ld32_def bytes_word_def)

lemma st32_other: "x < a \<or> a + 4 \<le> x \<Longrightarrow> st32 a w m x = m x"
  by (auto simp: st32_def)

subsection \<open>The invariant\<close>

definition pool_ok :: "pool \<Rightarrow> bool" where
  "pool_ok p \<longleftrightarrow> bm_inv (used_map p) \<and> \<not> lock p \<and> base p mod PGSIZE = 0 \<and> PHYS_BASE \<le> base p \<and>
     base p + PGSIZE * bit_cnt (used_map p) \<le> 2 ^ 32"

definition pool_end :: "pool \<Rightarrow> addr" where
  "pool_end p = base p + PGSIZE * bit_cnt (used_map p)"

definition pal_ok :: "palloc_state \<Rightarrow> bool" where
  "pal_ok s \<longleftrightarrow> pool_ok (kernel_pool s) \<and> pool_ok (user_pool s) \<and> pool_end (kernel_pool s) \<le> base (user_pool s)"

definition pool_pages :: "pool \<Rightarrow> addr set" where
  "pool_pages p = {base p + PGSIZE * i | i. i < bit_cnt (used_map p)}"

definition used_pages :: "pool \<Rightarrow> addr set" where
  "used_pages p = {base p + PGSIZE * i | i. i < bit_cnt (used_map p) \<and> bits_of (used_map p) ! i}"

definition page_run :: "addr \<Rightarrow> nat \<Rightarrow> addr set" where
  "page_run a n = {a + PGSIZE * j | j. j < n}"

lemma PGSIZE_pos [simp]: "0 < PGSIZE" "PGSIZE \<noteq> 0"
  by (simp_all add: PGSIZE_def)

lemma pg_inj [simp]: "(b + PGSIZE * i = b + PGSIZE * j) = (i = j)"
  by (simp add: PGSIZE_def)

lemma used_iff [simp]: "base p + PGSIZE * i \<in> used_pages p \<longleftrightarrow> i < bit_cnt (used_map p) \<and> bits_of (used_map p) ! i"
  by (auto simp: used_pages_def)

lemma pool_iff [simp]: "base p + PGSIZE * i \<in> pool_pages p \<longleftrightarrow> i < bit_cnt (used_map p)"
  by (auto simp: pool_pages_def)

lemma pool_sim:
  "pool_pages (p\<lparr>used_map := um\<rparr>) = {base p + PGSIZE * i | i. i < bit_cnt um}"
  "used_pages (p\<lparr>used_map := um\<rparr>) = {base p + PGSIZE * i | i. i < bit_cnt um \<and> bits_of um ! i}"
  by (simp_all add: pool_pages_def used_pages_def)

lemma run_free:
  assumes "0 < n"
  shows "page_run (base p + PGSIZE * i) n \<subseteq> pool_pages p - used_pages p \<longleftrightarrow> is_run (bits_of (used_map p)) i n False"
proof -
  have e: "page_run (base p + PGSIZE * i) n = {base p + PGSIZE * (i + j) | j. j < n}"
    by (simp add: page_run_def add.assoc distrib_left)
  have "page_run (base p + PGSIZE * i) n \<subseteq> pool_pages p - used_pages p \<longleftrightarrow>
      (\<forall>j < n. i + j < bit_cnt (used_map p) \<and> \<not> bits_of (used_map p) ! (i + j))"
    unfolding e by (auto simp: subset_iff pool_iff [of p "_ + _"] used_iff [of p "_ + _"] simp del: pool_iff used_iff)
  moreover have "(\<forall>j < n. i + j < bit_cnt (used_map p)) \<longleftrightarrow> i + n \<le> bit_cnt (used_map p)"
    using assms by (cases n) (auto simp: Suc_le_eq)
  ultimately show ?thesis by (auto simp: is_run_def)
qed

lemma used_fill:
  assumes "i + n \<le> bit_cnt b" "bits_of um = fill i n v (bits_of b)"
  shows "{q + PGSIZE * k | k. k < bit_cnt um \<and> bits_of um ! k} =
    (if v then {q + PGSIZE * k | k. k < bit_cnt b \<and> bits_of b ! k} \<union> page_run (q + PGSIZE * i) n
     else {q + PGSIZE * k | k. k < bit_cnt b \<and> bits_of b ! k} - page_run (q + PGSIZE * i) n)"
proof -
  have l: "bit_cnt um = bit_cnt b" using assms by (metis length_bits_of length_fill)
  have e: "page_run (q + PGSIZE * i) n = {q + PGSIZE * k | k. i \<le> k \<and> k < i + n}"
    unfolding page_run_def by (auto simp: add.assoc simp flip: distrib_left intro: le_Suc_ex) (metis le_Suc_ex nat_add_left_cancel_less)
  have "bits_of um ! k = (if i \<le> k \<and> k < i + n then v else bits_of b ! k)" if "k < bit_cnt b" for k
    using assms that by (simp add: nth_fill)
  then show ?thesis unfolding e l using assms(1) by (auto split: if_splits)
qed

lemma pal_pool_ok: "pal_ok s \<Longrightarrow> pool_ok (get_pool u s)"
  by (simp add: pal_ok_def get_pool_def)

lemma set_pool_simps [simp]:
  "get_pool u (set_pool u p s) = p" "get_pool (\<not> u) (set_pool u p s) = get_pool (\<not> u) s" "pmem (set_pool u p s) = pmem s"
  "get_pool u (s\<lparr>pmem := m\<rparr>) = get_pool u s" "set_pool u (get_pool u s) s = s"
  by (simp_all add: get_pool_def set_pool_def)

lemma set_pool_ok:
  "pal_ok s \<Longrightarrow> bm_inv um \<Longrightarrow> bit_cnt um = bit_cnt (used_map (get_pool u s)) \<Longrightarrow>
   pal_ok (set_pool u ((get_pool u s)\<lparr>used_map := um\<rparr>) s)"
  by (simp add: pal_ok_def pool_ok_def set_pool_def get_pool_def pool_end_def split: if_splits)

lemma pal_ok_mem [simp]: "pal_ok (s\<lparr>pmem := m\<rparr>) = pal_ok s"
  by (simp add: pal_ok_def)

subsection \<open>Allocation\<close>

lemma bm_inv_cnt: "bm_inv b \<Longrightarrow> bit_cnt b < 2 ^ 31"
  by (simp add: bm_inv_def)

lemma palloc_get_ok:
  assumes "pal_ok s" "0 < n" "p = get_pool u s" "u = (flags AND PAL_USER \<noteq> 0)"
  shows "(\<exists>a s'. palloc_get_multiple flags n s = Some (a, s') \<and> pal_ok s' \<and> a \<noteq> NULL \<and> pg_ofs a = 0 \<and>
      page_run a n \<subseteq> pool_pages p - used_pages p \<and> pool_pages (get_pool u s') = pool_pages p \<and>
      used_pages (get_pool u s') = used_pages p \<union> page_run a n \<and> get_pool (\<not> u) s' = get_pool (\<not> u) s \<and>
      (\<forall>x. pmem s' x = (if flags AND PAL_ZERO \<noteq> 0 \<and> a \<le> x \<and> x < a + PGSIZE * n then 0 else pmem s x))) \<or>
    ((\<forall>a \<in> pool_pages p. \<not> page_run a n \<subseteq> pool_pages p - used_pages p) \<and>
      palloc_get_multiple flags n s = (if flags AND PAL_ASSERT \<noteq> 0 then None else Some (NULL, s)))"
proof -
  have ok: "pool_ok p" "bm_inv (used_map p)" "\<not> lock p" using pal_pool_ok [OF assms(1), of u] assms(3) by (auto simp: pool_ok_def)
  have lk: "p\<lparr>lock := False\<rparr> = p" using ok(3) by simp
  have s0: "0 \<le> length (bits_of (used_map p))" by simp
  from bm.alloc_ok [OF ok(2) s0, of n False] show ?thesis
  proof (elim disjE exE conjE)
    fix i um
    assume a: "bitmap_scan_and_flip (used_map p) 0 n False = Some (i, um)" "i \<noteq> BITMAP_ERROR" "is_run (bits_of (used_map p)) i n False"
      "bm_inv um" "bits_of um = fill i n (\<not> False) (bits_of (used_map p))"
    define q where "q = base p + PGSIZE * i"
    have r: "i + n \<le> bit_cnt (used_map p)" using a(3) by (simp add: is_run_def)
    have q: "q + PGSIZE * n \<le> 2 ^ 32" using r ok(1) unfolding pool_ok_def q_def
      by (metis (no_types, opaque_lifting) add.assoc add_mult_distrib2 le_trans mult_le_mono2 nat_add_left_cancel_le)
    have q0: "q \<noteq> 0" "q < 2 ^ 32" "PGSIZE * n < 2 ^ 32" using ok(1) q assms(2) by (auto simp: pool_ok_def PHYS_BASE_def q_def PGSIZE_def)
    have bc: "bit_cnt um = bit_cnt (used_map p)" using a(5) r by (metis length_bits_of length_fill)
    define m where "m = (if flags AND PAL_ZERO \<noteq> 0 then (\<lambda>x. if q \<le> x \<and> x < q + PGSIZE * n then 0 else pmem s x) else pmem s)"
    have lk: "p\<lparr>used_map := um, lock := False\<rparr> = p\<lparr>used_map := um\<rparr>" using ok(3) by simp
    have e: "palloc_get_multiple flags n s = Some (q, (set_pool u (p\<lparr>used_map := um\<rparr>) s)\<lparr>pmem := m\<rparr>)"
      using a(1,2) q0 ok(3) assms(2) unfolding palloc_get_multiple_def Let_def assms(3,4) [symmetric]
      by (simp add: pool_acquire_def pool_release_def Let_def flip: q_def) (simp add: memset_eq m_def lk cong: if_cong)
    have "pal_ok (set_pool u (p\<lparr>used_map := um\<rparr>) s)" unfolding assms(3) by (rule set_pool_ok [OF assms(1) a(4)]) (use bc assms(3) in simp)
    moreover have "pg_ofs q = 0" using ok(1) by (simp add: pool_ok_def pg_ofs_mod q_def)
    moreover have "page_run q n \<subseteq> pool_pages p - used_pages p" unfolding q_def run_free [OF assms(2)] by (rule a(3))
    moreover have "used_pages (p\<lparr>used_map := um\<rparr>) = used_pages p \<union> page_run q n"
      using used_fill [OF r a(5), of "base p"] unfolding pool_sim q_def used_pages_def by simp
    moreover have "pool_pages (p\<lparr>used_map := um\<rparr>) = pool_pages p" by (simp add: pool_pages_def bc)
    ultimately show ?thesis using e q0(1)
      by (intro disjI1 exI [of _ q] exI [of _ "(set_pool u (p\<lparr>used_map := um\<rparr>) s)\<lparr>pmem := m\<rparr>"] conjI) (simp_all add: m_def)
  next
    assume a: "bitmap_scan_and_flip (used_map p) 0 n False = Some (BITMAP_ERROR, used_map p)"
      "\<forall>k. 0 \<le> k \<longrightarrow> \<not> is_run (bits_of (used_map p)) k n False"
    have "palloc_get_multiple flags n s = (if flags AND PAL_ASSERT \<noteq> 0 then None else Some (NULL, s))"
      using a(1) ok(3) assms(2) unfolding palloc_get_multiple_def Let_def assms(3,4) [symmetric]
      by (simp add: pool_acquire_def pool_release_def Let_def lk) (simp add: assms(3))
    moreover have "\<forall>a \<in> pool_pages p. \<not> page_run a n \<subseteq> pool_pages p - used_pages p"
    proof
      fix a assume "a \<in> pool_pages p"
      then obtain i where "a = base p + PGSIZE * i" by (auto simp: pool_pages_def)
      then show "\<not> page_run a n \<subseteq> pool_pages p - used_pages p" using a(2) run_free [OF assms(2)] by simp
    qed
    ultimately show ?thesis by blast
  qed
qed

text \<open>C17: \<open>palloc_get_multiple\<close> on a well-formed allocator.  If the pool chosen by PAL_USER has a run of \<open>n\<close> free pages, it
  returns the page-aligned address of such a run: none of its pages was in use, exactly these pages become used, the other
  pool is untouched, and memory changes only if PAL_ZERO asks for it, by zeroing exactly the new pages.  Otherwise it
  returns a null pointer and changes nothing, or panics if PAL_ASSERT is set.\<close>
theorem palloc_get_multiple_correct:
  assumes "pal_ok s" "0 < n" "p = get_pool u s" "u = (flags AND PAL_USER \<noteq> 0)"
  shows "(\<exists>a s'. palloc_get_multiple flags n s = Some (a, s') \<and> pal_ok s' \<and> a \<noteq> NULL \<and> pg_ofs a = 0 \<and>
      page_run a n \<subseteq> pool_pages p - used_pages p \<and> pool_pages (get_pool u s') = pool_pages p \<and>
      used_pages (get_pool u s') = used_pages p \<union> page_run a n \<and> get_pool (\<not> u) s' = get_pool (\<not> u) s \<and>
      (\<forall>x. pmem s' x = (if flags AND PAL_ZERO \<noteq> 0 \<and> a \<le> x \<and> x < a + PGSIZE * n then 0 else pmem s x))) \<or>
    ((\<forall>a \<in> pool_pages p. \<not> page_run a n \<subseteq> pool_pages p - used_pages p) \<and>
      palloc_get_multiple flags n s = (if flags AND PAL_ASSERT \<noteq> 0 then None else Some (NULL, s)))"
  by (rule palloc_get_ok [OF assms])

subsection \<open>Release\<close>

lemma page_from_pool_iff:
  assumes "pool_ok p" "a mod PGSIZE = 0"
  shows "page_from_pool p a \<longleftrightarrow> base p \<le> a \<and> a < pool_end p"
proof -
  obtain k where k: "base p = PGSIZE * k" using assms(1) unfolding pool_ok_def by blast
  obtain l where l: "a = PGSIZE * l" using assms(2) by blast
  have "PGSIZE * (k + bit_cnt (used_map p)) \<le> 2 ^ 32" using assms(1) k by (simp add: pool_ok_def distrib_left)
  then have "k + bit_cnt (used_map p) < 2 ^ 32" by (simp add: PGSIZE_def)
  then show ?thesis
    by (simp add: page_from_pool_def pg_no_div k l bitmap_size_def pool_end_def) (simp flip: distrib_left)
qed

lemma pool_page_bounds:
  assumes "pool_ok p" "a \<in> pool_pages p"
  shows "a mod PGSIZE = 0" "base p \<le> a" "a < pool_end p" "a \<noteq> 0"
proof -
  obtain i where i: "a = base p + PGSIZE * i" "i < bit_cnt (used_map p)" using assms(2) by (auto simp: pool_pages_def)
  show "a mod PGSIZE = 0" "base p \<le> a" "a \<noteq> 0" using i assms(1) by (simp_all add: pool_ok_def PHYS_BASE_def)
  show "a < pool_end p" using i by (simp add: pool_end_def)
qed

lemma owning_pool:
  assumes "pal_ok s" "a \<in> pool_pages (get_pool u s)"
  shows "page_from_pool (kernel_pool s) a = (\<not> u)" "u \<Longrightarrow> page_from_pool (user_pool s) a"
proof -
  note b = pool_page_bounds [OF pal_pool_ok [OF assms(1)] assms(2)]
  note k = page_from_pool_iff [of "kernel_pool s", OF _ b(1)] and us = page_from_pool_iff [of "user_pool s", OF _ b(1)]
  have "base (kernel_pool s) \<le> pool_end (kernel_pool s)" by (simp add: pool_end_def)
  then show "page_from_pool (kernel_pool s) a = (\<not> u)" using k b assms(1) by (auto simp: pal_ok_def get_pool_def split: if_splits)
  show "page_from_pool (user_pool s) a" if u using that us b assms(1) by (auto simp: pal_ok_def get_pool_def)
qed

lemma bitmap_all_eq:
  assumes "bm_inv b" "n < 2 ^ 31"
  shows "bitmap_all b i n = (if i + n \<le> bit_cnt b then Some (is_run (bits_of b) i n True) else None)"
proof (cases "i + n \<le> bit_cnt b")
  case True
  then show ?thesis using contains_eq [OF assms(1) True, of False] by (auto simp: bitmap_all_def is_run_set)
next
  case False
  then have "i \<le> bit_cnt b \<Longrightarrow> u32 (i + n) = i + n" using assms by (simp add: bm_inv_def u32_def)
  then show ?thesis using False by (auto simp: bitmap_all_def bitmap_contains_def k_assert_def)
qed

lemma run_used:
  assumes "0 < n"
  shows "page_run (base p + PGSIZE * i) n \<subseteq> used_pages p \<longleftrightarrow> i + n \<le> bit_cnt (used_map p) \<and> is_run (bits_of (used_map p)) i n True"
proof -
  have e: "page_run (base p + PGSIZE * i) n = {base p + PGSIZE * (i + j) | j. j < n}"
    by (simp add: page_run_def add.assoc distrib_left)
  have "page_run (base p + PGSIZE * i) n \<subseteq> used_pages p \<longleftrightarrow>
      (\<forall>j < n. i + j < bit_cnt (used_map p) \<and> bits_of (used_map p) ! (i + j))"
    unfolding e by (auto simp: subset_iff used_iff [of p "_ + _"] simp del: used_iff)
  moreover have "(\<forall>j < n. i + j < bit_cnt (used_map p)) \<longleftrightarrow> i + n \<le> bit_cnt (used_map p)"
    using assms by (cases n) (auto simp: Suc_le_eq)
  ultimately show ?thesis by (auto simp: is_run_def)
qed

lemma free_unfold:
  assumes "pal_ok s" "a \<in> pool_pages p" "p = get_pool u s" "0 < n" "a = base p + PGSIZE * i"
  shows "palloc_free_multiple a n s = do {
     all \<leftarrow> bitmap_all (used_map p) i n;
     k_assert all;
     um \<leftarrow> bitmap_set_multiple (used_map p) i n False;
     Some (set_pool u (p\<lparr>used_map := um\<rparr>) (s\<lparr>pmem := \<lambda>x. if a \<le> x \<and> x < a + u32 (PGSIZE * n) then 0xCC else pmem s x\<rparr>)) }"
proof -
  have p: "pool_ok p" using pal_pool_ok [OF assms(1)] assms(3) by simp
  note b = pool_page_bounds [OF p assms(2)]
  have o: "page_from_pool (kernel_pool s) a = (\<not> u)" "u \<Longrightarrow> page_from_pool (user_pool s) a"
    using owning_pool [OF assms(1), of a u] assms(2,3) by auto
  have i: "pg_no a - pg_no (base p) = i" using assms(5) p by (auto simp: pg_no_div pool_ok_def elim!: dvdE [OF mod_0_imp_dvd])
  have "a \<noteq> 0" by (rule b(4))
  then show ?thesis using assms(4) b(1) o
    by (auto simp: palloc_free_multiple_def pg_ofs_mod memset_eq i Let_def simp flip: assms(3) cong: if_cong)
qed

definition demo_pool :: "addr \<Rightarrow> pool" where
  "demo_pool b = \<lparr>lock = False, used_map = demo_bitmap, base = b\<rparr>"

definition demo_pal :: palloc_state where
  "demo_pal = \<lparr>kernel_pool = demo_pool 0xC0101000, user_pool = demo_pool 0xC0201000, pmem = (\<lambda>_. 1)\<rparr>"

lemma demo_pal_ok: "pal_ok demo_pal"
  using bm_exact_inv [OF demo_bitmap_exact(1)]
  by (simp add: pal_ok_def demo_pal_def demo_pool_def pool_ok_def pool_end_def PGSIZE_def PHYS_BASE_def) (simp add: demo_bitmap_def)

lemma demo_bits: "bit_cnt demo_bitmap = 40" "bits_of demo_bitmap ! 4 = False" "bits_of demo_bitmap ! 8 = True"
  "bits_of demo_bitmap ! 9 = True"
  by (simp_all add: demo_bitmap_def bit_at_def)

theorem palloc_get_multiple_correct_witness:
  "\<exists>a s'. palloc_get_multiple (PAL_USER OR PAL_ZERO) 1 demo_pal = Some (a, s') \<and> pal_ok s' \<and> a \<noteq> NULL \<and> pg_ofs a = 0"
proof -
  have "page_run (base (user_pool demo_pal) + PGSIZE * 4) 1 \<subseteq> pool_pages (user_pool demo_pal) - used_pages (user_pool demo_pal)"
    "base (user_pool demo_pal) + PGSIZE * 4 \<in> pool_pages (user_pool demo_pal)"
    unfolding run_free [OF zero_less_one] pool_iff by (simp_all add: is_run_def demo_pal_def demo_pool_def demo_bits)
  then show ?thesis
    using palloc_get_multiple_correct [OF demo_pal_ok zero_less_one refl refl, of "PAL_USER OR PAL_ZERO"]
    by (auto simp: get_pool_def PAL_USER_def PAL_ZERO_def PAL_ASSERT_def)
qed

lemma palloc_free_ok:
  assumes "pal_ok s" "0 < n" "p = get_pool u s" "page_run a n \<subseteq> used_pages p"
  shows "\<exists>s'. palloc_free_multiple a n s = Some s' \<and> pal_ok s' \<and> used_pages (get_pool u s') = used_pages p - page_run a n \<and>
    pool_pages (get_pool u s') = pool_pages p \<and> get_pool (\<not> u) s' = get_pool (\<not> u) s \<and>
    (\<forall>x. pmem s' x = (if a \<le> x \<and> x < a + PGSIZE * n then 0xCC else pmem s x))"
proof -
  have p: "pool_ok p" "bm_inv (used_map p)" using pal_pool_ok [OF assms(1), of u] assms(3) by (auto simp: pool_ok_def)
  have "a \<in> page_run a n" using assms(2) by (auto simp: page_run_def intro: exI [of _ 0])
  then obtain i where i: "a = base p + PGSIZE * i" using assms(4) by (auto simp: used_pages_def)
  have r: "i + n \<le> bit_cnt (used_map p)" "is_run (bits_of (used_map p)) i n True" using run_used [OF assms(2)] assms(4) i by auto
  have a: "a \<in> pool_pages p" using r(1) assms(2) unfolding i pool_iff by simp
  have sz: "PGSIZE * n < 2 ^ 32"
    using r(1) p(1) by (simp add: pool_ok_def PHYS_BASE_def PGSIZE_def)
  obtain um where um: "bitmap_set_multiple (used_map p) i n False = Some um" "bm_inv um" "bits_of um = fill i n False (bits_of (used_map p))"
    using bm.put_ok [OF p(2), of i n False] r(1) by auto
  have bc: "bit_cnt um = bit_cnt (used_map p)" using um(3) r(1) by (metis length_bits_of length_fill)
  let ?m = "\<lambda>x. if a \<le> x \<and> x < a + PGSIZE * n then 0xCC else pmem s x"
  have e: "palloc_free_multiple a n s = Some (set_pool u (p\<lparr>used_map := um\<rparr>) (s\<lparr>pmem := ?m\<rparr>))"
    using free_unfold [OF assms(1) a assms(3,2) i] um(1) r bitmap_all_eq [OF p(2), of n i] sz by (simp add: PGSIZE_def)
  have "used_pages (p\<lparr>used_map := um\<rparr>) = used_pages p - page_run a n"
    using used_fill [OF r(1) um(3), of "base p"] unfolding pool_sim i used_pages_def by simp
  moreover have "pal_ok (set_pool u (p\<lparr>used_map := um\<rparr>) (s\<lparr>pmem := ?m\<rparr>))"
    using set_pool_ok [of "s\<lparr>pmem := ?m\<rparr>" um u] assms(1,3) um(2) bc by simp
  moreover have "pool_pages (p\<lparr>used_map := um\<rparr>) = pool_pages p" by (simp add: pool_pages_def bc)
  ultimately show ?thesis using e by simp
qed

text \<open>C20: releasing \<open>n\<close> pages that are all in use makes exactly these pages free, fills exactly them with 0xcc and keeps the
  allocator well-formed and the other pool unchanged.\<close>
theorem palloc_free_multiple_correct:
  assumes "pal_ok s" "0 < n" "p = get_pool u s" "page_run a n \<subseteq> used_pages p"
  shows "\<exists>s'. palloc_free_multiple a n s = Some s' \<and> pal_ok s' \<and> used_pages (get_pool u s') = used_pages p - page_run a n \<and>
    pool_pages (get_pool u s') = pool_pages p \<and> get_pool (\<not> u) s' = get_pool (\<not> u) s \<and>
    (\<forall>x. pmem s' x = (if a \<le> x \<and> x < a + PGSIZE * n then 0xCC else pmem s x))"
  by (rule palloc_free_ok [OF assms])

theorem palloc_free_multiple_correct_witness:
  "\<exists>s'. palloc_free_multiple (0xC0101000 + PGSIZE * 8) 2 demo_pal = Some s' \<and> pal_ok s'"
proof -
  have "bits_of demo_bitmap ! (8 + j) = True" if "j < 2" for j
    using that demo_bits by (cases j) auto
  then have "is_run (bits_of demo_bitmap) 8 2 True" by (simp add: is_run_def demo_bits(1))
  then have "page_run (base (kernel_pool demo_pal) + PGSIZE * 8) 2 \<subseteq> used_pages (kernel_pool demo_pal)"
    unfolding run_used [OF zero_less_numeral] by (simp add: demo_pal_def demo_pool_def demo_bits(1))
  then show ?thesis
    using palloc_free_multiple_correct [OF demo_pal_ok zero_less_numeral refl, of "base (kernel_pool demo_pal) + PGSIZE * 8" "num.Bit0 num.One" False]
    by (auto simp: get_pool_def demo_pal_def demo_pool_def)
qed

text \<open>C21: releasing a run that contains a page which is not in use (a double free, or a run that leaves the pool) stops the
  kernel.\<close>
theorem palloc_double_free_stops:
  assumes "pal_ok s" "0 < n" "n < 2 ^ 31" "a \<in> pool_pages (get_pool u s)" "\<not> page_run a n \<subseteq> used_pages (get_pool u s)"
  shows "palloc_free_multiple a n s = None"
proof -
  let ?p = "get_pool u s"
  have p: "bm_inv (used_map ?p)" using pal_pool_ok [OF assms(1), of u] by (simp add: pool_ok_def)
  obtain i where i: "a = base ?p + PGSIZE * i" using assms(4) by (auto simp: pool_pages_def)
  show ?thesis using free_unfold [OF assms(1,4) refl assms(2) i] assms(5) run_used [OF assms(2), of ?p i] bitmap_all_eq [OF p assms(3), of i]
    by (simp add: i k_assert_def split: if_splits)
qed

theorem palloc_double_free_stops_witness: "palloc_free_multiple (0xC0101000 + PGSIZE * 4) 1 demo_pal = None"
proof -
  have k: "get_pool False demo_pal = kernel_pool demo_pal" "base (kernel_pool demo_pal) = 0xC0101000"
    "used_map (kernel_pool demo_pal) = demo_bitmap" by (simp_all add: get_pool_def demo_pal_def demo_pool_def)
  have "base (kernel_pool demo_pal) + PGSIZE * 4 \<in> pool_pages (kernel_pool demo_pal)" unfolding pool_iff by (simp add: k demo_bits)
  moreover have "\<not> page_run (base (kernel_pool demo_pal) + PGSIZE * 4) 1 \<subseteq> used_pages (kernel_pool demo_pal)"
    unfolding run_used [OF zero_less_one] by (auto simp: k is_run_def demo_bits)
  ultimately show ?thesis using palloc_double_free_stops [OF demo_pal_ok zero_less_one, of _ False] by (simp add: k)
qed

subsection \<open>Initialisation\<close>

lemma bm_pages_bounds:
  assumes "0 < c" "c < 2 ^ 20" "b = DIV_ROUND_UP (bitmap_buf_size c) PGSIZE"
  shows "b \<le> c" "8 + 4 * elem_cnt c \<le> b * PGSIZE" "bitmap_buf_size c = 8 + 4 * elem_cnt c"
proof -
  have e: "c \<le> 32 * elem_cnt c" "32 * elem_cnt c < c + 32" using elem_cnt_bounds [of c] assms(2) by auto
  show bs: "bitmap_buf_size c = 8 + 4 * elem_cnt c" using e assms(2) by (simp add: bitmap_buf_size_def byte_cnt_def)
  have r: "8 + 4 * elem_cnt c \<le> 4096 * b" "4096 * b < 8 + 4 * elem_cnt c + 4096"
    using div_round_up_bounds [of 4096 "8 + 4 * elem_cnt c"] e assms(2,3) by (simp_all add: bs PGSIZE_def)
  show "8 + 4 * elem_cnt c \<le> b * PGSIZE" using r(1) by (simp add: PGSIZE_def)
  have "131072 * b < 4 * c + 131456" using r(2) e(2) by linarith
  then show "b \<le> c" using assms(1) by linarith
qed

lemma init_pool_ok:
  assumes "0 < c" "c < 2 ^ 20" "start mod PGSIZE = 0" "PHYS_BASE \<le> start" "start + PGSIZE * c < 2 ^ 32"
  shows "\<exists>p. init_pool m start c = Some p \<and> pool_ok p \<and> used_pages p = {} \<and> start \<le> base p \<and> pool_end p = start + PGSIZE * c"
proof -
  define b where "b = DIV_ROUND_UP (bitmap_buf_size c) PGSIZE"
  note bb = bm_pages_bounds [OF assms(1,2) b_def]
  define n where "n = c - b"
  define blk where "blk = map (\<lambda>i. ld32 m (start + 4 * i)) [0..<b * (PGSIZE div 4)]"
  let ?b = "\<lparr>bit_cnt = n, bits = drop 2 blk\<rparr>"
  have n: "n \<le> c" "n < 2 ^ 20" using assms(2) by (simp_all add: n_def)
  have ec: "elem_cnt n \<le> elem_cnt c" "c \<le> 32 * elem_cnt c"
    using elem_cnt_bounds [of n] elem_cnt_bounds [of c] n assms(2) by auto
  have "2 + elem_cnt c \<le> length blk" using bb(2) by (simp add: blk_def PGSIZE_def)
  then have inv: "bm_inv ?b" using ec n by (simp add: bm_inv_def)
  obtain um where um: "bitmap_set_multiple ?b 0 n False = Some um" "bm_inv um" "bits_of um = fill 0 n False (bits_of ?b)"
    using bm.put_ok [OF inv, of 0 n False] by auto
  have bc: "bit_cnt um = n" using um(3) by (metis add_0 bitmap.select_convs(1) length_bits_of length_fill order_refl)
  have bs: "bitmap_buf_size n \<le> b * PGSIZE"
  proof -
    have "bitmap_buf_size n = 8 + 4 * elem_cnt n" using n elem_cnt_bounds [of n] by (simp add: bitmap_buf_size_def byte_cnt_def)
    then show ?thesis using bb(2) ec(1) by linarith
  qed
  have ad: "start + b * PGSIZE < 2 ^ 32" using bb(1) assms(5) by (simp add: PGSIZE_def)
  have e: "init_pool m start c = Some \<lparr>lock = False, used_map = um, base = start + b * PGSIZE\<rparr>" (is "_ = Some ?p")
    using bb(1) bs um(1) ad
    by (simp add: init_pool_def Let_def bitmap_create_in_buf_def bitmap_set_all_def bitmap_size_def flip: b_def n_def blk_def)
  have en: "start + b * PGSIZE + PGSIZE * n = start + PGSIZE * c" using bb(1) by (simp add: n_def PGSIZE_def)
  have "pool_ok ?p" using um(2) assms(3-5) en by (simp add: pool_ok_def bc)
  moreover have "used_pages ?p = {}" using um(3) by (auto simp: used_pages_def bc fill_def simp del: nth_bits_of)
  ultimately show ?thesis using e en by (simp add: pool_end_def bc)
qed

text \<open>C22: at boot, with more than one page above the first megabyte, \<open>palloc_init\<close> establishes the invariant: two pools of
  free pages that do not overlap and lie between the first megabyte and the end of memory.\<close>
theorem palloc_init_correct:
  assumes "257 < init_ram_pages" "init_ram_pages < 2 ^ 18" "0 < user_page_limit"
  shows "\<exists>s. palloc_init init_ram_pages user_page_limit m = Some s \<and> pal_ok s \<and>
    used_pages (kernel_pool s) = {} \<and> used_pages (user_pool s) = {} \<and> PHYS_BASE + 1024 * 1024 \<le> base (kernel_pool s) \<and>
    pool_end (user_pool s) = PHYS_BASE + init_ram_pages * PGSIZE"
proof -
  define f where "f = init_ram_pages - 256"
  define up where "up = (if f div 2 > user_page_limit then user_page_limit else f div 2)"
  define kp where "kp = f - up"
  have b: "0 < up" "up \<le> f div 2" "1 < f" "f < 261888" "up + kp = f" "0 < kp" "up \<le> f" using assms by (auto simp: f_def up_def kp_def)
  have i: "init_ram_pages = f + 256" using assms by (simp add: f_def)
  let ?st = "PHYS_BASE + 1024 * 1024"
  have st: "ptov (1024 * 1024) = Some ?st" "ptov (u32 (init_ram_pages * PGSIZE)) = Some (?st + f * PGSIZE)"
    using b(4) by (simp_all add: ptov_def PHYS_BASE_def i PGSIZE_def)
  have fp: "u32 (?st + f * PGSIZE + 2 ^ 32 - ?st) div PGSIZE = f" using b(4) by (simp add: u32_def PGSIZE_def)
  have n: "kp < 2 ^ 20" "up < 2 ^ 20" "?st mod PGSIZE = 0" "PHYS_BASE \<le> ?st" "?st + PGSIZE * kp < 2 ^ 32"
    using b by (simp_all add: PHYS_BASE_def PGSIZE_def)
  have n2: "(?st + kp * PGSIZE) mod PGSIZE = 0" "PHYS_BASE \<le> ?st + kp * PGSIZE" "(?st + kp * PGSIZE) + PGSIZE * up < 2 ^ 32"
    using b by (simp_all add: PHYS_BASE_def PGSIZE_def mod_add_left_eq [symmetric])
  obtain k where k: "init_pool m ?st kp = Some k" "pool_ok k" "used_pages k = {}" "?st \<le> base k" "pool_end k = ?st + PGSIZE * kp"
    using init_pool_ok [OF b(6) n(1,3-5), of m] by blast
  obtain u where u: "init_pool m (?st + kp * PGSIZE) up = Some u" "pool_ok u" "used_pages u = {}" "?st + kp * PGSIZE \<le> base u"
    "pool_end u = ?st + kp * PGSIZE + PGSIZE * up"
    using init_pool_ok [OF b(1) n(2) n2, of m] by blast
  have "u32 (?st + kp * PGSIZE) = ?st + kp * PGSIZE" using n(5) by (simp add: PGSIZE_def)
  then have e: "palloc_init init_ram_pages user_page_limit m = Some \<lparr>kernel_pool = k, user_pool = u, pmem = m\<rparr>"
    unfolding palloc_init_def st Option.bind.simps Let_def fp up_def [symmetric] kp_def [symmetric] k(1) using u(1) by simp
  have "pool_end u = PHYS_BASE + init_ram_pages * PGSIZE" using u(5) b(5) by (simp add: i PGSIZE_def)
  then show ?thesis using e k u by (simp add: pal_ok_def mult.commute)
qed

theorem palloc_init_correct_witness:
  "\<exists>s. palloc_init 1024 (2 ^ 32) (\<lambda>_. 7) = Some s \<and> pal_ok s \<and> pool_end (user_pool s) = 0xC0400000"
  using palloc_init_correct [of 1024 "2 ^ 32" "\<lambda>_. 7"] by (auto simp: PHYS_BASE_def PGSIZE_def)

end
