(* ===== verification/Pagedir_Props.thy ===== *)
theory Pagedir_Props
  imports Pagedir Palloc_Props
begin

text \<open>
  Correctness of the page directories.  \<open>pd_ok s pd\<close> says that \<open>pd\<close> is a used page of the kernel pool and that its
  non-zero user entries point to page tables, distinct used pages of the kernel pool.
\<close>

subsection \<open>Entries\<close>

lemma of_nat_page:
  assumes "p < 2 ^ 32" "p mod PGSIZE = 0" "f AND PTE_ADDR = (0 :: pte)"
  shows "unat ((of_nat p OR f) AND PTE_ADDR) = p"
proof -
  have u: "unat (of_nat p :: pte) = p" using assms(1) by (simp add: unat_of_nat take_bit_nat_eq_self)
  have "unat ((of_nat p :: pte) AND PTE_ADDR) = p AND 0xFFFFF000" using u by (simp add: unsigned_and_eq PTE_ADDR_def)
  also have "\<dots> = p" unfolding and_high [OF assms(1)] using assms(2) div_mult_mod_eq [of p 4096] by (simp add: PGSIZE_def)
  finally show ?thesis using assms(3) by (simp add: bit.conj_disj_distrib2)
qed

lemma or_flag: "f AND g \<noteq> 0 \<Longrightarrow> (e OR f) AND g \<noteq> (0 :: pte)"
  by (metis bit.conj_disj_distrib2 or_eq_0_iff)

lemma vtop_bounds: "vtop a = Some p \<Longrightarrow> a < 2 ^ 32 \<Longrightarrow> p < PHYS_BASE \<and> p + PHYS_BASE = a"
  by (auto simp: vtop_def is_kernel_vaddr_def PHYS_BASE_def)

lemma vtop_ptov: "vtop a = Some p \<Longrightarrow> a < 2 ^ 32 \<Longrightarrow> ptov p = Some a"
  using vtop_bounds [of a p] by (auto simp: ptov_def)

lemma vtop_page: "vtop a = Some p \<Longrightarrow> a < 2 ^ 32 \<Longrightarrow> pg_ofs a = 0 \<Longrightarrow> p mod PGSIZE = 0"
  using vtop_bounds [of a p] mod_mult_self1 [of p 786432 4096] by (simp add: pg_ofs_mod PHYS_BASE_def PGSIZE_def)

lemma pde_round_trip:
  assumes "pde_create pt = Some e" "pt < 2 ^ 32"
  shows "pde_get_pt e = Some pt" "e \<noteq> 0"
proof -
  obtain p where p: "vtop pt = Some p" "pg_ofs pt = 0" "e = of_nat p OR (PTE_U OR PTE_P OR PTE_W)"
    using assms(1) by (auto simp: pde_create_def bind_eq_Some_conv or.assoc)
  have f: "(PTE_U OR PTE_P OR PTE_W) AND PTE_ADDR = 0" "(PTE_U OR PTE_P OR PTE_W) AND PTE_P \<noteq> 0" by (simp_all add: pte_flags PTE_ADDR_def)
  have "p < 2 ^ 32" using vtop_bounds [OF p(1) assms(2)] assms(2) by linarith
  then have "unat (e AND PTE_ADDR) = p" unfolding p(3) by (rule of_nat_page [OF _ vtop_page [OF p(1) assms(2) p(2)] f(1)])
  moreover have "e AND PTE_P \<noteq> 0" unfolding p(3) by (rule or_flag [OF f(2)])
  ultimately show "pde_get_pt e = Some pt" "e \<noteq> 0" using vtop_ptov [OF p(1) assms(2)] by (auto simp: pde_get_pt_def)
qed

lemma pde_create_ok: "pg_ofs pt = 0 \<Longrightarrow> PHYS_BASE \<le> pt \<Longrightarrow> \<exists>e. pde_create pt = Some e"
  by (simp add: pde_create_def vtop_def is_kernel_vaddr_def)

lemma pte_round_trip:
  assumes "pte_create_user page w = Some e" "page < 2 ^ 32"
  shows "pte_get_page e = Some page" "e AND PTE_P \<noteq> 0" "e AND PTE_W \<noteq> 0 \<longleftrightarrow> w" "e AND PTE_U \<noteq> 0"
proof -
  let ?f = "PTE_P OR (if w then PTE_W else 0) OR PTE_U"
  obtain p where p: "vtop page = Some p" "pg_ofs page = 0" "e = of_nat p OR ?f"
    using assms(1) by (auto simp: pte_create_user_def pte_create_kernel_def bind_eq_Some_conv or.assoc)
  have f: "?f AND PTE_ADDR = 0" "?f AND PTE_P \<noteq> 0" "?f AND PTE_U \<noteq> 0" "?f AND PTE_W \<noteq> 0 \<longleftrightarrow> w" by (simp_all add: pte_flags PTE_ADDR_def)
  have b: "p < 2 ^ 32" using vtop_bounds [OF p(1) assms(2)] assms(2) by linarith
  have pm: "p mod PGSIZE = 0" by (rule vtop_page [OF p(1) assms(2) p(2)])
  have "unat (e AND PTE_ADDR) = p" unfolding p(3) by (rule of_nat_page [OF b pm f(1)])
  then show "pte_get_page e = Some page" using vtop_ptov [OF p(1) assms(2)] by (simp add: pte_get_page_def)
  show "e AND PTE_P \<noteq> 0" "e AND PTE_U \<noteq> 0" unfolding p(3) by (rule or_flag [OF f(2)]) (rule or_flag [OF f(3)])
  have "(of_nat p :: pte) AND PTE_W = 0"
  proof -
    have "\<not> bit p 1" using pm by (auto simp: bit_iff_odd PGSIZE_def elim!: dvdE [OF mod_0_imp_dvd])
    then have "\<not> bit (of_nat p :: pte) 1" by (simp add: bit_of_nat_iff)
    then show ?thesis by (auto intro!: bit_word_eqI simp: bit_and_iff PTE_W_def bit_2_iff)
  qed
  then show "e AND PTE_W \<noteq> 0 \<longleftrightarrow> w" unfolding p(3) using f(4) by (simp add: bit.conj_disj_distrib2)
qed

subsection \<open>The invariant and the abstract page table\<close>

definition table :: "mmu \<Rightarrow> addr \<Rightarrow> nat \<Rightarrow> addr option" where
  "table s pd i = (if rd32 s (pd + 4 * i) = 0 then None else pde_get_pt (rd32 s (pd + 4 * i)))"

definition entry :: "mmu \<Rightarrow> addr \<Rightarrow> addr \<Rightarrow> pte" where
  "entry s pd va = (case table s pd (pd_no va) of None \<Rightarrow> 0 | Some pt \<Rightarrow> rd32 s (pt + 4 * pt_no va))"

definition pte_ok :: "pte \<Rightarrow> bool" where
  "pte_ok e \<longleftrightarrow> (e AND PTE_P \<noteq> 0 \<longrightarrow> unat (e AND PTE_ADDR) < 2 ^ 30)"

definition ktables :: "mmu \<Rightarrow> addr set" where
  "ktables s = used_pages (kernel_pool (pal s))"

definition pd_ok :: "mmu \<Rightarrow> addr \<Rightarrow> bool" where
  "pd_ok s pd \<longleftrightarrow> pal_ok (pal s) \<and> pd \<in> ktables s \<and>
     (\<forall>i < 768. rd32 s (pd + 4 * i) \<noteq> 0 \<longrightarrow> (\<exists>pt \<in> ktables s. pt \<noteq> pd \<and> pde_create pt = Some (rd32 s (pd + 4 * i)) \<and>
        (\<forall>j < 1024. pte_ok (rd32 s (pt + 4 * j))))) \<and>
     (\<forall>i < 768. \<forall>j < 768. table s pd i \<noteq> None \<longrightarrow> table s pd i = table s pd j \<longrightarrow> i = j)"

lemma ktable_page:
  assumes "pal_ok (pal s)" "a \<in> ktables s"
  shows "a \<in> pool_pages (kernel_pool (pal s))" "pg_ofs a = 0" "PHYS_BASE \<le> a" "a + PGSIZE \<le> 2 ^ 32" "a \<noteq> 0" "a < 2 ^ 32"
proof -
  have k: "pool_ok (kernel_pool (pal s))" using assms(1) by (simp add: pal_ok_def)
  obtain i where i: "a = base (kernel_pool (pal s)) + PGSIZE * i" "i < bit_cnt (used_map (kernel_pool (pal s)))"
    using assms(2) by (auto simp: ktables_def used_pages_def)
  have "PGSIZE * i + PGSIZE \<le> PGSIZE * bit_cnt (used_map (kernel_pool (pal s)))" using i(2) by (simp add: PGSIZE_def)
  then show "a + PGSIZE \<le> 2 ^ 32" using i k by (simp add: pool_ok_def)
  then show "a < 2 ^ 32" by (simp add: PGSIZE_def)
  show "a \<in> pool_pages (kernel_pool (pal s))" using i by (auto simp: pool_pages_def)
  show "pg_ofs a = 0" "PHYS_BASE \<le> a" "a \<noteq> 0" using i k by (simp_all add: pool_ok_def pg_ofs_mod PHYS_BASE_def)
qed

lemma pages_apart:
  assumes "pg_ofs a = 0" "pg_ofs b = 0" "a \<noteq> b"
  shows "a + PGSIZE \<le> b \<or> b + PGSIZE \<le> a"
proof -
  obtain k l where "a = PGSIZE * k" "b = PGSIZE * l" using assms(1,2) unfolding pg_ofs_mod by blast
  then show ?thesis using assms(3) by (auto simp: PGSIZE_def)
qed

lemma rd32_wr32 [simp]: "rd32 (wr32 a w s) a = w"
  by (simp add: rd32_def wr32_def)

lemma rd32_wr32_other: "a + 4 \<le> b \<or> b + 4 \<le> a \<Longrightarrow> rd32 (wr32 a w s) b = rd32 s b"
  by (simp add: rd32_def wr32_def ld32_st32_other)

lemma wr32_simps [simp]: "pal_ok (pal (wr32 a w s)) = pal_ok (pal s)" "ktables (wr32 a w s) = ktables s"
  "init_page_dir (wr32 a w s) = init_page_dir s" "init_ram_pages (wr32 a w s) = init_ram_pages s" "cr3 (wr32 a w s) = cr3 s"
  by (simp_all add: wr32_def ktables_def)

text \<open>Reading a word of another page, or another word of the same page, after a write.\<close>

lemma rd32_wr32_page:
  assumes "pg_ofs p = 0" "pg_ofs q = 0" "i < 1024" "j < 1024" "p \<noteq> q \<or> i \<noteq> j"
  shows "rd32 (wr32 (p + 4 * i) w s) (q + 4 * j) = rd32 s (q + 4 * j)"
proof (rule rd32_wr32_other)
  show "p + 4 * i + 4 \<le> q + 4 * j \<or> q + 4 * j + 4 \<le> p + 4 * i"
  proof (cases "p = q")
    case True then show ?thesis using assms(5) by auto
  next
    case False then show ?thesis using pages_apart [OF assms(1,2)] assms(3,4) by (auto simp: PGSIZE_def)
  qed
qed

lemma user_pd_no: "is_user_vaddr va \<Longrightarrow> pd_no va < 768"
  by (simp add: is_user_vaddr_def pd_no_div PHYS_BASE_def)

lemma pt_no_bound [simp]: "pt_no va < 1024"
  by (simp add: pt_no_div)

lemma table_some:
  assumes "pd_ok s pd" "i < 768" "table s pd i = Some pt"
  shows "pt \<in> ktables s" "pt \<noteq> pd" "rd32 s (pd + 4 * i) \<noteq> 0" "pde_create pt = Some (rd32 s (pd + 4 * i))"
    "j < 1024 \<Longrightarrow> pte_ok (rd32 s (pt + 4 * j))"
proof -
  have ne: "rd32 s (pd + 4 * i) \<noteq> 0" using assms(3) by (auto simp: table_def split: if_splits)
  then obtain pt' where p: "pt' \<in> ktables s" "pt' \<noteq> pd" "pde_create pt' = Some (rd32 s (pd + 4 * i))"
    "\<forall>j < 1024. pte_ok (rd32 s (pt' + 4 * j))" using assms(1,2) unfolding pd_ok_def by blast
  have "pt' < 2 ^ 32" using ktable_page(6) [OF _ p(1)] assms(1) by (simp add: pd_ok_def)
  then have "pt' = pt" using pde_round_trip(1) [OF p(3)] assms(3) ne by (simp add: table_def)
  then show "pt \<in> ktables s" "pt \<noteq> pd" "rd32 s (pd + 4 * i) \<noteq> 0" "pde_create pt = Some (rd32 s (pd + 4 * i))"
    "j < 1024 \<Longrightarrow> pte_ok (rd32 s (pt + 4 * j))" using p ne by auto
qed

lemma table_none:
  assumes "pd_ok s pd" "i < 768"
  shows "table s pd i = None \<longleftrightarrow> rd32 s (pd + 4 * i) = 0"
proof
  assume t: "table s pd i = None"
  show "rd32 s (pd + 4 * i) = 0"
  proof (rule ccontr)
    assume ne: "rd32 s (pd + 4 * i) \<noteq> 0"
    then obtain pt where p: "pt \<in> ktables s" "pde_create pt = Some (rd32 s (pd + 4 * i))" using assms unfolding pd_ok_def by blast
    have "pt < 2 ^ 32" using ktable_page(6) [OF _ p(1)] assms(1) by (simp add: pd_ok_def)
    then show False using pde_round_trip(1) [OF p(2)] t ne by (simp add: table_def)
  qed
qed (simp add: table_def)

lemma table_inj:
  "pd_ok s pd \<Longrightarrow> i < 768 \<Longrightarrow> j < 768 \<Longrightarrow> table s pd i = Some pt \<Longrightarrow> table s pd j = Some pt \<Longrightarrow> i = j"
  unfolding pd_ok_def by (metis option.distinct(1))

lemma lookup_eq:
  assumes "pd_ok s pd" "is_user_vaddr va"
  shows "table s pd (pd_no va) = Some pt \<Longrightarrow> lookup_page pd va create s = Some (pt + 4 * pt_no va, s)"
    "table s pd (pd_no va) = None \<Longrightarrow> lookup_page pd va False s = Some (NULL, s)"
proof -
  have u: "pd_no va < 768" by (rule user_pd_no [OF assms(2)])
  have pd: "pd \<noteq> 0" using ktable_page(5) [of s pd] assms(1) by (simp add: pd_ok_def)
  show "lookup_page pd va create s = Some (pt + 4 * pt_no va, s)" if t: "table s pd (pd_no va) = Some pt"
    using table_some [OF assms(1) u t] t pd assms(2) by (simp add: lookup_page_def Let_def table_def)
  show "lookup_page pd va False s = Some (NULL, s)" if t: "table s pd (pd_no va) = None"
    using table_none [OF assms(1) u] t pd by (simp add: lookup_page_def Let_def)
qed

lemma entry_some: "table s pd (pd_no va) = Some pt \<Longrightarrow> entry s pd va = rd32 s (pt + 4 * pt_no va)"
  by (simp add: entry_def)

lemma entry_ok:
  assumes "pd_ok s pd" "is_user_vaddr va"
  shows "pte_ok (entry s pd va)"
proof (cases "table s pd (pd_no va)")
  case None then show ?thesis by (simp add: entry_def pte_ok_def)
next
  case (Some pt) then show ?thesis using table_some(5) [OF assms(1) user_pd_no [OF assms(2)] Some] by (simp add: entry_def)
qed

lemma pte_get_page_ok: "pte_ok e \<Longrightarrow> e AND PTE_P \<noteq> 0 \<Longrightarrow> pte_get_page e = Some (unat (e AND PTE_ADDR) + PHYS_BASE)"
  by (simp add: pte_ok_def pte_get_page_def ptov_def PHYS_BASE_def)

lemma get_page_entry:
  assumes "pd_ok s pd" "is_user_vaddr va"
  shows "pagedir_get_page pd va s =
    Some (if entry s pd va AND PTE_P = 0 then NULL else unat (entry s pd va AND PTE_ADDR) + PHYS_BASE + pg_ofs va)"
proof (cases "table s pd (pd_no va)")
  case None then show ?thesis using lookup_eq(2) [OF assms None] assms(2) by (simp add: pagedir_get_page_def entry_def)
next
  case (Some pt)
  have "pt + 4 * pt_no va \<noteq> 0" using table_some(1) [OF assms(1) user_pd_no [OF assms(2)] Some] ktable_page(5) [of s pt] assms(1) by (auto simp: pd_ok_def)
  then show ?thesis using lookup_eq(1) [OF assms Some] assms(2) entry_ok [OF assms] pte_get_page_ok [of "entry s pd va"]
    by (simp add: pagedir_get_page_def entry_some [OF Some])
qed

text \<open>A store into the entry of one page changes that entry and no other.\<close>

lemma entry_wr:
  assumes "pd_ok s pd" "is_user_vaddr va" "table s pd (pd_no va) = Some pt" "pte_ok e" "s' = wr32 (pt + 4 * pt_no va) e s"
  shows "pd_ok s' pd" "table s' pd i = table s pd i \<or> 768 \<le> i"
    "is_user_vaddr va2 \<Longrightarrow> entry s' pd va2 = (if pg_no va2 = pg_no va then e else entry s pd va2)"
proof -
  have u: "pd_no va < 768" by (rule user_pd_no [OF assms(2)])
  note t = table_some [OF assms(1) u assms(3)]
  have ok: "pal_ok (pal s)" "pd \<in> ktables s" using assms(1) by (simp_all add: pd_ok_def)
  have al: "pg_ofs pd = 0" "pg_ofs pt = 0" using ktable_page(2) [OF ok(1)] ok(2) t(1) by auto
  have rd: "rd32 s' (pd + 4 * i) = rd32 s (pd + 4 * i)" if "i < 768" for i
    unfolding assms(5) using t(2) that by (intro rd32_wr32_page al pt_no_bound) auto
  have tb: "table s' pd i = table s pd i" if "i < 768" for i using rd [OF that] by (simp add: table_def)
  then show "table s' pd i = table s pd i \<or> 768 \<le> i" by (cases "i < 768") auto
  have en: "rd32 s' (q + 4 * j) = (if q = pt \<and> j = pt_no va then e else rd32 s (q + 4 * j))" if "q \<in> ktables s" "j < 1024" for q j
    using rd32_wr32_page [OF al(2) ktable_page(2) [OF ok(1) that(1)] pt_no_bound that(2)] by (auto simp: assms(5))
  show "pd_ok s' pd" unfolding pd_ok_def
  proof (intro conjI allI impI)
    show "pal_ok (pal s')" "pd \<in> ktables s'" using ok by (simp_all add: assms(5))
    fix i assume i: "i < (768 :: nat)" "rd32 s' (pd + 4 * i) \<noteq> 0"
    then obtain q where q: "table s pd i = Some q" using rd [OF i(1)] table_none [OF assms(1) i(1)] by auto
    note tq = table_some [OF assms(1) i(1) q]
    show "\<exists>q\<in>ktables s'. q \<noteq> pd \<and> pde_create q = Some (rd32 s' (pd + 4 * i)) \<and> (\<forall>j<1024. pte_ok (rd32 s' (q + 4 * j)))"
      using tq en [OF tq(1)] assms(4) rd [OF i(1)] by (intro bexI [of _ q]) (auto simp: assms(5))
  next
    fix i j :: nat assume "i < 768" "j < 768" "table s' pd i \<noteq> None" "table s' pd i = table s' pd j"
    then show "i = j" using tb table_inj [OF assms(1)] by auto
  qed
  show "entry s' pd va2 = (if pg_no va2 = pg_no va then e else entry s pd va2)" if u2: "is_user_vaddr va2"
  proof -
    have l: "pd_no va2 < 768" by (rule user_pd_no [OF u2])
    note eq = same_page [of va2 va]
    show ?thesis
    proof (cases "table s pd (pd_no va2)")
      case None then show ?thesis using assms(3) tb [OF l] by (auto simp: entry_def eq)
    next
      case (Some q)
      have "q = pt \<longleftrightarrow> pd_no va2 = pd_no va" using Some assms(3) table_inj [OF assms(1) l u] by auto
      then show ?thesis using Some tb [OF l] en [OF table_some(1) [OF assms(1) l Some] pt_no_bound] by (auto simp: entry_def eq)
    qed
  qed
qed

subsection \<open>Creating page tables\<close>

lemma mmu_get_zero:
  assumes "pal_ok (pal s)"
  shows "(\<exists>q s'. mmu_get_page PAL_ZERO s = Some (q, s') \<and> pal_ok (pal s') \<and> q \<noteq> NULL \<and> pg_ofs q = 0 \<and> q \<notin> ktables s \<and>
      ktables s' = insert q (ktables s) \<and> (\<forall>x. q \<le> x \<and> x < q + PGSIZE \<longrightarrow> pmem (pal s') x = 0) \<and>
      (\<forall>x. x < q \<or> q + PGSIZE \<le> x \<longrightarrow> pmem (pal s') x = pmem (pal s) x) \<and> s' = s\<lparr>pal := pal s'\<rparr>) \<or>
    (mmu_get_page PAL_ZERO s = Some (NULL, s) \<and> ktables s = pool_pages (kernel_pool (pal s)))"
proof -
  have u: "(PAL_ZERO AND PAL_USER \<noteq> 0) = False" "PAL_ZERO AND PAL_ZERO \<noteq> 0" "PAL_ZERO AND PAL_ASSERT = 0"
    by (simp_all add: PAL_ZERO_def PAL_USER_def PAL_ASSERT_def)
  have r: "page_run a 1 = {a}" for a by (auto simp: page_run_def)
  let ?k = "kernel_pool (pal s)"
  have "(\<exists>a p'. palloc_get_page PAL_ZERO (pal s) = Some (a, p') \<and> pal_ok p' \<and> a \<noteq> NULL \<and> pg_ofs a = 0 \<and> a \<in> pool_pages ?k - used_pages ?k \<and>
      used_pages (kernel_pool p') = used_pages ?k \<union> {a} \<and>
      (\<forall>x. pmem p' x = (if a \<le> x \<and> x < a + PGSIZE then 0 else pmem (pal s) x))) \<or>
    ((\<forall>a \<in> pool_pages ?k. \<not> a \<in> pool_pages ?k - used_pages ?k) \<and> palloc_get_page PAL_ZERO (pal s) = Some (NULL, pal s))"
    using palloc_get_ok [OF assms zero_less_one refl refl, of PAL_ZERO] unfolding u r palloc_get_page_def get_pool_def
    by (auto simp: PAL_ZERO_def)
  then show ?thesis
  proof (elim disjE exE conjE)
    fix a p' assume a: "palloc_get_page PAL_ZERO (pal s) = Some (a, p')" "pal_ok p'" "a \<noteq> NULL" "pg_ofs a = 0" "a \<in> pool_pages ?k - used_pages ?k"
      "used_pages (kernel_pool p') = used_pages ?k \<union> {a}" "\<forall>x. pmem p' x = (if a \<le> x \<and> x < a + PGSIZE then 0 else pmem (pal s) x)"
    then have "mmu_get_page PAL_ZERO s = Some (a, s\<lparr>pal := p'\<rparr>)" by (simp add: mmu_get_page_def)
    then show ?thesis using a by (intro disjI1 exI [of _ a] exI [of _ "s\<lparr>pal := p'\<rparr>"]) (auto simp: ktables_def)
  next
    assume "\<forall>a \<in> pool_pages ?k. \<not> a \<in> pool_pages ?k - used_pages ?k" "palloc_get_page PAL_ZERO (pal s) = Some (NULL, pal s)"
    then show ?thesis by (intro disjI2) (auto simp: mmu_get_page_def ktables_def used_pages_def pool_pages_def)
  qed
qed

lemma rd32_cong_page:
  assumes "\<forall>x. x < q \<or> q + PGSIZE \<le> x \<longrightarrow> pmem (pal s') x = pmem (pal s) x" "pg_ofs q = 0" "pg_ofs p = 0" "p \<noteq> q" "i < 1024"
  shows "rd32 s' (p + 4 * i) = rd32 s (p + 4 * i)"
  unfolding rd32_def using pages_apart [OF assms(3,2,4)] assms(1,5) by (intro ld32_cong) (auto simp: PGSIZE_def)

lemma rd32_zero_page:
  assumes "\<forall>x. q \<le> x \<and> x < q + PGSIZE \<longrightarrow> pmem (pal s') x = 0" "i < 1024"
  shows "rd32 s' (q + 4 * i) = 0"
  unfolding rd32_def using assms by (intro ld32_zero) (auto simp: PGSIZE_def)

lemma lookup_create:
  assumes "pd_ok s pd" "is_user_vaddr va" "table s pd (pd_no va) = None"
  shows "(\<exists>pt s'. lookup_page pd va True s = Some (pt + 4 * pt_no va, s') \<and> pd_ok s' pd \<and> table s' pd (pd_no va) = Some pt \<and>
      (\<forall>va2. is_user_vaddr va2 \<longrightarrow> entry s' pd va2 = entry s pd va2) \<and> init_page_dir s' = init_page_dir s) \<or>
    (lookup_page pd va True s = Some (NULL, s) \<and> ktables s = pool_pages (kernel_pool (pal s)))"
proof -
  let ?i = "pd_no va"
  let ?pde = "pd + 4 * ?i"
  have u: "?i < 768" by (rule user_pd_no [OF assms(2)])
  have ok: "pal_ok (pal s)" "pd \<in> ktables s" using assms(1) by (simp_all add: pd_ok_def)
  note pd = ktable_page [OF ok]
  have z: "rd32 s ?pde = 0" using table_none [OF assms(1) u] assms(3) by simp
  from mmu_get_zero [OF ok(1)] show ?thesis
  proof (elim disjE exE conjE)
    fix q s1
    assume q: "mmu_get_page PAL_ZERO s = Some (q, s1)" "pal_ok (pal s1)" "q \<noteq> NULL" "pg_ofs q = 0" "q \<notin> ktables s"
      "ktables s1 = insert q (ktables s)" "\<forall>x. q \<le> x \<and> x < q + PGSIZE \<longrightarrow> pmem (pal s1) x = 0"
      "\<forall>x. x < q \<or> q + PGSIZE \<le> x \<longrightarrow> pmem (pal s1) x = pmem (pal s) x" "s1 = s\<lparr>pal := pal s1\<rparr>"
    have qk: "q \<in> ktables s1" using q(6) by simp
    note qp = ktable_page [OF q(2) qk]
    obtain e where e: "pde_create q = Some e" using pde_create_ok [OF qp(2,3)] by blast
    note er = pde_round_trip [OF e qp(6)]
    define s2 where "s2 = wr32 ?pde e s1"
    have k2: "ktables s2 = insert q (ktables s)" "pal_ok (pal s2)" using q(2,6) by (simp_all add: s2_def)
    have rd: "rd32 s2 (p + 4 * j) = (if p = pd \<and> j = ?i then e else rd32 s (p + 4 * j))" if p: "p \<in> ktables s" "j < 1024" for p j
    proof -
      have pa: "pg_ofs p = 0" "p \<noteq> q" using ktable_page(2) [OF ok(1) p(1)] p(1) q(5) by auto
      have "rd32 s1 (p + 4 * j) = rd32 s (p + 4 * j)" by (rule rd32_cong_page [OF q(8,4) pa(1,2) p(2)])
      then show ?thesis using rd32_wr32_page [OF pd(2) pa(1), of ?i j e s1] u p(2) by (auto simp: s2_def)
    qed
    have rq: "rd32 s2 (q + 4 * j) = 0" if j: "j < 1024" for j
    proof -
      have "pd \<noteq> q" using ok(2) q(5) by auto
      then show ?thesis using rd32_wr32_page [OF pd(2) q(4), of ?i j e s1] u j rd32_zero_page [OF q(7) j] by (simp add: s2_def)
    qed
    have tb: "table s2 pd i = (if i = ?i then Some q else table s pd i)" if "i < 768" for i
      using rd [OF ok(2), of i] that er by (cases "i = ?i") (simp_all add: table_def)
    have pdok: "pd_ok s2 pd" unfolding pd_ok_def
    proof (intro conjI allI impI)
      show "pal_ok (pal s2)" "pd \<in> ktables s2" using k2 ok(2) by auto
      fix i assume i: "i < (768 :: nat)" "rd32 s2 (pd + 4 * i) \<noteq> 0"
      show "\<exists>pt\<in>ktables s2. pt \<noteq> pd \<and> pde_create pt = Some (rd32 s2 (pd + 4 * i)) \<and> (\<forall>j<1024. pte_ok (rd32 s2 (pt + 4 * j)))"
      proof (cases "i = ?i")
        case True then show ?thesis using rd [OF ok(2), of i] i e rq k2 q(5) ok(2) by (intro bexI [of _ q]) (auto simp: pte_ok_def)
      next
        case False
        then have r: "rd32 s2 (pd + 4 * i) = rd32 s (pd + 4 * i)" using rd [OF ok(2), of i] i(1) by simp
        then obtain p where p: "table s pd i = Some p" using i table_none [OF assms(1) i(1)] by auto
        note t = table_some [OF assms(1) i(1) p]
        show ?thesis using t rd [OF t(1)] r k2 by (intro bexI [of _ p]) auto
      qed
    next
      fix i j :: nat assume ij: "i < 768" "j < 768" "table s2 pd i \<noteq> None" "table s2 pd i = table s2 pd j"
      have "table s pd m \<noteq> Some q" if "m < 768" for m using table_some(1) [OF assms(1) that, of q] q(5) by auto
      then show "i = j" using ij tb table_inj [OF assms(1)] by (auto split: if_splits)
    qed
    have en: "entry s2 pd va2 = entry s pd va2" if u2: "is_user_vaddr va2" for va2
    proof (cases "pd_no va2 = ?i")
      case True then show ?thesis using tb [OF u] assms(3) rq by (simp add: entry_def)
    next
      case False
      note l = user_pd_no [OF u2]
      show ?thesis
      proof (cases "table s pd (pd_no va2)")
        case None then show ?thesis using False tb [OF l] by (simp add: entry_def)
      next
        case (Some p)
        note t = table_some [OF assms(1) l Some]
        show ?thesis using Some False tb [OF l] rd [OF t(1) pt_no_bound] t(2) by (simp add: entry_def)
      qed
    qed
    have "lookup_page pd va True s = Some (q + 4 * pt_no va, s2)"
      using z q(1,3) e er pd(5) assms(2) by (simp add: lookup_page_def Let_def s2_def)
    moreover have "init_page_dir s2 = init_page_dir s" using q(9) by (metis mmu.simps(2) mmu.surjective mmu.update_convs(1) s2_def wr32_simps(3))
    ultimately show ?thesis using pdok tb [OF u] en by auto
  next
    assume "mmu_get_page PAL_ZERO s = Some (NULL, s)" "ktables s = pool_pages (kernel_pool (pal s))"
    then show ?thesis using z pd(5) assms(2) by (simp add: lookup_page_def Let_def)
  qed
qed

subsection \<open>Properties\<close>

lemma pte_create_ok:
  assumes "pg_ofs k = 0" "PHYS_BASE \<le> k" "k < 2 ^ 32"
  shows "\<exists>e. pte_create_user k w = Some e \<and> pte_ok e \<and> e AND PTE_P \<noteq> 0 \<and> unat (e AND PTE_ADDR) + PHYS_BASE = k"
proof -
  obtain e where e: "pte_create_user k w = Some e" using assms(1,2) by (simp add: pte_create_user_def pte_create_kernel_def vtop_def is_kernel_vaddr_def)
  note r = pte_round_trip [OF e assms(3)]
  have le: "unat (e AND PTE_ADDR) < 2 ^ 32" by (rule order_less_le_trans [OF unsigned_less]) simp
  have p: "unat (e AND PTE_ADDR) < PHYS_BASE" "u32 (unat (e AND PTE_ADDR) + PHYS_BASE) = k"
    using r(1) by (simp_all add: pte_get_page_def ptov_def)
  have "unat (e AND PTE_ADDR) + PHYS_BASE = k \<and> unat (e AND PTE_ADDR) < 2 ^ 30"
  proof (cases "unat (e AND PTE_ADDR) + PHYS_BASE < 2 ^ 32")
    case True then show ?thesis using p by (simp add: PHYS_BASE_def)
  next
    case False
    then have "u32 (unat (e AND PTE_ADDR) + PHYS_BASE) = unat (e AND PTE_ADDR) + PHYS_BASE - 2 ^ 32"
      using le by (simp add: u32_def PHYS_BASE_def le_mod_geq)
    then show ?thesis using p assms(2) by (simp add: PHYS_BASE_def)
  qed
  then show ?thesis using e r(2) by (auto simp: pte_ok_def)
qed

lemma get_page_unmapped:
  assumes "pd_ok s pd" "is_user_vaddr va"
  shows "pagedir_get_page pd va s = Some NULL \<longleftrightarrow> entry s pd va AND PTE_P = 0"
  unfolding get_page_entry [OF assms] by (auto simp: PHYS_BASE_def)

lemma set_page_present:
  assumes "pd_ok s pd" "is_user_vaddr up" "table s pd (pd_no up) = Some pt" "entry s pd up AND PTE_P = 0"
    "pg_ofs k = 0" "PHYS_BASE \<le> k" "k < 2 ^ 32"
  shows "\<exists>e. pte_create_user k w = Some e \<and> pd_ok (wr32 (pt + 4 * pt_no up) e s) pd \<and>
    (\<forall>va. is_user_vaddr va \<longrightarrow> pagedir_get_page pd va (wr32 (pt + 4 * pt_no up) e s) =
      (if pg_no va = pg_no up then Some (k + pg_ofs va) else pagedir_get_page pd va s))"
proof -
  obtain e where e: "pte_create_user k w = Some e" "pte_ok e" "e AND PTE_P \<noteq> 0" "unat (e AND PTE_ADDR) + PHYS_BASE = k"
    using pte_create_ok [OF assms(5-7)] by blast
  note wr = entry_wr [OF assms(1-3) e(2) refl]
  have "pagedir_get_page pd va (wr32 (pt + 4 * pt_no up) e s) =
      (if pg_no va = pg_no up then Some (k + pg_ofs va) else pagedir_get_page pd va s)" if "is_user_vaddr va" for va
    using e(3,4) unfolding get_page_entry [OF wr(1) that] get_page_entry [OF assms(1) that] wr(3) [OF that] by simp
  then show ?thesis using e(1) wr(1) by blast
qed

lemma pagedir_set_page_ok:
  assumes "pd_ok s pd" "pd \<noteq> init_page_dir s" "is_user_vaddr up" "pg_ofs up = 0" "pagedir_get_page pd up s = Some NULL"
    "pg_ofs k = 0" "PHYS_BASE \<le> k" "k < 2 ^ 32" "(k - PHYS_BASE) div PGSIZE < init_ram_pages s"
  shows "(\<exists>s'. pagedir_set_page pd up k w s = Some (True, s') \<and> pd_ok s' pd \<and>
      (\<forall>va. is_user_vaddr va \<longrightarrow> pagedir_get_page pd va s' =
         (if pg_no va = pg_no up then Some (k + pg_ofs va) else pagedir_get_page pd va s))) \<or>
    (pagedir_set_page pd up k w s = Some (False, s) \<and> used_pages (kernel_pool (pal s)) = pool_pages (kernel_pool (pal s)))"
proof -
  have np: "entry s pd up AND PTE_P = 0" using assms(5) get_page_unmapped [OF assms(1,3)] by simp
  have g: "pagedir_set_page pd up k w s = do {
      (pte, s) \<leftarrow> lookup_page pd up True s;
      if pte \<noteq> NULL then do { k_assert (rd32 s pte AND PTE_P = 0); e \<leftarrow> pte_create_user k w; Some (True, wr32 pte e s) }
      else Some (False, s) }"
    using assms(2-4,6-9) by (simp add: pagedir_set_page_def vtop_def is_kernel_vaddr_def PTSHIFT_def PGBITS_def drop_bit_eq_div PGSIZE_def)
  have present: ?thesis if l: "lookup_page pd up True s = Some (pt + 4 * pt_no up, s1)" "pd_ok s1 pd" "table s1 pd (pd_no up) = Some pt"
      "\<forall>va. is_user_vaddr va \<longrightarrow> entry s1 pd va = entry s pd va" for pt s1
  proof -
    have en: "entry s1 pd up AND PTE_P = 0" using np l(4) assms(3) by simp
    obtain e where e: "pte_create_user k w = Some e" "pd_ok (wr32 (pt + 4 * pt_no up) e s1) pd"
      "\<forall>va. is_user_vaddr va \<longrightarrow> pagedir_get_page pd va (wr32 (pt + 4 * pt_no up) e s1) =
        (if pg_no va = pg_no up then Some (k + pg_ofs va) else pagedir_get_page pd va s1)"
      using set_page_present [OF l(2) assms(3) l(3) en assms(6-8), of w] by blast
    have "pagedir_get_page pd va s1 = pagedir_get_page pd va s" if "is_user_vaddr va" for va
      using get_page_entry [OF l(2) that] get_page_entry [OF assms(1) that] l(4) that by simp
    moreover have "pt + 4 * pt_no up \<noteq> 0"
      using table_some(1) [OF l(2) user_pd_no [OF assms(3)] l(3)] ktable_page(5) [of s1 pt] l(2) by (auto simp: pd_ok_def)
    ultimately show ?thesis using e en l(1) unfolding g by (auto simp: entry_some [OF l(3)])
  qed
  show ?thesis
  proof (cases "table s pd (pd_no up)")
    case None
    then show ?thesis using lookup_create [OF assms(1,3) None] present by (auto simp: g ktables_def)
  next
    case (Some pt) then show ?thesis using present [OF lookup_eq(1) [OF assms(1,3) Some] assms(1) Some] by simp
  qed
qed

text \<open>C18: \<open>pagedir_set_page\<close> on an unmapped user page.  Either the page is mapped: every address of it translates to the
  same offset in the frame, no other translation changes and the directory stays well-formed; or the kernel pool has no
  free page, and nothing changes.\<close>
theorem pagedir_set_page_correct:
  assumes "pd_ok s pd" "pd \<noteq> init_page_dir s" "is_user_vaddr up" "pg_ofs up = 0" "pagedir_get_page pd up s = Some NULL"
    "pg_ofs k = 0" "PHYS_BASE \<le> k" "k < 2 ^ 32" "(k - PHYS_BASE) div PGSIZE < init_ram_pages s"
  shows "(\<exists>s'. pagedir_set_page pd up k w s = Some (True, s') \<and> pd_ok s' pd \<and>
      (\<forall>va. is_user_vaddr va \<longrightarrow> pagedir_get_page pd va s' =
         (if pg_no va = pg_no up then Some (k + pg_ofs va) else pagedir_get_page pd va s))) \<or>
    (pagedir_set_page pd up k w s = Some (False, s) \<and> used_pages (kernel_pool (pal s)) = pool_pages (kernel_pool (pal s)))"
  using assms by (rule pagedir_set_page_ok)

definition demo_mmu :: mmu where
  "demo_mmu = \<lparr>pal = demo_pal\<lparr>pmem := \<lambda>_. 0\<rparr>, init_page_dir = 0xC0101000, init_ram_pages = 1024, cr3 = 0x109000, tlb = []\<rparr>"

lemma demo_mmu_ok: "pd_ok demo_mmu 0xC0109000"
proof -
  have r: "rd32 demo_mmu a = 0" for a by (simp add: rd32_def demo_mmu_def ld32_def bytes_word_def)
  have "base (kernel_pool demo_pal) + PGSIZE * 8 \<in> used_pages (kernel_pool demo_pal)"
    unfolding used_iff using demo_bits by (simp add: demo_pal_def demo_pool_def)
  then have "0xC0109000 \<in> ktables demo_mmu" by (simp add: ktables_def demo_mmu_def demo_pal_def demo_pool_def PGSIZE_def used_pages_def)
  then show ?thesis using demo_pal_ok by (simp add: pd_ok_def r table_def) (simp add: demo_mmu_def)
qed

lemma demo_mmu_unmapped: "is_user_vaddr va \<Longrightarrow> pagedir_get_page 0xC0109000 va demo_mmu = Some NULL"
  unfolding get_page_unmapped [OF demo_mmu_ok]
  by (simp add: entry_def table_def rd32_def demo_mmu_def ld32_def bytes_word_def)

lemma demo_mmu_free: "used_pages (kernel_pool (pal demo_mmu)) \<noteq> pool_pages (kernel_pool (pal demo_mmu))"
proof -
  have "base (kernel_pool demo_pal) + PGSIZE * 4 \<notin> used_pages (kernel_pool demo_pal)"
    "base (kernel_pool demo_pal) + PGSIZE * 4 \<in> pool_pages (kernel_pool demo_pal)"
    unfolding used_iff pool_iff using demo_bits by (simp_all add: demo_pal_def demo_pool_def)
  moreover have "kernel_pool (pal demo_mmu) = kernel_pool demo_pal" by (simp add: demo_mmu_def)
  ultimately show ?thesis by metis
qed

theorem pagedir_set_page_correct_witness:
  "\<exists>s'. pagedir_set_page 0xC0109000 0x8048000 0xC0201000 True demo_mmu = Some (True, s') \<and>
     pagedir_get_page 0xC0109000 0x8048010 s' = Some 0xC0201010"
proof -
  have u: "is_user_vaddr 0x8048000" "is_user_vaddr 0x8048010" by (simp_all add: is_user_vaddr_def PHYS_BASE_def)
  have m: "(0xC0109000 :: addr) \<noteq> init_page_dir demo_mmu" "(0xC0201000 - PHYS_BASE) div PGSIZE < init_ram_pages demo_mmu"
    by (simp_all add: demo_mmu_def PHYS_BASE_def PGSIZE_def)
  have p: "pg_ofs 0x8048000 = 0" "pg_ofs 0xC0201000 = 0" "pg_ofs 0x8048010 = 0x10" "pg_no 0x8048010 = pg_no 0x8048000"
    by (simp_all add: pg_ofs_mod pg_no_div PGSIZE_def)
  have "PHYS_BASE \<le> 0xC0201000" "(0xC0201000 :: nat) < 2 ^ 32" by (simp_all add: PHYS_BASE_def)
  then show ?thesis
    using pagedir_set_page_correct [OF demo_mmu_ok m(1) u(1) p(1) demo_mmu_unmapped [OF u(1)] p(2) _ _ m(2), of True] demo_mmu_free u(2) p
    by fastforce
qed

text \<open>\<open>pagedir_clear_page\<close> unmaps exactly the given page, whether or not it was mapped.  If the directory is the active one
  and the page was mapped, the cached translations are dropped.\<close>
theorem pagedir_clear_page_correct:
  assumes "pd_ok s pd" "is_user_vaddr up" "pg_ofs up = 0" "cr3 s < PHYS_BASE"
  shows "\<exists>s'. pagedir_clear_page pd up s = Some s' \<and> pd_ok s' pd \<and>
    (\<forall>va. is_user_vaddr va \<longrightarrow> pagedir_get_page pd va s' = (if pg_no va = pg_no up then Some NULL else pagedir_get_page pd va s)) \<and>
    (pagedir_get_page pd up s \<noteq> Some NULL \<longrightarrow> active_pd s = Some pd \<longrightarrow> tlb s' = [])"
proof (cases "entry s pd up AND PTE_P = 0")
  case True
  have "pagedir_clear_page pd up s = Some s"
  proof (cases "table s pd (pd_no up)")
    case None then show ?thesis using lookup_eq(2) [OF assms(1,2) None] assms(2,3) by (simp add: pagedir_clear_page_def)
  next
    case (Some pt) then show ?thesis using lookup_eq(1) [OF assms(1,2) Some] assms(2,3) True by (simp add: pagedir_clear_page_def entry_some [OF Some])
  qed
  moreover have "pagedir_get_page pd va s = Some NULL" if "is_user_vaddr va" "pg_no va = pg_no up" for va
  proof -
    have "entry s pd va = entry s pd up" using that(2) unfolding entry_def same_page by (simp split: option.split)
    then show ?thesis using True get_page_unmapped [OF assms(1) that(1)] by simp
  qed
  ultimately show ?thesis using assms(1) get_page_unmapped [OF assms(1,2)] True by auto
next
  case False
  then obtain pt where pt: "table s pd (pd_no up) = Some pt" by (cases "table s pd (pd_no up)") (auto simp: entry_def)
  let ?e = "entry s pd up AND NOT PTE_P"
  have e: "?e AND PTE_P = 0" "pte_ok ?e" by (simp_all add: pte_ok_def and.assoc)
  define s1 where "s1 = wr32 (pt + 4 * pt_no up) ?e s"
  note wr = entry_wr [OF assms(1,2) pt e(2) s1_def]
  have nz: "pt + 4 * pt_no up \<noteq> 0" "PHYS_BASE \<le> pd" "pd \<noteq> 0"
    using table_some(1) [OF assms(1) user_pd_no [OF assms(2)] pt] ktable_page [of s pt] ktable_page [of s pd] assms(1) by (auto simp: pd_ok_def)
  have c: "pagedir_clear_page pd up s = invalidate_pagedir pd s1"
    using lookup_eq(1) [OF assms(1,2) pt] assms(2,3) False nz(1) by (simp add: pagedir_clear_page_def entry_some [OF pt] s1_def)
  have ap: "active_pd s1 = active_pd s" "active_pd s = Some (u32 (cr3 s + PHYS_BASE))" using assms(4) by (simp_all add: active_pd_def s1_def ptov_def)
  define s2 where "s2 = (if active_pd s = Some pd then s1\<lparr>cr3 := pd - PHYS_BASE, tlb := []\<rparr> else s1)"
  have i: "invalidate_pagedir pd s1 = Some s2"
    using nz ap by (auto simp: invalidate_pagedir_def pagedir_activate_def vtop_def is_kernel_vaddr_def s2_def)
  have pg: "pagedir_get_page pd va s2 = pagedir_get_page pd va s1" for va
    by (auto simp: s2_def pagedir_get_page_def lookup_page_def Let_def rd32_def cong: if_cong)
  have "pagedir_get_page pd va s1 = (if pg_no va = pg_no up then Some NULL else pagedir_get_page pd va s)" if "is_user_vaddr va" for va
    using e(1) unfolding get_page_entry [OF wr(1) that] get_page_entry [OF assms(1) that] wr(3) [OF that] by simp
  moreover have "pd_ok s2 pd" using wr(1) by (auto simp: s2_def pd_ok_def ktables_def rd32_def table_def)
  ultimately show ?thesis using c i pg by (auto simp: s2_def)
qed

theorem pagedir_clear_page_correct_witness:
  "\<exists>s'. pagedir_clear_page 0xC0109000 0x8048000 demo_mmu = Some s' \<and> pd_ok s' 0xC0109000"
  using pagedir_clear_page_correct [OF demo_mmu_ok, of "0x8048000"]
  by (auto simp: is_user_vaddr_def PHYS_BASE_def pg_ofs_mod PGSIZE_def demo_mmu_def)

text \<open>C23: \<open>pagedir_is_mapped\<close> only tests that a page table exists.  If one page of a four megabyte region is mapped, it is
  true of every address of the region, mapped or not.\<close>
theorem pagedir_is_mapped_coarse:
  assumes "pd_ok s pd" "is_user_vaddr up" "is_user_vaddr va" "pd_no va = pd_no up" "pagedir_get_page pd up s \<noteq> Some NULL"
  shows "pagedir_is_mapped pd va s = Some True"
proof -
  have "entry s pd up AND PTE_P \<noteq> 0" using assms(5) get_page_unmapped [OF assms(1,2)] by simp
  then obtain pt where pt: "table s pd (pd_no va) = Some pt" using assms(4) by (cases "table s pd (pd_no up)") (auto simp: entry_def)
  have "pt \<noteq> 0" using table_some(1) [OF assms(1) user_pd_no [OF assms(3)] pt] ktable_page(5) [of s pt] assms(1) by (auto simp: pd_ok_def)
  then show ?thesis using lookup_eq(1) [OF assms(1,3) pt] by (simp add: pagedir_is_mapped_def)
qed

theorem pagedir_is_mapped_coarse_witness:
  "\<exists>s. pagedir_get_page 0xC0109000 0x8049000 s = Some NULL \<and> pagedir_is_mapped 0xC0109000 0x8049000 s = Some True"
proof -
  have u: "is_user_vaddr 0x8048000" "is_user_vaddr 0x8049000" by (simp_all add: is_user_vaddr_def PHYS_BASE_def)
  have p: "pg_ofs 0x8048000 = 0" "pg_ofs 0xC0201000 = 0" "pg_no 0x8049000 \<noteq> pg_no 0x8048000" "pd_no 0x8049000 = pd_no 0x8048000"
    by (simp_all add: pg_ofs_mod pg_no_div pd_no_div PGSIZE_def)
  have f: "ktables demo_mmu \<noteq> pool_pages (kernel_pool (pal demo_mmu))" using demo_mmu_free by (simp add: ktables_def)
  have t: "table demo_mmu 0xC0109000 (pd_no 0x8048000) = None"
    by (simp add: table_def rd32_def demo_mmu_def ld32_def bytes_word_def)
  from lookup_create [OF demo_mmu_ok u(1) t] f
  obtain pt s1 where s1: "pd_ok s1 0xC0109000" "table s1 0xC0109000 (pd_no 0x8048000) = Some pt"
    "\<forall>va2. is_user_vaddr va2 \<longrightarrow> entry s1 0xC0109000 va2 = entry demo_mmu 0xC0109000 va2" by blast
  have en: "entry demo_mmu 0xC0109000 va AND PTE_P = 0" if "is_user_vaddr va" for va
    using demo_mmu_unmapped [OF that] get_page_unmapped [OF demo_mmu_ok that] by simp
  have "entry s1 0xC0109000 0x8048000 AND PTE_P = 0" using s1(3) en [OF u(1)] u(1) by simp
  from set_page_present [OF s1(1) u(1) s1(2) this p(2)]
  obtain s2 where s2: "pd_ok s2 0xC0109000" "\<forall>va. is_user_vaddr va \<longrightarrow> pagedir_get_page 0xC0109000 va s2 =
      (if pg_no va = pg_no 0x8048000 then Some (0xC0201000 + pg_ofs va) else pagedir_get_page 0xC0109000 va s1)"
    by (auto simp: PHYS_BASE_def)
  have "pagedir_get_page 0xC0109000 0x8049000 s2 = Some NULL"
    using s2(2) u(2) p(3) get_page_unmapped [OF s1(1) u(2)] s1(3) en [OF u(2)] by simp
  moreover have "pagedir_is_mapped 0xC0109000 0x8049000 s2 = Some True"
    by (rule pagedir_is_mapped_coarse [OF s2(1) u(1,2) p(4)]) (use s2(2) u(1) in simp)
  ultimately show ?thesis by blast
qed

end
