(* ===== verification/Hash.thy ===== *)
theory Hash
  imports Cstring
begin

text \<open>
  lib/kernel/hash.c: a chained hash table.  A bucket is the list of the elements linked into it, first element first; the
  routines of list.c on it are the list operations that Klist_Queue proves them to be.  Elements are their addresses.
  \<open>hash_func\<close> and \<open>less_func\<close> are the client's functions with the auxiliary data applied.  Each operation that may allocate
  takes the outcome of \<open>malloc\<close>.
\<close>

unbundle bit_operations_syntax

record hash =
  elem_count :: nat
  buckets :: "addr list list"
  hash_func :: "addr \<Rightarrow> nat"
  less_func :: "addr \<Rightarrow> addr \<Rightarrow> bool"

definition bucket_cnt :: "hash \<Rightarrow> nat" where
  "bucket_cnt h = length (buckets h)"

subsection \<open>Buckets\<close>

definition find_bucket :: "hash \<Rightarrow> addr \<Rightarrow> nat" where
  "find_bucket h e = hash_func h e AND (bucket_cnt h - 1)"

definition find_elem :: "hash \<Rightarrow> addr list \<Rightarrow> addr \<Rightarrow> addr" where
  "find_elem h bucket e =
     (case find (\<lambda>hi. \<not> less_func h hi e \<and> \<not> less_func h e hi) bucket of None \<Rightarrow> NULL | Some hi \<Rightarrow> hi)"

definition turn_off_least_1bit :: "nat \<Rightarrow> nat" where
  "turn_off_least_1bit x = x AND (x - 1)"

definition is_power_of_2 :: "nat \<Rightarrow> bool" where
  "is_power_of_2 x = (x \<noteq> 0 \<and> turn_off_least_1bit x = 0)"

definition BEST_ELEMS_PER_BUCKET :: nat where "BEST_ELEMS_PER_BUCKET = 2"

partial_function (option) round_buckets :: "nat \<Rightarrow> nat option" where
  "round_buckets n = (if \<not> is_power_of_2 n then round_buckets (turn_off_least_1bit n) else Some n)"

definition push_bucket :: "nat \<Rightarrow> addr \<Rightarrow> hash \<Rightarrow> hash option" where
  "push_bucket i e h = do {
     k_assert (i < bucket_cnt h);
     Some (h\<lparr>buckets := (buckets h)[i := e # buckets h ! i]\<rparr>) }"

fun rehash_loop :: "addr list \<Rightarrow> hash \<Rightarrow> hash option" where
  "rehash_loop [] h = Some h"
| "rehash_loop (e # es) h = do {
     h \<leftarrow> push_bucket (find_bucket h e) e h;
     rehash_loop es h }"

definition rehash :: "bool \<Rightarrow> hash \<Rightarrow> hash option" where
  "rehash malloc_ok h = do {
     let old_buckets = buckets h;
     let new_bucket_cnt = elem_count h div BEST_ELEMS_PER_BUCKET;
     let new_bucket_cnt = (if new_bucket_cnt < 4 then 4 else new_bucket_cnt);
     new_bucket_cnt \<leftarrow> round_buckets new_bucket_cnt;
     if new_bucket_cnt = bucket_cnt h then Some h
     else if \<not> malloc_ok then Some h
     else rehash_loop (concat old_buckets) (h\<lparr>buckets := replicate new_bucket_cnt []\<rparr>) }"

definition insert_elem :: "nat \<Rightarrow> addr \<Rightarrow> hash \<Rightarrow> hash option" where
  "insert_elem bucket e h = push_bucket bucket e (h\<lparr>elem_count := u32 (elem_count h + 1)\<rparr>)"

text \<open>\<open>list_remove\<close> unlinks the element from the bucket it is in.\<close>

definition remove_elem :: "addr \<Rightarrow> hash \<Rightarrow> hash" where
  "remove_elem e h = h\<lparr>elem_count := u32 (elem_count h + 2 ^ 32 - 1), buckets := map (remove1 e) (buckets h)\<rparr>"

definition the_bucket :: "hash \<Rightarrow> nat \<Rightarrow> addr list option" where
  "the_bucket h i = (if i < bucket_cnt h then Some (buckets h ! i) else None)"

subsection \<open>Operations\<close>

definition hash_clear :: "hash \<Rightarrow> (addr \<Rightarrow> 's \<Rightarrow> 's) option \<Rightarrow> 's \<Rightarrow> hash \<times> 's" where
  "hash_clear h destructor s =
     (h\<lparr>buckets := map (\<lambda>_. []) (buckets h), elem_count := 0\<rparr>,
      case destructor of None \<Rightarrow> s | Some d \<Rightarrow> fold (\<lambda>b s. fold d b s) (buckets h) s)"

definition hash_init :: "bool \<Rightarrow> (addr \<Rightarrow> nat) \<Rightarrow> (addr \<Rightarrow> addr \<Rightarrow> bool) \<Rightarrow> bool \<times> hash" where
  "hash_init malloc_ok hf lf =
     (let h = \<lparr>elem_count = 0, buckets = replicate 4 [], hash_func = hf, less_func = lf\<rparr>
      in if malloc_ok then (True, fst (hash_clear h None ())) else (False, h))"

definition hash_destroy :: "hash \<Rightarrow> (addr \<Rightarrow> 's \<Rightarrow> 's) option \<Rightarrow> 's \<Rightarrow> 's" where
  "hash_destroy h destructor s = (if destructor \<noteq> None then snd (hash_clear h destructor s) else s)"

definition hash_insert :: "bool \<Rightarrow> hash \<Rightarrow> addr \<Rightarrow> (addr \<times> hash) option" where
  "hash_insert malloc_ok h e = do {
     let i = find_bucket h e;
     bucket \<leftarrow> the_bucket h i;
     let old = find_elem h bucket e;
     h \<leftarrow> (if old = NULL then insert_elem i e h else Some h);
     h \<leftarrow> rehash malloc_ok h;
     Some (old, h) }"

definition hash_replace :: "bool \<Rightarrow> hash \<Rightarrow> addr \<Rightarrow> (addr \<times> hash) option" where
  "hash_replace malloc_ok h e = do {
     let i = find_bucket h e;
     bucket \<leftarrow> the_bucket h i;
     let old = find_elem h bucket e;
     let h = (if old \<noteq> NULL then remove_elem old h else h);
     h \<leftarrow> insert_elem i e h;
     h \<leftarrow> rehash malloc_ok h;
     Some (old, h) }"

definition hash_find :: "hash \<Rightarrow> addr \<Rightarrow> addr option" where
  "hash_find h e = do {
     bucket \<leftarrow> the_bucket h (find_bucket h e);
     Some (find_elem h bucket e) }"

definition hash_delete :: "bool \<Rightarrow> hash \<Rightarrow> addr \<Rightarrow> (addr \<times> hash) option" where
  "hash_delete malloc_ok h e = do {
     bucket \<leftarrow> the_bucket h (find_bucket h e);
     let found = find_elem h bucket e;
     if found \<noteq> NULL then do {
       h \<leftarrow> rehash malloc_ok (remove_elem found h);
       Some (found, h) }
     else Some (found, h) }"

definition hash_apply :: "hash \<Rightarrow> (addr \<Rightarrow> 's \<Rightarrow> 's) \<Rightarrow> 's \<Rightarrow> 's" where
  "hash_apply h action s = fold (\<lambda>b s. fold action b s) (buckets h) s"

definition hash_size :: "hash \<Rightarrow> nat" where
  "hash_size h = elem_count h"

definition hash_empty :: "hash \<Rightarrow> bool" where
  "hash_empty h = (elem_count h = 0)"

subsection \<open>Iterators\<close>

text \<open>The element of an iterator is a position in its bucket: 0 is the head of the list, \<open>k + 1\<close> is element \<open>k\<close>, and one more
  than the length is the tail.  \<open>None\<close> is the null pointer after the last element.\<close>

record hash_iterator =
  bucket :: nat
  elem :: "nat option"

definition hash_first :: "hash \<Rightarrow> hash_iterator" where
  "hash_first h = \<lparr>bucket = 0, elem = Some 0\<rparr>"

function skip_empty :: "hash \<Rightarrow> nat \<Rightarrow> nat \<Rightarrow> hash_iterator" where
  "skip_empty h b pos =
     (if b < bucket_cnt h \<and> pos = length (buckets h ! b) + 1 then
        (if b + 1 \<ge> bucket_cnt h then \<lparr>bucket = b + 1, elem = None\<rparr> else skip_empty h (b + 1) 1)
      else \<lparr>bucket = b, elem = Some pos\<rparr>)"
  by pat_completeness auto
termination
  by (relation "measure (\<lambda>(h, b, pos). bucket_cnt h - b)") auto

declare skip_empty.simps [simp del]

definition hash_cur :: "hash \<Rightarrow> hash_iterator \<Rightarrow> addr option" where
  "hash_cur h i = (case elem i of None \<Rightarrow> Some NULL
     | Some 0 \<Rightarrow> None
     | Some (Suc k) \<Rightarrow> if bucket i < bucket_cnt h \<and> k < length (buckets h ! bucket i) then Some (buckets h ! bucket i ! k) else None)"

definition hash_next :: "hash \<Rightarrow> hash_iterator \<Rightarrow> (addr \<times> hash_iterator) option" where
  "hash_next h i = do {
     pos \<leftarrow> elem i;
     k_assert (bucket i < bucket_cnt h \<and> pos \<le> length (buckets h ! bucket i));
     let i = skip_empty h (bucket i) (pos + 1);
     e \<leftarrow> hash_cur h i;
     Some (e, i) }"

subsection \<open>Hash functions\<close>

definition FNV_32_PRIME :: "32 word" where "FNV_32_PRIME = 16777619"
definition FNV_32_BASIS :: "32 word" where "FNV_32_BASIS = 2166136261"

fun hash_bytes_loop :: "nat \<Rightarrow> addr \<Rightarrow> memory \<Rightarrow> 32 word \<Rightarrow> 32 word" where
  "hash_bytes_loop 0 buf m h = h"
| "hash_bytes_loop (Suc sz) buf m h = hash_bytes_loop sz (buf + 1) m ((h * FNV_32_PRIME) XOR ucast (m buf))"

definition hash_bytes :: "addr \<Rightarrow> nat \<Rightarrow> memory \<Rightarrow> 32 word option" where
  "hash_bytes buf sz m = do {
     k_assert (buf \<noteq> NULL);
     Some (hash_bytes_loop sz buf m FNV_32_BASIS) }"

partial_function (option) hash_string_loop :: "memory \<Rightarrow> addr \<Rightarrow> 32 word \<Rightarrow> 32 word option" where
  "hash_string_loop m s h = (if m s \<noteq> 0 then hash_string_loop m (s + 1) ((h * FNV_32_PRIME) XOR ucast (m s)) else Some h)"

definition hash_string :: "addr \<Rightarrow> memory \<Rightarrow> 32 word option" where
  "hash_string s m = do {
     k_assert (s \<noteq> NULL);
     hash_string_loop m s FNV_32_BASIS }"

text \<open>The argument of \<open>hash_int\<close> is a variable at some address \<open>a\<close> of the stack.\<close>

definition hash_int :: "addr \<Rightarrow> 32 word \<Rightarrow> memory \<Rightarrow> 32 word option" where
  "hash_int a i m = hash_bytes a 4
     (m(a := ucast i, a + 1 := ucast (drop_bit 8 i), a + 2 := ucast (drop_bit 16 i), a + 3 := ucast (drop_bit 24 i)))"

end
