(* ===== verification/Hash_Props.thy ===== *)
theory Hash_Props
  imports Hash
begin

text \<open>
  Correctness of the hash table.  \<open>hash_ok\<close> is the invariant, \<open>elems\<close> the set of elements.  The locale \<open>lookup_table\<close> is what a
  client relies on; the table with its operations is an instance.
\<close>

subsection \<open>Powers of two\<close>

lemma and_pred_even:
  assumes "0 < m"
  shows "(2 * m) AND (2 * m - 1) = 2 * (m AND (m - 1 :: nat))"
proof -
  obtain k where "m = Suc k" using assms by (cases m) auto
  then show ?thesis using and_nat_unfold [of "2 * m" "2 * m - 1"] by simp
qed

lemma and_pred_odd: "Suc (2 * m) AND (2 * m) = 2 * (m :: nat)"
  using and_nat_unfold [of "Suc (2 * m)" "2 * m"] by simp

text \<open>Turning off the lowest bit, in terms of the half of the number.\<close>

lemma turn_off_even: "0 < m \<Longrightarrow> turn_off_least_1bit (2 * m) = 2 * turn_off_least_1bit m"
  using and_pred_even [of m] by (simp add: turn_off_least_1bit_def)

lemma turn_off_odd: "turn_off_least_1bit (Suc (2 * m)) = 2 * m"
  by (simp add: turn_off_least_1bit_def and_pred_odd)

lemma turn_off_less: "0 < x \<Longrightarrow> turn_off_least_1bit x < x"
proof (induction x rule: less_induct)
  case (less x)
  show ?case
  proof (cases "even x")
    case True
    then obtain m where "x = 2 * m" by blast
    then show ?thesis using less by (simp add: turn_off_even)
  next
    case False
    then obtain m where "x = Suc (2 * m)" by (metis oddE Suc_eq_plus1)
    then show ?thesis by (simp add: turn_off_odd)
  qed
qed

lemma turn_off_0: "0 < x \<Longrightarrow> turn_off_least_1bit x = 0 \<Longrightarrow> \<exists>k. x = 2 ^ k"
proof (induction x rule: less_induct)
  case (less x)
  show ?case
  proof (cases "even x")
    case True
    then obtain m where m: "x = 2 * m" by blast
    then obtain k where "m = 2 ^ k" using less.IH [of m] less.prems by (auto simp: turn_off_even)
    then show ?thesis using m by (metis power_Suc)
  next
    case False
    then obtain m where "x = Suc (2 * m)" by (metis oddE Suc_eq_plus1)
    then show ?thesis using less.prems(2) by (auto simp: turn_off_odd intro: exI [of _ 0])
  qed
qed

lemma turn_off_power [simp]: "turn_off_least_1bit (2 ^ k) = 0"
  by (induction k) (simp_all add: turn_off_even, simp add: turn_off_least_1bit_def)

lemma turn_off_ge: "turn_off_least_1bit x \<noteq> 0 \<Longrightarrow> 2 ^ k \<le> x \<Longrightarrow> 2 ^ k \<le> turn_off_least_1bit x"
proof (induction x arbitrary: k rule: less_induct)
  case (less x)
  have pos: "0 < x" using less.prems(1) by (cases x) (auto simp: turn_off_least_1bit_def)
  show ?case
  proof (cases k)
    case 0 then show ?thesis using less.prems(1) by simp
  next
    case (Suc j)
    show ?thesis
    proof (cases "even x")
      case True
      then obtain m where m: "x = 2 * m" by blast
      then show ?thesis using less.IH [of m j] less.prems pos Suc by (simp add: turn_off_even)
    next
      case False
      then obtain m where m: "x = Suc (2 * m)" by (metis oddE Suc_eq_plus1)
      have "2 * 2 ^ j \<le> Suc (2 * m)" using less.prems(2) m Suc by simp
      then have "2 ^ j \<le> m" by linarith
      then show ?thesis using m Suc by (simp add: turn_off_odd)
    qed
  qed
qed

lemma is_power_of_2_iff: "is_power_of_2 x \<longleftrightarrow> (\<exists>k. x = 2 ^ k)"
  using turn_off_0 [of x] by (auto simp: is_power_of_2_def)

text \<open>The loop of \<open>rehash\<close> ends and rounds down to a power of two.\<close>

lemma round_buckets_ok:
  assumes "2 ^ k \<le> n" "n < 2 ^ Suc k"
  shows "round_buckets n = Some (2 ^ k)"
  using assms
proof (induction n rule: less_induct)
  case (less n)
  have pos: "0 < n" using less.prems(1) by (metis gr0I le_zero_eq power_not_zero zero_neq_numeral)
  show ?case
  proof (cases "is_power_of_2 n")
    case True
    then obtain j where j: "n = 2 ^ j" by (auto simp: is_power_of_2_iff)
    then have "j < Suc k" "k \<le> j" using less.prems by (simp_all del: power_Suc)
    then show ?thesis using True j by (simp add: round_buckets.simps)
  next
    case False
    then have t: "turn_off_least_1bit n \<noteq> 0" using pos by (simp add: is_power_of_2_def)
    show ?thesis
      using less.IH [OF turn_off_less [OF pos]] turn_off_ge [OF t less.prems(1)] turn_off_less [OF pos] less.prems(2) False
      by (simp add: round_buckets.simps [of n])
  qed
qed

lemma pow2_bounds: "0 < n \<Longrightarrow> \<exists>k. 2 ^ k \<le> n \<and> n < 2 ^ Suc k" for n :: nat
  using ex_power_ivl1 [of 2 n] by auto

subsection \<open>The invariant\<close>

definition equiv_by :: "(addr \<Rightarrow> addr \<Rightarrow> bool) \<Rightarrow> addr \<Rightarrow> addr \<Rightarrow> bool" where
  "equiv_by lf a b \<longleftrightarrow> \<not> lf a b \<and> \<not> lf b a"

definition funcs_ok :: "(addr \<Rightarrow> nat) \<Rightarrow> (addr \<Rightarrow> addr \<Rightarrow> bool) \<Rightarrow> bool" where
  "funcs_ok hf lf \<longleftrightarrow> (\<forall>a. \<not> lf a a) \<and> (\<forall>a b c. equiv_by lf a b \<longrightarrow> equiv_by lf b c \<longrightarrow> equiv_by lf a c) \<and>
     (\<forall>a b. equiv_by lf a b \<longrightarrow> hf a = hf b)"

definition elems :: "hash \<Rightarrow> addr set" where
  "elems h = set (concat (buckets h))"

definition placed :: "hash \<Rightarrow> bool" where
  "placed h \<longleftrightarrow> (\<exists>k. bucket_cnt h = 2 ^ k) \<and> (\<forall>i < bucket_cnt h. \<forall>e \<in> set (buckets h ! i). find_bucket h e = i)"

definition hash_ok :: "hash \<Rightarrow> bool" where
  "hash_ok h \<longleftrightarrow> funcs_ok (hash_func h) (less_func h) \<and> placed h \<and> NULL \<notin> elems h \<and> distinct (concat (buckets h)) \<and>
     (\<forall>a \<in> elems h. \<forall>b \<in> elems h. equiv_by (less_func h) a b \<longrightarrow> a = b) \<and>
     elem_count h = length (concat (buckets h)) \<and> elem_count h < 2 ^ 32"

lemma equiv_laws:
  assumes "funcs_ok hf lf"
  shows "equiv_by lf a a" "equiv_by lf a b \<Longrightarrow> equiv_by lf b a" "equiv_by lf a b \<Longrightarrow> equiv_by lf b c \<Longrightarrow> equiv_by lf a c"
    "equiv_by lf a b \<Longrightarrow> hf a = hf b"
proof -
  show "equiv_by lf a a" using assms by (simp add: funcs_ok_def equiv_by_def)
  show "equiv_by lf a b \<Longrightarrow> equiv_by lf b a" by (simp add: equiv_by_def)
  show "equiv_by lf a b \<Longrightarrow> equiv_by lf b c \<Longrightarrow> equiv_by lf a c" "equiv_by lf a b \<Longrightarrow> hf a = hf b"
    using assms unfolding funcs_ok_def by blast+
qed

lemma find_bucket_less: "placed h \<Longrightarrow> find_bucket h e < bucket_cnt h"
proof -
  assume "placed h"
  then obtain k where k: "bucket_cnt h = 2 ^ k" by (auto simp: placed_def)
  have "find_bucket h e = take_bit k (hash_func h e)" by (simp add: find_bucket_def k take_bit_eq_mask mask_eq_exp_minus_1)
  then show ?thesis by (simp add: k)
qed

lemma the_bucket_ok: "placed h \<Longrightarrow> the_bucket h (find_bucket h e) = Some (buckets h ! find_bucket h e)"
  using find_bucket_less [of h e] by (simp add: the_bucket_def)

lemma elems_bucket: "x \<in> elems h \<longleftrightarrow> (\<exists>i < bucket_cnt h. x \<in> set (buckets h ! i))"
  unfolding elems_def bucket_cnt_def set_concat by (auto, metis in_set_conv_nth)

lemma find_elem_eq:
  "find_elem h b e = (case find (\<lambda>x. equiv_by (less_func h) x e) b of None \<Rightarrow> NULL | Some x \<Rightarrow> x)"
  by (simp add: find_elem_def equiv_by_def)

lemma find_elem_hit:
  assumes "hash_ok h" "x \<in> elems h" "equiv_by (less_func h) x e"
  shows "find_elem h (buckets h ! find_bucket h e) e = x"
proof -
  have fo: "funcs_ok (hash_func h) (less_func h)" and pl: "placed h" using assms(1) by (auto simp: hash_ok_def)
  have "find_bucket h x = find_bucket h e" using equiv_laws(4) [OF fo assms(3)] by (simp add: find_bucket_def)
  moreover obtain i where "i < bucket_cnt h" "x \<in> set (buckets h ! i)" using assms(2) by (auto simp: elems_bucket)
  ultimately have x: "x \<in> set (buckets h ! find_bucket h e)" using pl by (auto simp: placed_def)
  have "find (\<lambda>y. equiv_by (less_func h) y e) (buckets h ! find_bucket h e) = Some x"
  proof (cases "find (\<lambda>y. equiv_by (less_func h) y e) (buckets h ! find_bucket h e)")
    case None then show ?thesis using x assms(3) by (auto simp: find_None_iff)
  next
    case (Some y)
    then have y: "y \<in> set (buckets h ! find_bucket h e)" "equiv_by (less_func h) y e" by (auto simp: find_Some_iff)
    have "y \<in> elems h" using y(1) find_bucket_less [OF pl] by (auto simp: elems_bucket)
    moreover have "equiv_by (less_func h) y x" using y(2) assms(3) equiv_laws(2,3) [OF fo] by blast
    ultimately have "y = x" using assms(1,2) unfolding hash_ok_def by blast
    then show ?thesis using Some by simp
  qed
  then show ?thesis by (simp add: find_elem_eq)
qed

lemma find_elem_miss:
  assumes "hash_ok h" "\<forall>x \<in> elems h. \<not> equiv_by (less_func h) x e"
  shows "find_elem h (buckets h ! find_bucket h e) e = NULL"
proof -
  have "find_bucket h e < bucket_cnt h" using assms(1) by (simp add: hash_ok_def find_bucket_less)
  then have "find (\<lambda>x. equiv_by (less_func h) x e) (buckets h ! find_bucket h e) = None"
    using assms(2) by (auto simp: find_None_iff elems_bucket)
  then show ?thesis by (simp add: find_elem_eq)
qed

subsection \<open>Moving elements\<close>

lemma mset_concat_push:
  "i < length xs \<Longrightarrow> mset (concat (xs[i := e # xs ! i])) = add_mset e (mset (concat xs))"
proof (induction xs arbitrary: i)
  case (Cons x xs) then show ?case by (cases i) auto
qed simp

lemma push_bucket_ok:
  assumes "placed h" "i = find_bucket h e"
  shows "\<exists>h'. push_bucket i e h = Some h' \<and> placed h' \<and> bucket_cnt h' = bucket_cnt h \<and>
    mset (concat (buckets h')) = add_mset e (mset (concat (buckets h))) \<and>
    hash_func h' = hash_func h \<and> less_func h' = less_func h \<and> elem_count h' = elem_count h"
proof -
  have i: "i < bucket_cnt h" using find_bucket_less [OF assms(1)] assms(2) by simp
  let ?h = "h\<lparr>buckets := (buckets h)[i := e # buckets h ! i]\<rparr>"
  have b: "bucket_cnt ?h = bucket_cnt h" by (simp add: bucket_cnt_def)
  have f: "find_bucket ?h x = find_bucket h x" for x using b by (simp add: find_bucket_def)
  have "placed ?h" using assms i unfolding placed_def b f by (auto simp: nth_list_update bucket_cnt_def split: if_splits)
  then show ?thesis using i b mset_concat_push [of i "buckets h" e] by (auto simp: push_bucket_def bucket_cnt_def)
qed

lemma rehash_loop_ok:
  "placed h \<Longrightarrow> \<exists>h'. rehash_loop es h = Some h' \<and> placed h' \<and> mset (concat (buckets h')) = mset es + mset (concat (buckets h)) \<and>
    hash_func h' = hash_func h \<and> less_func h' = less_func h \<and> elem_count h' = elem_count h"
proof (induction es arbitrary: h)
  case (Cons e es)
  obtain h1 where h1: "push_bucket (find_bucket h e) e h = Some h1" "placed h1" "mset (concat (buckets h1)) = add_mset e (mset (concat (buckets h)))"
    "hash_func h1 = hash_func h" "less_func h1 = less_func h" "elem_count h1 = elem_count h" using push_bucket_ok [OF Cons.prems refl] by blast
  show ?case using Cons.IH [OF h1(2)] h1 by auto
qed simp

lemma rehash_ok:
  assumes "hash_ok h"
  shows "\<exists>h'. rehash m h = Some h' \<and> hash_ok h' \<and> elems h' = elems h \<and> hash_func h' = hash_func h \<and> less_func h' = less_func h \<and>
    elem_count h' = elem_count h"
proof -
  define n where "n = (if elem_count h div BEST_ELEMS_PER_BUCKET < 4 then 4 else elem_count h div BEST_ELEMS_PER_BUCKET)"
  have "0 < n" by (auto simp: n_def)
  then obtain k where k: "round_buckets n = Some (2 ^ k)" using pow2_bounds round_buckets_ok by blast
  let ?h0 = "h\<lparr>buckets := replicate (2 ^ k) []\<rparr>"
  have p0: "placed ?h0" by (auto simp: placed_def bucket_cnt_def)
  obtain h' where h': "rehash_loop (concat (buckets h)) ?h0 = Some h'" "placed h'" "mset (concat (buckets h')) = mset (concat (buckets h))"
    "hash_func h' = hash_func h" "less_func h' = less_func h" "elem_count h' = elem_count h"
    using rehash_loop_ok [OF p0, of "concat (buckets h)"] by auto
  have e: "elems h' = elems h" using h'(3) unfolding elems_def by (rule mset_eq_setD)
  have "hash_ok h'" using assms h' e mset_eq_length [OF h'(3)] mset_eq_imp_distinct_iff [OF h'(3)] by (simp add: hash_ok_def)
  moreover have "rehash m h = (if 2 ^ k = bucket_cnt h \<or> \<not> m then Some h else Some h')"
    using k h'(1) unfolding rehash_def Let_def n_def [symmetric] by simp
  ultimately show ?thesis using assms h' e by auto
qed

subsection \<open>The operations\<close>

lemma hash_find_hit: "hash_ok h \<Longrightarrow> x \<in> elems h \<Longrightarrow> equiv_by (less_func h) x e \<Longrightarrow> hash_find h e = Some x"
  by (simp add: hash_find_def the_bucket_ok hash_ok_def [THEN iffD1] find_elem_hit)

lemma hash_find_miss: "hash_ok h \<Longrightarrow> \<forall>x \<in> elems h. \<not> equiv_by (less_func h) x e \<Longrightarrow> hash_find h e = Some NULL"
  by (simp add: hash_find_def the_bucket_ok hash_ok_def [THEN iffD1] find_elem_miss)

lemma insert_elem_ok:
  assumes "hash_ok h" "e \<noteq> NULL" "\<forall>x \<in> elems h. \<not> equiv_by (less_func h) x e" "elem_count h + 1 < 2 ^ 32"
  shows "\<exists>h'. insert_elem (find_bucket h e) e h = Some h' \<and> hash_ok h' \<and> elems h' = insert e (elems h) \<and>
    hash_func h' = hash_func h \<and> less_func h' = less_func h \<and> elem_count h' = elem_count h + 1"
proof -
  let ?h = "h\<lparr>elem_count := elem_count h + 1\<rparr>"
  have fo: "funcs_ok (hash_func h) (less_func h)" and "placed h" using assms(1) by (auto simp: hash_ok_def)
  then have p: "placed ?h" "find_bucket h e = find_bucket ?h e" by (auto simp: placed_def bucket_cnt_def find_bucket_def)
  obtain h' where h': "push_bucket (find_bucket h e) e ?h = Some h'" "placed h'" "mset (concat (buckets h')) = add_mset e (mset (concat (buckets h)))"
    "hash_func h' = hash_func h" "less_func h' = less_func h" "elem_count h' = elem_count h + 1" using push_bucket_ok [OF p] by auto
  have ms: "mset (concat (buckets h')) = mset (e # concat (buckets h))" using h'(3) by simp
  have el: "elems h' = insert e (elems h)" using mset_eq_setD [OF ms] by (simp add: elems_def)
  have ne: "e \<notin> elems h" using assms(3) equiv_laws(1) [OF fo] by blast
  have "distinct (concat (buckets h'))" using mset_eq_imp_distinct_iff [OF ms] assms(1) ne by (simp add: hash_ok_def elems_def)
  moreover have "\<forall>a \<in> elems h'. \<forall>b \<in> elems h'. equiv_by (less_func h') a b \<longrightarrow> a = b"
    using assms(1,3) equiv_laws(2) [OF fo] unfolding el h'(5) hash_ok_def by blast
  ultimately have "hash_ok h'" using assms h' el mset_eq_length [OF ms] unfolding hash_ok_def by auto
  then show ?thesis using h' el assms(4) by (auto simp: insert_elem_def)
qed

lemma remove1_concat:
  assumes "distinct (concat xs)"
  shows "mset (concat (map (remove1 e) xs)) = mset (concat xs) - {#e#}"
  using assms
proof (induction xs)
  case (Cons x xs)
  then have IH: "mset (concat (map (remove1 e) xs)) = mset (concat xs) - {#e#}" by simp
  consider "e \<in> set x" "e \<notin> set (concat xs)" | "e \<notin> set x" "e \<in> set (concat xs)" | "e \<notin> set x" "e \<notin> set (concat xs)"
    using Cons.prems by auto
  then show ?case
  proof cases
    case 1
    then have "e \<notin># mset (concat xs)" "e \<in># mset x" by simp_all
    then have "mset (concat xs) - {#e#} = mset (concat xs)" "mset x + mset (concat xs) - {#e#} = mset x - {#e#} + mset (concat xs)"
      by (metis diff_single_trivial) (metis \<open>e \<in># mset x\<close> diff_union_single_conv union_commute)
    then show ?thesis using IH by (simp only: list.map concat.simps mset_remove1 mset_append)
  next
    case 2
    then have "e \<in># mset (concat xs)" by simp
    then have "mset x + (mset (concat xs) - {#e#}) = mset x + mset (concat xs) - {#e#}" by (rule diff_union_single_conv [symmetric])
    then show ?thesis using IH by (simp only: list.map concat.simps remove1_idem [OF 2(1)] mset_append)
  next
    case 3
    then have "e \<notin># mset (concat xs)" "e \<notin># mset x" by simp_all
    then have "mset (concat xs) - {#e#} = mset (concat xs)" "mset x + mset (concat xs) - {#e#} = mset x + mset (concat xs)"
      by (simp_all only: diff_single_trivial union_iff simp_thms)
    then show ?thesis using IH by (simp only: list.map concat.simps remove1_idem [OF 3(1)] mset_append)
  qed
qed simp

lemma remove_elem_ok:
  assumes "hash_ok h" "x \<in> elems h"
  shows "hash_ok (remove_elem x h)" "elems (remove_elem x h) = elems h - {x}" "elem_count (remove_elem x h) = elem_count h - 1"
    "hash_func (remove_elem x h) = hash_func h" "less_func (remove_elem x h) = less_func h"
proof -
  let ?h = "remove_elem x h"
  have d: "distinct (concat (buckets h))" and c: "elem_count h = length (concat (buckets h))" "elem_count h < 2 ^ 32"
    using assms(1) by (auto simp: hash_ok_def)
  have ms: "mset (concat (buckets ?h)) = mset (remove1 x (concat (buckets h)))" using remove1_concat [OF d] by (simp add: remove_elem_def)
  have x: "x \<in> set (concat (buckets h))" using assms(2) by (simp add: elems_def)
  then have pos: "0 < elem_count h" using c(1) by (cases "concat (buckets h)") auto
  show el: "elems ?h = elems h - {x}" using mset_eq_setD [OF ms] d by (simp add: elems_def)
  have "u32 (elem_count h + 2 ^ 32 - 1) = elem_count h - 1"
    using pos c(2) by (simp add: u32_def le_mod_geq)
  then show cnt: "elem_count ?h = elem_count h - 1" by (simp add: remove_elem_def)
  show f: "hash_func ?h = hash_func h" "less_func ?h = less_func h" by (simp_all add: remove_elem_def)
  have b: "bucket_cnt ?h = bucket_cnt h" by (simp add: remove_elem_def bucket_cnt_def)
  have fb: "find_bucket ?h y = find_bucket h y" for y using b f by (simp add: find_bucket_def)
  have "placed ?h" using assms(1) unfolding hash_ok_def placed_def b fb
    by (auto simp: remove_elem_def bucket_cnt_def dest: notin_set_remove1 in_set_remove1 [THEN iffD1] set_remove1_subset [THEN subsetD])
  moreover have "distinct (concat (buckets ?h))" using mset_eq_imp_distinct_iff [OF ms] d by simp
  moreover have "length (concat (buckets ?h)) = elem_count h - 1" using mset_eq_length [OF ms] x c(1) by (simp add: length_remove1)
  ultimately show "hash_ok ?h" using assms(1) el cnt f c(2) unfolding hash_ok_def by auto
qed

lemma elems_nonnull: "hash_ok h \<Longrightarrow> x \<in> elems h \<Longrightarrow> x \<noteq> NULL"
  unfolding hash_ok_def by metis

lemma insert_miss:
  assumes "hash_ok h" "e \<noteq> NULL" "\<forall>x \<in> elems h. \<not> equiv_by (less_func h) x e" "elem_count h + 1 < 2 ^ 32"
  shows "\<exists>h'. hash_insert m h e = Some (NULL, h') \<and> hash_ok h' \<and> elems h' = insert e (elems h) \<and>
    hash_func h' = hash_func h \<and> less_func h' = less_func h"
proof -
  have p: "placed h" using assms(1) by (simp add: hash_ok_def)
  obtain h1 where h1: "insert_elem (find_bucket h e) e h = Some h1" "hash_ok h1" "elems h1 = insert e (elems h)"
    "hash_func h1 = hash_func h" "less_func h1 = less_func h" using insert_elem_ok [OF assms] by blast
  show ?thesis using rehash_ok [OF h1(2), of m] h1 find_elem_miss [OF assms(1,3)] the_bucket_ok [OF p, of e] by (auto simp: hash_insert_def Let_def)
qed

lemma insert_hit:
  assumes "hash_ok h" "x \<in> elems h" "equiv_by (less_func h) x e"
  shows "\<exists>h'. hash_insert m h e = Some (x, h') \<and> hash_ok h' \<and> elems h' = elems h \<and> hash_func h' = hash_func h \<and> less_func h' = less_func h"
proof -
  have p: "placed h" "x \<noteq> NULL" using assms(1) elems_nonnull [OF assms(1,2)] by (simp_all add: hash_ok_def)
  show ?thesis using rehash_ok [OF assms(1), of m] find_elem_hit [OF assms] the_bucket_ok [OF p(1), of e] p(2) by (auto simp: hash_insert_def Let_def)
qed

lemma delete_miss: "hash_ok h \<Longrightarrow> \<forall>x \<in> elems h. \<not> equiv_by (less_func h) x e \<Longrightarrow> hash_delete m h e = Some (NULL, h)"
  by (simp add: hash_delete_def the_bucket_ok hash_ok_def [THEN iffD1] find_elem_miss)

lemma delete_hit:
  assumes "hash_ok h" "x \<in> elems h" "equiv_by (less_func h) x e"
  shows "\<exists>h'. hash_delete m h e = Some (x, h') \<and> hash_ok h' \<and> elems h' = elems h - {x} \<and> hash_func h' = hash_func h \<and> less_func h' = less_func h"
proof -
  have p: "placed h" "x \<noteq> NULL" using assms(1) elems_nonnull [OF assms(1,2)] by (simp_all add: hash_ok_def)
  note r = remove_elem_ok [OF assms(1,2)]
  show ?thesis using rehash_ok [OF r(1), of m] find_elem_hit [OF assms] the_bucket_ok [OF p(1), of e] p(2) r by (auto simp: hash_delete_def Let_def)
qed

lemma replace_hit:
  assumes "hash_ok h" "x \<in> elems h" "equiv_by (less_func h) x e" "e \<noteq> NULL"
  shows "\<exists>h'. hash_replace m h e = Some (x, h') \<and> hash_ok h' \<and> elems h' = insert e (elems h - {x}) \<and> hash_func h' = hash_func h \<and> less_func h' = less_func h"
proof -
  have fo: "funcs_ok (hash_func h) (less_func h)" and p: "placed h" "x \<noteq> NULL" "elem_count h < 2 ^ 32" using assms(1) elems_nonnull [OF assms(1,2)] by (simp_all add: hash_ok_def)
  have "concat (buckets h) \<noteq> []" using assms(2) by (metis elems_def empty_iff list.set(1))
  then have pos: "0 < elem_count h" using assms(1) unfolding hash_ok_def by auto
  note r = remove_elem_ok [OF assms(1,2)]
  have "\<forall>y \<in> elems (remove_elem x h). \<not> equiv_by (less_func (remove_elem x h)) y e"
  proof
    fix y assume y: "y \<in> elems (remove_elem x h)"
    show "\<not> equiv_by (less_func (remove_elem x h)) y e"
    proof
      assume "equiv_by (less_func (remove_elem x h)) y e"
      then have "equiv_by (less_func h) y x" using equiv_laws(2,3) [OF fo] assms(3) r(5) by metis
      then show False using y r(2) assms(1,2) by (auto simp: hash_ok_def)
    qed
  qed
  then obtain h1 where h1: "insert_elem (find_bucket (remove_elem x h) e) e (remove_elem x h) = Some h1" "hash_ok h1"
    "elems h1 = insert e (elems h - {x})" "hash_func h1 = hash_func h" "less_func h1 = less_func h"
    using insert_elem_ok [OF r(1) assms(4)] r(2-5) pos p(3) by auto
  have "find_bucket (remove_elem x h) e = find_bucket h e" by (simp add: find_bucket_def remove_elem_def bucket_cnt_def)
  then show ?thesis using rehash_ok [OF h1(2), of m] h1 find_elem_hit [OF assms(1-3)] the_bucket_ok [OF p(1), of e] p(2)
    by (auto simp: hash_replace_def Let_def)
qed

subsection \<open>What a client relies on\<close>

locale lookup_table =
  fixes inv :: "'t \<Rightarrow> bool" and contents :: "'t \<Rightarrow> 'a set" and eqv :: "'a \<Rightarrow> 'a \<Rightarrow> bool" and room :: "'t \<Rightarrow> bool" and nil :: 'a
    and look :: "'t \<Rightarrow> 'a \<Rightarrow> 'a option" and ins :: "'t \<Rightarrow> 'a \<Rightarrow> ('a \<times> 't) option" and del :: "'t \<Rightarrow> 'a \<Rightarrow> ('a \<times> 't) option"
  assumes eqv_refl: "inv t \<Longrightarrow> eqv a a" and eqv_sym: "inv t \<Longrightarrow> eqv a b \<Longrightarrow> eqv b a"
    and eqv_trans: "inv t \<Longrightarrow> eqv a b \<Longrightarrow> eqv b c \<Longrightarrow> eqv a c"
    and unique: "inv t \<Longrightarrow> a \<in> contents t \<Longrightarrow> b \<in> contents t \<Longrightarrow> eqv a b \<Longrightarrow> a = b" and not_nil: "inv t \<Longrightarrow> nil \<notin> contents t"
    and look_hit: "inv t \<Longrightarrow> x \<in> contents t \<Longrightarrow> eqv x e \<Longrightarrow> look t e = Some x"
    and look_miss: "inv t \<Longrightarrow> \<forall>x \<in> contents t. \<not> eqv x e \<Longrightarrow> look t e = Some nil"
    and ins_hit: "inv t \<Longrightarrow> x \<in> contents t \<Longrightarrow> eqv x e \<Longrightarrow> \<exists>t'. ins t e = Some (x, t') \<and> inv t' \<and> contents t' = contents t"
    and ins_miss: "inv t \<Longrightarrow> room t \<Longrightarrow> e \<noteq> nil \<Longrightarrow> \<forall>x \<in> contents t. \<not> eqv x e \<Longrightarrow>
      \<exists>t'. ins t e = Some (nil, t') \<and> inv t' \<and> contents t' = insert e (contents t)"
    and del_hit: "inv t \<Longrightarrow> x \<in> contents t \<Longrightarrow> eqv x e \<Longrightarrow> \<exists>t'. del t e = Some (x, t') \<and> inv t' \<and> contents t' = contents t - {x}"
    and del_miss: "inv t \<Longrightarrow> \<forall>x \<in> contents t. \<not> eqv x e \<Longrightarrow> del t e = Some (nil, t)"
begin

lemma look_total: "inv t \<Longrightarrow> \<exists>r. look t e = Some r \<and> (r = nil \<longleftrightarrow> (\<forall>x \<in> contents t. \<not> eqv x e))"
  using look_hit look_miss not_nil by metis

text \<open>Two tables with the same elements answer alike.\<close>

lemma look_cong: "inv t \<Longrightarrow> inv t' \<Longrightarrow> (\<And>x. eqv x e \<Longrightarrow> x \<in> contents t' \<longleftrightarrow> x \<in> contents t) \<Longrightarrow> look t' e = look t e"
  by (cases "\<exists>x \<in> contents t. eqv x e") (metis look_hit, metis look_miss)

lemma look_after_ins:
  assumes "inv t" "room t" "e \<noteq> nil"
  shows "\<exists>old t'. ins t e = Some (old, t') \<and> inv t' \<and> look t e = Some old \<and>
    (\<forall>e'. look t' e' = (if eqv e e' then Some (if old = nil then e else old) else look t e'))"
proof (cases "\<exists>x \<in> contents t. eqv x e")
  case True
  then obtain x where x: "x \<in> contents t" "eqv x e" by blast
  obtain t' where t': "ins t e = Some (x, t')" "inv t'" "contents t' = contents t" using ins_hit [OF assms(1) x] by blast
  have "x \<noteq> nil" using x(1) not_nil [OF assms(1)] by blast
  moreover have "look t' e' = look t e'" for e' using look_cong [OF assms(1) t'(2)] t'(3) by simp
  moreover have "look t e' = Some x" if "eqv e e'" for e' using look_hit [OF assms(1) x(1)] eqv_trans [OF assms(1) x(2) that] by simp
  ultimately show ?thesis using t' look_hit [OF assms(1) x] by auto
next
  case False
  then obtain t' where t': "ins t e = Some (nil, t')" "inv t'" "contents t' = insert e (contents t)" using ins_miss [OF assms] by blast
  have "look t' e' = Some e" if "eqv e e'" for e' using look_hit [OF t'(2) _ that] t'(3) by simp
  moreover have "look t' e' = look t e'" if "\<not> eqv e e'" for e' using look_cong [OF assms(1) t'(2)] t'(3) that by auto
  ultimately show ?thesis using t' look_miss [OF assms(1)] False by auto
qed

lemma look_after_del:
  assumes "inv t"
  shows "\<exists>old t'. del t e = Some (old, t') \<and> inv t' \<and> look t e = Some old \<and> (\<forall>e'. look t' e' = (if eqv e e' then Some nil else look t e'))"
proof (cases "\<exists>x \<in> contents t. eqv x e")
  case True
  then obtain x where x: "x \<in> contents t" "eqv x e" by blast
  obtain t' where t': "del t e = Some (x, t')" "inv t'" "contents t' = contents t - {x}" using del_hit [OF assms(1) x] by blast
  have "look t' e' = Some nil" if e: "eqv e e'" for e'
  proof (rule look_miss [OF t'(2)])
    show "\<forall>y \<in> contents t'. \<not> eqv y e'" using t'(3) unique [OF assms(1) _ x(1)] x(2) e eqv_sym [OF assms(1)] eqv_trans [OF assms(1)] by (metis DiffE singletonI)
  qed
  moreover have "look t' e' = look t e'" if "\<not> eqv e e'" for e'
    using look_cong [OF assms(1) t'(2)] t'(3) that x(2) eqv_sym [OF assms(1)] eqv_trans [OF assms(1)] by (metis DiffE DiffI singletonD)
  ultimately show ?thesis using t' look_hit [OF assms(1) x] by auto
next
  case False
  then have "look t e' = Some nil" if "eqv e e'" for e' using look_miss [OF assms(1)] eqv_sym [OF assms(1)] eqv_trans [OF assms(1)] that by metis
  then show ?thesis using del_miss [OF assms(1)] look_miss [OF assms(1)] False assms(1) by auto
qed

end

definition table_of :: "(addr \<Rightarrow> nat) \<Rightarrow> (addr \<Rightarrow> addr \<Rightarrow> bool) \<Rightarrow> hash \<Rightarrow> bool" where
  "table_of hf lf h \<longleftrightarrow> hash_ok h \<and> hash_func h = hf \<and> less_func h = lf"

interpretation ht: lookup_table "table_of hf lf" elems "equiv_by lf" "\<lambda>h. elem_count h + 1 < 2 ^ 32" NULL hash_find "hash_insert m" "hash_delete m"
  for hf lf m
proof
  fix h a b c
  assume "table_of hf lf h"
  then have "funcs_ok hf lf" by (auto simp: table_of_def hash_ok_def)
  note l = equiv_laws [OF this]
  show "equiv_by lf a a" "equiv_by lf a b \<Longrightarrow> equiv_by lf b a" "equiv_by lf a b \<Longrightarrow> equiv_by lf b c \<Longrightarrow> equiv_by lf a c"
    using l by blast+
next
  fix h a b
  show "table_of hf lf h \<Longrightarrow> a \<in> elems h \<Longrightarrow> b \<in> elems h \<Longrightarrow> equiv_by lf a b \<Longrightarrow> a = b" "table_of hf lf h \<Longrightarrow> NULL \<notin> elems h"
    by (auto simp: table_of_def hash_ok_def)
next
  fix h x e
  show "table_of hf lf h \<Longrightarrow> x \<in> elems h \<Longrightarrow> equiv_by lf x e \<Longrightarrow> hash_find h e = Some x"
    "table_of hf lf h \<Longrightarrow> \<forall>x \<in> elems h. \<not> equiv_by lf x e \<Longrightarrow> hash_find h e = Some NULL"
    "table_of hf lf h \<Longrightarrow> x \<in> elems h \<Longrightarrow> equiv_by lf x e \<Longrightarrow> \<exists>t'. hash_insert m h e = Some (x, t') \<and> table_of hf lf t' \<and> elems t' = elems h"
    "table_of hf lf h \<Longrightarrow> elem_count h + 1 < 2 ^ 32 \<Longrightarrow> e \<noteq> NULL \<Longrightarrow> \<forall>x \<in> elems h. \<not> equiv_by lf x e \<Longrightarrow>
      \<exists>t'. hash_insert m h e = Some (NULL, t') \<and> table_of hf lf t' \<and> elems t' = insert e (elems h)"
    "table_of hf lf h \<Longrightarrow> x \<in> elems h \<Longrightarrow> equiv_by lf x e \<Longrightarrow> \<exists>t'. hash_delete m h e = Some (x, t') \<and> table_of hf lf t' \<and> elems t' = elems h - {x}"
    "table_of hf lf h \<Longrightarrow> \<forall>x \<in> elems h. \<not> equiv_by lf x e \<Longrightarrow> hash_delete m h e = Some (NULL, h)"
    using hash_find_hit [of h x e] hash_find_miss [of h e] insert_hit [of h x e m] insert_miss [of h e m] delete_hit [of h x e m] delete_miss [of h e m]
    by (auto simp: table_of_def)
qed

subsection \<open>Iteration\<close>

fun iterate :: "nat \<Rightarrow> hash \<Rightarrow> hash_iterator \<Rightarrow> addr list option" where
  "iterate 0 h i = Some []"
| "iterate (Suc n) h i = do {
     (e, i) \<leftarrow> hash_next h i;
     if e = NULL then Some [] else do { es \<leftarrow> iterate n h i; Some (e # es) } }"

text \<open>What is still to come at a position of bucket \<open>b\<close>.\<close>

definition pending :: "hash \<Rightarrow> nat \<Rightarrow> nat \<Rightarrow> addr list" where
  "pending h b pos = drop pos (buckets h ! b) @ concat (drop (Suc b) (buckets h))"

lemma skip_empty_pending:
  assumes "b < bucket_cnt h" "pos \<le> length (buckets h ! b)"
  shows "(pending h b pos = [] \<and> elem (skip_empty h b (pos + 1)) = None) \<or>
    (\<exists>b' k. skip_empty h b (pos + 1) = \<lparr>bucket = b', elem = Some (Suc k)\<rparr> \<and> b' < bucket_cnt h \<and> k < length (buckets h ! b') \<and>
      pending h b pos = buckets h ! b' ! k # pending h b' (Suc k))"
  using assms
proof (induction "bucket_cnt h - b" arbitrary: b pos rule: less_induct)
  case less
  show ?case
  proof (cases "pos = length (buckets h ! b)")
    case False
    then have k: "pos < length (buckets h ! b)" using less.prems(2) by simp
    then have "skip_empty h b (pos + 1) = \<lparr>bucket = b, elem = Some (Suc pos)\<rparr>" by (simp add: skip_empty.simps)
    moreover have "pending h b pos = buckets h ! b ! pos # pending h b (Suc pos)" using k by (simp add: pending_def Cons_nth_drop_Suc)
    ultimately show ?thesis using less.prems(1) k by blast
  next
    case True
    show ?thesis
    proof (cases "b + 1 < bucket_cnt h")
      case False
      then show ?thesis using True less.prems(1) by (simp add: skip_empty.simps [of h b] pending_def bucket_cnt_def)
    next
      case l: True
      have s: "skip_empty h b (pos + 1) = skip_empty h (b + 1) (0 + 1)" using True l by (simp add: skip_empty.simps [of h b])
      have "drop (Suc b) (buckets h) = buckets h ! Suc b # drop (Suc (Suc b)) (buckets h)"
        using l by (simp add: bucket_cnt_def Cons_nth_drop_Suc)
      then have p: "pending h b pos = pending h (b + 1) 0" using True by (simp add: pending_def)
      show ?thesis unfolding s p by (rule less.hyps) (use l in auto)
    qed
  qed
qed

lemma iterate_pending:
  assumes "NULL \<notin> elems h" "length (pending h b pos) < n" "b < bucket_cnt h" "pos \<le> length (buckets h ! b)"
  shows "iterate n h \<lparr>bucket = b, elem = Some pos\<rparr> = Some (pending h b pos)"
  using assms(2-4)
proof (induction n arbitrary: b pos)
  case (Suc n)
  have sk: "hash_next h \<lparr>bucket = b, elem = Some pos\<rparr> = do { e \<leftarrow> hash_cur h (skip_empty h b (pos + 1)); Some (e, skip_empty h b (pos + 1)) }"
    using Suc.prems(2,3) by (simp add: hash_next_def Let_def)
  from skip_empty_pending [OF Suc.prems(2,3)] show ?case
  proof (elim disjE exE conjE)
    assume "pending h b pos = []" "elem (skip_empty h b (pos + 1)) = None"
    then show ?thesis by (simp add: sk hash_cur_def)
  next
    fix b' k
    assume a: "skip_empty h b (pos + 1) = \<lparr>bucket = b', elem = Some (Suc k)\<rparr>" "b' < bucket_cnt h" "k < length (buckets h ! b')"
      "pending h b pos = buckets h ! b' ! k # pending h b' (Suc k)"
    have "buckets h ! b' ! k \<noteq> NULL" using assms(1) a(2,3) unfolding elems_bucket by (metis nth_mem)
    then show ?thesis using a Suc.IH [of b' "Suc k"] Suc.prems(1) by (simp add: sk hash_cur_def)
  qed
qed simp

subsection \<open>Properties\<close>

text \<open>C36: insertion into a well-formed table, whether or not the allocation of new buckets succeeds.  It returns what a lookup
  of the element returned before; afterwards a lookup of an equal element gives the element that was there, or the new one
  if there was none, and every other lookup is unchanged.\<close>
theorem hash_insert_find:
  assumes "hash_ok h" "elem_count h + 1 < 2 ^ 32" "e \<noteq> NULL"
  shows "\<exists>old h'. hash_insert malloc_ok h e = Some (old, h') \<and> hash_ok h' \<and> hash_find h e = Some old \<and>
    (\<forall>e'. hash_find h' e' = (if equiv_by (less_func h) e e' then Some (if old = NULL then e else old) else hash_find h e'))"
proof -
  let ?t = "table_of (hash_func h) (less_func h)"
  have t: "?t h" using assms(1) by (simp add: table_of_def)
  have "\<exists>old h'. hash_insert malloc_ok h e = Some (old, h') \<and> ?t h' \<and> hash_find h e = Some old \<and>
    (\<forall>e'. hash_find h' e' = (if equiv_by (less_func h) e e' then Some (if old = NULL then e else old) else hash_find h e'))"
    by (rule ht.look_after_ins [OF t assms(2,3)])
  then show ?thesis by (auto simp only: table_of_def)
qed

text \<open>Deletion returns the stored equal element, or a null pointer; afterwards lookups of equal elements fail and all
  others are unchanged.\<close>
theorem hash_delete_find:
  assumes "hash_ok h"
  shows "\<exists>old h'. hash_delete malloc_ok h e = Some (old, h') \<and> hash_ok h' \<and> hash_find h e = Some old \<and>
    (\<forall>e'. hash_find h' e' = (if equiv_by (less_func h) e e' then Some NULL else hash_find h e'))"
proof -
  let ?t = "table_of (hash_func h) (less_func h)"
  have t: "?t h" using assms(1) by (simp add: table_of_def)
  have "\<exists>old h'. hash_delete malloc_ok h e = Some (old, h') \<and> ?t h' \<and> hash_find h e = Some old \<and>
    (\<forall>e'. hash_find h' e' = (if equiv_by (less_func h) e e' then Some NULL else hash_find h e'))"
    by (rule ht.look_after_del [OF t])
  then show ?thesis by (auto simp only: table_of_def)
qed

text \<open>C37: iterating with \<open>hash_next\<close> until it returns a null pointer visits every element of the table exactly once.\<close>
theorem hash_iteration_complete:
  assumes "hash_ok h" "elem_count h < n"
  shows "\<exists>es. iterate n h (hash_first h) = Some es \<and> distinct es \<and> set es = elems h \<and> length es = hash_size h"
proof -
  have h: "NULL \<notin> elems h" "distinct (concat (buckets h))" "elem_count h = length (concat (buckets h))" "placed h"
    using assms(1) by (simp_all add: hash_ok_def)
  obtain k where "bucket_cnt h = 2 ^ k" using h(4) by (auto simp: placed_def)
  then have b: "0 < bucket_cnt h" by simp
  then have p: "pending h 0 0 = concat (buckets h)" by (cases "buckets h") (simp_all add: pending_def bucket_cnt_def)
  have "iterate n h (hash_first h) = Some (pending h 0 0)"
    unfolding hash_first_def by (rule iterate_pending [OF h(1) _ b]) (use assms(2) p h(3) in simp_all)
  then show ?thesis using p h(2,3) by (simp only: elems_def hash_size_def) blast
qed

definition demo_hash :: hash where
  "demo_hash = \<lparr>elem_count = 3, buckets = [[8], [5, 9], [], []], hash_func = (\<lambda>a. a), less_func = (<)\<rparr>"

lemma demo_hash_ok: "hash_ok demo_hash"
proof -
  have "placed demo_hash" unfolding placed_def
  proof
    show "\<exists>k. bucket_cnt demo_hash = 2 ^ k" by (rule exI [of _ 2]) (simp add: demo_hash_def bucket_cnt_def)
    show "\<forall>i < bucket_cnt demo_hash. \<forall>e \<in> set (buckets demo_hash ! i). find_bucket demo_hash e = i"
      by (simp add: demo_hash_def bucket_cnt_def find_bucket_def All_less_Suc numeral_2_eq_2 numeral_3_eq_3) (simp flip: numeral_3_eq_3)
  qed
  moreover have "funcs_ok (\<lambda>a. a) (<)" by (auto simp: funcs_ok_def equiv_by_def)
  ultimately show ?thesis by (auto simp: hash_ok_def demo_hash_def elems_def equiv_by_def)
qed

theorem hash_insert_find_witness:
  "\<exists>old h'. hash_insert True demo_hash 6 = Some (old, h') \<and> hash_ok h' \<and> hash_find h' 9 = hash_find demo_hash 9"
  using hash_insert_find [OF demo_hash_ok, of 6 True] by (auto simp: demo_hash_def equiv_by_def)

theorem hash_delete_find_witness:
  "\<exists>old h'. hash_delete False demo_hash 5 = Some (old, h') \<and> hash_find h' 5 = Some NULL"
  using hash_delete_find [OF demo_hash_ok, of False 5] by (auto simp: demo_hash_def equiv_by_def)

theorem hash_iteration_complete_witness:
  "\<exists>es. iterate 4 demo_hash (hash_first demo_hash) = Some es \<and> set es = {5, 8, 9}"
  using hash_iteration_complete [OF demo_hash_ok, of 4] by (auto simp: demo_hash_def elems_def)

end
