(* ===== verification/Stdlib.thy ===== *)
theory Stdlib
  imports Cstring
begin

text \<open>
  lib/stdlib.c: \<open>atoi\<close>, the heap sort behind \<open>sort\<close> (\<open>sort_mem\<close> here) and \<open>qsort\<close>, and binary search, over a byte memory.  The client's comparison
  function gets the bytes of the two elements (the auxiliary data is applied already).  Indices are natural numbers, as \<^verbatim>\<open>size_t\<close> is for
  arrays of fewer than 2 GB elements.
\<close>

subsection \<open>Character classes\<close>

text \<open>lib/ctype.h.\<close>

definition islower :: "int \<Rightarrow> bool" where
  "islower c = (c \<ge> 97 \<and> c \<le> 122)"

definition isupper :: "int \<Rightarrow> bool" where
  "isupper c = (c \<ge> 65 \<and> c \<le> 90)"

definition isalpha :: "int \<Rightarrow> bool" where
  "isalpha c = (islower c \<or> isupper c)"

definition isdigit :: "int \<Rightarrow> bool" where
  "isdigit c = (c \<ge> 48 \<and> c \<le> 57)"

definition isalnum :: "int \<Rightarrow> bool" where
  "isalnum c = (isalpha c \<or> isdigit c)"

definition isxdigit :: "int \<Rightarrow> bool" where
  "isxdigit c = (isdigit c \<or> (c \<ge> 97 \<and> c \<le> 102) \<or> (c \<ge> 65 \<and> c \<le> 70))"

definition isspace :: "int \<Rightarrow> bool" where
  "isspace c = (c = 32 \<or> c = 12 \<or> c = 10 \<or> c = 13 \<or> c = 9 \<or> c = 11)"

definition isblank :: "int \<Rightarrow> bool" where
  "isblank c = (c = 32 \<or> c = 9)"

definition isgraph :: "int \<Rightarrow> bool" where
  "isgraph c = (c > 32 \<and> c < 127)"

definition isprint :: "int \<Rightarrow> bool" where
  "isprint c = (c \<ge> 32 \<and> c < 127)"

definition iscntrl :: "int \<Rightarrow> bool" where
  "iscntrl c = (c \<ge> 0 \<and> c < 32 \<or> c = 127)"

definition isascii :: "int \<Rightarrow> bool" where
  "isascii c = (c \<ge> 0 \<and> c < 128)"

definition ispunct :: "int \<Rightarrow> bool" where
  "ispunct c = (isprint c \<and> \<not> isalnum c \<and> \<not> isspace c)"

definition tolower :: "int \<Rightarrow> int" where
  "tolower c = (if isupper c then c - 65 + 97 else c)"

definition toupper :: "int \<Rightarrow> int" where
  "toupper c = (if islower c then c - 97 + 65 else c)"

subsection \<open>Parsing integers\<close>

partial_function (option) skip_space :: "memory \<Rightarrow> addr \<Rightarrow> addr option" where
  "skip_space m s = (if isspace (uint (m s)) then skip_space m (s + 1) else Some s)"

partial_function (option) digits_loop :: "memory \<Rightarrow> addr \<Rightarrow> int \<Rightarrow> int option" where
  "digits_loop m s v = (if isdigit (sint (m s)) then digits_loop m (s + 1) (s32 (v * 10 - (sint (m s) - 48))) else Some v)"

definition atoi :: "memory \<Rightarrow> addr \<Rightarrow> int option" where
  "atoi m s = do {
     k_assert (s \<noteq> NULL);
     s \<leftarrow> skip_space m s;
     let negative = (m s = 45);
     let s = (if m s = 43 \<or> m s = 45 then s + 1 else s);
     v \<leftarrow> digits_loop m s 0;
     Some (if negative then v else s32 (- v)) }"

subsection \<open>Sorting\<close>

type_synonym compare = "byte list \<Rightarrow> byte list \<Rightarrow> int"

definition block_at :: "memory \<Rightarrow> addr \<Rightarrow> nat \<Rightarrow> byte list" where
  "block_at m a sz = map m [a..<a + sz]"

fun swap_loop :: "nat \<Rightarrow> addr \<Rightarrow> addr \<Rightarrow> memory \<Rightarrow> memory" where
  "swap_loop 0 a b m = m"
| "swap_loop (Suc n) a b m = swap_loop n (a + 1) (b + 1) (m(a := m b, b := m a))"

definition do_swap :: "addr \<Rightarrow> nat \<Rightarrow> nat \<Rightarrow> nat \<Rightarrow> memory \<Rightarrow> memory" where
  "do_swap array a_idx b_idx sz m = swap_loop sz (array + (a_idx - 1) * sz) (array + (b_idx - 1) * sz) m"

definition do_compare :: "addr \<Rightarrow> nat \<Rightarrow> nat \<Rightarrow> nat \<Rightarrow> compare \<Rightarrow> memory \<Rightarrow> int" where
  "do_compare array a_idx b_idx sz cmp m =
     cmp (block_at m (array + (a_idx - 1) * sz) sz) (block_at m (array + (b_idx - 1) * sz) sz)"

definition heap_max :: "addr \<Rightarrow> nat \<Rightarrow> nat \<Rightarrow> nat \<Rightarrow> compare \<Rightarrow> memory \<Rightarrow> nat" where
  "heap_max array i cnt sz cmp m = (let
     left = 2 * i;
     right = 2 * i + 1;
     mx = i;
     mx = (if left \<le> cnt \<and> do_compare array left mx sz cmp m > 0 then left else mx);
     mx = (if right \<le> cnt \<and> do_compare array right mx sz cmp m > 0 then right else mx)
   in mx)"

lemma heap_max_cases: "heap_max array i cnt sz cmp m = i \<or> i < heap_max array i cnt sz cmp m \<and> heap_max array i cnt sz cmp m \<le> cnt"
  by (auto simp: heap_max_def Let_def)

function heapify :: "addr \<Rightarrow> nat \<Rightarrow> nat \<Rightarrow> nat \<Rightarrow> compare \<Rightarrow> memory \<Rightarrow> memory" where
  "heapify array i cnt sz cmp m = (let mx = heap_max array i cnt sz cmp m in
     if mx = i then m else heapify array mx cnt sz cmp (do_swap array i mx sz m))"
  by pat_completeness auto
termination
proof (relation "measure (\<lambda>(array, i, cnt, sz, cmp, m). Suc cnt - i)")
  fix array i cnt sz cmp m mx
  assume "mx = heap_max array i cnt sz cmp m" "mx \<noteq> i"
  then have "i < mx" "mx \<le> cnt" using heap_max_cases [of array i cnt sz cmp m] by auto
  then show "((array, mx, cnt, sz, cmp, do_swap array i mx sz m), (array, i, cnt, sz, cmp, m))
      \<in> measure (\<lambda>(array, i, cnt, sz, cmp, m). Suc cnt - i)" by simp
qed simp

declare heapify.simps [simp del]

fun build_heap :: "nat \<Rightarrow> addr \<Rightarrow> nat \<Rightarrow> nat \<Rightarrow> compare \<Rightarrow> memory \<Rightarrow> memory" where
  "build_heap 0 array cnt sz cmp m = m"
| "build_heap (Suc i) array cnt sz cmp m = build_heap i array cnt sz cmp (heapify array (Suc i) cnt sz cmp m)"

fun sort_heap :: "nat \<Rightarrow> addr \<Rightarrow> nat \<Rightarrow> compare \<Rightarrow> memory \<Rightarrow> memory" where
  "sort_heap 0 array sz cmp m = m"
| "sort_heap (Suc i) array sz cmp m = (if Suc i > 1 then
     (let m = do_swap array 1 (Suc i) sz m;
          m = heapify array 1 i sz cmp m
      in sort_heap i array sz cmp m) else m)"

definition sort_mem :: "addr \<Rightarrow> nat \<Rightarrow> nat \<Rightarrow> compare \<Rightarrow> memory \<Rightarrow> memory option" where
  "sort_mem array cnt sz cmp m = do {
     k_assert (array \<noteq> NULL \<or> cnt = 0);
     k_assert (sz > 0);
     let m = build_heap (cnt div 2) array cnt sz cmp m;
     Some (sort_heap cnt array sz cmp m) }"

definition qsort :: "addr \<Rightarrow> nat \<Rightarrow> nat \<Rightarrow> compare \<Rightarrow> memory \<Rightarrow> memory option" where
  "qsort array cnt sz compare m = sort_mem array cnt sz (\<lambda>a b. compare a b) m"

subsection \<open>Searching\<close>

text \<open>The division by an element size of 0 traps.\<close>

function search_loop :: "byte list \<Rightarrow> addr \<Rightarrow> addr \<Rightarrow> nat \<Rightarrow> compare \<Rightarrow> memory \<Rightarrow> addr option" where
  "search_loop key first lst sz cmp m = (if first < lst then
     (if sz = 0 then None else
      let range = (lst - first) div sz;
          middle = first + (range div 2) * sz;
          c = cmp key (block_at m middle sz)
      in if c < 0 then search_loop key first middle sz cmp m
         else if c > 0 then search_loop key (middle + sz) lst sz cmp m
         else Some middle)
     else Some NULL)"
  by pat_completeness auto
termination
proof (relation "measure (\<lambda>(key, first, lst, sz, cmp, m). lst - first)", goal_cases)
  case (2 key first lst sz cmp m range middle c)
  have "range div 2 * sz \<le> range * sz" by simp
  moreover have "(lst - first) div sz * sz \<le> lst - first" by simp
  moreover have "range div 2 * sz < lst - first"
  proof (cases "range = 0")
    case True then show ?thesis using 2(1) by simp
  next
    case False
    then have "range div 2 < range" by simp
    then have "range div 2 * sz < range * sz" using 2(2) by simp
    then show ?thesis using 2(3) by (metis div_times_less_eq_dividend order_less_le_trans)
  qed
  ultimately show ?case using 2 by simp
next
  case (3 key first lst sz cmp m range middle c)
  then have "first < middle + sz" by simp
  then show ?case using 3(1) by (auto intro: diff_less_mono2)
qed simp

declare search_loop.simps [simp del]

definition binary_search :: "byte list \<Rightarrow> addr \<Rightarrow> nat \<Rightarrow> nat \<Rightarrow> compare \<Rightarrow> memory \<Rightarrow> addr option" where
  "binary_search key array cnt sz cmp m = search_loop key array (array + sz * cnt) sz cmp m"

definition bsearch :: "byte list \<Rightarrow> addr \<Rightarrow> nat \<Rightarrow> nat \<Rightarrow> compare \<Rightarrow> memory \<Rightarrow> addr option" where
  "bsearch key array cnt sz compare m = binary_search key array cnt sz (\<lambda>a b. compare a b) m"

end
