(* ===== verification/Stdlib_Props.thy ===== *)
theory Stdlib_Props
  imports Stdlib
begin

text \<open>
  Correctness of the heap sort and of binary search.  \<open>elt array sz m i\<close> is the element with the 1-based index \<open>i\<close>; an array is
  the function \<open>elt array sz m\<close> on \<open>1..cnt\<close>.
\<close>

subsection \<open>Elements\<close>

definition elt :: "addr \<Rightarrow> nat \<Rightarrow> memory \<Rightarrow> nat \<Rightarrow> byte list" where
  "elt array sz m i = block_at m (array + (i - 1) * sz) sz"

lemma do_compare_elt: "do_compare array a b sz cmp m = cmp (elt array sz m a) (elt array sz m b)"
  by (simp add: do_compare_def elt_def)

lemma swap_loop_eq:
  "a + n \<le> b \<or> b + n \<le> a \<Longrightarrow> swap_loop n a b m x =
    (if a \<le> x \<and> x < a + n then m (b + (x - a)) else if b \<le> x \<and> x < b + n then m (a + (x - b)) else m x)"
proof (induction n arbitrary: a b m)
  case (Suc n)
  have o: "a + 1 + n \<le> b + 1 \<or> b + 1 + n \<le> a + 1" and ne: "a \<noteq> b" using Suc.prems by auto
  define M where "M = m(a := m b, b := m a)"
  have M: "M a = m b" "M b = m a" "\<And>y. y \<noteq> a \<Longrightarrow> y \<noteq> b \<Longrightarrow> M y = m y" using ne by (auto simp: M_def)
  have ih: "swap_loop (Suc n) a b m x = (if a + 1 \<le> x \<and> x < a + 1 + n then M (b + 1 + (x - (a + 1)))
      else if b + 1 \<le> x \<and> x < b + 1 + n then M (a + 1 + (x - (b + 1))) else M x)"
    using Suc.IH [OF o, of M] by (simp only: swap_loop.simps M_def)
  consider "x = a" | "x = b" | "a < x" "x < a + Suc n" | "b < x" "x < b + Suc n" | "x < a \<or> a + Suc n \<le> x" "x < b \<or> b + Suc n \<le> x"
    by linarith
  then show ?case
  proof cases
    case 1
    then have "\<not> (b + 1 \<le> x \<and> x < b + 1 + n)" using Suc.prems by linarith
    then show ?thesis unfolding ih using 1 M(1) by auto
  next
    case 2
    then have "\<not> (a + 1 \<le> x \<and> x < a + 1 + n)" "\<not> (a \<le> x \<and> x < a + Suc n)" using Suc.prems by linarith+
    then show ?thesis unfolding ih using 2 M(2) by auto
  next
    case 3
    then have "b + 1 + (x - (a + 1)) = b + (x - a)" "b + (x - a) \<noteq> a" "b + (x - a) \<noteq> b" using Suc.prems by auto
    then show ?thesis unfolding ih using 3 M(3) by simp
  next
    case 4
    then have "a + 1 + (x - (b + 1)) = a + (x - b)" "a + (x - b) \<noteq> a" "a + (x - b) \<noteq> b" "\<not> (a \<le> x \<and> x < a + Suc n)"
      "\<not> (a + 1 \<le> x \<and> x < a + 1 + n)" using Suc.prems by auto
    then show ?thesis unfolding ih using 4 M(3) by auto
  next
    case 5
    then have f: "\<not> (a + 1 \<le> x \<and> x < a + 1 + n)" "\<not> (b + 1 \<le> x \<and> x < b + 1 + n)"
      "\<not> (a \<le> x \<and> x < a + Suc n)" "\<not> (b \<le> x \<and> x < b + Suc n)" "x \<noteq> a" "x \<noteq> b" by linarith+
    show ?thesis unfolding ih if_not_P [OF f(1)] if_not_P [OF f(2)] if_not_P [OF f(3)] if_not_P [OF f(4)] by (rule M(3) [OF f(5,6)])
  qed
qed auto

lemma index_apart: "a < b \<Longrightarrow> a * sz + sz \<le> b * (sz :: nat)"
  by (metis Suc_leI add.commute mult_Suc mult_le_mono1)

lemma block_at_eqI: "(\<And>k. k < sz \<Longrightarrow> m' (a + k) = m (b + k)) \<Longrightarrow> block_at m' a sz = block_at m b sz"
  by (auto simp: block_at_def intro!: nth_equalityI)

lemma slot_apart:
  assumes "1 \<le> x" "1 \<le> y" "x \<noteq> y"
  shows "array + (x - 1) * sz + sz \<le> array + (y - 1) * sz \<or> array + (y - 1) * sz + sz \<le> array + (x - 1) * (sz :: nat)"
  using assms index_apart [of "x - 1" "y - 1" sz] index_apart [of "y - 1" "x - 1" sz] by linarith

lemma elt_swap:
  assumes "1 \<le> a" "1 \<le> b" "a \<noteq> b" "1 \<le> i"
  shows "elt array sz (do_swap array a b sz m) i = (if i = a then elt array sz m b else if i = b then elt array sz m a else elt array sz m i)"
proof -
  define P where "P j = array + (j - 1) * sz" for j
  have e: "elt array sz m' j = block_at m' (P j) sz" for m' j by (simp add: elt_def P_def)
  have o: "P a + sz \<le> P b \<or> P b + sz \<le> P a" unfolding P_def by (rule slot_apart [OF assms(1-3)])
  have s: "do_swap array a b sz m x = (if P a \<le> x \<and> x < P a + sz then m (P b + (x - P a)) else
      if P b \<le> x \<and> x < P b + sz then m (P a + (x - P b)) else m x)" for x
    unfolding do_swap_def P_def [symmetric] by (rule swap_loop_eq [OF o])
  consider "i = a" | "i = b" "i \<noteq> a" | "i \<noteq> a" "i \<noteq> b" by blast
  then show ?thesis
  proof cases
    case 1 then show ?thesis unfolding e by (auto simp: s intro!: block_at_eqI)
  next
    case 2 then show ?thesis using o unfolding e by (auto simp: s intro!: block_at_eqI)
  next
    case 3
    have "P i + sz \<le> P a \<or> P a + sz \<le> P i" "P i + sz \<le> P b \<or> P b + sz \<le> P i"
      unfolding P_def using slot_apart [OF assms(4,1) 3(1)] slot_apart [OF assms(4,2) 3(2)] by auto
    then show ?thesis using 3 unfolding e by (auto simp: s intro!: block_at_eqI)
  qed
qed

lemma swap_frame:
  assumes "1 \<le> a" "1 \<le> b" "a \<noteq> b" "a \<le> cnt" "b \<le> cnt" "x < array \<or> array + cnt * sz \<le> x"
  shows "do_swap array a b sz m x = m x"
proof -
  have le: "(i - 1) * sz + sz \<le> cnt * sz" if "1 \<le> i" "i \<le> cnt" for i using that index_apart [of "i - 1" cnt sz] by simp
  have "(a - 1) * sz + sz \<le> (b - 1) * sz \<or> (b - 1) * sz + sz \<le> (a - 1) * sz"
    using assms(1-3) index_apart [of "a - 1" "b - 1" sz] index_apart [of "b - 1" "a - 1" sz] by linarith
  then show ?thesis using swap_loop_eq [of "array + (a - 1) * sz" sz "array + (b - 1) * sz" m x] le [OF assms(1,4)] le [OF assms(2,5)] assms(6)
    by (auto simp: do_swap_def)
qed

subsection \<open>Heaps\<close>

definition cmp_ok :: "compare \<Rightarrow> bool" where
  "cmp_ok cmp \<longleftrightarrow> (\<forall>x y. cmp x y \<le> 0 \<or> cmp y x \<le> 0) \<and> (\<forall>x y z. cmp x y \<le> 0 \<longrightarrow> cmp y z \<le> 0 \<longrightarrow> cmp x z \<le> 0)"

lemma cmp_trans: "cmp_ok cmp \<Longrightarrow> cmp x y \<le> 0 \<Longrightarrow> cmp y z \<le> 0 \<Longrightarrow> cmp x z \<le> 0"
  unfolding cmp_ok_def by blast

lemma cmp_total: "cmp_ok cmp \<Longrightarrow> \<not> cmp x y \<le> 0 \<Longrightarrow> cmp y x \<le> 0"
  unfolding cmp_ok_def by blast

lemma cmp_refl: "cmp_ok cmp \<Longrightarrow> cmp x x \<le> 0"
  unfolding cmp_ok_def by blast

text \<open>\<open>heap_at\<close>: no child of \<open>j\<close> exceeds \<open>j\<close>.\<close>

definition heap_at :: "compare \<Rightarrow> nat \<Rightarrow> (nat \<Rightarrow> byte list) \<Rightarrow> nat \<Rightarrow> bool" where
  "heap_at cmp cnt A j \<longleftrightarrow> (2 * j \<le> cnt \<longrightarrow> cmp (A (2 * j)) (A j) \<le> 0) \<and> (2 * j + 1 \<le> cnt \<longrightarrow> cmp (A (2 * j + 1)) (A j) \<le> 0)"

definition arr_mset :: "nat \<Rightarrow> (nat \<Rightarrow> byte list) \<Rightarrow> byte list multiset" where
  "arr_mset cnt A = image_mset A (mset_set {1..cnt})"

lemma arr_mset_swap:
  assumes "1 \<le> a" "a \<le> cnt" "1 \<le> b" "b \<le> cnt" "a \<noteq> b" "\<And>i. 1 \<le> i \<Longrightarrow> B i = (if i = a then A b else if i = b then A a else A i)"
  shows "arr_mset cnt B = arr_mset cnt A"
proof -
  define S where "S = {1..cnt} - {a, b}"
  have e: "{1..cnt} = insert a (insert b S)" "finite S" "a \<notin> insert b S" "b \<notin> S" using assms(1-5) by (auto simp: S_def)
  have "image_mset B (mset_set S) = image_mset A (mset_set S)"
    by (rule image_mset_cong) (use assms(6) e(2) in \<open>auto simp: S_def\<close>)
  then show ?thesis unfolding arr_mset_def e(1) using e(2-4) assms(1,3,5) assms(6) [of a] assms(6) [of b] by simp
qed

lemma heap_max_spec:
  assumes "cmp_ok cmp" "1 \<le> i" "A = elt array sz m" "mx = heap_max array i cnt sz cmp m"
  shows "mx = i \<or> (mx = 2 * i \<or> mx = 2 * i + 1) \<and> mx \<le> cnt"
    "2 * i \<le> cnt \<Longrightarrow> cmp (A (2 * i)) (A mx) \<le> 0" "2 * i + 1 \<le> cnt \<Longrightarrow> cmp (A (2 * i + 1)) (A mx) \<le> 0" "cmp (A i) (A mx) \<le> 0"
proof -
  define l where "l = (if 2 * i \<le> cnt \<and> cmp (A (2 * i)) (A i) > 0 then 2 * i else i)"
  have mx: "mx = (if 2 * i + 1 \<le> cnt \<and> cmp (A (2 * i + 1)) (A l) > 0 then 2 * i + 1 else l)"
    by (simp add: assms(3,4) heap_max_def Let_def do_compare_elt l_def)
  show "mx = i \<or> (mx = 2 * i \<or> mx = 2 * i + 1) \<and> mx \<le> cnt" by (auto simp: mx l_def)
  note c = cmp_trans [OF assms(1)] cmp_total [OF assms(1)] cmp_refl [OF assms(1)]
  have il: "cmp (A i) (A l) \<le> 0" using c(2) [of "A (2 * i)" "A i"] c(3) [of "A i"] by (auto simp: l_def)
  have ll: "2 * i \<le> cnt \<Longrightarrow> cmp (A (2 * i)) (A l) \<le> 0" using c(3) [of "A (2 * i)"] by (auto simp: l_def)
  have lm: "cmp (A l) (A mx) \<le> 0" using c(2) [of "A (2 * i + 1)" "A l"] c(3) [of "A l"] by (auto simp: mx)
  show "cmp (A i) (A mx) \<le> 0" using c(1) [OF il lm] .
  show "cmp (A (2 * i)) (A mx) \<le> 0" if "2 * i \<le> cnt" using c(1) [OF ll [OF that] lm] .
  show "cmp (A (2 * i + 1)) (A mx) \<le> 0" if "2 * i + 1 \<le> cnt" using that c(3) [of "A (2 * i + 1)"] by (auto simp: mx)
qed

text \<open>Floating down.  Before, the heap order holds at every node from \<open>lo\<close> on except \<open>i\<close>, and the children of \<open>i\<close> do not exceed the
  parent of \<open>i\<close>.\<close>

lemma heapify_ok:
  assumes "cmp_ok cmp" "1 \<le> lo" "lo \<le> i" "i \<le> cnt"
    "\<forall>j. lo \<le> j \<and> j \<noteq> i \<longrightarrow> heap_at cmp cnt (elt array sz m) j"
    "\<forall>j. lo \<le> j \<and> (i = 2 * j \<or> i = 2 * j + 1) \<longrightarrow> (\<forall>c. (c = 2 * i \<or> c = 2 * i + 1) \<and> c \<le> cnt \<longrightarrow> cmp (elt array sz m c) (elt array sz m j) \<le> 0)"
  shows "(\<forall>j. lo \<le> j \<longrightarrow> heap_at cmp cnt (elt array sz (heapify array i cnt sz cmp m)) j) \<and>
    (\<forall>j. 1 \<le> j \<and> (j < i \<or> cnt < j) \<longrightarrow> elt array sz (heapify array i cnt sz cmp m) j = elt array sz m j) \<and>
    (\<forall>n \<ge> cnt. arr_mset n (elt array sz (heapify array i cnt sz cmp m)) = arr_mset n (elt array sz m)) \<and>
    (\<forall>x. x < array \<or> array + cnt * sz \<le> x \<longrightarrow> heapify array i cnt sz cmp m x = m x)"
  using assms(3-6)
proof (induction "cnt - i" arbitrary: i m rule: less_induct)
  case less
  define mx where "mx = heap_max array i cnt sz cmp m"
  let ?A = "elt array sz m"
  have i1: "1 \<le> i" using less.prems(1) assms(2) by simp
  note sp = heap_max_spec [OF assms(1) i1 refl mx_def]
  show ?case
  proof (cases "mx = i")
    case True
    have "heap_at cmp cnt ?A i" using sp(2,3) True by (simp add: heap_at_def)
    then have "\<forall>j. lo \<le> j \<longrightarrow> heap_at cmp cnt ?A j" using less.prems(3) by metis
    then show ?thesis using True by (simp add: heapify.simps [of array i] Let_def flip: mx_def)
  next
    case False
    then have c: "mx = 2 * i \<or> mx = 2 * i + 1" "mx \<le> cnt" "i < mx" using sp(1) i1 by auto
    define m' where "m' = do_swap array i mx sz m"
    let ?B = "elt array sz m'"
    have B: "?B j = (if j = i then ?A mx else if j = mx then ?A i else ?A j)" if "1 \<le> j" for j
      unfolding m'_def using that i1 c by (intro elt_swap) auto
    have ex: "\<forall>j. lo \<le> j \<and> j \<noteq> mx \<longrightarrow> heap_at cmp cnt ?B j"
    proof (intro allI impI)
      fix j assume j: "lo \<le> j \<and> j \<noteq> mx"
      then have j1: "1 \<le> j" using assms(2) by simp
      show "heap_at cmp cnt ?B j"
      proof (cases "j = i")
        case True
        then show ?thesis using sp(2,3,4) c i1 by (auto simp: heap_at_def B)
      next
        case ji: False
        have h: "heap_at cmp cnt ?A j" using less.prems(3) j ji by blast
        have p: "cmp (?B k) (?B j) \<le> 0" if k: "k = 2 * j \<or> k = 2 * j + 1" "k \<le> cnt" for k
        proof -
          have "k \<noteq> mx" using k(1) c(1) ji by presburger
          moreover have "cmp (?A k) (?A j) \<le> 0" using h k by (auto simp: heap_at_def)
          moreover have "cmp (?A mx) (?A j) \<le> 0" if "k = i" using less.prems(4) k(1) that j c(1,2) by blast
          ultimately show ?thesis using B [of k] B [of j] j1 ji j k(1) by auto
        qed
        show ?thesis using p [of "2 * j"] p [of "2 * j + 1"] by (simp add: heap_at_def)
      qed
    qed
    have par: "\<forall>j. lo \<le> j \<and> (mx = 2 * j \<or> mx = 2 * j + 1) \<longrightarrow> (\<forall>k. (k = 2 * mx \<or> k = 2 * mx + 1) \<and> k \<le> cnt \<longrightarrow> cmp (?B k) (?B j) \<le> 0)"
    proof (intro allI impI)
      fix j k assume a: "lo \<le> j \<and> (mx = 2 * j \<or> mx = 2 * j + 1)" "(k = 2 * mx \<or> k = 2 * mx + 1) \<and> k \<le> cnt"
      have ji: "j = i" using a(1) c(1) by presburger
      have "heap_at cmp cnt ?A mx" using less.prems(1,3) c(3) by auto
      then have "cmp (?A k) (?A mx) \<le> 0" using a(2) by (auto simp: heap_at_def)
      then show "cmp (?B k) (?B j) \<le> 0" using B [of k] B [of j] a(2) ji i1 c(3) by auto
    qed
    have lt: "cnt - mx < cnt - i" using c by linarith
    have lo: "lo \<le> mx" using less.prems(1) c(3) by simp
    note IH = less.hyps [OF lt lo c(2) ex par]
    have hf: "heapify array i cnt sz cmp m = heapify array mx cnt sz cmp m'"
      using False by (subst heapify.simps) (simp add: Let_def m'_def flip: mx_def)
    have ms: "arr_mset n ?B = arr_mset n ?A" if "cnt \<le> n" for n
      by (rule arr_mset_swap [of i n mx]) (use i1 c less.prems(2) that B in auto)
    have fr: "\<forall>j. 1 \<le> j \<and> (j < i \<or> cnt < j) \<longrightarrow> ?B j = ?A j" using B c less.prems(2) by auto
    have out: "m' x = m x" if "x < array \<or> array + cnt * sz \<le> x" for x
      unfolding m'_def by (rule swap_frame [OF _ _ _ _ _ that]) (use i1 c less.prems(2) in auto)
    show ?thesis unfolding hf using IH ms fr out c by auto
  qed
qed

subsection \<open>Sorting\<close>

lemma build_heap_ok:
  assumes "cmp_ok cmp"
  shows "k \<le> cnt \<Longrightarrow> \<forall>j. k < j \<longrightarrow> heap_at cmp cnt (elt array sz m) j \<Longrightarrow>
    (\<forall>j. 1 \<le> j \<longrightarrow> heap_at cmp cnt (elt array sz (build_heap k array cnt sz cmp m)) j) \<and>
    arr_mset cnt (elt array sz (build_heap k array cnt sz cmp m)) = arr_mset cnt (elt array sz m) \<and>
    (\<forall>x. x < array \<or> array + cnt * sz \<le> x \<longrightarrow> build_heap k array cnt sz cmp m x = m x)"
proof (induction k arbitrary: m)
  case 0 then show ?case by (simp add: Suc_le_eq)
next
  case (Suc k)
  have h: "(\<forall>j. Suc k \<le> j \<longrightarrow> heap_at cmp cnt (elt array sz (heapify array (Suc k) cnt sz cmp m)) j) \<and>
    (\<forall>j. 1 \<le> j \<and> (j < Suc k \<or> cnt < j) \<longrightarrow> elt array sz (heapify array (Suc k) cnt sz cmp m) j = elt array sz m j) \<and>
    (\<forall>n \<ge> cnt. arr_mset n (elt array sz (heapify array (Suc k) cnt sz cmp m)) = arr_mset n (elt array sz m)) \<and>
    (\<forall>x. x < array \<or> array + cnt * sz \<le> x \<longrightarrow> heapify array (Suc k) cnt sz cmp m x = m x)"
    by (rule heapify_ok [OF assms]) (use Suc.prems in auto)
  have k: "k \<le> cnt" "\<forall>j. k < j \<longrightarrow> heap_at cmp cnt (elt array sz (heapify array (Suc k) cnt sz cmp m)) j"
    using Suc.prems(1) h by (auto simp: Suc_le_eq)
  show ?case using Suc.IH [OF k] h by auto
qed

lemma root_max:
  assumes "cmp_ok cmp" "\<forall>j. 1 \<le> j \<longrightarrow> heap_at cmp cnt A j"
  shows "1 \<le> j \<Longrightarrow> j \<le> cnt \<Longrightarrow> cmp (A j) (A 1) \<le> 0"
proof (induction j rule: less_induct)
  case (less j)
  show ?case
  proof (cases "j = 1")
    case True then show ?thesis using cmp_refl [OF assms(1)] by simp
  next
    case False
    define p where "p = j div 2"
    have p: "j = 2 * p \<or> j = 2 * p + 1" "1 \<le> p" "p < j" using False less.prems(1) by (auto simp: p_def)
    have "cmp (A j) (A p) \<le> 0" using assms(2) p(1,2) less.prems(2) by (auto simp: heap_at_def)
    moreover have "cmp (A p) (A 1) \<le> 0" using less.IH [OF p(3,2)] p(3) less.prems(2) by simp
    ultimately show ?thesis by (rule cmp_trans [OF assms(1)])
  qed
qed

lemma set_arr_mset: "set_mset (arr_mset n A) = A ` {1..n}"
  by (simp add: arr_mset_def)

text \<open>The invariant of the second loop: a heap in front, the sorted rest behind, nothing in front exceeding the rest.\<close>

definition split_at :: "compare \<Rightarrow> nat \<Rightarrow> nat \<Rightarrow> (nat \<Rightarrow> byte list) \<Rightarrow> bool" where
  "split_at cmp cnt i A \<longleftrightarrow> (\<forall>j. 1 \<le> j \<longrightarrow> heap_at cmp i A j) \<and>
     (\<forall>a b. 1 \<le> a \<and> a \<le> b \<and> i < b \<and> b \<le> cnt \<longrightarrow> cmp (A a) (A b) \<le> 0)"

lemma sort_step:
  assumes "cmp_ok cmp" "split_at cmp cnt (Suc i) (elt array sz m)" "1 \<le> i" "Suc i \<le> cnt"
    "m' = heapify array 1 i sz cmp (do_swap array 1 (Suc i) sz m)"
  shows "split_at cmp cnt i (elt array sz m')" "arr_mset cnt (elt array sz m') = arr_mset cnt (elt array sz m)"
    "x < array \<or> array + cnt * sz \<le> x \<Longrightarrow> m' x = m x"
proof -
  let ?A = "elt array sz m"
  define s where "s = do_swap array 1 (Suc i) sz m"
  let ?B = "elt array sz s"
  let ?C = "elt array sz m'"
  have B: "?B j = (if j = 1 then ?A (Suc i) else if j = Suc i then ?A 1 else ?A j)" if "1 \<le> j" for j
    unfolding s_def using that assms(3) by (intro elt_swap) auto
  have hA: "\<forall>j. 1 \<le> j \<longrightarrow> heap_at cmp (Suc i) ?A j" using assms(2) by (simp add: split_at_def)
  have hB: "heap_at cmp i ?B j" if j: "1 \<le> j" "j \<noteq> 1" for j
  proof (cases "j \<le> i")
    case True
    have "heap_at cmp (Suc i) ?A j" using hA j by simp
    then show ?thesis using True j by (auto simp: heap_at_def B)
  next
    case False then show ?thesis by (simp add: heap_at_def)
  qed
  have H: "(\<forall>j. 1 \<le> j \<longrightarrow> heap_at cmp i ?C j) \<and> (\<forall>j. 1 \<le> j \<and> (j < 1 \<or> i < j) \<longrightarrow> ?C j = ?B j) \<and>
    (\<forall>n \<ge> i. arr_mset n ?C = arr_mset n ?B) \<and> (\<forall>x. x < array \<or> array + i * sz \<le> x \<longrightarrow> m' x = s x)"
    unfolding assms(5) s_def [symmetric] by (rule heapify_ok [OF assms(1)]) (use assms(3) hB in auto)
  have sB: "?C ` {1..i} = ?B ` {1..i}" using H set_arr_mset [of i ?C] set_arr_mset [of i ?B] by simp
  have front: "cmp (?C a) (?C b) \<le> 0" if ab: "1 \<le> a" "a \<le> i" "i < b" "b \<le> cnt" for a b
  proof -
    obtain k where k: "1 \<le> k" "k \<le> i" "?C a = ?B k" using sB ab(1,2) by (metis atLeastAtMost_iff image_iff)
    then obtain l where l: "1 \<le> l" "l \<le> Suc i" "?B k = ?A l" using B [of k] by (metis le_Suc_eq order_refl)
    have cb: "?C b = (if b = Suc i then ?A 1 else ?A b)" using H ab(3) B [of b] assms(3) by auto
    have "cmp (?A l) (?A 1) \<le> 0" by (rule root_max [OF assms(1) hA l(1,2)])
    moreover have "cmp (?A l) (?A b) \<le> 0" if "b \<noteq> Suc i" using assms(2) l ab(3,4) that unfolding split_at_def by auto
    ultimately show ?thesis using k(3) l(3) cb by auto
  qed
  have rest: "cmp (?C a) (?C b) \<le> 0" if ab: "i < a" "a \<le> b" "b \<le> cnt" for a b
  proof -
    have c: "?C j = (if j = Suc i then ?A 1 else ?A j)" if "i < j" for j using H that B [of j] assms(3) by auto
    have "cmp (?A 1) (?A b) \<le> 0" if "Suc i < b" using assms(2,3) ab(3) that unfolding split_at_def by auto
    moreover have "cmp (?A a) (?A b) \<le> 0" if "Suc i < a" using assms(2,3) ab that unfolding split_at_def by auto
    ultimately show ?thesis using c [OF ab(1)] c [of b] ab cmp_refl [OF assms(1)] by (cases "a = Suc i"; cases "b = Suc i") auto
  qed
  show "split_at cmp cnt i ?C" unfolding split_at_def
  proof (intro conjI allI impI)
    show "heap_at cmp i ?C j" if "1 \<le> j" for j using H that by blast
    show "cmp (?C a) (?C b) \<le> 0" if "1 \<le> a \<and> a \<le> b \<and> i < b \<and> b \<le> cnt" for a b
      using front [of a b] rest [of a b] that by (cases "a \<le> i") auto
  qed
  have "arr_mset cnt ?B = arr_mset cnt ?A" by (rule arr_mset_swap [of 1 cnt "Suc i"]) (use assms(3,4) B in auto)
  then show "arr_mset cnt ?C = arr_mset cnt ?A" using H assms(4) by simp
  show "m' x = m x" if x: "x < array \<or> array + cnt * sz \<le> x"
  proof -
    have "i * sz \<le> cnt * sz" using assms(4) by simp
    then have "x < array \<or> array + i * sz \<le> x" using x by linarith
    then have "m' x = s x" using H by blast
    also have "s x = m x" unfolding s_def by (rule swap_frame [OF _ _ _ _ _ x]) (use assms(3,4) in auto)
    finally show ?thesis .
  qed
qed

lemma sort_heap_ok:
  assumes "cmp_ok cmp"
  shows "split_at cmp cnt i (elt array sz m) \<Longrightarrow> i \<le> cnt \<Longrightarrow>
    (\<forall>a b. 1 \<le> a \<and> a \<le> b \<and> b \<le> cnt \<longrightarrow> cmp (elt array sz (sort_heap i array sz cmp m) a) (elt array sz (sort_heap i array sz cmp m) b) \<le> 0) \<and>
    arr_mset cnt (elt array sz (sort_heap i array sz cmp m)) = arr_mset cnt (elt array sz m) \<and>
    (\<forall>x. x < array \<or> array + cnt * sz \<le> x \<longrightarrow> sort_heap i array sz cmp m x = m x)"
proof (induction i arbitrary: m)
  case 0 then show ?case by (simp add: split_at_def)
next
  case (Suc i)
  show ?case
  proof (cases "1 \<le> i")
    case True
    define m' where "m' = heapify array 1 i sz cmp (do_swap array 1 (Suc i) sz m)"
    note st = sort_step [OF assms Suc.prems(1) True Suc.prems(2) m'_def]
    have "sort_heap (Suc i) array sz cmp m = sort_heap i array sz cmp m'" using True by (simp add: m'_def Let_def)
    then show ?thesis using Suc.IH [OF st(1)] st(2,3) Suc.prems(2) by auto
  next
    case False
    then have i: "i = 0" by simp
    have "cmp (elt array sz m a) (elt array sz m b) \<le> 0" if "1 \<le> a" "a \<le> b" "b \<le> cnt" for a b
      using Suc.prems(1) that i cmp_refl [OF assms] unfolding split_at_def by (cases "b = 1") auto
    then show ?thesis using i by simp
  qed
qed

text \<open>C35: \<open>sort\<close> (heap sort) on an array of \<open>cnt\<close> elements of \<open>sz\<close> bytes returns, with a comparison that is a total preorder.
  Afterwards the elements are in order, they are a permutation of the elements before, and no byte outside the array has
  changed.\<close>
theorem sort_correct:
  assumes "cmp_ok cmp" "array \<noteq> NULL" "sz > 0"
  shows "\<exists>m'. sort_mem array cnt sz cmp m = Some m' \<and>
    (\<forall>a b. 1 \<le> a \<and> a \<le> b \<and> b \<le> cnt \<longrightarrow> cmp (elt array sz m' a) (elt array sz m' b) \<le> 0) \<and>
    image_mset (elt array sz m') (mset_set {1..cnt}) = image_mset (elt array sz m) (mset_set {1..cnt}) \<and>
    (\<forall>x. x < array \<or> array + cnt * sz \<le> x \<longrightarrow> m' x = m x)"
proof -
  define h where "h = build_heap (cnt div 2) array cnt sz cmp m"
  have b: "(\<forall>j. 1 \<le> j \<longrightarrow> heap_at cmp cnt (elt array sz h) j) \<and> arr_mset cnt (elt array sz h) = arr_mset cnt (elt array sz m) \<and>
    (\<forall>x. x < array \<or> array + cnt * sz \<le> x \<longrightarrow> h x = m x)"
    unfolding h_def by (rule build_heap_ok [OF assms(1)]) (auto simp: heap_at_def)
  then have "split_at cmp cnt cnt (elt array sz h)" by (simp add: split_at_def)
  from sort_heap_ok [OF assms(1) this] b show ?thesis
    using assms(2,3) by (simp add: sort_mem_def Let_def arr_mset_def flip: h_def)
qed

definition byte_cmp :: compare where
  "byte_cmp x y = (if uint (hd x) < uint (hd y) then -1 else if uint (hd x) > uint (hd y) then 1 else 0)"

lemma byte_cmp_ok: "cmp_ok byte_cmp"
  by (auto simp: cmp_ok_def byte_cmp_def)

theorem sort_correct_witness:
  "\<exists>m'. sort_mem 100 5 1 byte_cmp (\<lambda>a. of_nat (7 * a)) = Some m' \<and>
    (\<forall>a b. 1 \<le> a \<and> a \<le> b \<and> b \<le> 5 \<longrightarrow> byte_cmp (elt 100 1 m' a) (elt 100 1 m' b) \<le> 0)"
  using sort_correct [OF byte_cmp_ok, of 100 1 5 "\<lambda>a. of_nat (7 * a)"] by auto

subsection \<open>Searching\<close>

lemma search_loop_ok:
  assumes "sz > 0" "\<And>i j. i < j \<Longrightarrow> j < cnt \<Longrightarrow> cmp key (block_at m (array + i * sz) sz) < 0 \<Longrightarrow> cmp key (block_at m (array + j * sz) sz) < 0"
    "\<And>i j. i < j \<Longrightarrow> j < cnt \<Longrightarrow> cmp key (block_at m (array + j * sz) sz) > 0 \<Longrightarrow> cmp key (block_at m (array + i * sz) sz) > 0"
  shows "lo \<le> hi \<Longrightarrow> hi \<le> cnt \<Longrightarrow>
    (\<exists>i. lo \<le> i \<and> i < hi \<and> cmp key (block_at m (array + i * sz) sz) = 0 \<and>
      search_loop key (array + lo * sz) (array + hi * sz) sz cmp m = Some (array + i * sz)) \<or>
    ((\<forall>i. lo \<le> i \<and> i < hi \<longrightarrow> cmp key (block_at m (array + i * sz) sz) \<noteq> 0) \<and>
      search_loop key (array + lo * sz) (array + hi * sz) sz cmp m = Some NULL)"
proof (induction "hi - lo" arbitrary: lo hi rule: less_induct)
  case less
  let ?c = "\<lambda>i. cmp key (block_at m (array + i * sz) sz)"
  show ?case
  proof (cases "lo < hi")
    case False then show ?thesis using less.prems by (subst search_loop.simps) (auto)
  next
    case True
    define mid where "mid = lo + (hi - lo) div 2"
    have mid: "lo \<le> mid" "mid < hi" using True by (auto simp: mid_def)
    have r: "(array + hi * sz - (array + lo * sz)) div sz = hi - lo" using assms(1) by (simp flip: diff_mult_distrib)
    have md: "array + lo * sz + (hi - lo) div 2 * sz = array + mid * sz" by (simp add: mid_def add_mult_distrib)
    have lt: "array + lo * sz < array + hi * sz" using True assms(1) by simp
    have u: "search_loop key (array + lo * sz) (array + hi * sz) sz cmp m =
      (if ?c mid < 0 then search_loop key (array + lo * sz) (array + mid * sz) sz cmp m
       else if ?c mid > 0 then search_loop key (array + (mid + 1) * sz) (array + hi * sz) sz cmp m else Some (array + mid * sz))"
      using lt assms(1) unfolding search_loop.simps [of key "array + lo * sz" "array + hi * sz" sz cmp m] Let_def r md
      by (simp add: add.commute add.left_commute)
    consider "?c mid < 0" | "?c mid > 0" | "?c mid = 0" by linarith
    then show ?thesis
    proof cases
      case 1
      have hi: "?c i \<noteq> 0" if "mid \<le> i" "i < hi" for i
        using assms(2) [of mid i] 1 that less.prems(2) by (cases "i = mid") auto
      have "mid - lo < hi - lo" "mid \<le> cnt" using mid less.prems by linarith+
      from less.hyps [OF this(1) mid(1) this(2)] show ?thesis
      proof (elim disjE exE conjE)
        fix i assume "lo \<le> i" "i < mid" "?c i = 0" "search_loop key (array + lo * sz) (array + mid * sz) sz cmp m = Some (array + i * sz)"
        then show ?thesis unfolding u using 1 mid(2) by (intro disjI1 exI [of _ i]) simp
      next
        assume a: "\<forall>i. lo \<le> i \<and> i < mid \<longrightarrow> ?c i \<noteq> 0" "search_loop key (array + lo * sz) (array + mid * sz) sz cmp m = Some NULL"
        then have "?c i \<noteq> 0" if "lo \<le> i" "i < hi" for i using hi that by (cases "i < mid") auto
        then show ?thesis unfolding u using 1 a(2) by simp
      qed
    next
      case 2
      have lo: "?c i \<noteq> 0" if "lo \<le> i" "i \<le> mid" for i
        using assms(3) [of i mid] 2 that mid less.prems(2) by (cases "i = mid") auto
      have "hi - (mid + 1) < hi - lo" "mid + 1 \<le> hi" using mid less.prems by linarith+
      from less.hyps [OF this less.prems(2)] show ?thesis
      proof (elim disjE exE conjE)
        fix i assume "mid + 1 \<le> i" "i < hi" "?c i = 0" "search_loop key (array + (mid + 1) * sz) (array + hi * sz) sz cmp m = Some (array + i * sz)"
        then show ?thesis unfolding u using 2 mid(1) by (intro disjI1 exI [of _ i]) simp
      next
        assume a: "\<forall>i. mid + 1 \<le> i \<and> i < hi \<longrightarrow> ?c i \<noteq> 0" "search_loop key (array + (mid + 1) * sz) (array + hi * sz) sz cmp m = Some NULL"
        then have "?c i \<noteq> 0" if "lo \<le> i" "i < hi" for i using lo that by (cases "i \<le> mid") auto
        then show ?thesis unfolding u using 2 a(2) by simp
      qed
    next
      case 3 then show ?thesis unfolding u using mid by auto
    qed
  qed
qed

text \<open>\<open>binary_search\<close> on an array that is ordered with respect to the key always returns: the address of an element equal to
  the key if there is one, and otherwise a null pointer.\<close>
theorem binary_search_correct:
  assumes "sz > 0" "array \<noteq> NULL"
    "\<And>i j. i < j \<Longrightarrow> j < cnt \<Longrightarrow> cmp key (block_at m (array + i * sz) sz) < 0 \<Longrightarrow> cmp key (block_at m (array + j * sz) sz) < 0"
    "\<And>i j. i < j \<Longrightarrow> j < cnt \<Longrightarrow> cmp key (block_at m (array + j * sz) sz) > 0 \<Longrightarrow> cmp key (block_at m (array + i * sz) sz) > 0"
  shows "\<exists>p. binary_search key array cnt sz cmp m = Some p \<and>
    (p = NULL \<longleftrightarrow> (\<forall>i < cnt. cmp key (block_at m (array + i * sz) sz) \<noteq> 0)) \<and>
    (p \<noteq> NULL \<longrightarrow> (\<exists>i < cnt. p = array + i * sz \<and> cmp key (block_at m p sz) = 0))"
proof -
  let ?c = "\<lambda>i. cmp key (block_at m (array + i * sz) sz)"
  have "(\<exists>i. 0 \<le> i \<and> i < cnt \<and> ?c i = 0 \<and> search_loop key (array + 0 * sz) (array + cnt * sz) sz cmp m = Some (array + i * sz)) \<or>
    ((\<forall>i. 0 \<le> i \<and> i < cnt \<longrightarrow> ?c i \<noteq> 0) \<and> search_loop key (array + 0 * sz) (array + cnt * sz) sz cmp m = Some NULL)"
    by (rule search_loop_ok [OF assms(1), where cnt = cnt]) (fact assms(3), fact assms(4), simp_all)
  then show ?thesis using assms(2) by (auto simp: binary_search_def mult.commute)
qed

lemma block_at_1: "block_at m a 1 = [m a]"
  by (simp add: block_at_def)

theorem binary_search_correct_witness:
  "\<exists>p. binary_search [9] 100 4 1 byte_cmp (\<lambda>a. if a \<le> 101 then 5 else 9) = Some p \<and> p \<noteq> NULL"
proof -
  define m :: memory where "m = (\<lambda>a. if a \<le> 101 then 5 else 9)"
  have c: "byte_cmp [9] (block_at m (100 + i * 1) 1) = (if i \<le> 1 then 1 else 0)" for i
    using block_at_1 [of m "100 + i"] by (simp add: byte_cmp_def m_def)
  have "\<not> (\<forall>i < 4. byte_cmp [9] (block_at m (100 + i * 1) 1) \<noteq> 0)" unfolding c by (auto intro: exI [of _ 2])
  moreover have "\<exists>p. binary_search [9] 100 4 1 byte_cmp m = Some p \<and>
      (p = NULL \<longleftrightarrow> (\<forall>i < 4. byte_cmp [9] (block_at m (100 + i * 1) 1) \<noteq> 0)) \<and>
      (p \<noteq> NULL \<longrightarrow> (\<exists>i < 4. p = 100 + i * 1 \<and> byte_cmp [9] (block_at m p 1) = 0))"
    by (rule binary_search_correct) (unfold c, auto split: if_splits)
  ultimately have "\<exists>p. binary_search [9] 100 4 1 byte_cmp m = Some p \<and> p \<noteq> NULL" by metis
  then show ?thesis by (simp only: m_def)
qed

subsection \<open>Parsing integers\<close>

definition dec_value :: "nat list \<Rightarrow> int" where
  "dec_value ds = foldl (\<lambda>v d. v * 10 + int d) 0 ds"

lemma dec_value_snoc [simp]: "dec_value (ds @ [d]) = dec_value ds * 10 + int d" "dec_value [] = 0"
  by (simp_all add: dec_value_def)

lemma dec_value_nonneg: "0 \<le> dec_value ds"
  by (induction ds rule: rev_induct) auto

lemma dec_value_prefix: "dec_value ds \<le> dec_value (ds @ es)"
proof (induction es rule: rev_induct)
  case (snoc e es)
  have "dec_value (ds @ es) \<le> dec_value (ds @ es) * 10 + int e" using dec_value_nonneg [of "ds @ es"] by linarith
  then show ?case using snoc by (simp flip: append_assoc)
qed simp

lemma digit_byte:
  assumes "d < 10"
  shows "sint (of_nat (48 + d) :: byte) = 48 + int d" "uint (of_nat (48 + d) :: byte) = 48 + int d"
proof -
  have "d \<in> set [0..<10]" using assms by simp
  moreover have "\<forall>d \<in> set [0..<10]. sint (of_nat (48 + d) :: byte) = 48 + int d \<and> uint (of_nat (48 + d) :: byte) = 48 + int d" by (simp add: upt_rec)
  ultimately show "sint (of_nat (48 + d) :: byte) = 48 + int d" "uint (of_nat (48 + d) :: byte) = 48 + int d" by blast+
qed

lemma digits_loop_ok:
  "\<forall>i < length es. m (s + i) = of_nat (48 + es ! i) \<and> es ! i < 10 \<Longrightarrow> \<not> isdigit (sint (m (s + length es))) \<Longrightarrow>
    dec_value (ds @ es) \<le> 2 ^ 31 \<Longrightarrow> digits_loop m s (- dec_value ds) = Some (- dec_value (ds @ es))"
proof (induction es arbitrary: s ds)
  case Nil then show ?case by (simp add: digits_loop.simps)
next
  case (Cons e es)
  have e: "sint (m s) = 48 + int e" "isdigit (sint (m s))" using Cons.prems(1) digit_byte(1) [of e] by (force simp: isdigit_def)+
  have bd: "dec_value (ds @ [e]) \<le> 2 ^ 31" using dec_value_prefix [of "ds @ [e]" es] Cons.prems(3) by simp
  have v: "- dec_value ds * 10 - (sint (m s) - 48) = - dec_value (ds @ [e])" using e(1) by simp
  have "in_s32 (- dec_value (ds @ [e]))" using bd dec_value_nonneg [of "ds @ [e]"] by (simp add: in_s32_def del: dec_value_snoc)
  then have "digits_loop m s (- dec_value ds) = digits_loop m (s + 1) (- dec_value (ds @ [e]))"
    using e(2) v by (subst digits_loop.simps) (simp del: dec_value_snoc)
  also have "\<dots> = Some (- dec_value ((ds @ [e]) @ es))"
  proof (rule Cons.IH)
    show "\<forall>i < length es. m (s + 1 + i) = of_nat (48 + es ! i) \<and> es ! i < 10" using Cons.prems(1) by fastforce
    show "\<not> isdigit (sint (m (s + 1 + length es)))" using Cons.prems(2) by simp
    show "dec_value ((ds @ [e]) @ es) \<le> 2 ^ 31" using Cons.prems(3) by simp
  qed
  finally show ?case by simp
qed

lemma skip_space_ok: "\<forall>i < k. isspace (uint (m (s + i))) \<Longrightarrow> \<not> isspace (uint (m (s + k))) \<Longrightarrow> skip_space m s = Some (s + k)"
proof (induction k arbitrary: s)
  case (Suc k)
  have "\<forall>i < k. isspace (uint (m (s + 1 + i)))" using Suc.prems(1) by fastforce
  then show ?case using Suc.IH [of "s + 1"] Suc.prems by (subst skip_space.simps) force
qed (simp add: skip_space.simps)

lemma atoi_value:
  assumes "s \<noteq> NULL" "\<forall>i < k. isspace (uint (m (s + i)))" "neg \<longrightarrow> m (s + k) = 45" "j = s + k + (if neg then 1 else 0)" "ds \<noteq> []"
    "\<forall>i < length ds. m (j + i) = of_nat (48 + ds ! i) \<and> ds ! i < 10" "\<not> isdigit (sint (m (j + length ds)))"
    "dec_value ds < 2 ^ 31 + (if neg then 1 else 0)"
  shows "atoi m s = Some (if neg then - dec_value ds else dec_value ds)"
proof -
  have d: "sint (m j) = 48 + int (ds ! 0)" "ds ! 0 < 10" using assms(5,6) digit_byte(1) [of "ds ! 0"] by force+
  have nj: "m j \<noteq> 43" "m j \<noteq> 45" "\<not> isspace (uint (m j))"
  proof -
    show "m j \<noteq> 43" "m j \<noteq> 45" using d(1) by auto
    have "m j = of_nat (48 + ds ! 0)" using assms(5,6) by force
    then have "uint (m j) = 48 + int (ds ! 0)" using digit_byte(2) [OF d(2)] by (simp only:)
    then show "\<not> isspace (uint (m j))" by (auto simp: isspace_def)
  qed
  have sp: "skip_space m s = Some (s + k)"
    by (rule skip_space_ok [OF assms(2)]) (use assms(3,4) nj(3) in \<open>cases neg; simp add: isspace_def\<close>)
  have dl: "digits_loop m j 0 = Some (- dec_value ds)"
    using digits_loop_ok [OF assms(6,7), of "[]"] assms(8) by (simp split: if_splits)
  have "in_s32 (dec_value ds)" if "\<not> neg" using assms(8) dec_value_nonneg [of ds] that by (simp add: in_s32_def)
  then show ?thesis using sp dl assms(1,3,4) nj by (cases neg) (simp_all add: atoi_def Let_def)
qed

text \<open>\<open>atoi\<close> reads what a decimal representation says: after white space and an optional minus sign, a sequence of digits
  that ends at a character that is no digit gives the number it denotes, for every value that fits an int, the smallest one
  included.\<close>
theorem atoi_decimal:
  assumes "s \<noteq> NULL" "\<forall>i < k. isspace (uint (m (s + i)))" "neg \<longrightarrow> m (s + k) = 45" "j = s + k + (if neg then 1 else 0)" "ds \<noteq> []"
    "\<forall>i < length ds. m (j + i) = of_nat (48 + ds ! i) \<and> ds ! i < 10" "\<not> isdigit (sint (m (j + length ds)))"
    "dec_value ds < 2 ^ 31 + (if neg then 1 else 0)"
  shows "atoi m s = Some (if neg then - dec_value ds else dec_value ds)"
  by (rule atoi_value [OF assms])

theorem atoi_decimal_witness:
  "atoi ((\<lambda>_. 0)(10 := 32, 11 := 45, 12 := 52, 13 := 50)) 10 = Some (- 42)"
proof -
  define m :: memory where "m = (\<lambda>_. 0)(10 := 32, 11 := 45, 12 := 52, 13 := 50)"
  have m: "m 10 = 32" "m 11 = 45" "m 12 = 52" "m 13 = 50" "m 14 = 0" by (simp_all add: m_def)
  have v: "dec_value [4, 2] = 42" by (simp add: dec_value_def)
  have ds: "\<forall>i < length [4, 2 :: nat]. m (12 + i) = of_nat (48 + [4, 2] ! i) \<and> [4, 2] ! i < (10 :: nat)"
  proof (intro allI impI)
    fix i assume "i < length [4, 2 :: nat]"
    then have "i = 0 \<or> i = 1" by auto
    then show "m (12 + i) = of_nat (48 + [4, 2] ! i) \<and> [4, 2] ! i < (10 :: nat)"     proof
      assume "i = 0" then show ?thesis using m(3) by simp
    next
      assume i: "i = 1"
      have "12 + i = 13" "[4, 2] ! i = (2 :: nat)" using i by simp_all
      then show ?thesis using m(4) by simp
    qed
  qed
  have sp: "\<forall>i < 1. isspace (uint (m (10 + i)))" using m(1) by (simp add: isspace_def)
  have en: "\<not> isdigit (sint (m (12 + length [4, 2 :: nat])))" using m(5) by (simp add: isdigit_def)
  have "atoi m 10 = Some (if True then - dec_value [4, 2] else dec_value [4, 2])"
    by (rule atoi_decimal [OF _ sp _ _ _ ds en]) (simp_all add: m(2) v)
  then show ?thesis unfolding v m_def by simp
qed

end
