(* ===== verification/Arith64.thy ===== *)
theory Arith64
  imports Prelude
begin

text \<open>
  lib/arithmetic.c: 64-bit division from the 64-by-32-bit division instruction.  Unsigned values are natural numbers with the
  wrap-around written out.  \<open>divl\<close> is the instruction: it traps if the divisor is zero or the quotient needs more than 32
  bits.
\<close>

subsection \<open>The routines\<close>

definition u64 :: "nat \<Rightarrow> nat" where
  "u64 x = x mod 2 ^ 64"

text \<open>The conversion of a signed to an unsigned 64-bit value.\<close>

definition to_u64 :: "int \<Rightarrow> nat" where
  "to_u64 x = nat (x mod 2 ^ 64)"

definition divl :: "nat \<Rightarrow> nat \<Rightarrow> nat option" where
  "divl n d = do {
     k_assert (d \<noteq> 0 \<and> n div d < 2 ^ 32);
     Some (n div d) }"

definition nlz_step :: "nat \<Rightarrow> nat \<Rightarrow> nat \<times> nat \<Rightarrow> nat \<times> nat" where
  "nlz_step bound k = (\<lambda>(n, x). if x \<le> bound then (n + k, u32 (x * 2 ^ k)) else (n, x))"

definition nlz :: "nat \<Rightarrow> nat" where
  "nlz x = (let
     (n, x) = nlz_step 0x0000FFFF 16 (0, x);
     (n, x) = nlz_step 0x00FFFFFF 8 (n, x);
     (n, x) = nlz_step 0x0FFFFFFF 4 (n, x);
     (n, x) = nlz_step 0x3FFFFFFF 2 (n, x)
   in if x \<le> 0x7FFFFFFF then n + 1 else n)"

definition udiv64 :: "nat \<Rightarrow> nat \<Rightarrow> nat option" where
  "udiv64 n d = (if d div 2 ^ 32 = 0 then do {
       let b = 2 ^ 32;
       let n1 = n div 2 ^ 32;
       let n0 = u32 n;
       let d0 = u32 d;
       k_assert (d0 \<noteq> 0);
       q \<leftarrow> divl (b * (n1 mod d0) + n0) d0;
       Some (u64 (q + b * (n1 div d0))) }
     else if n < d then Some 0
     else do {
       let d1 = d div 2 ^ 32;
       let s = nlz d1;
       q0 \<leftarrow> divl (n div 2) (u64 (d * 2 ^ s) div 2 ^ 32);
       let q = q0 div 2 ^ (31 - s);
       let q1 = u64 (q + 2 ^ 64 - 1);
       Some (if u64 (n + 2 ^ 64 - u64 (q1 * d)) < d then q1 else q) })"

definition umod64 :: "nat \<Rightarrow> nat \<Rightarrow> nat option" where
  "umod64 n d = do {
     q \<leftarrow> udiv64 n d;
     Some (u32 (u64 (n + 2 ^ 64 - u64 (d * q)))) }"

definition sdiv64 :: "int \<Rightarrow> int \<Rightarrow> int option" where
  "sdiv64 n d = do {
     let n_abs = (if n \<ge> 0 then to_u64 n else to_u64 (- n));
     let d_abs = (if d \<ge> 0 then to_u64 d else to_u64 (- d));
     q_abs \<leftarrow> udiv64 n_abs d_abs;
     Some (if (n < 0) = (d < 0) then s64 (int q_abs) else s64 (- s64 (int q_abs))) }"

definition smod64 :: "int \<Rightarrow> int \<Rightarrow> int option" where
  "smod64 n d = do {
     q \<leftarrow> sdiv64 n d;
     Some (s32 (s64 (n - d * q))) }"

definition divdi3 :: "int \<Rightarrow> int \<Rightarrow> int option" where
  "divdi3 n d = sdiv64 n d"

definition moddi3 :: "int \<Rightarrow> int \<Rightarrow> int option" where
  "moddi3 n d = smod64 n d"

definition udivdi3 :: "nat \<Rightarrow> nat \<Rightarrow> nat option" where
  "udivdi3 n d = udiv64 n d"

definition umoddi3 :: "nat \<Rightarrow> nat \<Rightarrow> nat option" where
  "umoddi3 n d = umod64 n d"

subsection \<open>Leading zeros\<close>

lemma u64_id [simp]: "x < 2 ^ 64 \<Longrightarrow> u64 x = x"
  by (simp add: u64_def)

text \<open>One step keeps \<open>x * 2 ^ n\<close> and moves \<open>x\<close> into the upper half of its range.\<close>

lemma nlz_step_ok:
  assumes "nlz_step bnd k (n, x) = (n', x')" "Suc bnd = 2 ^ (32 - k)" "2 * k \<le> 32" "x < 2 ^ 32" "2 ^ (32 - 2 * k) \<le> x" "x = y * 2 ^ n"
  shows "x' = y * 2 ^ n' \<and> 2 ^ (32 - k) \<le> x' \<and> x' < 2 ^ 32 \<and> (n' = n \<or> n' = n + k)"
proof (cases "x < 2 ^ (32 - k)")
  case True
  have p: "(2 :: nat) ^ 32 = 2 ^ (32 - k) * 2 ^ k" "(2 :: nat) ^ (32 - k) = 2 ^ (32 - 2 * k) * 2 ^ k"
    using assms(3) by (simp_all flip: power_add)
  have lt: "x * 2 ^ k < 2 ^ 32" using True unfolding p(1) by simp
  have "x \<le> bnd" using True assms(2) by linarith
  then have n: "n' = n + k" "x' = x * 2 ^ k" using assms(1) lt by (auto simp: nlz_step_def)
  have "2 ^ (32 - k) \<le> x'" unfolding n p(2) using assms(5) by simp
  then show ?thesis using n lt assms(6) by (simp add: power_add)
next
  case False
  then have "\<not> x \<le> bnd" using assms(2) by linarith
  then show ?thesis using assms(1,4,6) False by (auto simp: nlz_step_def)
qed

lemma nlz_ok:
  assumes "0 < x" "x < 2 ^ 32"
  shows "nlz x \<le> 31" "2 ^ 31 \<le> x * 2 ^ nlz x" "x * 2 ^ nlz x < 2 ^ 32"
proof -
  obtain n1 x1 where s1: "nlz_step 0x0000FFFF 16 (0, x) = (n1, x1)" by (metis surj_pair)
  have 1: "x1 = x * 2 ^ n1 \<and> 2 ^ (32 - 16) \<le> x1 \<and> x1 < 2 ^ 32 \<and> (n1 = 0 \<or> n1 = 0 + 16)"
    by (rule nlz_step_ok [OF s1]) (use assms in simp_all)
  obtain n2 x2 where s2: "nlz_step 0x00FFFFFF 8 (n1, x1) = (n2, x2)" by (metis surj_pair)
  have 2: "x2 = x * 2 ^ n2 \<and> 2 ^ (32 - 8) \<le> x2 \<and> x2 < 2 ^ 32 \<and> (n2 = n1 \<or> n2 = n1 + 8)"
    by (rule nlz_step_ok [OF s2]) (use 1 in simp_all)
  obtain n3 x3 where s3: "nlz_step 0x0FFFFFFF 4 (n2, x2) = (n3, x3)" by (metis surj_pair)
  have 3: "x3 = x * 2 ^ n3 \<and> 2 ^ (32 - 4) \<le> x3 \<and> x3 < 2 ^ 32 \<and> (n3 = n2 \<or> n3 = n2 + 4)"
    by (rule nlz_step_ok [OF s3]) (use 2 in simp_all)
  obtain n4 x4 where s4: "nlz_step 0x3FFFFFFF 2 (n3, x3) = (n4, x4)" by (metis surj_pair)
  have 4: "x4 = x * 2 ^ n4 \<and> 2 ^ (32 - 2) \<le> x4 \<and> x4 < 2 ^ 32 \<and> (n4 = n3 \<or> n4 = n3 + 2)"
    by (rule nlz_step_ok [OF s4]) (use 3 in simp_all)
  have e: "nlz x = (if x4 \<le> 0x7FFFFFFF then n4 + 1 else n4)" unfolding nlz_def s1 Let_def prod.case s2 s3 s4 ..
  have n4: "n4 \<le> 30" using 1 2 3 4 by linarith
  then show "nlz x \<le> 31" unfolding e by simp
  have "2 ^ 31 \<le> x * 2 ^ nlz x \<and> x * 2 ^ nlz x < 2 ^ 32"
  proof (cases "x4 \<le> 0x7FFFFFFF")
    case True
    have v: "x * 2 ^ nlz x = x4 * 2" using 4 True unfolding e by simp
    show ?thesis unfolding v using 4 True by simp
  next
    case False
    have v: "x * 2 ^ nlz x = x4" using 4 False unfolding e by simp
    show ?thesis unfolding v using 4 False by simp
  qed
  then show "2 ^ 31 \<le> x * 2 ^ nlz x" "x * 2 ^ nlz x < 2 ^ 32" by blast+
qed

subsection \<open>Division\<close>

lemma udiv64_small:
  assumes "n < 2 ^ 64" "0 < d" "d < 2 ^ 32"
  shows "udiv64 n d = Some (n div d)"
proof -
  let ?b = "2 ^ 32 :: nat"
  define n1 where "n1 = n div ?b"
  define n0 where "n0 = n mod ?b"
  have n: "n = ?b * n1 + n0" "n0 < ?b" by (simp_all add: n1_def n0_def)
  define r where "r = ?b * (n1 mod d) + n0"
  have r: "r < ?b * d"
  proof -
    have "n1 mod d + 1 \<le> d" using assms(2) by (simp add: Suc_le_eq)
    then have "?b * (n1 mod d + 1) \<le> ?b * d" by (rule mult_le_mono2)
    then show ?thesis using n(2) by (simp add: r_def)
  qed
  have "n = r + d * (?b * (n1 div d))"
  proof -
    have "n1 = n1 mod d + d * (n1 div d)" by simp
    then have "?b * n1 = ?b * (n1 mod d) + d * (?b * (n1 div d))" by (metis distrib_left mult.left_commute)
    then show ?thesis using n(1) by (simp add: r_def)
  qed
  then have q: "n div d = r div d + ?b * (n1 div d)" using assms(2) by simp
  have rd: "r div d < ?b" using r assms(2) by (simp add: less_mult_imp_div_less)
  have "n div d < 2 ^ 64" using assms(1) by (meson div_le_dividend le_less_trans)
  then have "u64 (r div d + ?b * (n1 div d)) = n div d" using q by simp
  moreover have "u32 n = n0" "u32 d = d" using assms(3) by (simp_all add: u32_def n0_def)
  ultimately show ?thesis using assms(2,3) rd by (simp add: udiv64_def divl_def Let_def n1_def r_def)
qed

text \<open>The estimate of the quotient is at most one too large (Hacker's Delight).\<close>

lemma estimate:
  fixes n d v s :: nat
  assumes "n < 2 ^ 64" "s \<le> 31" "2 ^ 31 \<le> v" "2 ^ 63 \<le> d * 2 ^ s" "v * 2 ^ (32 - s) \<le> d" "d < (v + 1) * 2 ^ (32 - s)"
  shows "n div d \<le> n div (v * 2 ^ (32 - s))" "n div (v * 2 ^ (32 - s)) \<le> n div d + 1"
proof -
  define D where "D = v * 2 ^ (32 - s)"
  define Q where "Q = n div d"
  have pw: "(2 :: nat) ^ k = 2 ^ i * 2 ^ j" if "k = i + j" for i j k using that by (simp add: power_add)
  have s: "(2 :: nat) ^ 64 = 2 ^ Suc s * 2 ^ (63 - s)" "(2 :: nat) ^ 63 = 2 ^ (63 - s) * 2 ^ s" "(2 :: nat) ^ (63 - s) = 2 ^ 31 * 2 ^ (32 - s)"
    by (rule pw, use assms(2) in simp)+
  have d: "2 ^ (63 - s) \<le> d" using assms(4) unfolding s(2) by simp
  have D: "2 ^ (63 - s) \<le> D" unfolding s(3) D_def using assms(3) by simp
  have D0: "0 < D" "0 < d" using D d by (meson less_le_trans zero_less_numeral zero_less_power)+
  show "n div d \<le> n div (v * 2 ^ (32 - s))" using assms(5) D0 by (intro div_le_mono2) (simp_all add: D_def)
  have Q: "Q < 2 ^ Suc s"
  proof -
    have "n < 2 ^ Suc s * d" using assms(1) d unfolding s(1) by (meson less_le_trans mult_le_mono2)
    then show ?thesis using D0(2) by (simp add: Q_def less_mult_imp_div_less)
  qed
  have dD: "d - D < 2 ^ (32 - s)" using assms(5,6) by (simp add: D_def)
  have le: "(Q + 1) * (d - D) \<le> D"
  proof (cases "s = 31")
    case True
    have "d - D \<le> 1" "2 ^ 32 \<le> D" "Q + 1 \<le> 2 ^ 32" using dD D Q True by simp_all
    then show ?thesis using mult_le_mono [of "Q + 1" "2 ^ 32" "d - D" 1] by linarith
  next
    case False
    have "(Q + 1) * (d - D) \<le> 2 ^ Suc s * 2 ^ (32 - s)" using Q dD by (intro mult_le_mono) simp_all
    also have "\<dots> = 2 ^ 33" using assms(2) by (simp flip: power_add power_Suc)
    also have "\<dots> \<le> (2 :: nat) ^ (63 - s)" using assms(2) False by (intro power_increasing) simp_all
    finally show ?thesis using D by linarith
  qed
  have "n < (Q + 1) * d" using dividend_less_times_div [OF D0(2), of n] by (simp add: Q_def mult.commute)
  also have "(Q + 1) * d = (Q + 1) * D + (Q + 1) * (d - D)" using assms(5) by (simp add: D_def flip: distrib_left)
  also have "\<dots> \<le> (Q + 2) * D" using le by simp
  finally have "n div D < Q + 2" using D0(1) by (simp add: less_mult_imp_div_less)
  then show "n div (v * 2 ^ (32 - s)) \<le> n div d + 1" by (simp add: D_def Q_def)
qed

lemma udiv64_large:
  assumes "n < 2 ^ 64" "2 ^ 32 \<le> d" "d < 2 ^ 64"
  shows "udiv64 n d = Some (n div d)"
proof (cases "n < d")
  case True then show ?thesis using assms(2) by (simp add: udiv64_def div_eq_0_iff)
next
  case False
  define d1 where "d1 = d div 2 ^ 32"
  define s where "s = nlz d1"
  define v where "v = d * 2 ^ s div 2 ^ 32"
  have d1: "0 < d1" "d1 < 2 ^ 32" using assms(2,3) by (simp_all add: d1_def div_greater_zero_iff less_mult_imp_div_less)
  note z = nlz_ok [OF d1]
  have dd: "d1 * 2 ^ 32 \<le> d" "d < (d1 + 1) * 2 ^ 32" using div_times_less_eq_dividend [of d "2 ^ 32"] dividend_less_div_times [of "2 ^ 32" d]
    by (simp_all add: d1_def)
  have b1: "2 ^ 63 \<le> d * 2 ^ s"
  proof -
    have "2 ^ 31 * 2 ^ 32 \<le> d1 * 2 ^ s * 2 ^ 32" using z(2) by (intro mult_le_mono1) (simp add: s_def)
    also have "\<dots> \<le> d * 2 ^ s" using mult_le_mono1 [OF dd(1), of "2 ^ s"] by (simp add: mult_ac)
    finally show ?thesis by simp
  qed
  have b2: "d * 2 ^ s < 2 ^ 64"
  proof -
    have "(d1 + 1) * 2 ^ s \<le> 2 ^ 32"
    proof -
      have "32 = 32 - s + s" using z(1) by (simp add: s_def)
      then have "(2 :: nat) ^ 32 = 2 ^ (32 - s) * 2 ^ s" using power_add [of "2 :: nat" "32 - s" s] by simp
      then have "d1 * 2 ^ s < 2 ^ (32 - s) * 2 ^ s" using z(3) by (simp add: s_def)
      then have "d1 < 2 ^ (32 - s)" by simp
      then have "(d1 + 1) * 2 ^ s \<le> 2 ^ (32 - s) * 2 ^ s" by (intro mult_le_mono1) simp
      then show ?thesis using z(1) by (simp add: s_def flip: power_add)
    qed
    then have "(d1 + 1) * 2 ^ s * 2 ^ 32 \<le> 2 ^ 32 * 2 ^ 32" by (rule mult_le_mono1)
    moreover have "d * 2 ^ s < (d1 + 1) * 2 ^ 32 * 2 ^ s" using dd(2) by simp
    moreover have "(d1 + 1) * 2 ^ 32 * 2 ^ s = (d1 + 1) * 2 ^ s * 2 ^ 32" by (simp only: mult.assoc mult.commute mult.left_commute)
    ultimately have "d * 2 ^ s < 2 ^ 32 * 2 ^ 32" by linarith
    then show ?thesis by simp
  qed
  have p32: "(2 :: nat) ^ 32 = 2 ^ (32 - s) * 2 ^ s" using power_add [of "2 :: nat" "32 - s" s] z(1) by (simp add: s_def)
  have vd: "v * 2 ^ 32 \<le> d * 2 ^ s" "d * 2 ^ s < (v + 1) * 2 ^ 32"
    using div_times_less_eq_dividend [of "d * 2 ^ s" "2 ^ 32"] dividend_less_div_times [of "2 ^ 32" "d * 2 ^ s"] by (simp_all add: v_def)
  have v1: "v * 2 ^ (32 - s) \<le> d" "d < (v + 1) * 2 ^ (32 - s)"
    using vd unfolding p32 mult.assoc [symmetric] by (simp_all only: mult_le_cancel2 mult_less_cancel2)
  have v2: "2 ^ 31 \<le> v" using b1 div_le_mono [of "2 ^ 63" "d * 2 ^ s" "2 ^ 32"] by (simp add: v_def)
  have est: "n div d \<le> n div (v * 2 ^ (32 - s))" "n div (v * 2 ^ (32 - s)) \<le> n div d + 1"
    using estimate [OF assms(1) z(1) [folded s_def] v2 b1 v1] by blast+
  define q where "q = n div (v * 2 ^ (32 - s))"
  have "32 - s = Suc (31 - s)" using z(1) by (simp add: s_def)
  then have "(2 :: nat) ^ (32 - s) = 2 * 2 ^ (31 - s)" by (simp only: power_Suc)
  then have q: "n div 2 div v div 2 ^ (31 - s) = q" by (simp add: q_def div_mult2_eq [symmetric] mult.assoc mult.left_commute)
  have dl: "divl (n div 2) v = Some (n div 2 div v)"
  proof -
    have "n div 2 < 2 ^ 32 * v" using assms(1) v2 by simp
    then show ?thesis using v2 by (simp add: divl_def less_mult_imp_div_less)
  qed
  have Q1: "1 \<le> n div d" using False assms(2) by (simp add: div_greater_zero_iff Suc_le_eq)
  have qn: "q \<le> n" by (simp add: q_def)
  have q1: "u64 (q + 2 ^ 64 - 1) = q - 1"
  proof -
    have "1 \<le> q" using Q1 est(1) by (simp add: q_def)
    then have e: "q + 2 ^ 64 - 1 = (q - 1) + 2 ^ 64" by linarith
    have "q - 1 < 2 ^ 64" using qn assms(1) by linarith
    then show ?thesis unfolding e u64_def mod_add_self2 by (rule mod_less)
  qed
  have le: "(q - 1) * d \<le> n"
  proof -
    have "(q - 1) * d \<le> n div d * d" using est(2) by (intro mult_le_mono1) (simp add: q_def)
    then show ?thesis using div_times_less_eq_dividend [of n d] by linarith
  qed
  have m: "u64 (n + 2 ^ 64 - u64 ((q - 1) * d)) = n - (q - 1) * d"
  proof -
    have "u64 ((q - 1) * d) = (q - 1) * d" using le assms(1) by simp
    moreover have e: "n + 2 ^ 64 - (q - 1) * d = (n - (q - 1) * d) + 2 ^ 64" using le by linarith
    moreover have "u64 ((n - (q - 1) * d) + 2 ^ 64) = n - (q - 1) * d"
      unfolding u64_def mod_add_self2 using assms(1) by (intro mod_less) linarith
    ultimately show ?thesis by (simp only:)
  qed
  have fin: "(if n - (q - 1) * d < d then q - 1 else q) = n div d"
  proof (cases "q = n div d")
    case True
    have "q = Suc (q - 1)" using Q1 True by simp
    then have "(q - 1) * d + d = q * d" by (metis add.commute mult_Suc)
    moreover have "q * d \<le> n" unfolding True by (rule div_times_less_eq_dividend)
    ultimately have "\<not> n - (q - 1) * d < d" by linarith
    then show ?thesis using True by simp
  next
    case F: False
    then have "q - 1 = n div d" "q = n div d + 1" using est by (simp_all add: q_def)
    moreover have "n - n div d * d < d" using assms(2) by (simp add: minus_div_mult_eq_mod)
    ultimately show ?thesis by simp
  qed
  have "d div 2 ^ 32 \<noteq> 0" using d1(1) by (simp add: d1_def)
  moreover have "u64 (d * 2 ^ s) div 2 ^ 32 = v" using b2 by (simp add: v_def)
  ultimately show ?thesis using False dl q q1 m fin unfolding udiv64_def Let_def d1_def [symmetric] s_def [symmetric]
    by (simp split: if_splits)
qed

lemma udiv64_eq:
  assumes "n < 2 ^ 64" "0 < d" "d < 2 ^ 64"
  shows "udiv64 n d = Some (n div d)"
  using udiv64_small [OF assms(1,2)] udiv64_large [OF assms(1) _ assms(3)] by (cases "d < 2 ^ 32") (simp_all add: not_less)

subsection \<open>Properties\<close>

text \<open>C38: the unsigned 64-bit division built from the 64-by-32-bit instruction is division: for every divisor other than zero
  no instruction traps and the quotient is exact.  For the divisor zero it traps.\<close>
theorem udiv64_correct:
  assumes "n < 2 ^ 64" "d < 2 ^ 64"
  shows "udivdi3 n d = (if d = 0 then None else Some (n div d))"
  using udiv64_eq [OF assms(1) _ assms(2)] by (simp add: udivdi3_def) (simp add: udiv64_def Let_def)

theorem udiv64_correct_witness:
  "udivdi3 0xFFFFFFFFFFFFFFFF 0x1234567890 = Some (0xFFFFFFFFFFFFFFFF div 0x1234567890) \<and> udivdi3 5 0 = None"
  using udiv64_correct [of "0xFFFFFFFFFFFFFFFF" "0x1234567890"] udiv64_correct [of 5 0] by simp

lemma sdiv_abs: "n sdiv d = (if (n < 0) = (d < 0) then int (nat \<bar>n\<bar> div nat \<bar>d\<bar>) else - int (nat \<bar>n\<bar> div nat \<bar>d\<bar>))" for n d :: int
proof -
  have q: "int (nat \<bar>n\<bar> div nat \<bar>d\<bar>) = \<bar>n\<bar> div \<bar>d\<bar>" by (simp add: zdiv_int)
  show ?thesis unfolding q signed_divide_int_def by (cases n "0 :: int" rule: linorder_cases; cases d "0 :: int" rule: linorder_cases) (auto simp: sgn_mult)
qed

lemma s64_neg_min: "s64 (- s64 (2 ^ 63)) = - (2 ^ 63)"
  by (simp add: s64_def)

text \<open>The signed 64-bit division truncates towards zero, for all operands except a zero divisor and the one overflowing
  case of the smallest number divided by minus one.\<close>
theorem sdiv64_correct:
  assumes "- (2 ^ 63) \<le> n" "n < 2 ^ 63" "- (2 ^ 63) \<le> d" "d < 2 ^ 63" "d \<noteq> 0" "\<not> (n = - (2 ^ 63) \<and> d = - 1)"
  shows "divdi3 n d = Some (n sdiv d)"
proof -
  define q where "q = nat \<bar>n\<bar> div nat \<bar>d\<bar>"
  have ab: "(if n \<ge> 0 then to_u64 n else to_u64 (- n)) = nat \<bar>n\<bar>" "(if d \<ge> 0 then to_u64 d else to_u64 (- d)) = nat \<bar>d\<bar>"
    using assms(1-4) by (simp_all add: to_u64_def)
  have u: "udiv64 (nat \<bar>n\<bar>) (nat \<bar>d\<bar>) = Some q"
    unfolding q_def using assms(1-5) by (intro udiv64_eq) (simp_all add: nat_less_iff)
  have n: "nat \<bar>n\<bar> \<le> 2 ^ 63" using assms(1,2) by (simp add: nat_le_iff)
  then have le: "q \<le> 2 ^ 63" unfolding q_def by (meson div_le_dividend le_trans)
  have e: "sdiv64 n d = Some (if (n < 0) = (d < 0) then s64 (int q) else s64 (- s64 (int q)))"
    unfolding sdiv64_def Let_def ab u by simp
  have lt: "q < 2 ^ 63" if same: "(n < 0) = (d < 0)"
  proof (rule ccontr)
    assume "\<not> q < 2 ^ 63"
    then have q: "q = 2 ^ 63" using le by simp
    have "nat \<bar>d\<bar> = 1"
    proof (rule ccontr)
      assume "nat \<bar>d\<bar> \<noteq> 1"
      then have "2 \<le> nat \<bar>d\<bar>" using assms(5) by simp
      then have "nat \<bar>n\<bar> div nat \<bar>d\<bar> \<le> nat \<bar>n\<bar> div 2" by (rule div_le_mono2 [rotated]) simp
      then show False using q n by (simp add: q_def)
    qed
    moreover from this have "nat \<bar>n\<bar> = 2 ^ 63" using q by (simp add: q_def)
    moreover have "\<bar>d\<bar> = int (nat \<bar>d\<bar>)" "\<bar>n\<bar> = int (nat \<bar>n\<bar>)" by simp_all
    ultimately have "\<bar>d\<bar> = 1" "\<bar>n\<bar> = 2 ^ 63" by simp_all
    then show False using assms(2,6) same by (auto simp: abs_if split: if_splits)
  qed
  show ?thesis
  proof (cases "(n < 0) = (d < 0)")
    case True
    then have "s64 (int q) = int q" using lt by (intro s64_id) (simp_all add: zless_nat_eq_int_zless [symmetric])
    then show ?thesis using e True sdiv_abs [of n d] by (simp add: divdi3_def q_def)
  next
    case False
    have "s64 (- s64 (int q)) = - int q"
    proof (cases "q = 2 ^ 63")
      case True then show ?thesis using s64_neg_min by simp
    next
      case F: False
      then have "q < 2 ^ 63" using le by simp
      then have "int q < int (2 ^ 63)" by (simp only: of_nat_less_iff)
      then have "int q < 2 ^ 63" by simp
      then have "s64 (int q) = int q" "s64 (- int q) = - int q" by (intro s64_id; simp)+
      then show ?thesis by simp
    qed
    then show ?thesis using e False sdiv_abs [of n d] by (simp add: divdi3_def q_def)
  qed
qed

theorem sdiv64_correct_witness: "divdi3 (- (2 ^ 63)) 3 = Some (- (2 ^ 63) sdiv 3)"
  by (rule sdiv64_correct) simp_all

text \<open>C39: the unsigned remainder keeps only 32 bits of its result.  It is the remainder if and only if that is below
  \<open>2\<^sup>3\<^sup>2\<close>.\<close>
theorem umod64_truncates:
  assumes "n < 2 ^ 64" "0 < d" "d < 2 ^ 64"
  shows "umoddi3 n d = Some (n mod d mod 2 ^ 32) \<and> (umoddi3 n d = Some (n mod d) \<longleftrightarrow> n mod d < 2 ^ 32)"
proof -
  have le: "d * (n div d) \<le> n" by simp
  then have "u64 (d * (n div d)) = d * (n div d)" using assms(1) by (intro u64_id) linarith
  moreover have e: "n + 2 ^ 64 - d * (n div d) = n mod d + 2 ^ 64" using minus_mult_div_eq_mod [of n d] le by linarith
  moreover have "u64 (n mod d + 2 ^ 64) = n mod d"
    unfolding u64_def mod_add_self2 using mod_less_divisor [OF assms(2), of n] assms(3) by (intro mod_less) linarith
  ultimately have t: "umoddi3 n d = Some (n mod d mod 2 ^ 32)"
    using udiv64_eq [OF assms] by (simp add: umoddi3_def umod64_def u32_def)
  moreover have "umoddi3 n d = Some (n mod d) \<longleftrightarrow> n mod d < 2 ^ 32"
    unfolding t using mod_less [of "n mod d" "2 ^ 32"] mod_less_divisor [of "2 ^ 32" "n mod d"]
    by (metis option.inject zero_less_numeral zero_less_power)
  ultimately show ?thesis by simp
qed

theorem umod64_truncates_witness: "umoddi3 0x300000005 0x500000000 = Some 5"
proof -
  have "umoddi3 0x300000005 0x500000000 = Some (0x300000005 mod 0x500000000 mod 2 ^ 32)"
    using umod64_truncates [of "0x300000005" "0x500000000"] by simp
  then show ?thesis by simp
qed

end
