(* ===== verification/Prng.thy ===== *)
theory Prng
  imports Bitmap
begin

text \<open>
  lib/random.c: a pseudo-random generator (RC4).  The array is a list of 256 bytes; indices and sums wrap at 8 bits.
\<close>

record rng =
  S :: "byte list"
  s_i :: byte
  s_j :: byte
  inited :: bool

definition swap_byte :: "nat \<Rightarrow> nat \<Rightarrow> byte list \<Rightarrow> byte list option" where
  "swap_byte a b s = do {
     k_assert (a < length s \<and> b < length s);
     Some (s[a := s ! b, b := s ! a]) }"

fun init_loop :: "nat \<Rightarrow> nat \<Rightarrow> byte \<Rightarrow> byte list \<Rightarrow> byte list \<Rightarrow> byte list option" where
  "init_loop 0 i j seedp s = Some s"
| "init_loop (Suc n) i j seedp s = do {
     k_assert (i < length s);
     let j = j + (s ! i + seedp ! (i mod 4));
     s \<leftarrow> swap_byte i (unat j) s;
     init_loop n (i + 1) j seedp s }"

definition init_bytes :: "byte list" where
  "init_bytes = map of_nat [0..<256]"

definition random_init :: "32 word \<Rightarrow> rng \<Rightarrow> rng option" where
  "random_init seed r = do {
     s \<leftarrow> init_loop 256 0 0 (word_bytes seed) init_bytes;
     Some (r\<lparr>S := s, s_i := 0, s_j := 0, inited := True\<rparr>) }"

fun bytes_loop :: "nat \<Rightarrow> addr \<Rightarrow> memory \<Rightarrow> rng \<Rightarrow> (memory \<times> rng) option" where
  "bytes_loop 0 buf m r = Some (m, r)"
| "bytes_loop (Suc n) buf m r = do {
     let i = s_i r + 1;
     k_assert (unat i < length (S r));
     let j = s_j r + S r ! unat i;
     s \<leftarrow> swap_byte (unat i) (unat j) (S r);
     let k = s ! unat i + s ! unat j;
     k_assert (unat k < length s);
     bytes_loop n (buf + 1) (m(buf := s ! unat k)) (r\<lparr>S := s, s_i := i, s_j := j\<rparr>) }"

definition random_bytes :: "addr \<Rightarrow> nat \<Rightarrow> memory \<Rightarrow> rng \<Rightarrow> (memory \<times> rng) option" where
  "random_bytes buf sz m r = do {
     r \<leftarrow> (if \<not> inited r then random_init 0 r else Some r);
     bytes_loop sz buf m r }"

text \<open>The variable of \<open>random_ulong\<close> lives at some address \<open>a\<close> of the stack.\<close>

definition random_ulong :: "addr \<Rightarrow> memory \<Rightarrow> rng \<Rightarrow> (32 word \<times> memory \<times> rng) option" where
  "random_ulong a m r = do {
     (m, r) \<leftarrow> random_bytes a 4 m r;
     Some (bytes_word (m a) (m (a + 1)) (m (a + 2)) (m (a + 3)), m, r) }"

subsection \<open>The invariant\<close>

text \<open>The array is a permutation of the 256 byte values.\<close>

definition perm256 :: "byte list \<Rightarrow> bool" where
  "perm256 s \<longleftrightarrow> length s = 256 \<and> distinct s"

lemma unat_byte [simp]: "unat (b :: byte) < 256"
  by (rule order_less_le_trans [OF unsigned_less]) simp

lemma swap_perm:
  assumes "perm256 s" "a < 256" "b < 256"
  shows "\<exists>s'. swap_byte a b s = Some s' \<and> perm256 s'"
proof -
  have "distinct (s[a := s ! b, b := s ! a])" using assms by (simp add: perm256_def distinct_swap)
  then show ?thesis using assms by (simp add: swap_byte_def perm256_def)
qed

lemma perm_start: "perm256 init_bytes"
proof -
  have "inj_on (of_nat :: nat \<Rightarrow> byte) {0..<256}"
    by (rule inj_on_inverseI [where g = unat]) (simp add: unat_of_nat take_bit_nat_eq_self)
  then have "distinct (map (of_nat :: nat \<Rightarrow> byte) [0..<256])" unfolding distinct_map set_upt by (intro conjI distinct_upt)
  then show ?thesis unfolding perm256_def init_bytes_def length_map length_upt by simp
qed

lemma init_loop_perm:
  "perm256 s \<Longrightarrow> i + n \<le> 256 \<Longrightarrow> \<exists>s'. init_loop n i j seedp s = Some s' \<and> perm256 s'"
proof (induction n arbitrary: i j s)
  case (Suc n)
  let ?j = "j + (s ! i + seedp ! (i mod 4))"
  obtain s' where s': "swap_byte i (unat ?j) s = Some s'" "perm256 s'" using swap_perm [OF Suc.prems(1), of i "unat ?j"] Suc.prems(2) by auto
  have "i < length s" using Suc.prems by (simp add: perm256_def)
  then show ?case using Suc.IH [OF s'(2), of "i + 1" ?j] s'(1) Suc.prems(2) by (simp add: Let_def)
qed simp

lemma bytes_loop_perm:
  "perm256 (S r) \<Longrightarrow> \<exists>m' r'. bytes_loop n buf m r = Some (m', r') \<and> perm256 (S r') \<and> inited r' = inited r \<and>
    (\<forall>x. x < buf \<or> buf + n \<le> x \<longrightarrow> m' x = m x)"
proof (induction n arbitrary: buf m r)
  case (Suc n)
  let ?i = "s_i r + 1"
  let ?j = "s_j r + S r ! unat ?i"
  have l: "length (S r) = 256" using Suc.prems by (simp add: perm256_def)
  obtain s where s: "swap_byte (unat ?i) (unat ?j) (S r) = Some s" "perm256 s" using swap_perm [OF Suc.prems, of "unat ?i" "unat ?j"] by auto
  let ?b = "s ! unat (s ! unat ?i + s ! unat ?j)"
  let ?r = "r\<lparr>S := s, s_i := ?i, s_j := ?j\<rparr>"
  have ls: "length s = 256" "perm256 (S ?r)" using s(2) by (simp_all add: perm256_def)
  obtain m' r' where IH: "bytes_loop n (buf + 1) (m(buf := ?b)) ?r = Some (m', r')" "perm256 (S r')" "inited r' = inited ?r"
    "\<forall>x. x < buf + 1 \<or> buf + 1 + n \<le> x \<longrightarrow> m' x = (m(buf := ?b)) x" using Suc.IH [OF ls(2), of "buf + 1" "m(buf := ?b)"] by blast
  have "bytes_loop (Suc n) buf m r = Some (m', r')" using IH(1) s(1) l ls(1) by (simp add: Let_def)
  then show ?case using IH by auto
qed simp

lemma random_bytes_ok:
  assumes "inited r \<longrightarrow> perm256 (S r)"
  shows "\<exists>m' r'. random_bytes buf n m r = Some (m', r') \<and> inited r' \<and> perm256 (S r') \<and> (\<forall>x. x < buf \<or> buf + n \<le> x \<longrightarrow> m' x = m x)"
proof (cases "inited r")
  case True then show ?thesis using bytes_loop_perm [of r n buf m] assms unfolding random_bytes_def by auto
next
  case False
  have "0 + 256 \<le> (256 :: nat)" by simp
  from init_loop_perm [OF perm_start this, of 0 "word_bytes 0"]
  obtain s where s: "init_loop 256 0 0 (word_bytes 0) init_bytes = Some s" "perm256 s" by blast
  let ?r = "r\<lparr>S := s, s_i := 0, s_j := 0, inited := True\<rparr>"
  have i: "random_init 0 r = Some ?r" unfolding random_init_def s(1) by simp
  have "perm256 (S ?r)" using s(2) by simp
  from bytes_loop_perm [OF this, of n buf m] show ?thesis using False i unfolding random_bytes_def by auto
qed

text \<open>C40: the generator never leaves its array.  From the initial state or any later one \<open>random_bytes\<close> returns, writes exactly
  the buffer, and leaves an initialised generator whose array is a permutation of the 256 byte values.\<close>
theorem random_bytes_permutation:
  assumes "inited r \<longrightarrow> perm256 (S r)"
  shows "\<exists>m' r'. random_bytes buf n m r = Some (m', r') \<and> inited r' \<and> set (S r') = UNIV \<and> length (S r') = 256 \<and>
    (\<forall>x. x < buf \<or> buf + n \<le> x \<longrightarrow> m' x = m x)"
proof -
  obtain m' r' where r: "random_bytes buf n m r = Some (m', r')" "inited r'" "perm256 (S r')" "\<forall>x. x < buf \<or> buf + n \<le> x \<longrightarrow> m' x = m x"
    using random_bytes_ok [OF assms, of buf n m] by blast
  have "card (set (S r')) = card (UNIV :: byte set)" using r(3) by (simp add: perm256_def distinct_card card_word)
  then have "set (S r') = UNIV" by (intro card_subset_eq) simp_all
  then show ?thesis using r by (simp add: perm256_def)
qed

theorem random_bytes_permutation_witness:
  "\<exists>m' r'. random_bytes 100 8 (\<lambda>_. 0) \<lparr>S = [], s_i = 0, s_j = 0, inited = False\<rparr> = Some (m', r') \<and> set (S r') = UNIV"
  using random_bytes_permutation [of "\<lparr>S = [], s_i = 0, s_j = 0, inited = False\<rparr>" 100 8 "\<lambda>_. 0"] by auto

end
