(* ===== verification/Intq.thy ===== *)
theory Intq
  imports Prelude
begin

text \<open>
  devices/intq.c and devices/input.c: the circular queue between interrupt handlers and threads.  A call that has to wait ends
  with the reason why; \<open>intq_getc_locked\<close> and \<open>intq_getc_woken\<close> are its continuations when the thread gets the lock and when it
  has been woken up.  After \<open>intq_getc_woken\<close> has released the lock, which may let other threads run, the loop starts again with
  \<open>intq_getc\<close>.  \<open>iq_step\<close> interleaves the calls of any number of threads with the keyboard interrupt.
\<close>

definition INTQ_BUFSIZE :: nat where "INTQ_BUFSIZE = 64"

record intq =
  qlock :: addr
  not_full :: addr
  not_empty :: addr
  buf :: "byte list"
  head :: nat
  tail :: nat

text \<open>The environment of a call: the running thread, whether it is an interrupt handler, and whether interrupts are off.\<close>

record ienv =
  cur :: addr
  in_irq :: bool
  intr_off :: bool

datatype 'a qresult = QDone 'a "addr list" | QLock | QWait

definition intq_init :: "intq \<Rightarrow> intq" where
  "intq_init q = q\<lparr>qlock := NULL, not_full := NULL, not_empty := NULL, head := 0, tail := 0\<rparr>"

definition next_pos :: "nat \<Rightarrow> nat" where
  "next_pos pos = (pos + 1) mod INTQ_BUFSIZE"

definition intq_empty :: "ienv \<Rightarrow> intq \<Rightarrow> bool option" where
  "intq_empty e q = do { k_assert (intr_off e); Some (head q = tail q) }"

definition intq_full :: "ienv \<Rightarrow> intq \<Rightarrow> bool option" where
  "intq_full e q = do { k_assert (intr_off e); Some (next_pos (head q) = tail q) }"

text \<open>\<open>wait\<close> and \<open>signal\<close>; the first argument says whether the waiter is \<open>not_empty\<close>.\<close>

definition intq_wait :: "bool \<Rightarrow> ienv \<Rightarrow> intq \<Rightarrow> intq option" where
  "intq_wait on_empty e q = do {
     k_assert (\<not> in_irq e);
     k_assert (intr_off e);
     em \<leftarrow> intq_empty e q;
     fl \<leftarrow> intq_full e q;
     k_assert (on_empty \<and> em \<or> \<not> on_empty \<and> fl);
     Some (if on_empty then q\<lparr>not_empty := cur e\<rparr> else q\<lparr>not_full := cur e\<rparr>) }"

definition intq_signal :: "bool \<Rightarrow> ienv \<Rightarrow> intq \<Rightarrow> (addr list \<times> intq) option" where
  "intq_signal on_empty e q = do {
     k_assert (intr_off e);
     em \<leftarrow> intq_empty e q;
     fl \<leftarrow> intq_full e q;
     k_assert (on_empty \<and> \<not> em \<or> \<not> on_empty \<and> \<not> fl);
     let waiter = (if on_empty then not_empty q else not_full q);
     Some (if waiter \<noteq> NULL
           then ([waiter], if on_empty then q\<lparr>not_empty := NULL\<rparr> else q\<lparr>not_full := NULL\<rparr>)
           else ([], q)) }"

subsection \<open>Getting a byte\<close>

definition intq_getc_locked :: "ienv \<Rightarrow> intq \<Rightarrow> (byte qresult \<times> intq) option" where
  "intq_getc_locked e q = do {
     q \<leftarrow> intq_wait True e (q\<lparr>qlock := cur e\<rparr>);
     Some (QWait, q) }"

definition intq_getc :: "ienv \<Rightarrow> intq \<Rightarrow> (byte qresult \<times> intq) option" where
  "intq_getc e q = do {
     k_assert (intr_off e);
     em \<leftarrow> intq_empty e q;
     if em then do {
       k_assert (\<not> in_irq e);
       k_assert (qlock q \<noteq> cur e);
       if qlock q = NULL then intq_getc_locked e q else Some (QLock, q) }
     else do {
       k_assert (tail q < length (buf q));
       let b = buf q ! tail q;
       let q = q\<lparr>tail := next_pos (tail q)\<rparr>;
       (woken, q) \<leftarrow> intq_signal False e q;
       Some (QDone b woken, q) } }"

definition intq_getc_woken :: "ienv \<Rightarrow> intq \<Rightarrow> intq option" where
  "intq_getc_woken e q = do {
     k_assert (qlock q = cur e);
     Some (q\<lparr>qlock := NULL\<rparr>) }"

subsection \<open>Putting a byte\<close>

definition intq_putc_locked :: "ienv \<Rightarrow> intq \<Rightarrow> (unit qresult \<times> intq) option" where
  "intq_putc_locked e q = do {
     q \<leftarrow> intq_wait False e (q\<lparr>qlock := cur e\<rparr>);
     Some (QWait, q) }"

definition intq_putc :: "byte \<Rightarrow> ienv \<Rightarrow> intq \<Rightarrow> (unit qresult \<times> intq) option" where
  "intq_putc b e q = do {
     k_assert (intr_off e);
     fl \<leftarrow> intq_full e q;
     if fl then do {
       k_assert (\<not> in_irq e);
       k_assert (qlock q \<noteq> cur e);
       if qlock q = NULL then intq_putc_locked e q else Some (QLock, q) }
     else do {
       k_assert (head q < length (buf q));
       let q = q\<lparr>buf := (buf q)[head q := b], head := next_pos (head q)\<rparr>;
       (woken, q) \<leftarrow> intq_signal True e q;
       Some (QDone () woken, q) } }"

definition intq_putc_woken :: "ienv \<Rightarrow> intq \<Rightarrow> intq option" where
  "intq_putc_woken e q = do {
     k_assert (qlock q = cur e);
     Some (q\<lparr>qlock := NULL\<rparr>) }"

subsection \<open>The input buffer\<close>

text \<open>\<open>input_putc\<close> and \<open>input_getc\<close> also tell the serial driver that the buffer has changed; that call, to a driver that is not
  modelled, is left out.\<close>

definition input_init :: "intq \<Rightarrow> intq" where
  "input_init q = intq_init q"

definition input_putc :: "byte \<Rightarrow> ienv \<Rightarrow> intq \<Rightarrow> (unit qresult \<times> intq) option" where
  "input_putc key e q = do {
     k_assert (intr_off e);
     fl \<leftarrow> intq_full e q;
     k_assert (\<not> fl);
     intq_putc key e q }"

definition input_getc :: "ienv \<Rightarrow> intq \<Rightarrow> (byte qresult \<times> intq) option" where
  "input_getc e q = intq_getc (e\<lparr>intr_off := True\<rparr>) q"

definition input_full :: "ienv \<Rightarrow> intq \<Rightarrow> bool option" where
  "input_full e q = do { k_assert (intr_off e); intq_full e q }"

subsection \<open>Interleaving\<close>

datatype reader = Idle | LockGet | WaitGet | WokenGet | AgainGet

record iq_state =
  iq :: intq
  readers :: "addr \<Rightarrow> reader"
  typed :: "byte list"
  received :: "byte list"

datatype iq_event = Getc addr | Run addr | Key byte

definition irq_env :: ienv where
  "irq_env = \<lparr>cur = NULL, in_irq = True, intr_off = True\<rparr>"

definition thread_env :: "addr \<Rightarrow> ienv" where
  "thread_env t = \<lparr>cur = t, in_irq = False, intr_off = True\<rparr>"

text \<open>\<open>thread_unblock\<close> makes a waiting thread ready to run.\<close>

definition wake :: "addr list \<Rightarrow> iq_state \<Rightarrow> iq_state" where
  "wake ts s = s\<lparr>readers := (\<lambda>t. if t \<in> set ts \<and> readers s t = WaitGet then WokenGet else readers s t)\<rparr>"

definition after_getc :: "addr \<Rightarrow> (byte qresult \<times> intq) \<Rightarrow> iq_state \<Rightarrow> iq_state" where
  "after_getc t r s = (case r of
     (QDone b ws, q) \<Rightarrow> wake ws (s\<lparr>iq := q, readers := (readers s)(t := Idle), received := received s @ [b]\<rparr>)
   | (QLock, q) \<Rightarrow> s\<lparr>iq := q, readers := (readers s)(t := LockGet)\<rparr>
   | (QWait, q) \<Rightarrow> s\<lparr>iq := q, readers := (readers s)(t := WaitGet)\<rparr>)"

text \<open>A thread that is not able to run does nothing.  The keyboard handler drops the key if the buffer is full.\<close>

definition iq_step :: "iq_event \<Rightarrow> iq_state \<Rightarrow> iq_state option" where
  "iq_step ev s = (case ev of
     Getc t \<Rightarrow> if readers s t = Idle then do { r \<leftarrow> input_getc (thread_env t) (iq s); Some (after_getc t r s) } else Some s
   | Run t \<Rightarrow> (case readers s t of
       LockGet \<Rightarrow> if qlock (iq s) = NULL then do { r \<leftarrow> intq_getc_locked (thread_env t) (iq s); Some (after_getc t r s) } else Some s
     | WokenGet \<Rightarrow> do { q \<leftarrow> intq_getc_woken (thread_env t) (iq s); Some (s\<lparr>iq := q, readers := (readers s)(t := AgainGet)\<rparr>) }
     | AgainGet \<Rightarrow> do { r \<leftarrow> intq_getc (thread_env t) (iq s); Some (after_getc t r s) }
     | _ \<Rightarrow> Some s)
   | Key b \<Rightarrow> do {
       fl \<leftarrow> input_full irq_env (iq s);
       if fl then Some s else do {
         r \<leftarrow> input_putc b irq_env (iq s);
         case r of (QDone u ws, q) \<Rightarrow> Some (wake ws (s\<lparr>iq := q, typed := typed s @ [b]\<rparr>)) | _ \<Rightarrow> None } })"

fun iq_run :: "iq_event list \<Rightarrow> iq_state \<Rightarrow> iq_state option" where
  "iq_run [] s = Some s"
| "iq_run (ev # evs) s = do { s \<leftarrow> iq_step ev s; iq_run evs s }"

definition iq_start :: iq_state where
  "iq_start = \<lparr>iq = input_init \<lparr>qlock = 1, not_full = 1, not_empty = 1, buf = replicate 64 0, head = 5, tail = 9\<rparr>,
     readers = (\<lambda>_. Idle), typed = [], received = []\<rparr>"

subsection \<open>The contents of the buffer\<close>

definition count :: "intq \<Rightarrow> nat" where
  "count q = (head q + INTQ_BUFSIZE - tail q) mod INTQ_BUFSIZE"

definition contents :: "intq \<Rightarrow> byte list" where
  "contents q = map (\<lambda>i. buf q ! ((tail q + i) mod INTQ_BUFSIZE)) [0..<count q]"

definition q_ok :: "intq \<Rightarrow> bool" where
  "q_ok q \<longleftrightarrow> length (buf q) = INTQ_BUFSIZE \<and> head q < INTQ_BUFSIZE \<and> tail q < INTQ_BUFSIZE"

lemma mod_wrap: "(x :: nat) < 2 * B \<Longrightarrow> x mod B = (if x < B then x else x - B)"
  by (simp add: le_mod_geq)

lemma count_cases:
  assumes "q_ok q"
  shows "count q = (if tail q \<le> head q then head q - tail q else head q + INTQ_BUFSIZE - tail q)"
proof (cases "tail q \<le> head q")
  case True
  then have e: "head q + INTQ_BUFSIZE - tail q = (head q - tail q) + INTQ_BUFSIZE" by simp
  have l: "head q - tail q < INTQ_BUFSIZE" using assms by (simp add: q_ok_def less_imp_diff_less)
  show ?thesis using True by (simp only: count_def e mod_add_self2 mod_less [OF l] if_True)
next
  case False
  then have l: "head q + INTQ_BUFSIZE - tail q < INTQ_BUFSIZE" using assms unfolding q_ok_def by linarith
  show ?thesis using False by (simp only: count_def mod_less [OF l] if_False)
qed

lemma empty_iff: "q_ok q \<Longrightarrow> head q = tail q \<longleftrightarrow> contents q = []"
  by (auto simp: contents_def count_cases q_ok_def split: if_splits)

lemma next_pos_lt [simp]: "next_pos p < INTQ_BUFSIZE"
  by (simp add: next_pos_def INTQ_BUFSIZE_def)

lemma next_pos_cases: "p < INTQ_BUFSIZE \<Longrightarrow> next_pos p = (if p = INTQ_BUFSIZE - 1 then 0 else p + 1)"
  by (auto simp: next_pos_def INTQ_BUFSIZE_def)

text \<open>Taking the byte at the tail removes the first element, storing a byte at the head appends one.\<close>

lemma contents_get:
  assumes "q_ok q" "head q \<noteq> tail q"
  shows "contents q = buf q ! tail q # contents (q\<lparr>tail := next_pos (tail q)\<rparr>)" "q_ok (q\<lparr>tail := next_pos (tail q)\<rparr>)"
proof -
  let ?q = "q\<lparr>tail := next_pos (tail q)\<rparr>"
  show ok: "q_ok ?q" using assms(1) by (simp add: q_ok_def)
  have c: "count q = Suc (count ?q)"
    using assms(2) unfolding count_cases [OF assms(1)] count_cases [OF ok]
    using assms(1) next_pos_cases [of "tail q"] by (auto simp: q_ok_def INTQ_BUFSIZE_def)
  have m: "(tail q + Suc i) mod INTQ_BUFSIZE = (tail ?q + i) mod INTQ_BUFSIZE" for i
    by (simp add: next_pos_def mod_add_left_eq)
  have t: "tail q mod INTQ_BUFSIZE = tail q" using assms(1) by (simp add: q_ok_def)
  have "contents q = map (\<lambda>i. buf q ! ((tail q + i) mod INTQ_BUFSIZE)) (0 # map Suc [0..<count ?q])"
    by (simp only: contents_def c map_Suc_upt upt_conv_Cons [of 0 "Suc _", OF zero_less_Suc])
  then show "contents q = buf q ! tail q # contents ?q" by (simp add: contents_def t m o_def del: add_Suc_right)
qed

lemma contents_put:
  assumes "q_ok q" "next_pos (head q) \<noteq> tail q"
  shows "contents (q\<lparr>buf := (buf q)[head q := b], head := next_pos (head q)\<rparr>) = contents q @ [b]"
    "q_ok (q\<lparr>buf := (buf q)[head q := b], head := next_pos (head q)\<rparr>)"
proof -
  let ?q = "q\<lparr>buf := (buf q)[head q := b], head := next_pos (head q)\<rparr>"
  show ok: "q_ok ?q" using assms(1) by (simp add: q_ok_def)
  have c: "count ?q = Suc (count q)"
    using assms(2) unfolding count_cases [OF assms(1)] count_cases [OF ok]
    using assms(1) next_pos_cases [of "head q"] by (auto simp: q_ok_def INTQ_BUFSIZE_def split: if_splits)
  have h: "(tail q + count q) mod INTQ_BUFSIZE = head q"
    unfolding count_cases [OF assms(1)] using assms(1) by (auto simp: q_ok_def)
  have o: "head q \<noteq> (tail q + i) mod INTQ_BUFSIZE" if "i < count q" for i
  proof -
    have "tail q + i < 2 * INTQ_BUFSIZE" "i < (if tail q \<le> head q then head q - tail q else head q + INTQ_BUFSIZE - tail q)"
      using that assms(1) unfolding count_cases [OF assms(1)] q_ok_def by (auto split: if_splits)
    then show ?thesis using assms(1) unfolding q_ok_def by (simp add: mod_wrap split: if_splits) linarith+
  qed
  have "contents ?q = map (\<lambda>i. (buf q)[head q := b] ! ((tail q + i) mod INTQ_BUFSIZE)) [0..<count q] @ [(buf q)[head q := b] ! head q]"
    by (simp add: contents_def c h)
  also have "map (\<lambda>i. (buf q)[head q := b] ! ((tail q + i) mod INTQ_BUFSIZE)) [0..<count q] = contents q"
    unfolding contents_def by (rule map_cong) (simp_all add: o)
  finally show "contents ?q = contents q @ [b]" using assms(1) by (simp add: q_ok_def)
qed


lemma count_bound: "q_ok q \<Longrightarrow> length (contents q) < INTQ_BUFSIZE"
  by (simp add: contents_def count_def INTQ_BUFSIZE_def)

lemma contents_cong [simp]:
  "contents (q\<lparr>qlock := x\<rparr>) = contents q" "contents (q\<lparr>not_empty := x\<rparr>) = contents q" "contents (q\<lparr>not_full := x\<rparr>) = contents q"
  by (simp_all add: contents_def count_def)

lemma q_ok_cong [simp]:
  "q_ok (q\<lparr>qlock := x\<rparr>) = q_ok q" "q_ok (q\<lparr>not_empty := x\<rparr>) = q_ok q" "q_ok (q\<lparr>not_full := x\<rparr>) = q_ok q"
  by (simp_all add: q_ok_def)

lemmas env_simps = thread_env_def irq_env_def intq_empty_def intq_full_def

subsection \<open>One reader\<close>

definition served :: "addr \<Rightarrow> iq_event set" where
  "served r = {Getc r, Run r} \<union> range Key"

definition one_reader :: "addr \<Rightarrow> iq_state \<Rightarrow> bool" where
  "one_reader r s \<longleftrightarrow> q_ok (iq s) \<and> not_full (iq s) = NULL \<and> typed s = received s @ contents (iq s) \<and>
     (case readers s r of
        Idle \<Rightarrow> qlock (iq s) = NULL \<and> not_empty (iq s) = NULL
      | LockGet \<Rightarrow> False
      | WaitGet \<Rightarrow> qlock (iq s) = r \<and> not_empty (iq s) = r \<and> contents (iq s) = []
      | WokenGet \<Rightarrow> qlock (iq s) = r \<and> not_empty (iq s) = NULL \<and> contents (iq s) \<noteq> []
      | AgainGet \<Rightarrow> qlock (iq s) = NULL \<and> not_empty (iq s) = NULL \<and> contents (iq s) \<noteq> [])"

text \<open>A call of \<open>intq_getc\<close> with the lock free waits on an empty queue and otherwise takes the first byte.\<close>

lemma intq_getc_empty:
  "\<lbrakk>r \<noteq> NULL; head q = tail q; qlock q = NULL; q_ok q\<rbrakk> \<Longrightarrow>
    intq_getc (thread_env r) q = Some (QWait, q\<lparr>qlock := r, not_empty := r\<rparr>)"
  by (simp add: intq_getc_def intq_getc_locked_def intq_wait_def env_simps k_assert_def)

lemma intq_getc_byte:
  assumes "q_ok q" "contents q = b # bs" "not_full q = NULL"
  shows "intq_getc (thread_env r) q = Some (QDone b [], q\<lparr>tail := next_pos (tail q)\<rparr>)"
    "contents (q\<lparr>tail := next_pos (tail q)\<rparr>) = bs" "q_ok (q\<lparr>tail := next_pos (tail q)\<rparr>)"
proof -
  have ne: "head q \<noteq> tail q" using assms(1,2) empty_iff by force
  note g = contents_get [OF assms(1) ne]
  then show "contents (q\<lparr>tail := next_pos (tail q)\<rparr>) = bs" "q_ok (q\<lparr>tail := next_pos (tail q)\<rparr>)" using assms(2) by simp_all
  have "next_pos (head q) \<noteq> next_pos (tail q)"
    using ne assms(1) by (auto simp: next_pos_cases q_ok_def split: if_splits)
  then show "intq_getc (thread_env r) q = Some (QDone b [], q\<lparr>tail := next_pos (tail q)\<rparr>)"
    using ne assms g(1) by (auto simp: intq_getc_def intq_signal_def env_simps k_assert_def q_ok_def Let_def)
qed

lemma one_reader_call:
  assumes "r \<noteq> NULL" "q_ok q" "qlock q = NULL" "not_full q = NULL" "not_empty q = NULL" "typed s = received s @ contents q"
  shows "\<exists>x. intq_getc (thread_env r) q = Some x \<and> one_reader r (after_getc r x s)"
proof (cases "contents q")
  case Nil
  then have "intq_getc (thread_env r) q = Some (QWait, q\<lparr>qlock := r, not_empty := r\<rparr>)"
    using assms empty_iff [OF assms(2)] by (intro intq_getc_empty) simp_all
  then show ?thesis using assms Nil by (simp add: one_reader_def after_getc_def)
next
  case (Cons b bs)
  note g = intq_getc_byte [OF assms(2) Cons assms(4)]
  show ?thesis using g assms Cons by (simp add: one_reader_def after_getc_def wake_def)
qed

lemma one_reader_key:
  assumes "r \<noteq> NULL" "one_reader r s"
  shows "\<exists>s'. iq_step (Key b) s = Some s' \<and> one_reader r s'"
proof (cases "next_pos (head (iq s)) = tail (iq s)")
  case True then show ?thesis using assms(2) by (simp add: iq_step_def input_full_def env_simps k_assert_def)
next
  case False
  have ok: "q_ok (iq s)" using assms(2) by (simp add: one_reader_def)
  let ?q = "(iq s)\<lparr>buf := (buf (iq s))[head (iq s) := b], head := next_pos (head (iq s))\<rparr>"
  note c = contents_put [OF ok False, of b]
  have ne: "head ?q \<noteq> tail ?q" using c empty_iff [of ?q] by simp
  have "input_putc b irq_env (iq s) = Some (QDone () (if not_empty (iq s) = NULL then [] else [not_empty (iq s)]), ?q\<lparr>not_empty := NULL\<rparr>)"
    using False ok ne by (auto simp: input_putc_def intq_putc_def intq_signal_def env_simps k_assert_def Let_def q_ok_def)
  then show ?thesis using assms False c
    by (auto simp: iq_step_def input_full_def env_simps k_assert_def one_reader_def wake_def split: reader.splits if_splits)
qed

lemma one_reader_step:
  assumes "r \<noteq> NULL" "one_reader r s" "ev \<in> served r"
  shows "\<exists>s'. iq_step ev s = Some s' \<and> one_reader r s'"
proof -
  have i: "q_ok (iq s)" "not_full (iq s) = NULL" "typed s = received s @ contents (iq s)" using assms(2) by (simp_all add: one_reader_def)
  consider b where "ev = Key b" | "ev = Getc r" | "ev = Run r" using assms(3) by (auto simp: served_def)
  then show ?thesis
  proof cases
    case 1 then show ?thesis using one_reader_key [OF assms(1,2)] by simp
  next
    case 2
    show ?thesis
    proof (cases "readers s r = Idle")
      case True
      then have "qlock (iq s) = NULL" "not_empty (iq s) = NULL" using assms(2) by (simp_all add: one_reader_def)
      then obtain x where x: "intq_getc (thread_env r) (iq s) = Some x" "one_reader r (after_getc r x s)"
        using one_reader_call [OF assms(1) i(1) _ i(2) _ i(3)] by blast
      then show ?thesis using 2 True by (simp add: iq_step_def input_getc_def thread_env_def)
    next
      case False then show ?thesis using 2 assms(2) by (simp add: iq_step_def)
    qed
  next
    case 3
    show ?thesis
    proof (cases "readers s r = AgainGet")
      case True
      then have l: "qlock (iq s) = NULL" "not_empty (iq s) = NULL" using assms(2) by (simp_all add: one_reader_def)
      then obtain x where "intq_getc (thread_env r) (iq s) = Some x" "one_reader r (after_getc r x s)"
        using one_reader_call [OF assms(1) i(1) _ i(2) _ i(3)] by blast
      then show ?thesis using 3 True by (simp add: iq_step_def)
    next
      case False then show ?thesis using 3 assms(2)
        by (auto simp: iq_step_def one_reader_def intq_getc_woken_def thread_env_def k_assert_def split: reader.splits)
    qed
  qed
qed

lemma one_reader_run:
  "\<lbrakk>r \<noteq> NULL; one_reader r s; set evs \<subseteq> served r\<rbrakk> \<Longrightarrow> \<exists>s'. iq_run evs s = Some s' \<and> one_reader r s'"
proof (induction evs arbitrary: s)
  case (Cons ev evs)
  obtain s1 where s1: "iq_step ev s = Some s1" "one_reader r s1" using one_reader_step [OF Cons.prems(1,2), of ev] Cons.prems(3) by auto
  then show ?case using Cons.IH [OF Cons.prems(1) s1(2)] Cons.prems(3) by simp
qed simp

lemma one_reader_start: "one_reader r iq_start"
  by (simp add: one_reader_def iq_start_def input_init_def intq_init_def q_ok_def INTQ_BUFSIZE_def contents_def count_def)

text \<open>C29: with one thread that reads keys, in any interleaving of its calls with keyboard interrupts, no assertion fails, the
  thread has received a prefix of the keys accepted in their order and the rest is in the buffer, at most 63 of them, and the
  thread sleeps only while the buffer is empty: a wake-up is never lost.\<close>
theorem intq_one_reader_fifo:
  assumes "r \<noteq> NULL" "set evs \<subseteq> served r"
  shows "\<exists>s. iq_run evs iq_start = Some s \<and> typed s = received s @ contents (iq s) \<and> length (contents (iq s)) \<le> 63 \<and>
    (readers s r = WaitGet \<longrightarrow> contents (iq s) = []) \<and> readers s r \<noteq> LockGet"
proof -
  obtain s where s: "iq_run evs iq_start = Some s" "one_reader r s" using one_reader_run [OF assms(1) one_reader_start assms(2)] by blast
  then have "length (contents (iq s)) < INTQ_BUFSIZE" by (simp add: count_bound one_reader_def)
  then show ?thesis using s by (auto simp: one_reader_def INTQ_BUFSIZE_def)
qed

theorem intq_one_reader_fifo_witness:
  "\<exists>s. iq_run [Getc 1, Key 97, Key 98, Run 1, Run 1] iq_start = Some s \<and> typed s = received s @ contents (iq s)"
  using intq_one_reader_fifo [of 1 "[Getc 1, Key 97, Key 98, Run 1, Run 1]"] by (auto simp: served_def)

text \<open>C30: with two readers the kernel can stop.  The second one finds the buffer empty and queues up for the lock the first one
  holds while it waits; two keys later the first one has released the lock and taken its key, and the second one, once it has the
  lock, goes to sleep without looking at the buffer again, which the assertion of \<open>wait\<close> catches.\<close>
theorem intq_two_readers_stop:
  assumes "r \<noteq> NULL" "r' \<noteq> NULL" "r \<noteq> r'"
  shows "iq_run [Getc r, Getc r', Key a, Key b, Run r, Run r] iq_start \<noteq> None \<and>
    iq_run [Getc r, Getc r', Key a, Key b, Run r, Run r, Run r'] iq_start = None"
  using assms by (auto simp: iq_step_def iq_start_def input_init_def intq_init_def input_getc_def intq_getc_def intq_getc_locked_def intq_wait_def
    intq_getc_woken_def input_full_def input_putc_def intq_putc_def intq_signal_def after_getc_def wake_def next_pos_def INTQ_BUFSIZE_def
    env_simps k_assert_def Let_def)

theorem intq_two_readers_stop_witness: "iq_run [Getc 1, Getc 2, Key 97, Key 98, Run 1, Run 1, Run 2] iq_start = None"
  using intq_two_readers_stop [of 1 2 97 98] by simp

end
