(* ===== verification/Block.thy ===== *)
theory Block
  imports Bitmap
begin

text \<open>
  devices/block.c: block devices.  The sectors of a device are part of its record: the driver's \<open>read\<close> and \<open>write\<close> fetch and
  replace one of them.  Names are strings without the terminating null byte, and the list of devices is the list of their
  addresses.
\<close>

definition BLOCK_SECTOR_SIZE :: nat where "BLOCK_SECTOR_SIZE = 512"

datatype block_type = BLOCK_KERNEL | BLOCK_FILESYS | BLOCK_SCRATCH | BLOCK_SWAP | BLOCK_RAW | BLOCK_FOREIGN

record block =
  bname :: string
  btype :: block_type
  bsize :: nat
  sectors :: "nat \<Rightarrow> byte list"
  read_cnt :: nat
  write_cnt :: nat

record block_state =
  blocks :: "addr \<Rightarrow> block"
  all_blocks :: "addr list"
  block_by_role :: "block_type \<Rightarrow> addr"

definition block_type_name :: "block_type \<Rightarrow> string" where
  "block_type_name t = (case t of BLOCK_KERNEL \<Rightarrow> ''kernel'' | BLOCK_FILESYS \<Rightarrow> ''filesys'' | BLOCK_SCRATCH \<Rightarrow> ''scratch''
     | BLOCK_SWAP \<Rightarrow> ''swap'' | BLOCK_RAW \<Rightarrow> ''raw'' | BLOCK_FOREIGN \<Rightarrow> ''foreign'')"

text \<open>\<open>role < BLOCK_ROLE_CNT\<close>.\<close>

definition is_role :: "block_type \<Rightarrow> bool" where
  "is_role r \<longleftrightarrow> r \<noteq> BLOCK_RAW \<and> r \<noteq> BLOCK_FOREIGN"

definition block_get_role :: "block_type \<Rightarrow> 'a block_state_scheme \<Rightarrow> addr option" where
  "block_get_role role s = do { k_assert (is_role role); Some (block_by_role s role) }"

definition block_set_role :: "block_type \<Rightarrow> addr \<Rightarrow> 'a block_state_scheme \<Rightarrow> 'a block_state_scheme option" where
  "block_set_role role b s = do { k_assert (is_role role); Some (s\<lparr>block_by_role := (block_by_role s)(role := b)\<rparr>) }"

text \<open>\<open>list_elem_to_block\<close> of the rest of the list: NULL at its end.\<close>

definition list_elem_to_block :: "addr list \<Rightarrow> addr" where
  "list_elem_to_block bs = (case bs of [] \<Rightarrow> NULL | b # _ \<Rightarrow> b)"

definition block_first :: "'a block_state_scheme \<Rightarrow> addr" where
  "block_first s = list_elem_to_block (all_blocks s)"

definition block_next :: "addr \<Rightarrow> 'a block_state_scheme \<Rightarrow> addr option" where
  "block_next b s = do {
     k_assert (b \<in> set (all_blocks s));
     Some (list_elem_to_block (tl (dropWhile (\<lambda>x. x \<noteq> b) (all_blocks s)))) }"

fun get_by_name_loop :: "string \<Rightarrow> (addr \<Rightarrow> block) \<Rightarrow> addr list \<Rightarrow> addr" where
  "get_by_name_loop name h [] = NULL"
| "get_by_name_loop name h (b # bs) = (if name = bname (h b) then b else get_by_name_loop name h bs)"

definition block_get_by_name :: "string \<Rightarrow> 'a block_state_scheme \<Rightarrow> addr" where
  "block_get_by_name name s = get_by_name_loop name (blocks s) (all_blocks s)"

definition check_sector :: "block \<Rightarrow> nat \<Rightarrow> unit option" where
  "check_sector b sector = k_assert (\<not> sector \<ge> bsize b)"

definition block_read :: "addr \<Rightarrow> nat \<Rightarrow> 'a block_state_scheme \<Rightarrow> (byte list \<times> 'a block_state_scheme) option" where
  "block_read p sector s = do {
     check_sector (blocks s p) sector;
     let b = blocks s p;
     let buffer = sectors b sector;
     Some (buffer, s\<lparr>blocks := (blocks s)(p := b\<lparr>read_cnt := (read_cnt b + 1) mod 2 ^ 64\<rparr>)\<rparr>) }"

definition block_write :: "addr \<Rightarrow> nat \<Rightarrow> byte list \<Rightarrow> 'a block_state_scheme \<Rightarrow> 'a block_state_scheme option" where
  "block_write p sector buffer s = do {
     check_sector (blocks s p) sector;
     let b = blocks s p;
     k_assert (btype b \<noteq> BLOCK_FOREIGN);
     Some (s\<lparr>blocks := (blocks s)(p := b\<lparr>sectors := (sectors b)(sector := buffer), write_cnt := (write_cnt b + 1) mod 2 ^ 64\<rparr>)\<rparr>) }"

definition block_size :: "addr \<Rightarrow> 'a block_state_scheme \<Rightarrow> nat" where
  "block_size p s = bsize (blocks s p)"

definition block_name :: "addr \<Rightarrow> 'a block_state_scheme \<Rightarrow> string" where
  "block_name p s = bname (blocks s p)"

definition get_block_type :: "addr \<Rightarrow> 'a block_state_scheme \<Rightarrow> block_type" where
  "get_block_type p s = btype (blocks s p)"

text \<open>\<open>new\<close> is the result of \<open>malloc\<close>; \<open>disk\<close> what the device holds.\<close>

definition block_register ::
  "addr \<Rightarrow> string \<Rightarrow> block_type \<Rightarrow> nat \<Rightarrow> (nat \<Rightarrow> byte list) \<Rightarrow> 'a block_state_scheme \<Rightarrow> (addr \<times> 'a block_state_scheme) option" where
  "block_register new name type sz disk s = do {
     k_assert (new \<noteq> NULL);
     let b = \<lparr>bname = take 15 name, btype = type, bsize = sz, sectors = disk, read_cnt = 0, write_cnt = 0\<rparr>;
     Some (new, s\<lparr>all_blocks := all_blocks s @ [new], blocks := (blocks s)(new := b)\<rparr>) }"

subsection \<open>What reading and writing do\<close>

lemma block_read_ok: "sector < bsize (blocks s p) \<Longrightarrow>
    block_read p sector s = Some (sectors (blocks s p) sector, s\<lparr>blocks := (blocks s)(p := (blocks s p)\<lparr>read_cnt := (read_cnt (blocks s p) + 1) mod 2 ^ 64\<rparr>)\<rparr>)"
  by (simp add: block_read_def check_sector_def Let_def)

lemma block_write_ok: "\<lbrakk>sector < bsize (blocks s p); btype (blocks s p) \<noteq> BLOCK_FOREIGN\<rbrakk> \<Longrightarrow>
    block_write p sector bs s = Some (s\<lparr>blocks := (blocks s)(p := (blocks s p)
      \<lparr>sectors := (sectors (blocks s p))(sector := bs), write_cnt := (write_cnt (blocks s p) + 1) mod 2 ^ 64\<rparr>)\<rparr>)"
  by (simp add: block_write_def check_sector_def Let_def)

end
