(* ===== verification/Inode.thy ===== *)
theory Inode
  imports Block
begin

text \<open>
  filesys/inode.c: inodes, the state of the file system, and reading and writing the bytes of an inode.  Creating and closing an
  inode change the free map and are in the theory File.  Calls run to their end one after the other; a buffer of the caller is a
  list of bytes.  The results of the coming calls of \<open>malloc\<close> are the list \<open>heap\<close>, where NULL, or the end of the list, is a
  failed allocation, and \<open>free\<close> gives the block back at the end of the list.
\<close>

definition INODE_MAGIC :: nat where "INODE_MAGIC = 0x494e4f44"

record inode_disk =
  start :: nat
  dlength :: int
  magic :: nat

record inode =
  isector :: nat
  open_cnt :: int
  removed :: bool
  deny_write_cnt :: int
  idata :: inode_disk
  isema :: nat

record open_file =
  finode :: addr
  fpos :: int
  fdeny_write :: bool

record dir =
  dinode :: addr
  dpos :: int

record fs_state = block_state +
  fs_device :: addr
  heap :: "addr list"
  inodes :: "addr \<Rightarrow> inode"
  open_inodes :: "addr list"
  files :: "addr \<Rightarrow> open_file"
  dirs :: "addr \<Rightarrow> dir"
  free_map :: bitmap
  free_map_file :: addr

definition fs_malloc :: "fs_state \<Rightarrow> addr \<times> fs_state" where
  "fs_malloc s = (case heap s of [] \<Rightarrow> (NULL, s) | p # ps \<Rightarrow> (p, s\<lparr>heap := ps\<rparr>))"

definition fs_free :: "addr \<Rightarrow> fs_state \<Rightarrow> fs_state" where
  "fs_free p s = (if p = NULL then s else s\<lparr>heap := heap s @ [p]\<rparr>)"

subsection \<open>The layout of an inode on disk\<close>

definition le32_at :: "byte list \<Rightarrow> nat \<Rightarrow> 32 word" where
  "le32_at bs i = bytes_word (bs ! i) (bs ! (i + 1)) (bs ! (i + 2)) (bs ! (i + 3))"

definition inode_disk_bytes :: "inode_disk \<Rightarrow> byte list" where
  "inode_disk_bytes d = word_bytes (of_nat (start d)) @ word_bytes (of_int (dlength d)) @ word_bytes (of_nat (magic d)) @ replicate 500 0"

definition bytes_inode_disk :: "byte list \<Rightarrow> inode_disk" where
  "bytes_inode_disk bs = \<lparr>start = unat (le32_at bs 0), dlength = sint (le32_at bs 4), magic = unat (le32_at bs 8)\<rparr>"

text \<open>\<open>DIV_ROUND_UP (size, BLOCK_SECTOR_SIZE)\<close> on signed values.\<close>

definition bytes_to_sectors :: "int \<Rightarrow> nat" where
  "bytes_to_sectors sz = nat (s32 (sz + 512 - 1) sdiv 512 mod 2 ^ 32)"

definition byte_to_sector :: "addr \<Rightarrow> int \<Rightarrow> fs_state \<Rightarrow> nat option" where
  "byte_to_sector inode pos s = do {
     k_assert (inode \<noteq> NULL);
     let d = idata (inodes s inode);
     Some (if pos < dlength d then nat ((int (start d) + pos sdiv 512) mod 2 ^ 32) else 2 ^ 32 - 1) }"

subsection \<open>Opening\<close>

definition inode_init :: "fs_state \<Rightarrow> fs_state" where
  "inode_init s = s\<lparr>open_inodes := []\<rparr>"

definition upd_inode :: "addr \<Rightarrow> (inode \<Rightarrow> inode) \<Rightarrow> fs_state \<Rightarrow> fs_state" where
  "upd_inode p f s = s\<lparr>inodes := (inodes s)(p := f (inodes s p))\<rparr>"

definition inode_reopen :: "addr \<Rightarrow> fs_state \<Rightarrow> addr \<times> fs_state" where
  "inode_reopen inode s = (inode, if inode \<noteq> NULL then upd_inode inode (\<lambda>i. i\<lparr>open_cnt := open_cnt i + 1\<rparr>) s else s)"

text \<open>The search in the list of open inodes.\<close>

fun find_inode :: "(addr \<Rightarrow> inode) \<Rightarrow> nat \<Rightarrow> addr list \<Rightarrow> addr" where
  "find_inode h sector [] = NULL"
| "find_inode h sector (p # ps) = (if isector (h p) = sector then p else find_inode h sector ps)"

definition inode_open :: "nat \<Rightarrow> fs_state \<Rightarrow> (addr \<times> fs_state) option" where
  "inode_open sector s = (
     let p = find_inode (inodes s) sector (open_inodes s) in
     if p \<noteq> NULL then Some (inode_reopen p s)
     else let (p, s) = fs_malloc s in
     if p = NULL then Some (NULL, s)
     else do {
       let s = s\<lparr>open_inodes := p # open_inodes s\<rparr>;
       (bs, s) \<leftarrow> block_read (fs_device s) sector s;
       let i = \<lparr>isector = sector, open_cnt = 1, removed = False, deny_write_cnt = 0, idata = bytes_inode_disk bs, isema = 1\<rparr>;
       Some (p, s\<lparr>inodes := (inodes s)(p := i)\<rparr>) })"

definition inode_get_inumber :: "addr \<Rightarrow> fs_state \<Rightarrow> nat" where
  "inode_get_inumber inode s = isector (inodes s inode)"

definition inode_remove :: "addr \<Rightarrow> fs_state \<Rightarrow> fs_state option" where
  "inode_remove inode s = do { k_assert (inode \<noteq> NULL); Some (upd_inode inode (\<lambda>i. i\<lparr>removed := True\<rparr>) s) }"

definition inode_length :: "addr \<Rightarrow> fs_state \<Rightarrow> int" where
  "inode_length inode s = dlength (idata (inodes s inode))"

definition inode_deny_write :: "addr \<Rightarrow> fs_state \<Rightarrow> fs_state option" where
  "inode_deny_write inode s = do {
     let s = upd_inode inode (\<lambda>i. i\<lparr>deny_write_cnt := deny_write_cnt i + 1\<rparr>) s;
     k_assert (deny_write_cnt (inodes s inode) \<le> open_cnt (inodes s inode));
     Some s }"

definition inode_allow_write :: "addr \<Rightarrow> fs_state \<Rightarrow> fs_state option" where
  "inode_allow_write inode s = do {
     k_assert (deny_write_cnt (inodes s inode) > 0);
     k_assert (deny_write_cnt (inodes s inode) \<le> open_cnt (inodes s inode));
     let s = upd_inode inode (\<lambda>i. i\<lparr>deny_write_cnt := deny_write_cnt i - 1\<rparr>) s;
     k_assert (deny_write_cnt (inodes s inode) \<le> open_cnt (inodes s inode));
     Some s }"

subsection \<open>Reading\<close>

text \<open>The number of bytes of the next chunk and its offset within its sector.\<close>

definition chunk_size :: "addr \<Rightarrow> int \<Rightarrow> int \<Rightarrow> fs_state \<Rightarrow> int" where
  "chunk_size inode sz offset s = (
     let sector_ofs = offset smod 512;
         inode_left = inode_length inode s - offset;
         sector_left = 512 - sector_ofs;
         min_left = (if inode_left < sector_left then inode_left else sector_left)
     in if sz < min_left then sz else min_left)"

text \<open>The bounce buffer is allocated by the first chunk that is not a whole sector.\<close>

definition get_bounce :: "addr \<Rightarrow> fs_state \<Rightarrow> addr \<times> fs_state" where
  "get_bounce bounce s = (if bounce = NULL then fs_malloc s else (bounce, s))"

function read_loop :: "addr \<Rightarrow> int \<Rightarrow> int \<Rightarrow> byte list \<Rightarrow> addr \<Rightarrow> fs_state \<Rightarrow> (byte list \<times> addr \<times> fs_state) option" where
  "read_loop inode sz offset got bounce s = (if \<not> sz > 0 then Some (got, bounce, s)
     else let sector_ofs = offset smod 512; chunk = chunk_size inode sz offset s in do {
       sector_idx \<leftarrow> byte_to_sector inode offset s;
       if chunk \<le> 0 then Some (got, bounce, s)
       else if sector_ofs = 0 \<and> chunk = 512 then do {
         (bs, s) \<leftarrow> block_read (fs_device s) sector_idx s;
         read_loop inode (sz - chunk) (offset + chunk) (got @ bs) bounce s }
       else let (bounce, s) = get_bounce bounce s in
       if bounce = NULL then Some (got, bounce, s)
       else do {
         (bs, s) \<leftarrow> block_read (fs_device s) sector_idx s;
         k_assert (sector_ofs \<ge> 0);
         read_loop inode (sz - chunk) (offset + chunk) (got @ take (nat chunk) (drop (nat sector_ofs) bs)) bounce s } })"
  by pat_completeness auto
termination by (relation "measure (\<lambda>(i, sz, _). nat sz)") auto

declare read_loop.simps [simp del]

definition inode_read_at :: "addr \<Rightarrow> int \<Rightarrow> int \<Rightarrow> fs_state \<Rightarrow> (byte list \<times> fs_state) option" where
  "inode_read_at inode sz offset s = do {
     (got, bounce, s) \<leftarrow> read_loop inode sz offset [] NULL s;
     Some (got, fs_free bounce s) }"

subsection \<open>Writing\<close>

text \<open>The chunk of the caller's buffer that is written next.\<close>

definition chunk_of :: "byte list \<Rightarrow> int \<Rightarrow> int \<Rightarrow> byte list option" where
  "chunk_of buffer written chunk = do {
     k_assert (nat (written + chunk) \<le> length buffer);
     Some (take (nat chunk) (drop (nat written) buffer)) }"

text \<open>\<open>memcpy (bounce + sector_ofs, buffer + bytes_written, chunk_size)\<close>.\<close>

definition patch :: "nat \<Rightarrow> byte list \<Rightarrow> byte list \<Rightarrow> byte list" where
  "patch ofs new old = take ofs old @ new @ drop (ofs + length new) old"

function write_loop :: "addr \<Rightarrow> byte list \<Rightarrow> int \<Rightarrow> int \<Rightarrow> int \<Rightarrow> addr \<Rightarrow> fs_state \<Rightarrow> (int \<times> addr \<times> fs_state) option" where
  "write_loop inode buffer sz offset written bounce s = (if \<not> sz > 0 then Some (written, bounce, s)
     else let sector_ofs = offset smod 512; chunk = chunk_size inode sz offset s in do {
       sector_idx \<leftarrow> byte_to_sector inode offset s;
       if chunk \<le> 0 then Some (written, bounce, s)
       else if sector_ofs = 0 \<and> chunk = 512 then do {
         new \<leftarrow> chunk_of buffer written chunk;
         s \<leftarrow> block_write (fs_device s) sector_idx new s;
         write_loop inode buffer (sz - chunk) (offset + chunk) (written + chunk) bounce s }
       else let (bounce, s) = get_bounce bounce s in
       if bounce = NULL then Some (written, bounce, s)
       else do {
         (old, s) \<leftarrow> (if sector_ofs > 0 \<or> chunk < 512 - sector_ofs then block_read (fs_device s) sector_idx s else Some (replicate 512 0, s));
         k_assert (sector_ofs \<ge> 0);
         new \<leftarrow> chunk_of buffer written chunk;
         s \<leftarrow> block_write (fs_device s) sector_idx (patch (nat sector_ofs) new old) s;
         write_loop inode buffer (sz - chunk) (offset + chunk) (written + chunk) bounce s } })"
  by pat_completeness auto
termination by (relation "measure (\<lambda>(i, b, sz, _). nat sz)") auto

declare write_loop.simps [simp del]

text \<open>\<open>sema_down\<close> blocks while another write of the inode is under way; in a sequence of calls it does not.\<close>

definition inode_write_at :: "addr \<Rightarrow> byte list \<Rightarrow> int \<Rightarrow> int \<Rightarrow> fs_state \<Rightarrow> (int \<times> fs_state) option" where
  "inode_write_at inode buffer sz offset s = (if deny_write_cnt (inodes s inode) \<noteq> 0 then Some (0, s)
     else do {
       k_assert (isema (inodes s inode) > 0);
       let s = upd_inode inode (\<lambda>i. i\<lparr>isema := isema i - 1\<rparr>) s;
       (written, bounce, s) \<leftarrow> write_loop inode buffer sz offset 0 NULL s;
       let s = upd_inode inode (\<lambda>i. i\<lparr>isema := isema i + 1\<rparr>) s;
       Some (written, fs_free bounce s) })"

end
