(* ===== verification/Free_Map.thy ===== *)
theory Free_Map
  imports Inode
begin

text \<open>
  filesys/free-map.c: the map of the sectors in use and the file that holds it, with the routines of filesys/file.c it needs.
  The routines that create and open the free map file are in the theory File.
\<close>

definition FREE_MAP_SECTOR :: nat where "FREE_MAP_SECTOR = 0"
definition ROOT_DIR_SECTOR :: nat where "ROOT_DIR_SECTOR = 1"

definition file_read_at :: "addr \<Rightarrow> int \<Rightarrow> int \<Rightarrow> fs_state \<Rightarrow> (byte list \<times> fs_state) option" where
  "file_read_at file sz file_ofs s = do {
     k_assert (file \<noteq> NULL);
     inode_read_at (finode (files s file)) sz file_ofs s }"

definition file_write_at :: "addr \<Rightarrow> byte list \<Rightarrow> int \<Rightarrow> int \<Rightarrow> fs_state \<Rightarrow> (int \<times> fs_state) option" where
  "file_write_at file buffer sz file_ofs s = do {
     k_assert (file \<noteq> NULL);
     inode_write_at (finode (files s file)) buffer sz file_ofs s }"

text \<open>\<open>bitmap_write (free_map, free_map_file)\<close>.\<close>

definition write_free_map :: "fs_state \<Rightarrow> (bool \<times> fs_state) option" where
  "write_free_map s = bitmap_write (\<lambda>buf sz ofs. do {
       (n, s) \<leftarrow> file_write_at (free_map_file s) buf (int sz) (int ofs) s;
       Some (nat n, s) }) (free_map s)"

text \<open>The results of \<open>free_map_allocate\<close> are whether it succeeded, the sector and the new state.\<close>

definition free_map_allocate :: "nat \<Rightarrow> fs_state \<Rightarrow> (bool \<times> nat \<times> fs_state) option" where
  "free_map_allocate cnt s = do {
     (sector, m) \<leftarrow> bitmap_scan_and_flip (free_map s) 0 cnt False;
     let s = s\<lparr>free_map := m\<rparr>;
     if sector \<noteq> BITMAP_ERROR \<and> free_map_file s \<noteq> NULL then do {
       (ok, s) \<leftarrow> write_free_map s;
       if \<not> ok then do {
         m \<leftarrow> bitmap_set_multiple (free_map s) sector cnt False;
         Some (False, 0, s\<lparr>free_map := m\<rparr>) }
       else Some (True, sector, s) }
     else Some (sector \<noteq> BITMAP_ERROR, if sector \<noteq> BITMAP_ERROR then sector else 0, s) }"

definition free_map_release :: "nat \<Rightarrow> nat \<Rightarrow> fs_state \<Rightarrow> fs_state option" where
  "free_map_release sector cnt s = do {
     all_set \<leftarrow> bitmap_all (free_map s) sector cnt;
     k_assert all_set;
     m \<leftarrow> bitmap_set_multiple (free_map s) sector cnt False;
     (_, s) \<leftarrow> write_free_map (s\<lparr>free_map := m\<rparr>);
     Some s }"

end
