(* ===== verification/File.thy ===== *)
theory File
  imports Free_Map
begin

text \<open>
  The rest of filesys/inode.c (creating and closing inodes), filesys/file.c, and the routines of filesys/free-map.c that use
  files.
\<close>

subsection \<open>Creating and closing inodes\<close>

fun zero_loop :: "nat \<Rightarrow> nat \<Rightarrow> fs_state \<Rightarrow> fs_state option" where
  "zero_loop 0 sector s = Some s"
| "zero_loop (Suc n) sector s = do {
     s \<leftarrow> block_write (fs_device s) (u32 sector) (replicate 512 0) s;
     zero_loop n (sector + 1) s }"

definition inode_create :: "nat \<Rightarrow> int \<Rightarrow> fs_state \<Rightarrow> (bool \<times> fs_state) option" where
  "inode_create sector len s = do {
     k_assert (len \<ge> 0);
     let (p, s) = fs_malloc s;
     if p \<noteq> NULL then do {
       let sector_num = bytes_to_sectors len;
       (ok, st, s) \<leftarrow> free_map_allocate sector_num s;
       if ok then do {
         s \<leftarrow> block_write (fs_device s) sector (inode_disk_bytes \<lparr>start = st, dlength = len, magic = INODE_MAGIC\<rparr>) s;
         s \<leftarrow> zero_loop sector_num st s;
         Some (True, fs_free p s) }
       else Some (False, fs_free p s) }
     else Some (False, s) }"

definition inode_close :: "addr \<Rightarrow> fs_state \<Rightarrow> fs_state option" where
  "inode_close inode s = (if inode = NULL then Some s
     else let s = upd_inode inode (\<lambda>i. i\<lparr>open_cnt := open_cnt i - 1\<rparr>) s in
     if open_cnt (inodes s inode) = 0 then do {
       let s = s\<lparr>open_inodes := remove1 inode (open_inodes s)\<rparr>;
       s \<leftarrow> (if removed (inodes s inode) then do {
               s \<leftarrow> free_map_release (isector (inodes s inode)) 1 s;
               free_map_release (start (idata (inodes s inode))) (bytes_to_sectors (dlength (idata (inodes s inode)))) s }
             else Some s);
       Some (fs_free inode s) }
     else Some s)"

subsection \<open>Files\<close>

definition upd_file :: "addr \<Rightarrow> (open_file \<Rightarrow> open_file) \<Rightarrow> fs_state \<Rightarrow> fs_state" where
  "upd_file p f s = s\<lparr>files := (files s)(p := f (files s p))\<rparr>"

definition file_open :: "addr \<Rightarrow> fs_state \<Rightarrow> (addr \<times> fs_state) option" where
  "file_open inode s = (let (f, s) = fs_malloc s in
     if inode \<noteq> NULL \<and> f \<noteq> NULL then Some (f, upd_file f (\<lambda>_. \<lparr>finode = inode, fpos = 0, fdeny_write = False\<rparr>) s)
     else do {
       s \<leftarrow> inode_close inode s;
       Some (NULL, fs_free f s) })"

definition file_reopen :: "addr \<Rightarrow> fs_state \<Rightarrow> (addr \<times> fs_state) option" where
  "file_reopen f s = do {
     k_assert (f \<noteq> NULL);
     let (inode, s) = inode_reopen (finode (files s f)) s;
     file_open inode s }"

definition file_deny_write :: "addr \<Rightarrow> fs_state \<Rightarrow> fs_state option" where
  "file_deny_write f s = do {
     k_assert (f \<noteq> NULL);
     if \<not> fdeny_write (files s f) then inode_deny_write (finode (files s f)) (upd_file f (\<lambda>x. x\<lparr>fdeny_write := True\<rparr>) s)
     else Some s }"

definition file_allow_write :: "addr \<Rightarrow> fs_state \<Rightarrow> fs_state option" where
  "file_allow_write f s = do {
     k_assert (f \<noteq> NULL);
     if fdeny_write (files s f) then inode_allow_write (finode (files s f)) (upd_file f (\<lambda>x. x\<lparr>fdeny_write := False\<rparr>) s)
     else Some s }"

definition file_close :: "addr \<Rightarrow> fs_state \<Rightarrow> fs_state option" where
  "file_close f s = (if f \<noteq> NULL then do {
       s \<leftarrow> file_allow_write f s;
       s \<leftarrow> inode_close (finode (files s f)) s;
       Some (fs_free f s) }
     else Some s)"

definition file_get_inode :: "addr \<Rightarrow> fs_state \<Rightarrow> addr option" where
  "file_get_inode f s = do { k_assert (f \<noteq> NULL); Some (finode (files s f)) }"

definition file_read :: "addr \<Rightarrow> int \<Rightarrow> fs_state \<Rightarrow> (byte list \<times> fs_state) option" where
  "file_read f sz s = do {
     k_assert (f \<noteq> NULL);
     (bs, s) \<leftarrow> inode_read_at (finode (files s f)) sz (fpos (files s f)) s;
     Some (bs, upd_file f (\<lambda>x. x\<lparr>fpos := s32 (fpos x + int (length bs))\<rparr>) s) }"

definition file_write :: "addr \<Rightarrow> byte list \<Rightarrow> int \<Rightarrow> fs_state \<Rightarrow> (int \<times> fs_state) option" where
  "file_write f buffer sz s = do {
     k_assert (f \<noteq> NULL);
     (n, s) \<leftarrow> inode_write_at (finode (files s f)) buffer sz (fpos (files s f)) s;
     Some (n, upd_file f (\<lambda>x. x\<lparr>fpos := s32 (fpos x + n)\<rparr>) s) }"

definition file_length :: "addr \<Rightarrow> fs_state \<Rightarrow> int option" where
  "file_length f s = do { k_assert (f \<noteq> NULL); Some (inode_length (finode (files s f)) s) }"

definition file_seek :: "addr \<Rightarrow> int \<Rightarrow> fs_state \<Rightarrow> fs_state option" where
  "file_seek f new_pos s = do {
     k_assert (f \<noteq> NULL);
     k_assert (new_pos \<ge> 0);
     Some (upd_file f (\<lambda>x. x\<lparr>fpos := new_pos\<rparr>) s) }"

definition file_tell :: "addr \<Rightarrow> fs_state \<Rightarrow> int option" where
  "file_tell f s = do { k_assert (f \<noteq> NULL); Some (fpos (files s f)) }"

subsection \<open>The free map file\<close>

text \<open>\<open>junk\<close> is what the memory of the new bitmap contains before it is cleared.\<close>

definition free_map_init :: "elem_type list \<Rightarrow> fs_state \<Rightarrow> fs_state option" where
  "free_map_init junk s = do {
     let n = block_size (fs_device s) s;
     let (p, s) = fs_malloc s;
     let (q, s) = (if p = NULL \<or> n = 0 then (NULL, s) else fs_malloc s);
     b \<leftarrow> bitmap_create (p \<noteq> NULL) (if q = NULL then None else Some junk) n;
     b \<leftarrow> b;
     b \<leftarrow> bitmap_mark b FREE_MAP_SECTOR;
     b \<leftarrow> bitmap_mark b ROOT_DIR_SECTOR;
     Some (s\<lparr>free_map := b\<rparr>) }"

definition free_map_open :: "fs_state \<Rightarrow> fs_state option" where
  "free_map_open s = do {
     (i, s) \<leftarrow> inode_open FREE_MAP_SECTOR s;
     (f, s) \<leftarrow> file_open i s;
     let s = s\<lparr>free_map_file := f\<rparr>;
     k_assert (f \<noteq> NULL);
     (bs, s) \<leftarrow> (if bit_cnt (free_map s) > 0 then file_read_at f (int (byte_cnt (bit_cnt (free_map s)))) 0 s else Some ([], s));
     (ok, b) \<leftarrow> bitmap_read (\<lambda>_ _. bs) (free_map s);
     k_assert ok;
     Some (s\<lparr>free_map := b\<rparr>) }"

definition free_map_close :: "fs_state \<Rightarrow> fs_state option" where
  "free_map_close s = file_close (free_map_file s) s"

definition free_map_create :: "fs_state \<Rightarrow> fs_state option" where
  "free_map_create s = do {
     (ok, s) \<leftarrow> inode_create FREE_MAP_SECTOR (int (bitmap_file_size (free_map s))) s;
     k_assert ok;
     (i, s) \<leftarrow> inode_open FREE_MAP_SECTOR s;
     (f, s) \<leftarrow> file_open i s;
     let s = s\<lparr>free_map_file := f\<rparr>;
     k_assert (f \<noteq> NULL);
     (ok, s) \<leftarrow> write_free_map s;
     k_assert ok;
     Some s }"

end
