(* ===== verification/Directory.thy ===== *)
theory Directory
  imports File
begin

text \<open>
  filesys/directory.c: directories.  A name is the list of its bytes without the terminating null byte.  An entry is the 20 bytes
  of \<open>struct dir_entry\<close>; the local variable \<open>e\<close> of a routine keeps the bytes that a short read or \<open>strlcpy\<close> does not overwrite,
  and the argument \<open>junk\<close> is what it contains before.
\<close>

definition NAME_MAX :: nat where "NAME_MAX = 14"
definition ENTRY_SIZE :: nat where "ENTRY_SIZE = 20"

record dir_entry =
  inode_sector :: nat
  ename :: "byte list"
  in_use :: bool

definition bytes_dir_entry :: "byte list \<Rightarrow> dir_entry" where
  "bytes_dir_entry bs = \<lparr>inode_sector = unat (le32_at bs 0), ename = take 15 (drop 4 bs), in_use = (bs ! 19 \<noteq> 0)\<rparr>"

definition dir_entry_bytes :: "dir_entry \<Rightarrow> byte list" where
  "dir_entry_bytes e = word_bytes (of_nat (inode_sector e)) @ ename e @ [if in_use e then 1 else 0]"

text \<open>A read of fewer bytes than an entry leaves the rest of the variable as it was.\<close>

definition overwrite :: "byte list \<Rightarrow> byte list \<Rightarrow> byte list" where
  "overwrite new old = new @ drop (length new) old"

text \<open>\<open>strcmp (name, e.name) == 0\<close>.  Comparing runs past the entry if its name is not terminated and \<open>name\<close> begins with it.\<close>

definition name_eq :: "byte list \<Rightarrow> byte list \<Rightarrow> bool option" where
  "name_eq name raw = (if 0 \<in> set raw then Some (name = takeWhile (\<lambda>b. b \<noteq> 0) raw)
     else if take (length raw) name = raw then None else Some False)"

definition dir_create :: "nat \<Rightarrow> nat \<Rightarrow> fs_state \<Rightarrow> (bool \<times> fs_state) option" where
  "dir_create sector entry_cnt s = inode_create sector (s32 (int (u32 (entry_cnt * ENTRY_SIZE)))) s"

definition dir_open :: "addr \<Rightarrow> fs_state \<Rightarrow> (addr \<times> fs_state) option" where
  "dir_open inode s = (let (d, s) = fs_malloc s in
     if inode \<noteq> NULL \<and> d \<noteq> NULL then Some (d, s\<lparr>dirs := (dirs s)(d := \<lparr>dinode = inode, dpos = 0\<rparr>)\<rparr>)
     else do {
       s \<leftarrow> inode_close inode s;
       Some (NULL, fs_free d s) })"

definition dir_open_root :: "fs_state \<Rightarrow> (addr \<times> fs_state) option" where
  "dir_open_root s = do {
     (i, s) \<leftarrow> inode_open ROOT_DIR_SECTOR s;
     dir_open i s }"

definition dir_reopen :: "addr \<Rightarrow> fs_state \<Rightarrow> (addr \<times> fs_state) option" where
  "dir_reopen d s = do {
     k_assert (d \<noteq> NULL);
     let (i, s) = inode_reopen (dinode (dirs s d)) s;
     dir_open i s }"

definition dir_close :: "addr \<Rightarrow> fs_state \<Rightarrow> fs_state option" where
  "dir_close d s = (if d \<noteq> NULL then do {
       s \<leftarrow> inode_close (dinode (dirs s d)) s;
       Some (fs_free d s) }
     else Some s)"

definition dir_get_inode :: "addr \<Rightarrow> fs_state \<Rightarrow> addr option" where
  "dir_get_inode d s = do { k_assert (d \<noteq> NULL); Some (dinode (dirs s d)) }"

subsection \<open>Searching\<close>

text \<open>The search returns the entry found and its offset.\<close>

partial_function (option) lookup_loop :: "addr \<Rightarrow> byte list \<Rightarrow> nat \<Rightarrow> fs_state \<Rightarrow> ((byte list \<times> nat) option \<times> fs_state) option" where
  "lookup_loop inode name ofs s = do {
     (e, s) \<leftarrow> inode_read_at inode (int ENTRY_SIZE) (s32 (int ofs)) s;
     if length e = ENTRY_SIZE then do {
       eq \<leftarrow> (if in_use (bytes_dir_entry e) then name_eq name (ename (bytes_dir_entry e)) else Some False);
       if eq then Some (Some (e, ofs), s) else lookup_loop inode name (u32 (ofs + ENTRY_SIZE)) s }
     else Some (None, s) }"

definition lookup :: "addr \<Rightarrow> byte list \<Rightarrow> fs_state \<Rightarrow> ((byte list \<times> nat) option \<times> fs_state) option" where
  "lookup d name s = do { k_assert (d \<noteq> NULL); lookup_loop (dinode (dirs s d)) name 0 s }"

definition dir_lookup :: "addr \<Rightarrow> byte list \<Rightarrow> fs_state \<Rightarrow> (addr \<times> fs_state) option" where
  "dir_lookup d name s = do {
     k_assert (d \<noteq> NULL);
     (r, s) \<leftarrow> lookup d name s;
     case r of None \<Rightarrow> Some (NULL, s) | Some (e, _) \<Rightarrow> inode_open (inode_sector (bytes_dir_entry e)) s }"

definition dir_lookup_file :: "byte list \<Rightarrow> fs_state \<Rightarrow> (bool \<times> fs_state) option" where
  "dir_lookup_file name s = do {
     (d, s) \<leftarrow> dir_open_root s;
     (r, s) \<leftarrow> lookup d name s;
     Some (r \<noteq> None, s) }"

subsection \<open>Adding and removing\<close>

text \<open>The search for a free slot returns the variable \<open>e\<close> and the offset.\<close>

partial_function (option) slot_loop :: "addr \<Rightarrow> byte list \<Rightarrow> nat \<Rightarrow> fs_state \<Rightarrow> (byte list \<times> nat \<times> fs_state) option" where
  "slot_loop inode e ofs s = do {
     (bs, s) \<leftarrow> inode_read_at inode (int ENTRY_SIZE) (int ofs) s;
     let e = overwrite bs e;
     if length bs = ENTRY_SIZE then
       if \<not> in_use (bytes_dir_entry e) then Some (e, ofs, s) else slot_loop inode e (ofs + ENTRY_SIZE) s
     else Some (e, ofs, s) }"

text \<open>\<open>e.in_use = true; strlcpy (e.name, name, sizeof e.name); e.inode_sector = inode_sector\<close>.\<close>

definition fill_entry :: "byte list \<Rightarrow> byte list \<Rightarrow> nat \<Rightarrow> byte list" where
  "fill_entry e name sector = dir_entry_bytes \<lparr>inode_sector = sector,
     ename = overwrite (name @ [0]) (ename (bytes_dir_entry e)), in_use = True\<rparr>"

definition dir_add :: "byte list \<Rightarrow> addr \<Rightarrow> byte list \<Rightarrow> nat \<Rightarrow> fs_state \<Rightarrow> (bool \<times> fs_state) option" where
  "dir_add junk d name sector s = do {
     k_assert (d \<noteq> NULL);
     if name = [] \<or> length name > NAME_MAX then Some (False, s)
     else do {
       (r, s) \<leftarrow> lookup d name s;
       if r \<noteq> None then Some (False, s)
       else do {
         (e, ofs, s) \<leftarrow> slot_loop (dinode (dirs s d)) junk 0 s;
         (n, s) \<leftarrow> inode_write_at (dinode (dirs s d)) (fill_entry e name sector) (int ENTRY_SIZE) (int ofs) s;
         Some (n = int ENTRY_SIZE, s) } } }"

definition dir_remove :: "addr \<Rightarrow> byte list \<Rightarrow> fs_state \<Rightarrow> (bool \<times> fs_state) option" where
  "dir_remove d name s = do {
     k_assert (d \<noteq> NULL);
     (r, s) \<leftarrow> lookup d name s;
     case r of None \<Rightarrow> Some (False, s)
     | Some (e, ofs) \<Rightarrow> do {
         (inode, s) \<leftarrow> inode_open (inode_sector (bytes_dir_entry e)) s;
         if inode = NULL then Some (False, s)
         else do {
           (n, s) \<leftarrow> inode_write_at (dinode (dirs s d)) (e[19 := 0]) (int ENTRY_SIZE) (int ofs) s;
           if n \<noteq> int ENTRY_SIZE then do { s \<leftarrow> inode_close inode s; Some (False, s) }
           else do {
             s \<leftarrow> inode_remove inode s;
             s \<leftarrow> inode_close inode s;
             Some (True, s) } } } }"

text \<open>\<open>dir_readdir\<close> returns the next name.\<close>

partial_function (option) dir_readdir :: "addr \<Rightarrow> fs_state \<Rightarrow> (byte list option \<times> fs_state) option" where
  "dir_readdir d s = do {
     k_assert (d \<noteq> NULL);
     (e, s) \<leftarrow> inode_read_at (dinode (dirs s d)) (int ENTRY_SIZE) (dpos (dirs s d)) s;
     if length e = ENTRY_SIZE then do {
       let s = s\<lparr>dirs := (dirs s)(d := (dirs s d)\<lparr>dpos := s32 (dpos (dirs s d) + int ENTRY_SIZE)\<rparr>)\<rparr>;
       if in_use (bytes_dir_entry e) then do {
         k_assert (0 \<in> set (ename (bytes_dir_entry e)));
         Some (Some (takeWhile (\<lambda>b. b \<noteq> 0) (ename (bytes_dir_entry e))), s) }
       else dir_readdir d s }
     else Some (None, s) }"

end
