(* ===== verification/Inode_Props.thy ===== *)
theory Inode_Props
  imports Inode
begin

text \<open>
  The bytes of an inode.  \<open>get_bytes\<close> and \<open>put_bytes\<close> see the consecutive sectors of an inode as one array of bytes;
  the loops of \<open>inode_read_at\<close> and \<open>inode_write_at\<close> implement them, and change nothing else but the counters of the device
  and the order of the heap.
\<close>

subsection \<open>Sectors as one array of bytes\<close>

definition get_bytes :: "nat \<Rightarrow> nat \<Rightarrow> nat \<Rightarrow> (nat \<Rightarrow> byte list) \<Rightarrow> byte list" where
  "get_bytes st ofs n D = map (\<lambda>i. D (st + i div 512) ! (i mod 512)) [ofs..<ofs + n]"

definition put_bytes :: "nat \<Rightarrow> nat \<Rightarrow> byte list \<Rightarrow> (nat \<Rightarrow> byte list) \<Rightarrow> nat \<Rightarrow> byte list" where
  "put_bytes st ofs bs D sec = (if sec < st then D sec
     else map (\<lambda>j. let i = (sec - st) * 512 + j in if ofs \<le> i \<and> i < ofs + length bs then bs ! (i - ofs) else D sec ! j) [0..<length (D sec)])"

lemma length_get_bytes [simp]: "length (get_bytes st ofs n D) = n"
  by (simp add: get_bytes_def)

lemma length_put_bytes [simp]: "length (put_bytes st ofs bs D sec) = length (D sec)"
  by (simp add: put_bytes_def)

lemma nth_get_bytes: "i < n \<Longrightarrow> get_bytes st ofs n D ! i = D (st + (ofs + i) div 512) ! ((ofs + i) mod 512)"
  by (simp add: get_bytes_def)

lemma nth_put_bytes: "j < length (D sec) \<Longrightarrow> put_bytes st ofs bs D sec ! j =
    (if st \<le> sec \<and> ofs \<le> (sec - st) * 512 + j \<and> (sec - st) * 512 + j < ofs + length bs then bs ! ((sec - st) * 512 + j - ofs) else D sec ! j)"
  by (auto simp: put_bytes_def Let_def)

lemma get_bytes_append: "get_bytes st ofs (n + k) D = get_bytes st ofs n D @ get_bytes st (ofs + n) k D"
  using upt_add_eq_append [of ofs "ofs + n" k] by (simp add: get_bytes_def add.assoc)

lemma put_bytes_Nil [simp]: "put_bytes st ofs [] D = D"
  by (rule ext, rule nth_equalityI) (auto simp: nth_put_bytes)

lemma put_bytes_append: "put_bytes st (ofs + length as) bs (put_bytes st ofs as D) = put_bytes st ofs (as @ bs) D"
proof (rule ext, rule nth_equalityI)
  fix sec j assume "j < length (put_bytes st (ofs + length as) bs (put_bytes st ofs as D) sec)"
  then have j: "j < length (D sec)" by simp
  define i where "i = (sec - st) * 512 + j"
  show "put_bytes st (ofs + length as) bs (put_bytes st ofs as D) sec ! j = put_bytes st ofs (as @ bs) D sec ! j"
    using j by (auto simp: nth_put_bytes nth_append diff_diff_eq simp flip: i_def)
qed simp

lemma put_bytes_other:
  assumes "\<And>sec. length (D sec) = 512" "sec < st + ofs div 512 \<or> st * 512 + ofs + length bs \<le> sec * 512"
  shows "put_bytes st ofs bs D sec = D sec"
proof (rule nth_equalityI)
  fix j assume "j < length (put_bytes st ofs bs D sec)"
  then have j: "j < 512" using assms(1) by simp
  have "ofs = 512 * (ofs div 512) + ofs mod 512" by simp
  then have "\<not> (st \<le> sec \<and> ofs \<le> (sec - st) * 512 + j \<and> (sec - st) * 512 + j < ofs + length bs)"
    using assms(2) j by (auto simp: diff_mult_distrib)
  then show "put_bytes st ofs bs D sec ! j = D sec ! j" using j assms(1) by (subst nth_put_bytes) (simp, rule if_not_P)
qed simp

text \<open>One chunk within one sector.\<close>

lemma nth_patch: "ofs + length new \<le> length old \<Longrightarrow> i < length old \<Longrightarrow>
    patch ofs new old ! i = (if ofs \<le> i \<and> i < ofs + length new then new ! (i - ofs) else old ! i)"
  by (auto simp: patch_def nth_append min_def)

lemma length_patch [simp]: "ofs + length new \<le> length old \<Longrightarrow> length (patch ofs new old) = length old"
  by (simp add: patch_def)

lemma put_bytes_chunk:
  assumes "ofs mod 512 + length new \<le> 512" "\<And>sec. length (D sec) = 512"
  shows "put_bytes st ofs new D = D(st + ofs div 512 := patch (ofs mod 512) new (D (st + ofs div 512)))"
proof
  fix sec
  have o: "ofs = 512 * (ofs div 512) + ofs mod 512" by simp
  show "put_bytes st ofs new D sec = (D(st + ofs div 512 := patch (ofs mod 512) new (D (st + ofs div 512)))) sec"
  proof (cases "sec = st + ofs div 512")
    case True
    have "put_bytes st ofs new D sec = patch (ofs mod 512) new (D sec)"
    proof (rule nth_equalityI)
      fix j assume "j < length (put_bytes st ofs new D sec)"
      then have j: "j < 512" using assms(2) by simp
      have e: "(sec - st) * 512 + j = 512 * (ofs div 512) + j" using True by simp
      have "(sec - st) * 512 + j - ofs = j - ofs mod 512" unfolding e using o by linarith
      moreover have "ofs \<le> (sec - st) * 512 + j \<longleftrightarrow> ofs mod 512 \<le> j" "(sec - st) * 512 + j < ofs + length new \<longleftrightarrow> j < ofs mod 512 + length new"
        unfolding e using o by linarith+
      ultimately show "put_bytes st ofs new D sec ! j = patch (ofs mod 512) new (D sec) ! j"
        using True j assms by (simp add: nth_put_bytes nth_patch)
    qed (use assms in simp)
    then show ?thesis using True by simp
  next
    case False
    have "sec < st + ofs div 512 \<or> st * 512 + ofs + length new \<le> sec * 512" using False assms(1) o by linarith
    then show ?thesis using False put_bytes_other [OF assms(2)] by simp
  qed
qed

lemma get_bytes_chunk:
  assumes "ofs mod 512 + n \<le> 512" "length (D (st + ofs div 512)) = 512"
  shows "get_bytes st ofs n D = take n (drop (ofs mod 512) (D (st + ofs div 512)))"
proof (rule nth_equalityI)
  fix i assume "i < length (get_bytes st ofs n D)"
  then have i: "i < n" by simp
  have e: "ofs + i = 512 * (ofs div 512) + (ofs mod 512 + i)" by simp
  have l: "ofs mod 512 + i < 512" using i assms(1) by simp
  have d: "(ofs + i) div 512 = ofs div 512" using e l by (intro div_nat_eqI) (unfold mult_Suc_right, linarith+)
  moreover have "(ofs + i) mod 512 = ofs mod 512 + i" using e d mult_div_mod_eq [of 512 "ofs + i"] by linarith
  ultimately show "get_bytes st ofs n D ! i = take n (drop (ofs mod 512) (D (st + ofs div 512))) ! i"
    using i assms by (simp add: nth_get_bytes)
qed (use assms in simp)

text \<open>Reading what was written: the array of the bytes is patched, and a different range of sectors is not changed.\<close>

lemma get_put_bytes:
  assumes "\<And>sec. length (D sec) = 512" "ofs + length bs \<le> n"
  shows "get_bytes st 0 n (put_bytes st ofs bs D) = patch ofs bs (get_bytes st 0 n D)"
proof (rule nth_equalityI)
  fix i assume "i < length (get_bytes st 0 n (put_bytes st ofs bs D))"
  then have i: "i < n" by simp
  have "(i div 512) * 512 + i mod 512 = i" by simp
  then show "get_bytes st 0 n (put_bytes st ofs bs D) ! i = patch ofs bs (get_bytes st 0 n D) ! i"
    using i assms by (simp add: nth_get_bytes nth_put_bytes nth_patch)
qed (use assms in simp)

lemma get_bytes_cong:
  assumes "\<And>sec. st + ofs div 512 \<le> sec \<Longrightarrow> sec * 512 < st * 512 + ofs + n \<Longrightarrow> D sec = D' sec"
  shows "get_bytes st ofs n D = get_bytes st ofs n D'"
proof -
  have "D (st + i div 512) = D' (st + i div 512)" if "ofs \<le> i" "i < ofs + n" for i
    using that div_le_mono [of ofs i 512] by (intro assms) (auto simp: add_mult_distrib intro: le_less_trans [OF div_times_less_eq_dividend])
  then show ?thesis by (auto simp: get_bytes_def)
qed

subsection \<open>What a loop may change\<close>

definition dev :: "fs_state \<Rightarrow> block" where
  "dev s = blocks s (fs_device s)"

definition held :: "addr \<Rightarrow> addr multiset" where
  "held b = (if b = NULL then {#} else {#b#})"

text \<open>Only the contents of the file system device, its counters and the heap change; no block of memory is lost.\<close>

definition effect :: "addr \<Rightarrow> fs_state \<Rightarrow> (nat \<Rightarrow> byte list) \<Rightarrow> addr \<Rightarrow> fs_state \<Rightarrow> bool" where
  "effect b s D b' s' \<longleftrightarrow> (\<exists>r w h.
     s' = s\<lparr>blocks := (blocks s)(fs_device s := (dev s)\<lparr>sectors := D, read_cnt := r, write_cnt := w\<rparr>), heap := h\<rparr> \<and>
     held b' + mset h = held b + mset (heap s))"

definition mem_ok :: "addr \<Rightarrow> fs_state \<Rightarrow> bool" where
  "mem_ok b s \<longleftrightarrow> held b + mset (heap s) \<noteq> {#} \<and> NULL \<notin># mset (heap s)"

definition dev_ok :: "block \<Rightarrow> bool" where
  "dev_ok d \<longleftrightarrow> btype d \<noteq> BLOCK_FOREIGN \<and> bsize d < 2 ^ 31 \<and> (\<forall>sec. length (sectors d sec) = 512)"

definition sector_cnt :: "int \<Rightarrow> nat" where
  "sector_cnt l = (nat l + 511) div 512"

definition extent_ok :: "block \<Rightarrow> inode_disk \<Rightarrow> bool" where
  "extent_ok d i \<longleftrightarrow> 0 \<le> dlength i \<and> dlength i < 2 ^ 31 - 512 \<and> start i + sector_cnt (dlength i) \<le> bsize d"

definition inode_ok :: "addr \<Rightarrow> fs_state \<Rightarrow> bool" where
  "inode_ok p s \<longleftrightarrow> p \<noteq> NULL \<and> dev_ok (dev s) \<and> extent_ok (dev s) (idata (inodes s p))"

lemma effectI:
  "\<lbrakk>s' = s\<lparr>blocks := (blocks s)(fs_device s := (dev s)\<lparr>sectors := D, read_cnt := r, write_cnt := w\<rparr>), heap := h\<rparr>;
    held b' + mset h = held b + mset (heap s)\<rbrakk> \<Longrightarrow> effect b s D b' s'"
  unfolding effect_def by blast

lemma effectE:
  assumes "effect b s D b' s'"
  obtains r w h where "s' = s\<lparr>blocks := (blocks s)(fs_device s := (dev s)\<lparr>sectors := D, read_cnt := r, write_cnt := w\<rparr>), heap := h\<rparr>"
    "held b' + mset h = held b + mset (heap s)"
  using assms unfolding effect_def by blast

lemma effect_refl: "sectors (dev s) = D \<Longrightarrow> effect b s D b s"
  unfolding effect_def by (intro exI [of _ "read_cnt (dev s)"] exI [of _ "write_cnt (dev s)"] exI [of _ "heap s"]) (auto simp: dev_def)

lemma effect_trans: "\<lbrakk>effect b s D b1 s1; effect b1 s1 D' b2 s2\<rbrakk> \<Longrightarrow> effect b s D' b2 s2"
  unfolding effect_def by (force simp: dev_def)

lemma effect_fields:
  assumes "effect b s D b' s'"
  shows "inodes s' = inodes s" "open_inodes s' = open_inodes s" "fs_device s' = fs_device s" "files s' = files s" "dirs s' = dirs s"
    "free_map s' = free_map s" "free_map_file s' = free_map_file s" "sectors (dev s') = D" "bsize (dev s') = bsize (dev s)"
    "btype (dev s') = btype (dev s)" "held b' + mset (heap s') = held b + mset (heap s)"
  using assms by (auto simp: effect_def dev_def)

lemma mem_ok_effect: "effect b s D b' s' \<Longrightarrow> mem_ok b s \<Longrightarrow> mem_ok b' s'"
proof -
  assume e: "effect b s D b' s'" and m: "mem_ok b s"
  have "NULL \<notin># held b + mset (heap s)" using m by (auto simp: mem_ok_def held_def)
  then have "NULL \<notin># held b' + mset (heap s')" unfolding effect_fields(11) [OF e] .
  moreover have "held b' + mset (heap s') \<noteq> {#}" unfolding effect_fields(11) [OF e] using m by (simp add: mem_ok_def)
  ultimately show "mem_ok b' s'" by (simp add: mem_ok_def)
qed

lemma dev_ok_effect: "\<lbrakk>effect b s D b' s'; dev_ok (dev s); \<And>sec. length (D sec) = 512\<rbrakk> \<Longrightarrow> dev_ok (dev s')"
  by (simp add: dev_ok_def effect_fields)

lemma inode_ok_effect: "\<lbrakk>effect b s D b' s'; inode_ok p s; \<And>sec. length (D sec) = 512\<rbrakk> \<Longrightarrow> inode_ok p s'"
  by (simp add: inode_ok_def dev_ok_effect extent_ok_def effect_fields)

lemma sdiv_nat: "int k sdiv 512 = int (k div 512)" "int k smod 512 = int (k mod 512)"
  by (simp_all add: signed_divide_int_def signed_modulo_int_def zdiv_int zmod_int sgn_if)

lemma sector_in_extent:
  assumes "extent_ok d i" "int k < dlength i"
  shows "start i + k div 512 < bsize d"
proof -
  have "k div 512 < sector_cnt (dlength i)" using assms(2) by (simp add: sector_cnt_def)
  then show ?thesis using assms(1) by (simp add: extent_ok_def)
qed

lemma byte_to_sector_ok:
  assumes "inode_ok p s" "int k < dlength (idata (inodes s p))"
  shows "byte_to_sector p (int k) s = Some (start (idata (inodes s p)) + k div 512)"
proof -
  let ?x = "start (idata (inodes s p)) + k div 512"
  have "?x < bsize (dev s)" using sector_in_extent assms by (simp add: inode_ok_def)
  then have "?x < 2 ^ 32" using assms(1) by (simp add: inode_ok_def dev_ok_def)
  then have "nat (int ?x mod 2 ^ 32) = ?x" by (simp add: nat_mod_distrib)
  then show ?thesis using assms by (simp add: byte_to_sector_def inode_ok_def sdiv_nat Let_def)
qed

definition chunk :: "nat \<Rightarrow> nat \<Rightarrow> nat \<Rightarrow> nat" where
  "chunk len n k = min n (min (len - k) (512 - k mod 512))"

lemma chunk_size_eq:
  assumes "inode_length p s = int len" "k < len"
  shows "chunk_size p (int n) (int k) s = int (chunk len n k)"
proof -
  have "k mod 512 < 512" by simp
  then show ?thesis using assms by (simp add: chunk_size_def chunk_def sdiv_nat Let_def of_nat_diff min_def) linarith
qed

lemma chunk_bounds: "0 < n \<Longrightarrow> k < len \<Longrightarrow> 0 < chunk len n k" "chunk len n k \<le> n" "k < len \<Longrightarrow> k + chunk len n k \<le> len"
    "k mod 512 + chunk len n k \<le> 512"
  by (auto simp: chunk_def min_def)

lemma get_bounce_ok:
  assumes "mem_ok b s"
  obtains b' s' where "get_bounce b s = (b', s')" "b' \<noteq> NULL" "effect b s (sectors (dev s)) b' s'"
proof (cases "b = NULL")
  case False then show ?thesis using that [of b s] by (simp add: get_bounce_def effect_refl)
next
  case True
  then obtain h hs where h: "heap s = h # hs" "h \<noteq> NULL" using assms by (cases "heap s") (auto simp: mem_ok_def held_def)
  have "effect b s (sectors (dev s)) h (s\<lparr>heap := hs\<rparr>)" unfolding effect_def using True h
    by (intro exI [of _ "read_cnt (dev s)"] exI [of _ "write_cnt (dev s)"] exI [of _ hs]) (auto simp: held_def dev_def)
  then show ?thesis using that [of h "s\<lparr>heap := hs\<rparr>"] True h by (simp add: get_bounce_def fs_malloc_def)
qed

lemma block_read_effect:
  assumes "sec < bsize (dev s)"
  obtains s' where "block_read (fs_device s) sec s = Some (sectors (dev s) sec, s')" "effect b s (sectors (dev s)) b s'"
proof -
  let ?s = "s\<lparr>blocks := (blocks s)(fs_device s := (dev s)\<lparr>read_cnt := (read_cnt (dev s) + 1) mod 2 ^ 64\<rparr>)\<rparr>"
  have "effect b s (sectors (dev s)) b ?s" unfolding effect_def
    by (intro exI [of _ "(read_cnt (dev s) + 1) mod 2 ^ 64"] exI [of _ "write_cnt (dev s)"] exI [of _ "heap s"]) simp
  then show ?thesis using that [of ?s] block_read_ok [of sec s "fs_device s"] assms by (simp add: dev_def)
qed

lemma block_write_effect:
  assumes "sec < bsize (dev s)" "dev_ok (dev s)"
  obtains s' where "block_write (fs_device s) sec bs s = Some s'" "effect b s ((sectors (dev s))(sec := bs)) b s'"
proof -
  let ?s = "s\<lparr>blocks := (blocks s)(fs_device s := (dev s)\<lparr>sectors := (sectors (dev s))(sec := bs), write_cnt := (write_cnt (dev s) + 1) mod 2 ^ 64\<rparr>)\<rparr>"
  have "effect b s ((sectors (dev s))(sec := bs)) b ?s" unfolding effect_def
    by (intro exI [of _ "read_cnt (dev s)"] exI [of _ "(write_cnt (dev s) + 1) mod 2 ^ 64"] exI [of _ "heap s"]) simp
  then show ?thesis using that [of ?s] block_write_ok [of sec s "fs_device s" bs] assms by (simp add: dev_def dev_ok_def)
qed

subsection \<open>The loops\<close>

text \<open>One iteration that reads a chunk, with and without the bounce buffer.\<close>

lemma read_loop_step:
  assumes "inode_ok p s" "mem_ok b s" "inode_length p s = int len" "k < len" "0 < n" "D = sectors (dev s)" "st = start (idata (inodes s p))"
    "c = chunk len n k"
  obtains b1 s1 where "effect b s D b1 s1"
    "read_loop p (int n) (int k) got b s = read_loop p (int (n - c)) (int (k + c)) (got @ get_bytes st k c D) b1 s1"
proof -
  have dk: "dev_ok (dev s)" using assms(1) by (simp add: inode_ok_def)
  have kl: "int k < dlength (idata (inodes s p))" using assms(3,4) by (simp add: inode_length_def)
  have sec: "st + k div 512 < bsize (dev s)" using sector_in_extent kl assms(1,7) by (simp add: inode_ok_def)
  have cb: "0 < c" "c \<le> n" "k mod 512 + c \<le> 512" using chunk_bounds assms(4,5,8) by auto
  have cs: "chunk_size p (int n) (int k) s = int c" using chunk_size_eq assms(3,4,8) by simp
  have g: "get_bytes st k c D = take c (drop (k mod 512) (D (st + k div 512)))"
    using dk assms(6) cb(3) by (intro get_bytes_chunk) (simp_all add: dev_ok_def)
  have len: "length (D (st + k div 512)) = 512" using dk assms(6) by (simp add: dev_ok_def)
  have bts: "byte_to_sector p (int k) s = Some (st + k div 512)" using byte_to_sector_ok [OF assms(1) kl] assms(7) by simp
  have ar: "int n - int c = int (n - c)" "int k + int c = int (k + c)" using cb(2) by simp_all
  show ?thesis
  proof (cases "k mod 512 = 0 \<and> c = 512")
    case True
    obtain s1 where s1: "block_read (fs_device s) (st + k div 512) s = Some (sectors (dev s) (st + k div 512), s1)" "effect b s (sectors (dev s)) b s1"
      using block_read_effect [OF sec] by blast
    have "read_loop p (int n) (int k) got b s = read_loop p (int (n - c)) (int (k + c)) (got @ get_bytes st k c D) b s1"
      using assms(5) True s1(1) bts cs cb(1) len
      by (subst read_loop.simps)
        (simp add: Let_def sdiv_nat g [unfolded conjunct2 [OF True]] ar [symmetric, unfolded conjunct2 [OF True]] flip: assms(6) del: of_nat_add of_nat_diff)
    then show ?thesis using that s1(2) assms(6) by blast
  next
    case False
    obtain b1 s1 where b1: "get_bounce b s = (b1, s1)" "b1 \<noteq> NULL" "effect b s (sectors (dev s)) b1 s1" using get_bounce_ok [OF assms(2)] by blast
    have sec1: "st + k div 512 < bsize (dev s1)" using sec b1(3) by (simp add: effect_fields)
    obtain s2 where s2: "block_read (fs_device s1) (st + k div 512) s1 = Some (sectors (dev s1) (st + k div 512), s2)" "effect b1 s1 (sectors (dev s1)) b1 s2"
      using block_read_effect [OF sec1] by blast
    have d1: "sectors (dev s1) = D" using b1(3) assms(6) by (simp add: effect_fields)
    have "read_loop p (int n) (int k) got b s = read_loop p (int (n - c)) (int (k + c)) (got @ get_bytes st k c D) b1 s2"
      using assms(5) False s2(1) b1(1,2) bts cs cb(1) d1
      by (subst read_loop.simps) (auto simp: Let_def sdiv_nat g ar [symmetric] simp del: of_nat_add of_nat_diff)
    then show ?thesis using that effect_trans [OF b1(3)] s2(2) d1 by metis
  qed
qed

lemma read_loop_ok:
  assumes "inode_ok p s" "mem_ok b s" "inode_length p s = int len" "D = sectors (dev s)" "st = start (idata (inodes s p))"
  shows "\<exists>b' s'. read_loop p (int n) (int k) got b s = Some (got @ get_bytes st k (min n (len - k)) D, b', s') \<and> effect b s D b' s'"
  using assms
proof (induction n arbitrary: k got b s rule: less_induct)
  case (less n)
  show ?case
  proof (cases "0 < n \<and> k < len")
    case False
    then have "read_loop p (int n) (int k) got b s = Some (got, b, s)"
    proof (cases "n = 0")
      case True then show ?thesis by (subst read_loop.simps) simp
    next
      case ne: False
      then have kl: "len \<le> k" using False by simp
      have "chunk_size p (int n) (int k) s \<le> 0" using less.prems(3) kl by (auto simp: chunk_size_def Let_def)
      then show ?thesis using ne less.prems(1) by (subst read_loop.simps) (simp add: Let_def byte_to_sector_def inode_ok_def)
    qed
    moreover have "min n (len - k) = 0" using False by auto
    ultimately show ?thesis using effect_refl [of s D b] less.prems(4) by (simp add: get_bytes_def)
  next
    case True
    define c where "c = chunk len n k"
    have c: "0 < c" "c \<le> n" "k + c \<le> len" using chunk_bounds True by (auto simp: c_def)
    obtain b1 s1 where s1: "effect b s D b1 s1"
      "read_loop p (int n) (int k) got b s = read_loop p (int (n - c)) (int (k + c)) (got @ get_bytes st k c D) b1 s1"
      using read_loop_step [OF less.prems(1-3) _ _ less.prems(4,5) c_def] True by blast
    have D: "\<And>sec. length (D sec) = 512" using less.prems(1,4) by (simp add: inode_ok_def dev_ok_def)
    have "\<exists>b' s'. read_loop p (int (n - c)) (int (k + c)) (got @ get_bytes st k c D) b1 s1 =
        Some ((got @ get_bytes st k c D) @ get_bytes st (k + c) (min (n - c) (len - (k + c))) D, b', s') \<and> effect b1 s1 D b' s'"
      using less.prems s1(1) True c
      by (intro less.IH) (simp_all add: inode_ok_effect [OF s1(1) _ D] mem_ok_effect [OF s1(1)] effect_fields [OF s1(1)] inode_length_def)
    then obtain b' s' where "read_loop p (int (n - c)) (int (k + c)) (got @ get_bytes st k c D) b1 s1 =
        Some (got @ get_bytes st k c D @ get_bytes st (k + c) (min (n - c) (len - (k + c))) D, b', s')" "effect b1 s1 D b' s'" by auto
    moreover have "min n (len - k) = c + min (n - c) (len - (k + c))" using c by linarith
    ultimately show ?thesis using s1 effect_trans by (metis get_bytes_append)
  qed
qed

text \<open>One iteration that writes a chunk.\<close>

lemma write_loop_step:
  assumes "inode_ok p s" "mem_ok b s" "inode_length p s = int len" "k < len" "0 < n" "D = sectors (dev s)" "st = start (idata (inodes s p))"
    "c = chunk len n k" "w + n \<le> length buf"
  obtains b1 s1 where "effect b s (put_bytes st k (take c (drop w buf)) D) b1 s1"
    "write_loop p buf (int n) (int k) (int w) b s = write_loop p buf (int (n - c)) (int (k + c)) (int (w + c)) b1 s1"
proof -
  have dk: "dev_ok (dev s)" using assms(1) by (simp add: inode_ok_def)
  have kl: "int k < dlength (idata (inodes s p))" using assms(3,4) by (simp add: inode_length_def)
  have sec: "st + k div 512 < bsize (dev s)" using sector_in_extent kl assms(1,7) by (simp add: inode_ok_def)
  have cb: "0 < c" "c \<le> n" "k mod 512 + c \<le> 512" using chunk_bounds assms(4,5,8) by auto
  have cs: "chunk_size p (int n) (int k) s = int c" using chunk_size_eq assms(3,4,8) by simp
  let ?new = "take c (drop w buf)"
  have new: "chunk_of buf (int w) (int c) = Some ?new" "length ?new = c" using assms(9) cb(2) by (simp_all add: chunk_of_def nat_add_distrib)
  have D: "length (D sec) = 512" for sec using dk assms(6) by (simp add: dev_ok_def)
  have p: "put_bytes st k ?new D = D(st + k div 512 := patch (k mod 512) ?new (D (st + k div 512)))"
    using D cb(3) new(2) by (intro put_bytes_chunk) simp_all
  have bts: "byte_to_sector p (int k) s = Some (st + k div 512)" using byte_to_sector_ok [OF assms(1) kl] assms(7) by simp
  have ar: "int n - int c = int (n - c)" "int k + int c = int (k + c)" "int w + int c = int (w + c)" using cb(2) by simp_all
  show ?thesis
  proof (cases "k mod 512 = 0 \<and> c = 512")
    case True
    then have "patch (k mod 512) ?new (D (st + k div 512)) = ?new" using new(2) D by (simp add: patch_def)
    then obtain s1 where s1: "block_write (fs_device s) (st + k div 512) ?new s = Some s1" "effect b s (put_bytes st k ?new D) b s1"
      using block_write_effect [OF sec dk] p assms(6) by metis
    have "write_loop p buf (int n) (int k) (int w) b s = write_loop p buf (int (n - c)) (int (k + c)) (int (w + c)) b s1"
      unfolding ar [symmetric] using assms(5) True s1(1) bts cs cb(1) new(1)
      by (subst write_loop.simps) (simp add: Let_def sdiv_nat)
    then show ?thesis using that s1(2) by blast
  next
    case False
    obtain b1 s1 where b1: "get_bounce b s = (b1, s1)" "b1 \<noteq> NULL" "effect b s (sectors (dev s)) b1 s1" using get_bounce_ok [OF assms(2)] by blast
    have d1: "sectors (dev s1) = D" using b1(3) assms(6) by (simp add: effect_fields)
    have sec1: "st + k div 512 < bsize (dev s1)" using sec b1(3) by (simp add: effect_fields)
    have old: "k mod 512 > 0 \<or> c < 512 - k mod 512" using False cb(3) by auto
    obtain s2 where s2: "block_read (fs_device s1) (st + k div 512) s1 = Some (sectors (dev s1) (st + k div 512), s2)" "effect b1 s1 (sectors (dev s1)) b1 s2"
      using block_read_effect [OF sec1] by blast
    have d2: "sectors (dev s2) = D" using s2(2) d1 by (simp add: effect_fields)
    have sec2: "st + k div 512 < bsize (dev s2)" "dev_ok (dev s2)"
      using sec1 s2(2) b1(3) dk D d1 by (simp_all add: effect_fields dev_ok_def)
    obtain s3 where s3: "block_write (fs_device s2) (st + k div 512) (patch (k mod 512) ?new (D (st + k div 512))) s2 = Some s3"
      "effect b1 s2 (put_bytes st k ?new D) b1 s3"
      using block_write_effect [OF sec2] p d2 by metis
    have "\<not> (int k smod 512 = 0 \<and> int c = 512)" "int k smod 512 > 0 \<or> int c < 512 - int k smod 512" "int k smod 512 \<ge> 0"
      using False old by (auto simp: sdiv_nat)
    then have "write_loop p buf (int n) (int k) (int w) b s = write_loop p buf (int (n - c)) (int (k + c)) (int (w + c)) b1 s3"
      unfolding ar [symmetric] using assms(5) s2(1) s3(1) b1(1,2) bts cs cb(1) d1 new(1)
      by (subst write_loop.simps) (auto simp: Let_def sdiv_nat)
    moreover have "effect b s (put_bytes st k ?new D) b1 s3" using effect_trans [OF effect_trans [OF b1(3) s2(2)] s3(2)] .
    ultimately show ?thesis using that by blast
  qed
qed

lemma write_loop_ok:
  assumes "inode_ok p s" "mem_ok b s" "inode_length p s = int len" "D = sectors (dev s)" "st = start (idata (inodes s p))" "w + n \<le> length buf"
  shows "\<exists>b' s'. write_loop p buf (int n) (int k) (int w) b s = Some (int (w + min n (len - k)), b', s') \<and>
    effect b s (put_bytes st k (take (min n (len - k)) (drop w buf)) D) b' s'"
  using assms
proof (induction n arbitrary: k w D b s rule: less_induct)
  case (less n)
  show ?case
  proof (cases "0 < n \<and> k < len")
    case False
    then have "write_loop p buf (int n) (int k) (int w) b s = Some (int w, b, s)"
    proof (cases "n = 0")
      case True then show ?thesis by (subst write_loop.simps) simp
    next
      case ne: False
      then have kl: "len \<le> k" using False by simp
      have "chunk_size p (int n) (int k) s \<le> 0" using less.prems(3) kl by (auto simp: chunk_size_def Let_def)
      then show ?thesis using ne less.prems(1) by (subst write_loop.simps) (simp add: Let_def byte_to_sector_def inode_ok_def)
    qed
    moreover have "min n (len - k) = 0" using False by auto
    ultimately show ?thesis using effect_refl [of s D b] less.prems(4) by simp
  next
    case True
    define c where "c = chunk len n k"
    have c: "0 < c" "c \<le> n" "k + c \<le> len" using chunk_bounds True by (auto simp: c_def)
    let ?new = "take c (drop w buf)" and ?m = "min (n - c) (len - (k + c))"
    let ?D = "put_bytes st k ?new D"
    obtain b1 s1 where s1: "effect b s ?D b1 s1"
      "write_loop p buf (int n) (int k) (int w) b s = write_loop p buf (int (n - c)) (int (k + c)) (int (w + c)) b1 s1"
      using write_loop_step [OF less.prems(1-3) _ _ less.prems(4,5) c_def less.prems(6)] True by blast
    have D: "\<And>sec. length (?D sec) = 512" using less.prems(1,4) by (simp add: inode_ok_def dev_ok_def)
    have "\<exists>b' s'. write_loop p buf (int (n - c)) (int (k + c)) (int (w + c)) b1 s1 = Some (int (w + c + ?m), b', s') \<and>
        effect b1 s1 (put_bytes st (k + c) (take ?m (drop (w + c) buf)) ?D) b' s'"
      using less.prems s1(1) True c
      by (intro less.IH) (simp_all add: inode_ok_effect [OF s1(1) _ D] mem_ok_effect [OF s1(1)] effect_fields [OF s1(1)] inode_length_def)
    then obtain b' s' where s': "write_loop p buf (int (n - c)) (int (k + c)) (int (w + c)) b1 s1 = Some (int (w + c + ?m), b', s')"
      "effect b1 s1 (put_bytes st (k + c) (take ?m (drop (w + c) buf)) ?D) b' s'" by blast
    have m: "min n (len - k) = c + ?m" using c by linarith
    have l: "length ?new = c" using less.prems(6) c(2) by simp
    have "put_bytes st (k + c) (take ?m (drop (w + c) buf)) ?D = put_bytes st k (take (c + ?m) (drop w buf)) D"
      using put_bytes_append [of st k ?new "take ?m (drop (w + c) buf)" D] unfolding l by (simp only: take_add drop_drop add.commute [of c w])
    then show ?thesis using s1(2) s'(1) effect_trans [OF s1(1) s'(2)] unfolding m by (simp add: add.assoc)
  qed
qed

subsection \<open>Reading and writing\<close>

abbreviation quiet :: "fs_state \<Rightarrow> (nat \<Rightarrow> byte list) \<Rightarrow> fs_state \<Rightarrow> bool" where
  "quiet s D s' \<equiv> effect NULL s D NULL s'"

definition content :: "addr \<Rightarrow> fs_state \<Rightarrow> byte list" where
  "content p s = get_bytes (start (idata (inodes s p))) 0 (nat (inode_length p s)) (sectors (dev s))"

lemma length_content [simp]: "length (content p s) = nat (inode_length p s)"
  by (simp add: content_def)

lemma quiet_free: "effect NULL s D b s' \<Longrightarrow> quiet s D (fs_free b s')"
proof (erule effectE)
  fix r w h
  assume "s' = s\<lparr>blocks := (blocks s)(fs_device s := (dev s)\<lparr>sectors := D, read_cnt := r, write_cnt := w\<rparr>), heap := h\<rparr>"
    "held b + mset h = held NULL + mset (heap s)"
  then show "quiet s D (fs_free b s')"
    by (intro effectI [where r = r and w = w and h = "if b = NULL then h else h @ [b]"]) (auto simp: fs_free_def held_def)
qed

lemma take_drop_get_bytes: "take n (drop k (get_bytes st 0 len D)) = get_bytes st k (min n (len - k)) D"
  by (rule nth_equalityI) (auto simp: nth_get_bytes)

lemma inode_read_at_ok:
  assumes "inode_ok p s" "mem_ok NULL s"
  obtains s' where "inode_read_at p (int n) (int k) s = Some (take n (drop k (content p s)), s')" "quiet s (sectors (dev s)) s'"
proof -
  have l: "inode_length p s = int (nat (inode_length p s))" using assms(1) by (simp add: inode_ok_def extent_ok_def inode_length_def)
  obtain b s' where "read_loop p (int n) (int k) [] NULL s =
      Some ([] @ get_bytes (start (idata (inodes s p))) k (min n (nat (inode_length p s) - k)) (sectors (dev s)), b, s')"
    "effect NULL s (sectors (dev s)) b s'"
    using read_loop_ok [OF assms l refl refl] by blast
  then show ?thesis using that [of "fs_free b s'"] quiet_free by (simp add: inode_read_at_def content_def take_drop_get_bytes)
qed

lemma effect_upd_inode: "effect b (upd_inode p f s) D b' s' \<Longrightarrow> f' (f (inodes s p)) = inodes s p \<Longrightarrow> effect b s D b' (upd_inode p f' s')"
proof (erule effectE)
  fix r w h
  assume "s' = (upd_inode p f s)\<lparr>blocks := (blocks (upd_inode p f s))(fs_device (upd_inode p f s) := (dev (upd_inode p f s))\<lparr>sectors := D, read_cnt := r, write_cnt := w\<rparr>), heap := h\<rparr>"
    "held b' + mset h = held b + mset (heap (upd_inode p f s))" "f' (f (inodes s p)) = inodes s p"
  then show "effect b s D b' (upd_inode p f' s')"
    by (intro effectI [where r = r and w = w and h = h]) (simp_all add: upd_inode_def dev_def)
qed

definition writable :: "addr \<Rightarrow> fs_state \<Rightarrow> bool" where
  "writable p s \<longleftrightarrow> deny_write_cnt (inodes s p) = 0 \<and> isema (inodes s p) > 0"

lemma inode_write_at_ok:
  assumes "inode_ok p s" "mem_ok NULL s" "writable p s" "n \<le> length buf" "m = min n (nat (inode_length p s) - k)"
  obtains s' where "inode_write_at p buf (int n) (int k) s = Some (int m, s')"
    "quiet s (put_bytes (start (idata (inodes s p))) k (take m buf) (sectors (dev s))) s'"
proof -
  let ?f = "\<lambda>i. i\<lparr>isema := isema i - 1\<rparr>" and ?g = "\<lambda>i. i\<lparr>isema := isema i + 1\<rparr>"
  let ?s = "upd_inode p ?f s" and ?D = "put_bytes (start (idata (inodes s p))) k (take m buf) (sectors (dev s))"
  have i: "inode_ok p ?s" "mem_ok NULL ?s" "inode_length p ?s = int (nat (inode_length p s))" "sectors (dev ?s) = sectors (dev s)"
    "start (idata (inodes ?s p)) = start (idata (inodes s p))"
    using assms(1,2) by (simp_all add: inode_ok_def extent_ok_def inode_length_def upd_inode_def dev_def mem_ok_def)
  obtain b s' where w: "write_loop p buf (int n) (int k) (int 0) NULL ?s = Some (int (0 + m), b, s')" "effect NULL ?s ?D b s'"
    using write_loop_ok [OF i(1-3) refl refl, of 0 n buf k] assms(4,5) i(4,5) by auto
  have "effect NULL s ?D b (upd_inode p ?g s')" using w(2) assms(3) by (rule_tac effect_upd_inode) (simp_all add: writable_def, cases "inodes s p", simp)
  then have "quiet s ?D (fs_free b (upd_inode p ?g s'))" by (rule quiet_free)
  then show ?thesis using that w(1) assms(3) by (simp add: inode_write_at_def writable_def Let_def)
qed

lemma content_quiet: "quiet s D s' \<Longrightarrow> content p s' = get_bytes (start (idata (inodes s p))) 0 (nat (inode_length p s)) D"
  by (simp add: content_def inode_length_def effect_fields)

lemma content_same: "quiet s (sectors (dev s)) s' \<Longrightarrow> content p s' = content p s"
  by (simp add: content_quiet) (simp add: content_def)

definition extent :: "inode_disk \<Rightarrow> nat set" where
  "extent i = {start i ..< start i + sector_cnt (dlength i)}"

text \<open>Writing within the extent of one inode leaves the sectors outside it alone.\<close>

lemma put_bytes_outside:
  assumes "\<And>sec. length (D sec) = 512" "length bs \<le> nat (dlength i) - k" "sec \<notin> extent i"
  shows "put_bytes (start i) k bs D sec = D sec"
proof (cases "bs = []")
  case False
  have kl: "k + length bs \<le> nat (dlength i)" using assms(2) False by (cases bs) auto
  have "nat (dlength i) \<le> sector_cnt (dlength i) * 512" by (simp add: sector_cnt_def)
  then show ?thesis using assms(1,3) kl by (intro put_bytes_other) (auto simp: extent_def)
qed simp

lemma content_other:
  assumes "quiet s D s'" "\<And>sec. sec \<in> extent (idata (inodes s q)) \<Longrightarrow> D sec = sectors (dev s) sec"
  shows "content q s' = content q s"
proof -
  let ?i = "idata (inodes s q)"
  have "sec \<in> extent ?i" if "start ?i \<le> sec" "sec * 512 < start ?i * 512 + nat (dlength ?i)" for sec
  proof -
    have "nat (dlength ?i) \<le> sector_cnt (dlength ?i) * 512" by (simp add: sector_cnt_def)
    then show ?thesis using that by (simp add: extent_def)
  qed
  then show ?thesis unfolding content_quiet [OF assms(1)] unfolding content_def
    by (intro get_bytes_cong) (use assms(2) in \<open>auto simp: inode_length_def\<close>)
qed

text \<open>Only the sectors of the inode change.\<close>

definition touches :: "addr \<Rightarrow> fs_state \<Rightarrow> fs_state \<Rightarrow> bool" where
  "touches p s s' \<longleftrightarrow> (\<exists>D. quiet s D s' \<and> (\<forall>sec. length (D sec) = 512) \<and>
     (\<forall>sec. sec \<notin> extent (idata (inodes s p)) \<longrightarrow> D sec = sectors (dev s) sec))"

lemma quiet_touches: "quiet s (sectors (dev s)) s' \<Longrightarrow> dev_ok (dev s) \<Longrightarrow> touches p s s'"
  unfolding touches_def by (auto simp: dev_ok_def)

lemma touches_trans: "quiet s (sectors (dev s)) s1 \<Longrightarrow> touches p s1 s2 \<Longrightarrow> touches p s s2"
  unfolding touches_def by (metis effect_fields(1,8) effect_trans)

lemma inode_write_touches:
  assumes "inode_ok p s" "mem_ok NULL s" "writable p s" "n \<le> length buf"
  obtains s' where "inode_write_at p buf (int n) (int k) s = Some (int (min n (length (content p s) - k)), s')" "touches p s s'"
    "content p s' = patch k (take (min n (length (content p s) - k)) buf) (content p s)"
proof -
  let ?m = "min n (nat (inode_length p s) - k)"
  obtain s' where s': "inode_write_at p buf (int n) (int k) s = Some (int ?m, s')"
    "quiet s (put_bytes (start (idata (inodes s p))) k (take ?m buf) (sectors (dev s))) s'"
    using inode_write_at_ok [OF assms refl] by blast
  have D: "\<And>sec. length (sectors (dev s) sec) = 512" using assms(1) by (simp add: inode_ok_def dev_ok_def)
  have "put_bytes (start (idata (inodes s p))) k (take ?m buf) (sectors (dev s)) sec = sectors (dev s) sec" if "sec \<notin> extent (idata (inodes s p))" for sec
    using that D by (intro put_bytes_outside) (auto simp: inode_length_def)
  then have t: "touches p s s'" using s'(2) D unfolding touches_def by fastforce
  have "content p s' = patch k (take ?m buf) (content p s)"
  proof (cases "k < nat (inode_length p s)")
    case True
    then have "k + length (take ?m buf) \<le> nat (inode_length p s)" by simp
    then show ?thesis using get_put_bytes [of "sectors (dev s)", OF D]
      by (simp add: content_quiet [OF s'(2)]) (simp add: content_def)
  next
    case False
    then show ?thesis using content_same [of s s'] s'(2) by (simp add: patch_def)
  qed
  then show ?thesis using that s'(1) t by (simp add: length_content)
qed

text \<open>C26: \<open>inode_write_at\<close> writes the bytes that fit into the file at the offset, and returns their number.  Nothing else of the
  file changes, no file with other sectors changes, no memory is lost, and reading the file at any offset gives the new bytes.\<close>
theorem inode_write_then_read:
  assumes "inode_ok p s" "mem_ok NULL s" "writable p s" "n \<le> length buf"
  shows "\<exists>s'. let m = min n (nat (inode_length p s) - k) in
    inode_write_at p buf (int n) (int k) s = Some (int m, s') \<and> content p s' = patch k (take m buf) (content p s) \<and>
    (\<forall>q. extent (idata (inodes s q)) \<inter> extent (idata (inodes s p)) = {} \<longrightarrow> content q s' = content q s) \<and>
    mset (heap s') = mset (heap s) \<and>
    (\<forall>j i. \<exists>s''. inode_read_at p (int j) (int i) s' = Some (take j (drop i (content p s')), s''))"
proof -
  obtain s' where s': "inode_write_at p buf (int n) (int k) s = Some (int (min n (length (content p s) - k)), s')" "touches p s s'"
    "content p s' = patch k (take (min n (length (content p s) - k)) buf) (content p s)"
    using inode_write_touches [OF assms] by blast
  obtain D where D: "quiet s D s'" "\<And>sec. length (D sec) = 512" "\<And>sec. sec \<notin> extent (idata (inodes s p)) \<Longrightarrow> D sec = sectors (dev s) sec"
    using s'(2) unfolding touches_def by blast
  have o: "content q s' = content q s" if "extent (idata (inodes s q)) \<inter> extent (idata (inodes s p)) = {}" for q
    using that D(3) by (intro content_other [OF D(1)]) blast
  have r: "\<exists>s''. inode_read_at p (int j) (int i) s' = Some (take j (drop i (content p s')), s'')" for j i
    using inode_read_at_ok [OF inode_ok_effect [OF D(1) assms(1) D(2)] mem_ok_effect [OF D(1) assms(2)]] by metis
  show ?thesis using s'(1,3) o r effect_fields(11) [OF D(1)] by (intro exI [of _ s']) (simp add: held_def Let_def)
qed

definition demo_fs :: fs_state where
  "demo_fs = \<lparr>blocks = (\<lambda>_. \<lparr>bname = ''hda'', btype = BLOCK_FILESYS, bsize = 100, sectors = (\<lambda>_. replicate 512 7), read_cnt = 0, write_cnt = 0\<rparr>),
     all_blocks = [1], block_by_role = (\<lambda>_. 1), fs_device = 1, heap = [50, 60],
     inodes = (\<lambda>_. \<lparr>isector = 3, open_cnt = 1, removed = False, deny_write_cnt = 0, idata = \<lparr>start = 10, dlength = 700, magic = INODE_MAGIC\<rparr>, isema = 1\<rparr>),
     open_inodes = [40], files = (\<lambda>_. \<lparr>finode = 40, fpos = 0, fdeny_write = False\<rparr>), dirs = (\<lambda>_. \<lparr>dinode = 40, dpos = 0\<rparr>),
     free_map = \<lparr>bit_cnt = 0, bits = []\<rparr>, free_map_file = 0\<rparr>"

lemma demo_fs_ok: "inode_ok 40 demo_fs" "mem_ok NULL demo_fs" "writable 40 demo_fs" "inode_length 40 demo_fs = 700"
  by (simp_all add: demo_fs_def inode_ok_def dev_ok_def extent_ok_def sector_cnt_def mem_ok_def writable_def held_def dev_def inode_length_def)

theorem inode_write_then_read_witness:
  "\<exists>s'. inode_write_at 40 [1, 2, 3] 3 511 demo_fs = Some (3, s') \<and> content 40 s' = patch 511 [1, 2, 3] (content 40 demo_fs)"
  using inode_write_then_read [OF demo_fs_ok(1-3), of 3 "[1, 2, 3]" 511] by (auto simp: demo_fs_ok(4) Let_def)

end
