(* ===== verification/Directory_Props.thy ===== *)
theory Directory_Props
  imports Directory Inode_Props Bitmap_Props
begin

text \<open>
  A directory as a finite map from names to sectors.  \<open>dmap\<close> reads the map off the bytes of the directory; the loops that search
  compute it, and adding and removing an entry update it.
\<close>

declare length_content [simp del]

subsection \<open>Entries\<close>

definition ent :: "byte list \<Rightarrow> nat \<Rightarrow> byte list" where
  "ent c j = take 20 (drop (20 * j) c)"

definition ent_name :: "byte list \<Rightarrow> byte list" where
  "ent_name e = takeWhile (\<lambda>b. b \<noteq> 0) (ename (bytes_dir_entry e))"

definition matches :: "byte list \<Rightarrow> byte list \<Rightarrow> bool" where
  "matches name e \<longleftrightarrow> in_use (bytes_dir_entry e) \<and> ent_name e = name"

definition find_ent :: "(byte list \<Rightarrow> bool) \<Rightarrow> byte list \<Rightarrow> nat option" where
  "find_ent P c = find (\<lambda>j. P (ent c j)) [0..<length c div 20]"

definition dmap :: "byte list \<Rightarrow> byte list \<Rightarrow> nat option" where
  "dmap c name = map_option (\<lambda>j. inode_sector (bytes_dir_entry (ent c j))) (find_ent (matches name) c)"

text \<open>A directory consists of whole entries, the names of the entries in use are terminated, and no name occurs twice.\<close>

definition dir_ok :: "byte list \<Rightarrow> bool" where
  "dir_ok c \<longleftrightarrow> 20 dvd length c \<and>
     (\<forall>j < length c div 20. in_use (bytes_dir_entry (ent c j)) \<longrightarrow> 0 \<in> set (ename (bytes_dir_entry (ent c j)))) \<and>
     (\<forall>i < length c div 20. \<forall>j < length c div 20. in_use (bytes_dir_entry (ent c i)) \<and> in_use (bytes_dir_entry (ent c j)) \<and>
        ent_name (ent c i) = ent_name (ent c j) \<longrightarrow> i = j)"

lemma dir_ok_unique:
  "\<lbrakk>dir_ok c; matches name (ent c i); matches name (ent c j); i < length c div 20; j < length c div 20\<rbrakk> \<Longrightarrow> i = j"
  by (simp add: dir_ok_def matches_def)

lemma length_ent: "20 dvd length c \<Longrightarrow> j < length c div 20 \<Longrightarrow> length (ent c j) = 20"
  by (auto simp: ent_def elim!: dvdE)

lemma le32_word_bytes: "le32_at (word_bytes w @ xs) 0 = w"
  by (simp add: le32_at_def word_bytes_def bytes_word_bytes)

lemma dir_entry_round_trip:
  assumes "inode_sector e < 2 ^ 32" "length (ename e) = 15"
  shows "bytes_dir_entry (dir_entry_bytes e) = e" "length (dir_entry_bytes e) = 20"
proof -
  have "unat (of_nat (inode_sector e) :: 32 word) = inode_sector e" using assms(1) by (simp add: unat_of_nat)
  then show "bytes_dir_entry (dir_entry_bytes e) = e" using assms(2)
    by (simp add: bytes_dir_entry_def dir_entry_bytes_def le32_word_bytes) (simp add: word_bytes_def nth_append)
  show "length (dir_entry_bytes e) = 20" using assms(2) by (simp add: dir_entry_bytes_def word_bytes_def)
qed

lemma ent_patch:
  assumes "20 * j + 20 \<le> length c" "length new = 20"
  shows "ent (patch (20 * j) new c) i = (if i = j then new else ent c i)" "length (patch (20 * j) new c) = length c"
proof -
  show l: "length (patch (20 * j) new c) = length c" using assms by simp
  show "ent (patch (20 * j) new c) i = (if i = j then new else ent c i)"
  proof (rule nth_equalityI)
    show "length (ent (patch (20 * j) new c) i) = length (if i = j then new else ent c i)"
      using assms l by (simp add: ent_def)
    fix x assume "x < length (ent (patch (20 * j) new c) i)"
    then have x: "x < 20" "20 * i + x < length c" using l by (simp_all add: ent_def less_diff_conv add.commute)
    then have "20 * j \<le> 20 * i + x \<and> 20 * i + x < 20 * j + 20 \<longleftrightarrow> i = j" by linarith
    then show "ent (patch (20 * j) new c) i ! x = (if i = j then new else ent c i) ! x"
      using x assms l by (auto simp: ent_def nth_patch)
  qed
qed

lemma name_eq_ok: "0 \<in> set (ename (bytes_dir_entry e)) \<Longrightarrow> name_eq name (ename (bytes_dir_entry e)) = Some (name = ent_name e)"
  by (simp add: name_eq_def ent_name_def)

text \<open>What a search finds.\<close>

lemma find_upt_Some: "find P [i..<n] = Some j \<longleftrightarrow> i \<le> j \<and> j < n \<and> P j \<and> (\<forall>k. i \<le> k \<and> k < j \<longrightarrow> \<not> P k)"
proof (induction "n - i" arbitrary: i)
  case 0 then show ?case by simp
next
  case (Suc x)
  then have "[i..<n] = i # [Suc i..<n]" by (simp add: upt_conv_Cons)
  then show ?case using Suc by (auto simp: le_Suc_eq Suc_le_eq less_Suc_eq_le) (metis le_eq_less_or_eq less_eq_Suc_le)+
qed

lemma find_upt_None: "find P [i..<n] = None \<longleftrightarrow> (\<forall>k. i \<le> k \<and> k < n \<longrightarrow> \<not> P k)"
  by (auto simp: find_None_iff)

lemma dmap_None: "dmap c name = None \<longleftrightarrow> (\<forall>j < length c div 20. \<not> matches name (ent c j))"
  by (simp add: dmap_def find_ent_def find_upt_None)

lemma dmap_Some:
  assumes "dir_ok c"
  shows "dmap c name = Some sec \<longleftrightarrow> (\<exists>j < length c div 20. matches name (ent c j) \<and> inode_sector (bytes_dir_entry (ent c j)) = sec)"
proof
  assume "dmap c name = Some sec"
  then show "\<exists>j < length c div 20. matches name (ent c j) \<and> inode_sector (bytes_dir_entry (ent c j)) = sec"
    by (auto simp: dmap_def find_ent_def find_upt_Some)
next
  assume "\<exists>j < length c div 20. matches name (ent c j) \<and> inode_sector (bytes_dir_entry (ent c j)) = sec"
  then obtain j where j: "j < length c div 20" "matches name (ent c j)" "inode_sector (bytes_dir_entry (ent c j)) = sec" by blast
  have "\<not> matches name (ent c k)" if "k < j" for k
    using dir_ok_unique [OF assms _ j(2), of k] j(1) that by auto
  then have "find_ent (matches name) c = Some j" using j(1,2) by (simp add: find_ent_def find_upt_Some)
  then show "dmap c name = Some sec" using j(3) by (simp add: dmap_def)
qed

subsection \<open>The searches\<close>

text \<open>Both loops read one entry after the other.\<close>

lemma read_ent:
  assumes "inode_ok p s" "mem_ok NULL s" "20 dvd length (content p s)" "j \<le> length (content p s) div 20"
  obtains s' where "inode_read_at p (int ENTRY_SIZE) (int (20 * j)) s = Some (if j < length (content p s) div 20 then ent (content p s) j else [], s')"
    "quiet s (sectors (dev s)) s'"
proof -
  obtain s' where s': "inode_read_at p (int 20) (int (20 * j)) s = Some (take 20 (drop (20 * j) (content p s)), s')" "quiet s (sectors (dev s)) s'"
    using inode_read_at_ok [OF assms(1,2)] by blast
  have "take 20 (drop (20 * j) (content p s)) = []" if "\<not> j < length (content p s) div 20" using that assms(3,4) by (auto elim!: dvdE)
  then have "take 20 (drop (20 * j) (content p s)) = (if j < length (content p s) div 20 then ent (content p s) j else [])" by (simp add: ent_def)
  then show ?thesis using that s' by (simp add: ENTRY_SIZE_def)
qed

lemma quiet_inode:
  assumes "quiet s (sectors (dev s)) s'" "inode_ok p s" "mem_ok NULL s"
  shows "inode_ok p s'" "mem_ok NULL s'" "content p s' = content p s" "sectors (dev s') = sectors (dev s)"
proof -
  have "\<And>sec. length (sectors (dev s) sec) = 512" using assms(2) by (simp add: inode_ok_def dev_ok_def)
  then show "inode_ok p s'" using inode_ok_effect [OF assms(1,2)] by simp
qed (use assms in \<open>simp_all add: mem_ok_effect content_same effect_fields\<close>)

lemma content_lt: "inode_ok p s \<Longrightarrow> length (content p s) < 2 ^ 31 - 512"
  by (simp add: length_content inode_ok_def extent_ok_def inode_length_def nat_less_iff)

lemma lookup_loop_ok:
  assumes "inode_ok p s" "mem_ok NULL s" "dir_ok c" "c = content p s" "i \<le> length c div 20"
  shows "\<exists>s'. lookup_loop p name (20 * i) s = Some (map_option (\<lambda>j. (ent c j, 20 * j)) (find (\<lambda>j. matches name (ent c j)) [i..<length c div 20]), s') \<and>
    quiet s (sectors (dev s)) s'"
  using assms
proof (induction "length c div 20 - i" arbitrary: i s)
  case 0
  obtain s' where "inode_read_at p (int ENTRY_SIZE) (int (20 * i)) s = Some ([], s')" "quiet s (sectors (dev s)) s'"
    using read_ent [OF 0(2,3), of i] 0 by (auto simp: dir_ok_def)
  moreover have "in_s32 (int (20 * i))" using content_lt [OF 0(2)] 0 by (auto simp: in_s32_def)
  ultimately show ?case using 0 by (subst lookup_loop.simps) (simp add: ENTRY_SIZE_def)
next
  case (Suc x)
  then have i: "i < length c div 20" by simp
  obtain s1 where s1: "inode_read_at p (int ENTRY_SIZE) (int (20 * i)) s = Some (ent c i, s1)" "quiet s (sectors (dev s)) s1"
    using read_ent [OF Suc(3,4), of i] Suc i by (auto simp: dir_ok_def)
  have r: "in_s32 (int (20 * i))" "20 * i + 20 < 2 ^ 32" using content_lt [OF Suc(3)] Suc(6) i by (auto simp: in_s32_def)
  have l: "length (ent c i) = 20" using length_ent i Suc(5) by (simp add: dir_ok_def)
  have eq: "(if in_use (bytes_dir_entry (ent c i)) then name_eq name (ename (bytes_dir_entry (ent c i))) else Some False) = Some (matches name (ent c i))"
    using Suc(5) i by (auto simp: matches_def name_eq_ok dir_ok_def)
  have u: "[i..<length c div 20] = i # [Suc i..<length c div 20]" using i by (simp add: upt_conv_Cons)
  have xi: "x = length c div 20 - Suc i" using Suc(2) by simp
  show ?case
  proof (cases "matches name (ent c i)")
    case True
    then show ?thesis using s1 r l eq by (subst lookup_loop.simps) (simp add: u ENTRY_SIZE_def)
  next
    case False
    note q = quiet_inode [OF s1(2) Suc(3,4)]
    obtain s' where s': "lookup_loop p name (20 * Suc i) s1 =
        Some (map_option (\<lambda>j. (ent c j, 20 * j)) (find (\<lambda>j. matches name (ent c j)) [Suc i..<length c div 20]), s')" "quiet s1 (sectors (dev s1)) s'"
      using Suc(1) [OF xi q(1,2) Suc(5)] Suc(6) i q(3) by auto
    have "lookup_loop p name (20 * i) s = lookup_loop p name (20 * Suc i) s1"
      using s1 r l eq False by (subst lookup_loop.simps) (simp add: ENTRY_SIZE_def add.commute)
    then show ?thesis using s' False effect_trans [OF s1(2)] q(4) by (simp add: u)
  qed
qed

lemma slot_loop_ok:
  assumes "inode_ok p s" "mem_ok NULL s" "20 dvd length c" "c = content p s" "i \<le> length c div 20" "length e = 20"
  shows "\<exists>e' s'. slot_loop p e (20 * i) s = Some (e', (case find (\<lambda>j. \<not> in_use (bytes_dir_entry (ent c j))) [i..<length c div 20] of
      None \<Rightarrow> length c | Some j \<Rightarrow> 20 * j), s') \<and> length e' = 20 \<and> quiet s (sectors (dev s)) s'"
  using assms
proof (induction "length c div 20 - i" arbitrary: i e s)
  case 0
  obtain s' where r: "inode_read_at p (int ENTRY_SIZE) (int (20 * i)) s = Some ([], s')" "quiet s (sectors (dev s)) s'"
    using read_ent [OF 0(2,3), of i] 0 by auto
  have i: "i = length c div 20" using 0 by simp
  then have "slot_loop p e (20 * i) s = Some (e, 20 * i, s')" using r(1) by (subst slot_loop.simps) (simp add: ENTRY_SIZE_def overwrite_def)
  moreover have "20 * i = length c" unfolding i using 0(4) by simp
  ultimately show ?case using 0(7) r(2) i by simp
next
  case (Suc x)
  then have i: "i < length c div 20" by simp
  obtain s1 where s1: "inode_read_at p (int ENTRY_SIZE) (int (20 * i)) s = Some (ent c i, s1)" "quiet s (sectors (dev s)) s1"
    using read_ent [OF Suc(3,4), of i] Suc i by auto
  have l: "length (ent c i) = 20" using length_ent i Suc(5) by simp
  then have ov: "overwrite (ent c i) e = ent c i" using Suc(8) by (simp add: overwrite_def)
  have u: "[i..<length c div 20] = i # [Suc i..<length c div 20]" using i by (simp add: upt_conv_Cons)
  have xi: "x = length c div 20 - Suc i" using Suc(2) by simp
  show ?case
  proof (cases "in_use (bytes_dir_entry (ent c i))")
    case False
    then show ?thesis using s1 l ov by (subst slot_loop.simps) (simp add: u ENTRY_SIZE_def)
  next
    case True
    note q = quiet_inode [OF s1(2) Suc(3,4)]
    obtain e' s' where s': "slot_loop p (ent c i) (20 * Suc i) s1 = Some (e', (case find (\<lambda>j. \<not> in_use (bytes_dir_entry (ent c j))) [Suc i..<length c div 20] of
      None \<Rightarrow> length c | Some j \<Rightarrow> 20 * j), s')" "length e' = 20" "quiet s1 (sectors (dev s1)) s'"
      using Suc(1) [OF xi q(1,2) Suc(5) _ _ l] Suc(6) i q(3) by auto
    have "slot_loop p e (20 * i) s = slot_loop p (ent c i) (20 * Suc i) s1"
      using s1 l ov True by (subst slot_loop.simps) (simp add: ENTRY_SIZE_def add.commute)
    then show ?thesis using s' True effect_trans [OF s1(2)] q(4) by (simp add: u)
  qed
qed

subsection \<open>The map after a change\<close>

lemma option_eqI: "(\<And>v. a = Some v \<longleftrightarrow> b = Some v) \<Longrightarrow> a = b"
  by (cases a; cases b) auto

lemma patch_ent:
  assumes "20 dvd length c" "j < length c div 20" "length new = 20"
  shows "length (patch (20 * j) new c) = length c" "ent (patch (20 * j) new c) i = (if i = j then new else ent c i)"
proof -
  have "20 * j + 20 \<le> length c" using assms(1,2) by (auto elim!: dvdE)
  then show "length (patch (20 * j) new c) = length c" "ent (patch (20 * j) new c) i = (if i = j then new else ent c i)"
    using ent_patch [of j c new] assms(3) by simp_all
qed

lemma dir_put:
  assumes "dir_ok c" "j < length c div 20" "\<not> in_use (bytes_dir_entry (ent c j))" "dmap c name = None" "length new = 20"
    "in_use (bytes_dir_entry new)" "0 \<in> set (ename (bytes_dir_entry new))" "ent_name new = name"
  shows "dir_ok (patch (20 * j) new c)" "dmap (patch (20 * j) new c) = (dmap c)(name \<mapsto> inode_sector (bytes_dir_entry new))"
proof -
  have d: "20 dvd length c" using assms(1) by (simp add: dir_ok_def)
  note pe = patch_ent [OF d assms(2,5)]
  have nm: False if "i < length c div 20" "in_use (bytes_dir_entry (ent c i))" "ent_name (ent c i) = name" for i
    using assms(4) that by (simp add: dmap_None matches_def)
  show ok: "dir_ok (patch (20 * j) new c)"
    unfolding dir_ok_def pe using assms(1,6-8) by (auto simp: dir_ok_def dest: nm)
  show "dmap (patch (20 * j) new c) = (dmap c)(name \<mapsto> inode_sector (bytes_dir_entry new))"
  proof (rule ext, rule option_eqI)
    fix x v
    have "matches x new \<longleftrightarrow> x = name" "\<not> matches x (ent c j)" using assms(3,6,8) by (auto simp: matches_def)
    moreover have "\<not> matches name (ent c i)" if "i < length c div 20" for i using nm [OF that] by (auto simp: matches_def)
    ultimately show "dmap (patch (20 * j) new c) x = Some v \<longleftrightarrow> ((dmap c)(name \<mapsto> inode_sector (bytes_dir_entry new))) x = Some v"
      unfolding dmap_Some [OF ok] pe fun_upd_apply using assms(2) dmap_Some [OF assms(1), of x v] by (cases "x = name") force+
  qed
qed

lemma dir_clear:
  assumes "dir_ok c" "j < length c div 20" "matches name (ent c j)" "length new = 20" "\<not> in_use (bytes_dir_entry new)"
  shows "dir_ok (patch (20 * j) new c)" "dmap (patch (20 * j) new c) = (dmap c)(name := None)"
proof -
  have d: "20 dvd length c" using assms(1) by (simp add: dir_ok_def)
  note pe = patch_ent [OF d assms(2,4)]
  have nm: "i = j" if "i < length c div 20" "in_use (bytes_dir_entry (ent c i))" "ent_name (ent c i) = name" for i
    using dir_ok_unique [OF assms(1) _ assms(3) that(1) assms(2)] that by (simp add: matches_def)
  show ok: "dir_ok (patch (20 * j) new c)"
    unfolding dir_ok_def pe using assms(1,5) by (auto simp: dir_ok_def)
  show "dmap (patch (20 * j) new c) = (dmap c)(name := None)"
  proof (rule ext, rule option_eqI)
    fix x v
    have "\<not> matches x new" "matches x (ent c j) \<longrightarrow> x = name" using assms(3,5) by (auto simp: matches_def)
    moreover have "i = j" if "i < length c div 20" "matches name (ent c i)" for i using nm that by (auto simp: matches_def)
    ultimately show "dmap (patch (20 * j) new c) x = Some v \<longleftrightarrow> ((dmap c)(name := None)) x = Some v"
      unfolding dmap_Some [OF ok] pe fun_upd_apply using assms(2) dmap_Some [OF assms(1), of x v] by (cases "x = name") force+
  qed
qed

lemma fill_entry_ok:
  assumes "length e = 20" "length name \<le> NAME_MAX" "0 \<notin> set name" "sector < 2 ^ 32"
  shows "length (fill_entry e name sector) = 20" "bytes_dir_entry (fill_entry e name sector) =
      \<lparr>inode_sector = sector, ename = overwrite (name @ [0]) (ename (bytes_dir_entry e)), in_use = True\<rparr>"
    "ent_name (fill_entry e name sector) = name" "0 \<in> set (ename (bytes_dir_entry (fill_entry e name sector)))"
proof -
  have l: "length (overwrite (name @ [0]) (ename (bytes_dir_entry e))) = 15"
    using assms(1,2) by (simp add: overwrite_def bytes_dir_entry_def NAME_MAX_def)
  show "length (fill_entry e name sector) = 20" using l dir_entry_round_trip(2) [of "\<lparr>inode_sector = sector, ename = _, in_use = True\<rparr>"] assms(4)
    by (simp add: fill_entry_def)
  show b: "bytes_dir_entry (fill_entry e name sector) =
      \<lparr>inode_sector = sector, ename = overwrite (name @ [0]) (ename (bytes_dir_entry e)), in_use = True\<rparr>"
    using l assms(4) by (simp add: fill_entry_def dir_entry_round_trip)
  have "takeWhile (\<lambda>b. b \<noteq> 0) (name @ 0 # x) = name" for x using assms(3) by (subst takeWhile_append2) auto
  then show "ent_name (fill_entry e name sector) = name" by (simp add: ent_name_def b overwrite_def)
  show "0 \<in> set (ename (bytes_dir_entry (fill_entry e name sector)))" by (simp add: b overwrite_def)
qed

subsection \<open>Operations on directories\<close>

lemma lookup_ok:
  assumes "d \<noteq> NULL" "p = dinode (dirs s d)" "inode_ok p s" "mem_ok NULL s" "dir_ok c" "c = content p s"
  obtains s' where "lookup d name s = Some (map_option (\<lambda>j. (ent c j, 20 * j)) (find_ent (matches name) c), s')" "quiet s (sectors (dev s)) s'"
  using lookup_loop_ok [OF assms(3-6), of 0 name] that assms(1,2) by (auto simp: lookup_def find_ent_def)

lemma dmap_find: "dmap c name = None \<longleftrightarrow> find_ent (matches name) c = None"
  by (simp add: dmap_def)

lemma quiet_writable: "quiet s D s' \<Longrightarrow> writable p s' = writable p s"
  by (simp add: writable_def effect_fields)

lemma dir_add_found:
  assumes "d \<noteq> NULL" "p = dinode (dirs s d)" "inode_ok p s" "mem_ok NULL s" "writable p s" "dir_ok c" "c = content p s"
    "name \<noteq> []" "length name \<le> NAME_MAX" "0 \<notin> set name" "sector < 2 ^ 32" "length junk = 20" "dmap c name = None"
  obtains s' where "dir_add junk d name sector s = Some (\<exists>j < length c div 20. \<not> in_use (bytes_dir_entry (ent c j)), s')" "touches p s s'"
    "dir_ok (content p s')" "dmap (content p s') = (if \<exists>j < length c div 20. \<not> in_use (bytes_dir_entry (ent c j)) then (dmap c)(name \<mapsto> sector) else dmap c)"
proof -
  obtain s1 where s1: "lookup d name s = Some (None, s1)" "quiet s (sectors (dev s)) s1"
    using lookup_ok [OF assms(1-4,6,7), of name] assms(13) by (auto simp: dmap_find)
  note q1 = quiet_inode [OF s1(2) assms(3,4)]
  let ?f = "find (\<lambda>j. \<not> in_use (bytes_dir_entry (ent c j))) [0..<length c div 20]"
  have d20: "20 dvd length c" using assms(6) by (simp add: dir_ok_def)
  obtain e s2 where s2: "slot_loop p junk 0 s1 = Some (e, (case ?f of None \<Rightarrow> length c | Some j \<Rightarrow> 20 * j), s2)" "length e = 20" "quiet s1 (sectors (dev s1)) s2"
    using slot_loop_ok [OF q1(1,2) d20, of 0 junk] assms(7,12) q1(3) by auto
  have q: "quiet s (sectors (dev s)) s2" using effect_trans [OF s1(2)] s2(3) q1(4) by metis
  note q2 = quiet_inode [OF q assms(3,4)]
  let ?k = "case ?f of None \<Rightarrow> length c | Some j \<Rightarrow> 20 * j"
  let ?e = "fill_entry e name sector"
  note fe = fill_entry_ok [OF s2(2) assms(9-11)]
  have w2: "writable p s2" using assms(5) quiet_writable [OF q] by simp
  obtain s3 where s3: "inode_write_at p ?e (int 20) (int ?k) s2 = Some (int (min 20 (length (content p s2) - ?k)), s3)" "touches p s2 s3"
    "content p s3 = patch ?k (take (min 20 (length (content p s2) - ?k)) ?e) (content p s2)"
    using inode_write_touches [OF q2(1,2) w2, of 20 ?e ?k] fe(1) by (metis order_refl)
  have dd: "dinode (dirs s1 d) = p" "dinode (dirs s2 d) = p" using assms(2) s1(2) q by (simp_all add: effect_fields)
  have da: "dir_add junk d name sector s = Some (int (min 20 (length c - ?k)) = 20, s3)"
    using assms(1,8,9) s1(1) s2(1) s3(1) dd q2(3) assms(7) by (simp add: dir_add_def ENTRY_SIZE_def)
  have t: "touches p s s3" using touches_trans [OF q s3(2)] .
  show ?thesis
  proof (cases ?f)
    case None
    then have n: "\<not> (\<exists>j < length c div 20. \<not> in_use (bytes_dir_entry (ent c j)))" by (simp add: find_upt_None)
    have "content p s3 = c" using s3(3) None q2(3) assms(7) by (simp add: patch_def)
    then show ?thesis using that [of s3] da t None n assms(6) by simp
  next
    case (Some j)
    then have j: "j < length c div 20" "\<not> in_use (bytes_dir_entry (ent c j))" by (simp_all add: find_upt_Some)
    then have ex: "\<exists>j < length c div 20. \<not> in_use (bytes_dir_entry (ent c j))" by blast
    have l: "20 * j + 20 \<le> length c" using j(1) d20 by (auto elim!: dvdE)
    have "content p s3 = patch (20 * j) ?e c" using s3(3) Some q2(3) assms(7) l fe(1) by (simp add: min_def)
    then show ?thesis using that [of s3] da t Some ex l dir_put [OF assms(6) j assms(13) fe(1) _ fe(4,3)] by (simp add: fe(2) min_def)
  qed
qed

text \<open>C27: a directory is a map from names to sectors.  \<open>dir_add\<close> succeeds if and only if the name is valid and new and the directory has
  a free entry; then the map has the new name and is the same elsewhere, otherwise it does not change.  The search returns what the
  map says of every name, and files with other sectors keep their bytes.\<close>
theorem dir_add_correct:
  assumes "d \<noteq> NULL" "p = dinode (dirs s d)" "inode_ok p s" "mem_ok NULL s" "writable p s" "dir_ok (content p s)"
    "0 \<notin> set name" "sector < 2 ^ 32" "length junk = 20"
  shows "\<exists>ok s'. dir_add junk d name sector s = Some (ok, s') \<and>
    (ok \<longleftrightarrow> name \<noteq> [] \<and> length name \<le> NAME_MAX \<and> dmap (content p s) name = None \<and>
       (\<exists>j < length (content p s) div 20. \<not> in_use (bytes_dir_entry (ent (content p s) j)))) \<and>
    dmap (content p s') = (if ok then (dmap (content p s))(name \<mapsto> sector) else dmap (content p s)) \<and> dir_ok (content p s') \<and>
    (\<forall>x. \<exists>r s''. lookup d x s' = Some (r, s'') \<and> map_option (\<lambda>(e, _). inode_sector (bytes_dir_entry e)) r = dmap (content p s') x) \<and>
    (\<forall>q. extent (idata (inodes s q)) \<inter> extent (idata (inodes s p)) = {} \<longrightarrow> content q s' = content q s)"
proof -
  let ?c = "content p s"
  have dk: "dev_ok (dev s)" using assms(3) by (simp add: inode_ok_def)
  obtain ok s' where a: "dir_add junk d name sector s = Some (ok, s')" "touches p s s'" "dir_ok (content p s')"
    "ok \<longleftrightarrow> name \<noteq> [] \<and> length name \<le> NAME_MAX \<and> dmap ?c name = None \<and> (\<exists>j < length ?c div 20. \<not> in_use (bytes_dir_entry (ent ?c j)))"
    "dmap (content p s') = (if ok then (dmap ?c)(name \<mapsto> sector) else dmap ?c)"
  proof (cases "name \<noteq> [] \<and> length name \<le> NAME_MAX")
    case False
    then have "dir_add junk d name sector s = Some (False, s)" using assms(1) by (auto simp: dir_add_def)
    then show ?thesis using that [of False s] False assms(6) quiet_touches [OF effect_refl [OF refl] dk] by auto
  next
    case valid: True
    show ?thesis
    proof (cases "dmap ?c name")
      case None
      obtain s' where "dir_add junk d name sector s = Some (\<exists>j < length ?c div 20. \<not> in_use (bytes_dir_entry (ent ?c j)), s')" "touches p s s'"
        "dir_ok (content p s')" "dmap (content p s') = (if \<exists>j < length ?c div 20. \<not> in_use (bytes_dir_entry (ent ?c j)) then (dmap ?c)(name \<mapsto> sector) else dmap ?c)"
        using dir_add_found [OF assms(1-6) refl _ _ assms(7-9) None] valid by blast
      then show ?thesis using that [of "\<exists>j < length ?c div 20. \<not> in_use (bytes_dir_entry (ent ?c j))" s'] valid None by simp
    next
      case (Some sec)
      then obtain j where j: "find_ent (matches name) ?c = Some j" by (auto simp: dmap_def)
      obtain s1 where s1: "lookup d name s = Some (Some (ent ?c j, 20 * j), s1)" "quiet s (sectors (dev s)) s1"
        using lookup_ok [OF assms(1-4,6) refl, of name] j by auto
      have "dir_add junk d name sector s = Some (False, s1)" using assms(1) valid s1(1) by (simp add: dir_add_def)
      then show ?thesis using that [of False s1] Some assms(6) quiet_touches [OF s1(2) dk] content_same [OF s1(2)] by simp
    qed
  qed
  obtain D where D: "quiet s D s'" "\<And>sec. length (D sec) = 512" "\<And>sec. sec \<notin> extent (idata (inodes s p)) \<Longrightarrow> D sec = sectors (dev s) sec"
    using a(2) unfolding touches_def by blast
  have "dinode (dirs s' d) = p" "inode_ok p s'" "mem_ok NULL s'"
    using assms(2) inode_ok_effect [OF D(1) assms(3) D(2)] mem_ok_effect [OF D(1) assms(4)] by (simp_all add: effect_fields [OF D(1)])
  then have "\<exists>r s''. lookup d x s' = Some (r, s'') \<and> map_option (\<lambda>(e, _). inode_sector (bytes_dir_entry e)) r = dmap (content p s') x" for x
    using lookup_ok [OF assms(1) _ _ _ a(3) refl, of x] by (fastforce simp: dmap_def option.map_comp o_def)
  moreover have "content q s' = content q s" if "extent (idata (inodes s q)) \<inter> extent (idata (inodes s p)) = {}" for q
    using that D(3) by (intro content_other [OF D(1)]) blast
  ultimately show ?thesis using a by blast
qed

text \<open>A directory with two free entries.\<close>

definition demo_dir :: fs_state where
  "demo_dir = demo_fs\<lparr>inodes := (\<lambda>_. \<lparr>isector = 1, open_cnt = 1, removed = False, deny_write_cnt = 0, idata = \<lparr>start = 10, dlength = 40, magic = INODE_MAGIC\<rparr>, isema = 1\<rparr>),
     blocks := (\<lambda>_. \<lparr>bname = ''hda'', btype = BLOCK_FILESYS, bsize = 100, sectors = (\<lambda>_. replicate 512 0), read_cnt = 0, write_cnt = 0\<rparr>)\<rparr>"

lemma demo_dir_content: "content 40 demo_dir = replicate 40 0"
  by (rule nth_equalityI) (auto simp: content_def demo_dir_def demo_fs_def inode_length_def dev_def nth_get_bytes)

lemma demo_dir_ok: "inode_ok 40 demo_dir" "mem_ok NULL demo_dir" "writable 40 demo_dir" "dinode (dirs demo_dir 9) = 40"
    "dir_ok (content 40 demo_dir)" "\<exists>j < length (content 40 demo_dir) div 20. \<not> in_use (bytes_dir_entry (ent (content 40 demo_dir) j))"
    "dmap (content 40 demo_dir) name = None"
proof -
  have e: "\<not> in_use (bytes_dir_entry (ent (replicate 40 0) j))" if "j < 2" for j
    using that by (auto simp: ent_def bytes_dir_entry_def less_2_cases_iff)
  then have "\<exists>j < 2. \<not> in_use (bytes_dir_entry (ent (replicate 40 0) j))" by (intro exI [of _ 0]) simp
  with e show "dir_ok (content 40 demo_dir)" "\<exists>j < length (content 40 demo_dir) div 20. \<not> in_use (bytes_dir_entry (ent (content 40 demo_dir) j))"
    "dmap (content 40 demo_dir) name = None"
    by (auto simp: demo_dir_content dir_ok_def dmap_None matches_def)
qed (simp_all add: demo_dir_def demo_fs_def inode_ok_def dev_ok_def extent_ok_def sector_cnt_def mem_ok_def writable_def held_def dev_def)

theorem dir_add_correct_witness:
  "\<exists>s'. dir_add (replicate 20 9) 9 [97, 98] 5 demo_dir = Some (True, s') \<and> dmap (content 40 s') [97, 98] = Some 5"
proof -
  obtain ok s' where "dir_add (replicate 20 9) 9 [97, 98] 5 demo_dir = Some (ok, s')" "ok"
    "dmap (content 40 s') = (if ok then (dmap (content 40 demo_dir))([97, 98] \<mapsto> 5) else dmap (content 40 demo_dir))"
    using dir_add_correct [of 9 40 demo_dir "[97, 98]" 5 "replicate 20 9"] demo_dir_ok by (auto simp: NAME_MAX_def)
  then show ?thesis by auto
qed

end
