(* ===== verification/Filesys.thy ===== *)
theory Filesys
  imports Directory
begin

text \<open>
  filesys/filesys.c: creating, opening and removing files by name.  The lock \<open>lock_filesys\<close> orders the calls, which the model
  runs one after the other.
\<close>

text \<open>\<open>inode_sector\<close> is 0 unless a sector has been allocated; then it is released when a later step fails.\<close>

definition filesys_create :: "byte list \<Rightarrow> byte list \<Rightarrow> int \<Rightarrow> fs_state \<Rightarrow> (bool \<times> fs_state) option" where
  "filesys_create junk name initial_size s = do {
     (d, s) \<leftarrow> dir_open_root s;
     (success, sector, s) \<leftarrow> (if d = NULL then Some (False, 0, s) else do {
         (ok, sector, s) \<leftarrow> free_map_allocate 1 s;
         if \<not> ok then Some (False, sector, s) else do {
           (ok, s) \<leftarrow> inode_create sector initial_size s;
           if \<not> ok then Some (False, sector, s) else do {
             (ok, s) \<leftarrow> dir_add junk d name sector s;
             Some (ok, sector, s) } } });
     s \<leftarrow> (if \<not> success \<and> sector \<noteq> 0 then free_map_release sector 1 s else Some s);
     s \<leftarrow> dir_close d s;
     Some (success, s) }"

definition filesys_open :: "byte list \<Rightarrow> fs_state \<Rightarrow> (addr \<times> fs_state) option" where
  "filesys_open name s = do {
     (d, s) \<leftarrow> dir_open_root s;
     (i, s) \<leftarrow> (if d \<noteq> NULL then dir_lookup d name s else Some (NULL, s));
     s \<leftarrow> dir_close d s;
     file_open i s }"

definition filesys_remove :: "byte list \<Rightarrow> fs_state \<Rightarrow> (bool \<times> fs_state) option" where
  "filesys_remove name s = do {
     (d, s) \<leftarrow> dir_open_root s;
     (ok, s) \<leftarrow> (if d \<noteq> NULL then dir_remove d name s else Some (False, s));
     s \<leftarrow> dir_close d s;
     Some (ok, s) }"

definition do_format :: "fs_state \<Rightarrow> fs_state option" where
  "do_format s = do {
     s \<leftarrow> free_map_create s;
     (ok, s) \<leftarrow> dir_create ROOT_DIR_SECTOR 16 s;
     k_assert ok;
     free_map_close s }"

definition filesys_init :: "elem_type list \<Rightarrow> bool \<Rightarrow> fs_state \<Rightarrow> fs_state option" where
  "filesys_init junk format s = do {
     d \<leftarrow> block_get_role BLOCK_FILESYS s;
     let s = s\<lparr>fs_device := d\<rparr>;
     k_assert (d \<noteq> NULL);
     let s = inode_init s;
     s \<leftarrow> free_map_init junk s;
     s \<leftarrow> (if format then do_format s else Some s);
     free_map_open s }"

definition filesys_done :: "fs_state \<Rightarrow> fs_state option" where
  "filesys_done s = free_map_close s"

end
