(* ===== verification/Malloc.thy ===== *)
theory Malloc
  imports Palloc
begin

text \<open>
  threads/malloc.c: blocks of memory.  The header that the code keeps at the start of the first page of an arena is the entry
  \<open>arenas a\<close> of the state, which is gone when the page allocator overwrites the page, and a free list is the list of its blocks.
  The lock of a descriptor is a flag, as that of a pool.
\<close>

record desc =
  dblock_size :: nat
  blocks_per_arena :: nat
  free_list :: "addr list"
  dlock :: bool

record arena =
  amagic :: nat
  adesc :: "nat option"
  free_cnt :: nat

record malloc_state =
  pal :: palloc_state
  descs :: "desc list"
  arenas :: "addr \<Rightarrow> arena option"

definition ARENA_MAGIC :: nat where "ARENA_MAGIC = 0x9a548eed"

text \<open>\<open>sizeof (struct arena)\<close>, and the number of elements of \<open>descs\<close>.\<close>

definition ARENA_SIZE :: nat where "ARENA_SIZE = 12"
definition DESC_MAX :: nat where "DESC_MAX = 10"

partial_function (option) init_loop :: "nat \<Rightarrow> desc list \<Rightarrow> desc list option" where
  "init_loop bs ds = (if bs < PGSIZE div 2 then do {
       k_assert (length ds + 1 \<le> DESC_MAX);
       init_loop (u32 (bs * 2)) (ds @ [\<lparr>dblock_size = bs, blocks_per_arena = (PGSIZE - ARENA_SIZE) div bs, free_list = [], dlock = False\<rparr>]) }
     else Some ds)"

definition malloc_init :: "malloc_state \<Rightarrow> malloc_state option" where
  "malloc_init s = do { ds \<leftarrow> init_loop 16 (descs s); Some (s\<lparr>descs := ds\<rparr>) }"

subsection \<open>Arenas and blocks\<close>

definition desc_of :: "nat \<Rightarrow> malloc_state \<Rightarrow> desc option" where
  "desc_of i s = (if i < length (descs s) then Some (descs s ! i) else None)"

definition upd_desc :: "nat \<Rightarrow> (desc \<Rightarrow> desc) \<Rightarrow> malloc_state \<Rightarrow> malloc_state" where
  "upd_desc i f s = s\<lparr>descs := (descs s)[i := f (descs s ! i)]\<rparr>"

definition get_arena :: "addr \<Rightarrow> malloc_state \<Rightarrow> arena option" where
  "get_arena a s = do {
     k_assert (a \<noteq> NULL);
     ar \<leftarrow> arenas s a;
     k_assert (amagic ar = ARENA_MAGIC);
     Some ar }"

definition block_to_arena :: "addr \<Rightarrow> malloc_state \<Rightarrow> addr option" where
  "block_to_arena b s = do {
     let a = pg_round_down b;
     ar \<leftarrow> get_arena a s;
     case adesc ar of
       None \<Rightarrow> do { k_assert (pg_ofs b = ARENA_SIZE); Some a }
     | Some i \<Rightarrow> do {
         d \<leftarrow> desc_of i s;
         k_assert (u32 (pg_ofs b + 2 ^ 32 - ARENA_SIZE) mod dblock_size d = 0);
         Some a } }"

definition arena_to_block :: "addr \<Rightarrow> nat \<Rightarrow> malloc_state \<Rightarrow> addr option" where
  "arena_to_block a idx s = do {
     ar \<leftarrow> get_arena a s;
     i \<leftarrow> adesc ar;
     d \<leftarrow> desc_of i s;
     k_assert (idx < blocks_per_arena d);
     Some (u32 (a + ARENA_SIZE + idx * dblock_size d)) }"

definition desc_acquire :: "nat \<Rightarrow> malloc_state \<Rightarrow> malloc_state option" where
  "desc_acquire i s = do { d \<leftarrow> desc_of i s; k_assert (\<not> dlock d); Some (upd_desc i (\<lambda>d. d\<lparr>dlock := True\<rparr>) s) }"

definition desc_release :: "nat \<Rightarrow> malloc_state \<Rightarrow> malloc_state option" where
  "desc_release i s = do { d \<leftarrow> desc_of i s; k_assert (dlock d); Some (upd_desc i (\<lambda>d. d\<lparr>dlock := False\<rparr>) s) }"

subsection \<open>Allocation\<close>

fun find_desc :: "nat \<Rightarrow> desc list \<Rightarrow> nat" where
  "find_desc sz [] = 0"
| "find_desc sz (d # ds) = (if dblock_size d \<ge> sz then 0 else Suc (find_desc sz ds))"

text \<open>The loop that puts the blocks of a new arena on the free list; the argument counts up.\<close>

fun push_loop :: "nat \<Rightarrow> nat \<Rightarrow> addr \<Rightarrow> nat \<Rightarrow> malloc_state \<Rightarrow> malloc_state option" where
  "push_loop 0 k a i s = Some s"
| "push_loop (Suc n) k a i s = do {
     b \<leftarrow> arena_to_block a k s;
     push_loop n (Suc k) a i (upd_desc i (\<lambda>d. d\<lparr>free_list := free_list d @ [b]\<rparr>) s) }"

definition new_arena :: "nat \<Rightarrow> malloc_state \<Rightarrow> (bool \<times> malloc_state) option" where
  "new_arena i s = do {
     d \<leftarrow> desc_of i s;
     (a, p) \<leftarrow> palloc_get_page 0 (pal s);
     let s = s\<lparr>pal := p\<rparr>;
     if a = NULL then Some (False, s)
     else do {
       let s = s\<lparr>arenas := (arenas s)(a \<mapsto> \<lparr>amagic = ARENA_MAGIC, adesc = Some i, free_cnt = blocks_per_arena d\<rparr>)\<rparr>;
       s \<leftarrow> push_loop (blocks_per_arena d) 0 a i s;
       Some (True, s) } }"

text \<open>The end of \<open>malloc\<close>: take a block off the free list and release the lock.\<close>

definition take_block :: "nat \<Rightarrow> malloc_state \<Rightarrow> (addr \<times> malloc_state) option" where
  "take_block i s = do {
     d \<leftarrow> desc_of i s;
     k_assert (free_list d \<noteq> []);
     let b = hd (free_list d);
     let s = upd_desc i (\<lambda>d. d\<lparr>free_list := tl (free_list d)\<rparr>) s;
     a \<leftarrow> block_to_arena b s;
     ar \<leftarrow> arenas s a;
     let s = s\<lparr>arenas := (arenas s)(a \<mapsto> ar\<lparr>free_cnt := u32 (free_cnt ar + 2 ^ 32 - 1)\<rparr>)\<rparr>;
     s \<leftarrow> desc_release i s;
     Some (b, s) }"

definition malloc :: "nat \<Rightarrow> malloc_state \<Rightarrow> (addr \<times> malloc_state) option" where
  "malloc sz s = (if sz = 0 then Some (NULL, s)
     else let i = find_desc sz (descs s) in
     if i = length (descs s) then do {
       let page_cnt = DIV_ROUND_UP (u32 (sz + ARENA_SIZE)) PGSIZE;
       (a, p) \<leftarrow> palloc_get_multiple 0 page_cnt (pal s);
       let s = s\<lparr>pal := p\<rparr>;
       if a = NULL then Some (NULL, s)
       else Some (a + ARENA_SIZE, s\<lparr>arenas := (arenas s)(a \<mapsto> \<lparr>amagic = ARENA_MAGIC, adesc = None, free_cnt = page_cnt\<rparr>)\<rparr>) }
     else do {
       s \<leftarrow> desc_acquire i s;
       d \<leftarrow> desc_of i s;
       (ok, s) \<leftarrow> (if free_list d = [] then new_arena i s else Some (True, s));
       if ok then take_block i s
       else do { s \<leftarrow> desc_release i s; Some (NULL, s) } })"

definition calloc :: "nat \<Rightarrow> nat \<Rightarrow> malloc_state \<Rightarrow> (addr \<times> malloc_state) option" where
  "calloc a b s = do {
     let sz = u32 (a * b);
     if sz < a \<or> sz < b then Some (NULL, s)
     else do {
       (p, s) \<leftarrow> malloc sz s;
       if p \<noteq> NULL then do {
         m \<leftarrow> memset p 0 sz (pmem (pal s));
         Some (p, s\<lparr>pal := (pal s)\<lparr>pmem := m\<rparr>\<rparr>) }
       else Some (p, s) } }"

definition block_size :: "addr \<Rightarrow> malloc_state \<Rightarrow> nat option" where
  "block_size b s = do {
     a \<leftarrow> block_to_arena b s;
     ar \<leftarrow> arenas s a;
     case adesc ar of
       Some i \<Rightarrow> do { d \<leftarrow> desc_of i s; Some (dblock_size d) }
     | None \<Rightarrow> Some (u32 (PGSIZE * free_cnt ar + 2 ^ 32 - pg_ofs b)) }"

subsection \<open>Release\<close>

fun remove_loop :: "nat \<Rightarrow> nat \<Rightarrow> addr \<Rightarrow> nat \<Rightarrow> malloc_state \<Rightarrow> malloc_state option" where
  "remove_loop 0 k a i s = Some s"
| "remove_loop (Suc n) k a i s = do {
     b \<leftarrow> arena_to_block a k s;
     d \<leftarrow> desc_of i s;
     k_assert (b \<in> set (free_list d));
     remove_loop n (Suc k) a i (upd_desc i (\<lambda>d. d\<lparr>free_list := remove1 b (free_list d)\<rparr>) s) }"

definition free :: "addr \<Rightarrow> malloc_state \<Rightarrow> malloc_state option" where
  "free p s = (if p \<noteq> NULL then do {
       a \<leftarrow> block_to_arena p s;
       ar \<leftarrow> arenas s a;
       case adesc ar of
         Some i \<Rightarrow> do {
           d \<leftarrow> desc_of i s;
           m \<leftarrow> memset p 0xCC (dblock_size d) (pmem (pal s));
           let s = s\<lparr>pal := (pal s)\<lparr>pmem := m\<rparr>\<rparr>;
           s \<leftarrow> desc_acquire i s;
           let s = upd_desc i (\<lambda>d. d\<lparr>free_list := p # free_list d\<rparr>) s;
           let cnt = u32 (free_cnt ar + 1);
           let s = s\<lparr>arenas := (arenas s)(a \<mapsto> ar\<lparr>free_cnt := cnt\<rparr>)\<rparr>;
           s \<leftarrow> (if cnt \<ge> blocks_per_arena d then do {
                   k_assert (cnt = blocks_per_arena d);
                   s \<leftarrow> remove_loop (blocks_per_arena d) 0 a i s;
                   q \<leftarrow> palloc_free_page a (pal s);
                   Some (s\<lparr>pal := q, arenas := (arenas s)(a := None)\<rparr>) }
                 else Some s);
           desc_release i s }
       | None \<Rightarrow> do {
           q \<leftarrow> palloc_free_multiple a (free_cnt ar) (pal s);
           Some (s\<lparr>pal := q, arenas := (arenas s)(a := None)\<rparr>) } }
     else Some s)"

definition realloc :: "addr \<Rightarrow> nat \<Rightarrow> malloc_state \<Rightarrow> (addr \<times> malloc_state) option" where
  "realloc old_block new_size s = (if new_size = 0 then do { s \<leftarrow> free old_block s; Some (NULL, s) }
     else do {
       (new_block, s) \<leftarrow> malloc new_size s;
       if old_block \<noteq> NULL \<and> new_block \<noteq> NULL then do {
         old_size \<leftarrow> block_size old_block s;
         let min_size = (if new_size < old_size then new_size else old_size);
         (_, m) \<leftarrow> memcpy new_block old_block min_size (pmem (pal s));
         s \<leftarrow> free old_block (s\<lparr>pal := (pal s)\<lparr>pmem := m\<rparr>\<rparr>);
         Some (new_block, s) }
       else Some (new_block, s) })"

end
