(* ===== verification/Malloc_Props.thy ===== *)
theory Malloc_Props
  imports Malloc Palloc_Props
begin

text \<open>
  Correctness of the block allocator.  \<open>minv\<close> is its invariant, \<open>in_use\<close> the set of the blocks handed out and not yet released,
  and \<open>region\<close> the bytes of a block.
\<close>

subsection \<open>Sizes\<close>

definition bs :: "nat \<Rightarrow> nat" where "bs i = 16 * 2 ^ i"
definition bpa :: "nat \<Rightarrow> nat" where "bpa i = (PGSIZE - ARENA_SIZE) div bs i"
definition page_of :: "addr \<Rightarrow> addr" where "page_of b = b div PGSIZE * PGSIZE"
definition blk :: "addr \<Rightarrow> nat \<Rightarrow> nat \<Rightarrow> addr" where "blk a i k = a + ARENA_SIZE + k * bs i"

lemma bs_pos [simp]: "0 < bs i"
  by (simp add: bs_def)

lemma bpa_pos: "i < 7 \<Longrightarrow> 1 < bpa i" "bpa i < 2 ^ 32"
proof -
  show "bpa i < 2 ^ 32" by (rule le_less_trans [OF div_le_dividend [of "PGSIZE - ARENA_SIZE" "bs i", folded bpa_def]]) (simp add: PGSIZE_def)
  assume "i < 7"
  then have "i = 0 \<or> i = 1 \<or> i = 2 \<or> i = 3 \<or> i = 4 \<or> i = 5 \<or> i = 6" by auto
  then show "1 < bpa i" by (elim disjE) (simp_all add: bpa_def bs_def PGSIZE_def ARENA_SIZE_def)
qed

lemma bpa_fits: "ARENA_SIZE + bpa i * bs i \<le> PGSIZE"
proof -
  have "bpa i * bs i \<le> PGSIZE - ARENA_SIZE" by (simp add: bpa_def)
  then show ?thesis by (simp add: PGSIZE_def ARENA_SIZE_def)
qed

lemma blk_in_page:
  assumes "a mod PGSIZE = 0" "k < bpa i"
  shows "page_of (blk a i k) = a" "blk a i k + bs i \<le> a + PGSIZE" "blk a i k mod PGSIZE = ARENA_SIZE + k * bs i" "a < blk a i k"
proof -
  have "k * bs i + bs i \<le> bpa i * bs i" using assms(2) by (metis Suc_leI mult_Suc add.commute mult_le_mono1)
  then have l: "ARENA_SIZE + k * bs i + bs i \<le> PGSIZE" using bpa_fits [of i] by linarith
  then show "blk a i k + bs i \<le> a + PGSIZE" by (simp add: blk_def)
  obtain q where q: "a = q * PGSIZE" using assms(1) by (metis mod_0_imp_dvd dvdE mult.commute)
  have l2: "ARENA_SIZE + k * bs i < PGSIZE" using l bs_pos [of i] by linarith
  then have "(q * PGSIZE + (ARENA_SIZE + k * bs i)) div PGSIZE = q" by simp
  then show "page_of (blk a i k) = a" by (simp add: page_of_def blk_def q add.assoc)
  show "blk a i k mod PGSIZE = ARENA_SIZE + k * bs i" using l2 by (simp add: blk_def q add.assoc)
  show "a < blk a i k" by (simp add: blk_def ARENA_SIZE_def)
qed

lemma blk_inj [simp]: "blk a i k = blk a i k' \<longleftrightarrow> k = k'"
  by (simp add: blk_def bs_def)

text \<open>The offset in its page of a block of the size with number \<open>i\<close>.\<close>

definition block_ofs :: "nat \<Rightarrow> addr \<Rightarrow> bool" where
  "block_ofs i b \<longleftrightarrow> (\<exists>k < bpa i. b mod PGSIZE = ARENA_SIZE + k * bs i)"

lemma page_of_ofs: "page_of b + b mod PGSIZE = b"
  by (simp add: page_of_def)

lemma block_ofs_blk:
  assumes "block_ofs i b"
  obtains k where "k < bpa i" "blk (page_of b) i k = b"
proof -
  obtain k where "k < bpa i" "b mod PGSIZE = ARENA_SIZE + k * bs i" using assms by (auto simp: block_ofs_def)
  then show ?thesis using that [of k] page_of_ofs [of b] by (simp add: blk_def add.assoc)
qed

lemma block_ofs_mem: "block_ofs i b \<Longrightarrow> b \<in> blk (page_of b) i ` {0..<bpa i}"
proof (erule block_ofs_blk)
  fix k assume "k < bpa i" "blk (page_of b) i k = b"
  then show "b \<in> blk (page_of b) i ` {0..<bpa i}" by (intro image_eqI [of _ _ k]) simp_all
qed

lemma blk_block_ofs: "a mod PGSIZE = 0 \<Longrightarrow> k < bpa i \<Longrightarrow> block_ofs i (blk a i k)"
  using blk_in_page(3) by (auto simp: block_ofs_def)

subsection \<open>The invariant\<close>

abbreviation fl :: "malloc_state \<Rightarrow> nat \<Rightarrow> addr list" where
  "fl s i \<equiv> free_list (descs s ! i)"

definition descs_ok :: "desc list \<Rightarrow> bool" where
  "descs_ok ds \<longleftrightarrow> length ds = 7 \<and> (\<forall>i < 7. dblock_size (ds ! i) = bs i \<and> blocks_per_arena (ds ! i) = bpa i \<and> \<not> dlock (ds ! i))"

definition apages :: "addr \<Rightarrow> arena \<Rightarrow> addr set" where
  "apages a ar = page_run a (case adesc ar of None \<Rightarrow> free_cnt ar | Some _ \<Rightarrow> 1)"

definition arena_ok :: "malloc_state \<Rightarrow> addr \<Rightarrow> arena \<Rightarrow> bool" where
  "arena_ok s a ar \<longleftrightarrow> amagic ar = ARENA_MAGIC \<and> apages a ar \<subseteq> used_pages (kernel_pool (pal s)) \<and>
     (case adesc ar of None \<Rightarrow> 0 < free_cnt ar
      | Some i \<Rightarrow> i < 7 \<and> free_cnt ar = length (filter (\<lambda>b. page_of b = a) (fl s i)))"

definition free_ok :: "malloc_state \<Rightarrow> nat \<Rightarrow> bool" where
  "free_ok s i \<longleftrightarrow> distinct (fl s i) \<and>
     (\<forall>b \<in> set (fl s i). block_ofs i b \<and> (\<exists>ar. arenas s (page_of b) = Some ar \<and> adesc ar = Some i))"

text \<open>\<open>winv\<close> holds between the steps of an operation; between operations no arena is entirely free.\<close>

definition winv :: "malloc_state \<Rightarrow> bool" where
  "winv s \<longleftrightarrow> pal_ok (pal s) \<and> descs_ok (descs s) \<and> (\<forall>a ar. arenas s a = Some ar \<longrightarrow> arena_ok s a ar) \<and>
     (\<forall>a ar a' ar'. arenas s a = Some ar \<longrightarrow> arenas s a' = Some ar' \<longrightarrow> a \<noteq> a' \<longrightarrow> apages a ar \<inter> apages a' ar' = {}) \<and>
     (\<forall>i < 7. free_ok s i)"

definition minv :: "malloc_state \<Rightarrow> bool" where
  "minv s \<longleftrightarrow> winv s \<and> (\<forall>a ar i. arenas s a = Some ar \<longrightarrow> adesc ar = Some i \<longrightarrow> free_cnt ar < bpa i)"

definition in_use :: "malloc_state \<Rightarrow> addr set" where
  "in_use s = {b. \<exists>ar. arenas s (page_of b) = Some ar \<and> (case adesc ar of None \<Rightarrow> b mod PGSIZE = ARENA_SIZE
     | Some i \<Rightarrow> b \<notin> set (fl s i) \<and> block_ofs i b)}"

definition cap :: "malloc_state \<Rightarrow> addr \<Rightarrow> nat" where
  "cap s b = (case arenas s (page_of b) of None \<Rightarrow> 0 | Some ar \<Rightarrow>
     (case adesc ar of None \<Rightarrow> PGSIZE * free_cnt ar - ARENA_SIZE | Some i \<Rightarrow> bs i))"

definition region :: "malloc_state \<Rightarrow> addr \<Rightarrow> addr set" where
  "region s b = {b ..< b + cap s b}"

lemma used_page_props:
  assumes "pal_ok p" "a \<in> used_pages (kernel_pool p)"
  shows "a mod PGSIZE = 0" "a + PGSIZE \<le> 2 ^ 32" "PHYS_BASE \<le> a"
proof -
  obtain i where i: "a = base (kernel_pool p) + PGSIZE * i" "i < bit_cnt (used_map (kernel_pool p))" using assms(2) by (auto simp: used_pages_def)
  have k: "base (kernel_pool p) mod PGSIZE = 0" "PHYS_BASE \<le> base (kernel_pool p)"
    "base (kernel_pool p) + PGSIZE * bit_cnt (used_map (kernel_pool p)) \<le> 2 ^ 32" using assms(1) by (auto simp: pal_ok_def pool_ok_def)
  show "a mod PGSIZE = 0" using k(1) i(1) by simp
  have "PGSIZE * i + PGSIZE \<le> PGSIZE * bit_cnt (used_map (kernel_pool p))" using i(2) by (metis Suc_leI mult_Suc_right add.commute mult_le_mono2)
  then show "a + PGSIZE \<le> 2 ^ 32" "PHYS_BASE \<le> a" using k i(1) by linarith+
qed

lemma arena_first: "arena_ok s a ar \<Longrightarrow> a \<in> apages a ar"
  by (auto simp: arena_ok_def apages_def page_run_def split: option.splits intro: exI [of _ 0])

lemma arena_page:
  assumes "winv s" "arenas s a = Some ar"
  shows "a mod PGSIZE = 0" "a + PGSIZE \<le> 2 ^ 32" "PHYS_BASE \<le> a" "a \<noteq> NULL"
proof -
  have ok: "arena_ok s a ar" "pal_ok (pal s)" using assms by (auto simp: winv_def)
  then have "a \<in> used_pages (kernel_pool (pal s))" using arena_first [OF ok(1)] by (auto simp: arena_ok_def)
  then show "a mod PGSIZE = 0" "a + PGSIZE \<le> 2 ^ 32" "PHYS_BASE \<le> a" using used_page_props [OF ok(2)] by auto
  then show "a \<noteq> NULL" by (auto simp: PHYS_BASE_def)
qed

subsection \<open>Blocks in use do not overlap\<close>

lemma page_of_le: "page_of x \<le> x" "x < page_of x + PGSIZE"
proof -
  have "x mod PGSIZE < PGSIZE" by simp
  then show "page_of x \<le> x" "x < page_of x + PGSIZE" using div_mult_mod_eq [of x PGSIZE] unfolding page_of_def by linarith+
qed

lemma page_in_run: "a mod PGSIZE = 0 \<Longrightarrow> a \<le> x \<Longrightarrow> x < a + PGSIZE * n \<Longrightarrow> page_of x \<in> page_run a n"
proof -
  assume a: "a mod PGSIZE = 0" "a \<le> x" "x < a + PGSIZE * n"
  obtain q where q: "a = q * PGSIZE" using a(1) by (metis mod_0_imp_dvd dvdE mult.commute)
  have "q \<le> x div PGSIZE" using a(2) q by (simp add: less_eq_div_iff_mult_less_eq)
  moreover have "x div PGSIZE < q + n" using a(3) q by (simp add: div_less_iff_less_mult distrib_left mult.commute)
  ultimately show ?thesis unfolding page_run_def page_of_def using q by (intro CollectI exI [of _ "x div PGSIZE - q"]) (auto simp: mult.commute simp flip: distrib_left)
qed

lemma region_in_pages:
  assumes "winv s" "b \<in> in_use s" "x \<in> region s b" "arenas s (page_of b) = Some ar"
  shows "page_of x \<in> apages (page_of b) ar"
proof -
  note p = arena_page [OF assms(1,4)]
  have ok: "arena_ok s (page_of b) ar" using assms(1,4) by (simp add: winv_def)
  show ?thesis
  proof (cases "adesc ar")
    case None
    then have "b mod PGSIZE = ARENA_SIZE" "cap s b = PGSIZE * free_cnt ar - ARENA_SIZE" using assms(2,4) by (auto simp: in_use_def cap_def)
    then have "page_of b \<le> x" "x < page_of b + PGSIZE * free_cnt ar"
      using assms(3) page_of_ofs [of b] unfolding region_def by auto
    then show ?thesis using page_in_run [OF p(1)] None by (simp add: apages_def)
  next
    case (Some i)
    then have "block_ofs i b" using assms(2,4) by (auto simp: in_use_def)
    then obtain k where k: "k < bpa i" "blk (page_of b) i k = b" by (rule block_ofs_blk)
    have "cap s b = bs i" using Some assms(4) by (simp add: cap_def)
    then have "page_of b \<le> x" "x < page_of b + PGSIZE * 1"
      using assms(3) blk_in_page(2) [OF p(1) k(1)] k(2) page_of_le(1) [of b] by (auto simp: region_def)
    then show ?thesis using page_in_run [OF p(1)] Some by (simp add: apages_def)
  qed
qed

lemma regions_disjoint:
  assumes "winv s" "b \<in> in_use s" "b' \<in> in_use s" "b \<noteq> b'"
  shows "region s b \<inter> region s b' = {}"
proof -
  obtain ar ar' where ar: "arenas s (page_of b) = Some ar" "arenas s (page_of b') = Some ar'" using assms(2,3) by (auto simp: in_use_def)
  show ?thesis
  proof (cases "page_of b = page_of b'")
    case False
    then have "apages (page_of b) ar \<inter> apages (page_of b') ar' = {}" using assms(1) ar unfolding winv_def by blast
    then show ?thesis using region_in_pages [OF assms(1,2) _ ar(1)] region_in_pages [OF assms(1,3) _ ar(2)] by blast
  next
    case True
    then have ar': "ar' = ar" using ar by simp
    have "adesc ar \<noteq> None"
    proof
      assume "adesc ar = None"
      then have "b mod PGSIZE = b' mod PGSIZE" using assms(2,3) ar ar' by (simp add: in_use_def)
      then show False using assms(4) True page_of_ofs [of b] page_of_ofs [of b'] by simp
    qed
    then obtain i where i: "adesc ar = Some i" by blast
    have "block_ofs i b" "block_ofs i b'" using assms(2,3) ar ar' i by (simp_all add: in_use_def)
    then obtain k k' where k: "b = blk (page_of b) i k" "b' = blk (page_of b) i k'" using block_ofs_blk True by metis
    have m: "x * bs i + bs i \<le> y * bs i" if "x < y" for x y using mult_le_mono1 [of "Suc x" y "bs i"] that by simp
    have "k < k' \<or> k' < k" using assms(4) k by (metis linorder_neqE_nat)
    then have "b + bs i \<le> b' \<or> b' + bs i \<le> b" using m [of k k'] m [of k' k] k unfolding blk_def by linarith
    moreover have "cap s b = bs i" "cap s b' = bs i" using ar ar' i by (simp_all add: cap_def)
    ultimately show ?thesis by (auto simp: region_def)
  qed
qed

subsection \<open>Steps on the abstract state\<close>

definition put_fl :: "nat \<Rightarrow> addr list \<Rightarrow> malloc_state \<Rightarrow> malloc_state" where
  "put_fl i xs s = s\<lparr>descs := (descs s)[i := (descs s ! i)\<lparr>free_list := xs\<rparr>]\<rparr>"

definition put_ar :: "addr \<Rightarrow> arena option \<Rightarrow> malloc_state \<Rightarrow> malloc_state" where
  "put_ar a x s = s\<lparr>arenas := (arenas s)(a := x)\<rparr>"

lemma put_simps [simp]:
  "pal (put_fl i xs s) = pal s" "arenas (put_fl i xs s) = arenas s" "pal (put_ar a x s) = pal s" "descs (put_ar a x s) = descs s"
  "arenas (put_ar a x s) = (arenas s)(a := x)" "length (descs (put_fl i xs s)) = length (descs s)"
  by (simp_all add: put_fl_def put_ar_def)

lemma fl_put: "i < length (descs s) \<Longrightarrow> fl (put_fl i xs s) j = (if j = i then xs else fl s j)"
  by (simp add: put_fl_def nth_list_update)

lemma descs_ok_put: "descs_ok (descs s) \<Longrightarrow> descs_ok (descs (put_fl i xs s))"
  by (cases "i < 7") (auto simp: descs_ok_def put_fl_def nth_list_update)

lemma winv_parts:
  assumes "winv s"
  shows "pal_ok (pal s)" "descs_ok (descs s)" "length (descs s) = 7" "\<And>a ar. arenas s a = Some ar \<Longrightarrow> arena_ok s a ar"
    "\<And>a ar a' ar'. \<lbrakk>arenas s a = Some ar; arenas s a' = Some ar'; a \<noteq> a'\<rbrakk> \<Longrightarrow> apages a ar \<inter> apages a' ar' = {}"
    "\<And>i. i < 7 \<Longrightarrow> free_ok s i"
  using assms unfolding winv_def descs_ok_def by blast+

text \<open>Taking the first block off a free list.\<close>

definition pop :: "nat \<Rightarrow> addr \<Rightarrow> addr list \<Rightarrow> arena \<Rightarrow> malloc_state \<Rightarrow> malloc_state" where
  "pop i b rest ar s = put_ar (page_of b) (Some (ar\<lparr>free_cnt := free_cnt ar - 1\<rparr>)) (put_fl i rest s)"

lemma winv_pop:
  assumes "winv s" "i < 7" "fl s i = b # rest" "arenas s (page_of b) = Some ar"
  shows "winv (pop i b rest ar s)" "b \<notin> in_use s" "in_use (pop i b rest ar s) = insert b (in_use s)" "cap (pop i b rest ar s) = cap s"
    "0 < free_cnt ar"
proof -
  note w = winv_parts [OF assms(1)]
  have fo: "distinct (b # rest)" "block_ofs i b" "adesc ar = Some i" using w(6) [OF assms(2)] assms(3,4) by (auto simp: free_ok_def)
  let ?s = "pop i b rest ar s"
  have fl: "fl ?s j = (if j = i then rest else fl s j)" for j using fl_put [of i s rest j] w(3) assms(2) by (simp add: pop_def)
  have ars: "arenas ?s = (arenas s)(page_of b \<mapsto> ar\<lparr>free_cnt := free_cnt ar - 1\<rparr>)" and pl: "pal ?s = pal s" by (simp_all add: pop_def)
  have cnt: "free_cnt ar = Suc (length (filter (\<lambda>x. page_of x = page_of b) rest))"
    using w(4) [OF assms(4)] fo(3) assms(3) by (simp add: arena_ok_def)
  then show "0 < free_cnt ar" by simp
  have ap: "apages a' x = apages a' (if a' = page_of b then ar else x)" if "arenas ?s a' = Some x" for a' x
    using that fo(3) by (auto simp: ars apages_def split: if_splits)
  have aok: "arena_ok ?s a' x" if "arenas ?s a' = Some x" for a' x
  proof (cases "a' = page_of b")
    case True
    then show ?thesis using that w(4) [OF assms(4)] fo(3) cnt by (auto simp: ars arena_ok_def apages_def fl pl)
  next
    case False
    then have x: "arenas s a' = Some x" using that by (simp add: ars)
    then show ?thesis using w(4) [OF x] False assms(3) by (auto simp: arena_ok_def fl pl split: option.splits)
  qed
  have dis: "apages a x \<inter> apages a' x' = {}" if "arenas ?s a = Some x" "arenas ?s a' = Some x'" "a \<noteq> a'" for a x a' x'
    unfolding ap [OF that(1)] ap [OF that(2)] using that assms(4) by (intro w(5)) (auto simp: ars)
  have fok: "free_ok ?s j" if "j < 7" for j
    using w(6) [OF that] fo(1,3) assms(3,4) by (auto simp: free_ok_def fl ars)
  show "winv ?s" unfolding winv_def using w(1) descs_ok_put [OF w(2)] aok dis fok by (simp add: pop_def)
  show "b \<notin> in_use s" using assms(3,4) fo(3) by (simp add: in_use_def)
  have "x \<in> in_use ?s \<longleftrightarrow> x = b \<or> x \<in> in_use s" for x
  proof (cases "page_of x = page_of b")
    case True
    then show ?thesis using assms(3,4) fo by (auto simp: in_use_def ars fl)
  next
    case False
    have "y \<in> set (fl ?s j) \<longleftrightarrow> y \<in> set (fl s j)" if "page_of y \<noteq> page_of b" for y j using that assms(3) by (auto simp: fl)
    then show ?thesis using False by (auto simp: in_use_def ars split: option.splits)
  qed
  then show "in_use ?s = insert b (in_use s)" by blast
  show "cap ?s = cap s" using assms(4) fo(3) by (auto simp: cap_def ars)
qed

text \<open>A new arena on pages that were not in use: an arena of free blocks, or a big block.\<close>

lemma fresh_arena:
  assumes "winv s" "page_run a n \<inter> used_pages (kernel_pool (pal s)) = {}" "0 < n"
  shows "arenas s a = None" "\<And>b ar. arenas s b = Some ar \<Longrightarrow> apages b ar \<inter> page_run a n = {}" "\<And>b ar. arenas s b = Some ar \<Longrightarrow> b \<noteq> a"
proof -
  show "apages b ar \<inter> page_run a n = {}" if "arenas s b = Some ar" for b ar
    using winv_parts(4) [OF assms(1) that] assms(2) by (auto simp: arena_ok_def)
  have "a \<in> page_run a n" using assms(3) by (auto simp: page_run_def intro: exI [of _ 0])
  moreover have "b \<in> used_pages (kernel_pool (pal s))" if "arenas s b = Some ar" for b ar
    using winv_parts(4) [OF assms(1) that] arena_first by (auto simp: arena_ok_def)
  ultimately show "\<And>b ar. arenas s b = Some ar \<Longrightarrow> b \<noteq> a" using assms(2) by blast
  then show "arenas s a = None" by fastforce
qed

lemma winv_new:
  assumes "winv s" "i < 7" "fl s i = []" "pal_ok q" "page_run a 1 \<inter> used_pages (kernel_pool (pal s)) = {}"
    "used_pages (kernel_pool q) = used_pages (kernel_pool (pal s)) \<union> page_run a 1" "a mod PGSIZE = 0"
    "s' = put_fl i (map (blk a i) [0..<bpa i]) (put_ar a (Some \<lparr>amagic = ARENA_MAGIC, adesc = Some i, free_cnt = bpa i\<rparr>) (s\<lparr>pal := q\<rparr>))"
  shows "winv s'" "in_use s' = in_use s" "\<And>b. b \<in> in_use s \<Longrightarrow> cap s' b = cap s b"
proof -
  note w = winv_parts [OF assms(1)] and fr = fresh_arena [OF assms(1,5) zero_less_one]
  let ?ar = "\<lparr>amagic = ARENA_MAGIC, adesc = Some i, free_cnt = bpa i\<rparr>" and ?bl = "map (blk a i) [0..<bpa i]"
  have fl: "fl s' j = (if j = i then ?bl else fl s j)" for j
    using fl_put [of i "put_ar a (Some ?ar) (s\<lparr>pal := q\<rparr>)" ?bl j] w(3) assms(2) by (simp add: assms(8))
  have ars: "arenas s' = (arenas s)(a \<mapsto> ?ar)" and pl: "pal s' = q" by (simp_all add: assms(8))
  have bp: "page_of (blk a i k) = a" if "k < bpa i" for k using blk_in_page(1) [OF assms(7) that] .
  have ap: "apages a ?ar = page_run a 1" by (simp add: apages_def)
  have nf: "page_of b \<noteq> a" if "b \<in> set (fl s j)" "j < 7" for b j using w(6) [OF that(2)] that(1) fr(1) by (auto simp: free_ok_def)
  have aok: "arena_ok s' b x" if "arenas s' b = Some x" for b x
  proof (cases "b = a")
    case True
    have "filter (\<lambda>x. page_of x = a) ?bl = ?bl" using bp by (auto simp: filter_id_conv)
    moreover have "x = ?ar" using that True by (simp add: ars)
    ultimately show ?thesis using True assms(2,6) ap by (simp add: arena_ok_def pl fl)
  next
    case False
    then have x: "arenas s b = Some x" using that by (simp add: ars)
    have "filter (\<lambda>x. page_of x = b) ?bl = []" using bp False by (auto simp: filter_empty_conv)
    then show ?thesis using w(4) [OF x] assms(3,6) by (auto simp: arena_ok_def pl fl split: option.splits)
  qed
  have dis: "apages b x \<inter> apages b' x' = {}" if "arenas s' b = Some x" "arenas s' b' = Some x'" "b \<noteq> b'" for b x b' x'
    using that w(5) [of b x b' x'] fr(2) [of b x] fr(2) [of b' x'] ap by (auto simp: ars split: if_splits)
  have "distinct ?bl" by (simp add: distinct_map inj_on_def)
  then have fok: "free_ok s' j" if "j < 7" for j
    using w(6) [OF that] nf [OF _ that] bp blk_block_ofs [OF assms(7)] by (auto simp: free_ok_def fl ars)
  show "winv s'" unfolding winv_def using assms(4) descs_ok_put [of "put_ar a (Some ?ar) (s\<lparr>pal := q\<rparr>)" i ?bl] w(2) aok dis fok
    by (simp add: pl) (simp add: assms(8))
  have "x \<in> in_use s' \<longleftrightarrow> x \<in> in_use s" for x
  proof (cases "page_of x = a")
    case True
    have "x \<in> set ?bl" if "block_ofs i x" using block_ofs_mem [OF that] unfolding True by simp
    then show ?thesis using True fr(1) by (auto simp: in_use_def ars fl)
  next
    case False
    have "x \<notin> set ?bl" using bp False by auto
    then have "x \<in> set (fl s' j) \<longleftrightarrow> x \<in> set (fl s j)" for j using assms(3) by (simp add: fl)
    then show ?thesis using False by (auto simp: in_use_def ars split: option.splits)
  qed
  then show "in_use s' = in_use s" by blast
  show "cap s' b = cap s b" if "b \<in> in_use s" for b using that fr(3) by (auto simp: in_use_def cap_def ars)
qed

lemma winv_big:
  assumes "winv s" "0 < n" "pal_ok q" "page_run a n \<inter> used_pages (kernel_pool (pal s)) = {}"
    "used_pages (kernel_pool q) = used_pages (kernel_pool (pal s)) \<union> page_run a n" "a mod PGSIZE = 0"
    "s' = put_ar a (Some \<lparr>amagic = ARENA_MAGIC, adesc = None, free_cnt = n\<rparr>) (s\<lparr>pal := q\<rparr>)"
  shows "winv s'" "in_use s' = insert (a + ARENA_SIZE) (in_use s)" "\<And>b. b \<in> in_use s \<Longrightarrow> cap s' b = cap s b"
    "cap s' (a + ARENA_SIZE) = PGSIZE * n - ARENA_SIZE" "a + ARENA_SIZE \<notin> in_use s"
proof -
  note w = winv_parts [OF assms(1)] and fr = fresh_arena [OF assms(1,4,2)]
  let ?ar = "\<lparr>amagic = ARENA_MAGIC, adesc = None, free_cnt = n\<rparr>"
  have ars: "arenas s' = (arenas s)(a \<mapsto> ?ar)" and pl: "pal s' = q" and ds: "descs s' = descs s" by (simp_all add: assms(7))
  have ap: "apages a ?ar = page_run a n" by (simp add: apages_def)
  have pg: "page_of (a + ARENA_SIZE) = a" "(a + ARENA_SIZE) mod PGSIZE = ARENA_SIZE"
    using assms(6) by (auto simp: page_of_def PGSIZE_def ARENA_SIZE_def mod_eq_0_iff_dvd elim!: dvdE)
  have aok: "arena_ok s' b x" if "arenas s' b = Some x" for b x
    using that w(4) [of b x] assms(2,5) ap by (auto simp: ars arena_ok_def pl ds split: if_splits option.splits)
  have dis: "apages b x \<inter> apages b' x' = {}" if "arenas s' b = Some x" "arenas s' b' = Some x'" "b \<noteq> b'" for b x b' x'
    using that w(5) [of b x b' x'] fr(2) [of b x] fr(2) [of b' x'] ap by (auto simp: ars split: if_splits)
  have fok: "free_ok s' j" if "j < 7" for j using w(6) [OF that] fr(1) by (auto simp: free_ok_def ds ars)
  show "winv s'" unfolding winv_def using assms(3) w(2) aok dis fok by (simp add: pl ds)
  have "x \<in> in_use s' \<longleftrightarrow> x = a + ARENA_SIZE \<or> x \<in> in_use s" for x
  proof (cases "page_of x = a")
    case True
    then show ?thesis using fr(1) pg page_of_ofs [of x] by (auto simp: in_use_def ars)
  next
    case False
    then show ?thesis using pg(1) by (auto simp: in_use_def ars ds split: option.splits)
  qed
  then show "in_use s' = insert (a + ARENA_SIZE) (in_use s)" by blast
  show "cap s' b = cap s b" if "b \<in> in_use s" for b using that fr(3) by (auto simp: in_use_def cap_def ars)
  show "cap s' (a + ARENA_SIZE) = PGSIZE * n - ARENA_SIZE" "a + ARENA_SIZE \<notin> in_use s" using pg fr(1) by (simp_all add: cap_def ars in_use_def)
qed

text \<open>Putting a block back on its free list.\<close>

lemma winv_pmem: "winv (s\<lparr>pal := (pal s)\<lparr>pmem := m\<rparr>\<rparr>) = winv s" "in_use (s\<lparr>pal := (pal s)\<lparr>pmem := m\<rparr>\<rparr>) = in_use s"
    "cap (s\<lparr>pal := (pal s)\<lparr>pmem := m\<rparr>\<rparr>) = cap s"
  by (auto simp: winv_def arena_ok_def free_ok_def in_use_def cap_def split: option.splits)

definition push :: "nat \<Rightarrow> addr \<Rightarrow> arena \<Rightarrow> malloc_state \<Rightarrow> malloc_state" where
  "push i b ar s = put_ar (page_of b) (Some (ar\<lparr>free_cnt := free_cnt ar + 1\<rparr>)) (put_fl i (b # fl s i) s)"

lemma winv_push:
  assumes "winv s" "b \<in> in_use s" "arenas s (page_of b) = Some ar" "adesc ar = Some i"
  shows "winv (push i b ar s)" "in_use (push i b ar s) = in_use s - {b}" "cap (push i b ar s) = cap s"
proof -
  note w = winv_parts [OF assms(1)]
  have i: "i < 7" using w(4) [OF assms(3)] assms(4) by (simp add: arena_ok_def)
  have b: "b \<notin> set (fl s i)" "block_ofs i b" using assms(2-4) by (simp_all add: in_use_def)
  let ?s = "push i b ar s"
  have fl: "fl ?s j = (if j = i then b # fl s i else fl s j)" for j using fl_put [of i s "b # fl s i" j] w(3) i by (simp add: push_def)
  have ars: "arenas ?s = (arenas s)(page_of b \<mapsto> ar\<lparr>free_cnt := free_cnt ar + 1\<rparr>)" and pl: "pal ?s = pal s" by (simp_all add: push_def)
  have ap: "apages a' x = apages a' (if a' = page_of b then ar else x)" if "arenas ?s a' = Some x" for a' x
    using that assms(4) by (auto simp: ars apages_def split: if_splits)
  have aok: "arena_ok ?s a' x" if "arenas ?s a' = Some x" for a' x
  proof (cases "a' = page_of b")
    case True
    then show ?thesis using that w(4) [OF assms(3)] assms(4) by (auto simp: ars arena_ok_def apages_def fl pl)
  next
    case False
    then have x: "arenas s a' = Some x" using that by (simp add: ars)
    then show ?thesis using w(4) [OF x] False by (auto simp: arena_ok_def fl pl split: option.splits)
  qed
  have dis: "apages a x \<inter> apages a' x' = {}" if "arenas ?s a = Some x" "arenas ?s a' = Some x'" "a \<noteq> a'" for a x a' x'
    unfolding ap [OF that(1)] ap [OF that(2)] using that assms(3) by (intro w(5)) (auto simp: ars)
  have fok: "free_ok ?s j" if "j < 7" for j using w(6) [OF that] b assms(3,4) by (auto simp: free_ok_def fl ars)
  show "winv ?s" unfolding winv_def using w(1) descs_ok_put [OF w(2)] aok dis fok by (simp add: push_def)
  have "x \<in> in_use ?s \<longleftrightarrow> x \<in> in_use s \<and> x \<noteq> b" for x
  proof (cases "page_of x = page_of b")
    case True
    then show ?thesis using assms(3,4) by (auto simp: in_use_def ars fl)
  next
    case False
    have "y \<in> set (fl ?s j) \<longleftrightarrow> y \<in> set (fl s j)" if "page_of y \<noteq> page_of b" for y j using that by (auto simp: fl)
    then show ?thesis using False by (auto simp: in_use_def ars split: option.splits)
  qed
  then show "in_use ?s = in_use s - {b}" by blast
  show "cap ?s = cap s" using assms(3,4) by (auto simp: cap_def ars)
qed

text \<open>An arena whose blocks are all free holds no block in use.\<close>

lemma full_arena:
  assumes "winv s" "arenas s a = Some ar" "adesc ar = Some i" "free_cnt ar = bpa i" "k < bpa i"
  shows "blk a i k \<in> set (fl s i)"
proof -
  note w = winv_parts [OF assms(1)] and p = arena_page [OF assms(1,2)]
  have i: "i < 7" and cnt: "length (filter (\<lambda>b. page_of b = a) (fl s i)) = bpa i" using w(4) [OF assms(2)] assms(3,4) by (simp_all add: arena_ok_def)
  let ?F = "set (filter (\<lambda>b. page_of b = a) (fl s i))"
  have "?F \<subseteq> blk a i ` {0..<bpa i}"
  proof
    fix b assume "b \<in> ?F"
    then have "block_ofs i b" "page_of b = a" using w(6) [OF i] by (auto simp: free_ok_def)
    then show "b \<in> blk a i ` {0..<bpa i}" using block_ofs_mem by blast
  qed
  moreover have "card ?F = bpa i" using w(6) [OF i] cnt distinct_card [OF distinct_filter, of "fl s i"] by (simp add: free_ok_def del: set_filter)
  moreover have "card (blk a i ` {0..<bpa i}) = bpa i" by (simp add: card_image inj_on_def)
  ultimately have "?F = blk a i ` {0..<bpa i}" by (intro card_subset_eq) simp_all
  moreover have "blk a i k \<in> blk a i ` {0..<bpa i}" using assms(5) by simp
  ultimately show ?thesis by auto
qed

lemma winv_drop:
  assumes "winv s" "arenas s a = Some ar" "pal_ok q" "used_pages (kernel_pool q) = used_pages (kernel_pool (pal s)) - apages a ar"
    "\<And>b. page_of b = a \<Longrightarrow> b \<notin> in_use s \<or> adesc ar = None"
    "s' = put_ar a None ((case adesc ar of None \<Rightarrow> s | Some i \<Rightarrow> put_fl i (filter (\<lambda>b. page_of b \<noteq> a) (fl s i)) s)\<lparr>pal := q\<rparr>)"
  shows "winv s'" "in_use s' = {b \<in> in_use s. page_of b \<noteq> a}" "\<And>b. page_of b \<noteq> a \<Longrightarrow> cap s' b = cap s b"
proof -
  note w = winv_parts [OF assms(1)]
  have i: "i < 7" if "adesc ar = Some i" for i using w(4) [OF assms(2)] that by (simp add: arena_ok_def)
  have fl: "fl s' j = (if adesc ar = Some j then filter (\<lambda>b. page_of b \<noteq> a) (fl s j) else fl s j)" for j
    using fl_put [of _ s _ j] w(3) i by (auto simp: assms(6) put_fl_def split: option.splits)
  have ars: "arenas s' = (arenas s)(a := None)" and pl: "pal s' = q" by (simp_all add: assms(6) split: option.splits)
  have ds: "descs_ok (descs s')" using w(2) descs_ok_put [OF w(2)] by (auto simp: assms(6) split: option.splits)
  have aok: "arena_ok s' b x" if "arenas s' b = Some x" for b x
  proof -
    have x: "arenas s b = Some x" "b \<noteq> a" using that by (auto simp: ars split: if_splits)
    have "apages b x \<inter> apages a ar = {}" using w(5) [OF x(1) assms(2) x(2)] .
    moreover have "filter (\<lambda>c. page_of c = b) (filter (\<lambda>c. page_of c \<noteq> a) xs) = filter (\<lambda>c. page_of c = b) xs" for xs
      using x(2) by (induction xs) auto
    ultimately show ?thesis using w(4) [OF x(1)] assms(4) by (auto simp: arena_ok_def pl fl split: option.splits)
  qed
  have dis: "apages b x \<inter> apages b' x' = {}" if "arenas s' b = Some x" "arenas s' b' = Some x'" "b \<noteq> b'" for b x b' x'
    using that w(5) [of b x b' x'] by (auto simp: ars split: if_splits)
  have fok: "free_ok s' j" if "j < 7" for j
  proof -
    have "page_of b \<noteq> a" if "b \<in> set (fl s' j)" for b
      using that w(6) [OF \<open>j < 7\<close>] assms(2) by (auto simp: fl free_ok_def split: if_splits)
    moreover have "set (fl s' j) \<subseteq> set (fl s j)" "distinct (fl s' j)" using w(6) [OF that] by (auto simp: fl free_ok_def)
    ultimately show ?thesis using w(6) [OF that] unfolding free_ok_def by (fastforce simp: ars)
  qed
  show "winv s'" unfolding winv_def using assms(3) ds aok dis fok by (simp add: pl)
  have "x \<in> in_use s' \<longleftrightarrow> x \<in> in_use s \<and> page_of x \<noteq> a" for x
  proof (cases "page_of x = a")
    case True then show ?thesis by (simp add: in_use_def ars)
  next
    case False
    then have "x \<in> set (fl s' j) \<longleftrightarrow> x \<in> set (fl s j)" for j by (auto simp: fl)
    then show ?thesis using False by (auto simp: in_use_def ars split: option.splits)
  qed
  then show "in_use s' = {b \<in> in_use s. page_of b \<noteq> a}" by blast
  show "cap s' b = cap s b" if "page_of b \<noteq> a" for b using that by (simp add: cap_def ars)
qed

subsection \<open>The steps of the code\<close>

lemma upd_desc_simps [simp]:
  "pal (upd_desc i f s) = pal s" "arenas (upd_desc i f s) = arenas s" "length (descs (upd_desc i f s)) = length (descs s)"
  "(upd_desc i f s)\<lparr>arenas := A\<rparr> = upd_desc i f (s\<lparr>arenas := A\<rparr>)" "(upd_desc i f s)\<lparr>pal := q\<rparr> = upd_desc i f (s\<lparr>pal := q\<rparr>)"
  by (simp_all add: upd_desc_def)

lemma desc_of_upd [simp]: "i < length (descs s) \<Longrightarrow> desc_of i (upd_desc i f s) = Some (f (descs s ! i))"
  by (simp add: desc_of_def upd_desc_def)

lemma upd_desc_twice [simp]: "i < length (descs s) \<Longrightarrow> upd_desc i f (upd_desc i g s) = upd_desc i (\<lambda>d. f (g d)) s"
  by (simp add: upd_desc_def)

text \<open>The size of a descriptor's blocks never changes.\<close>

definition sizes_ok :: "malloc_state \<Rightarrow> bool" where
  "sizes_ok s \<longleftrightarrow> length (descs s) = 7 \<and> (\<forall>i < 7. dblock_size (descs s ! i) = bs i \<and> blocks_per_arena (descs s ! i) = bpa i)"

lemma sizes_winv: "winv s \<Longrightarrow> sizes_ok s"
  by (simp add: winv_def descs_ok_def sizes_ok_def)

lemma sizes_upd: "sizes_ok s \<Longrightarrow> (\<And>d. dblock_size (f d) = dblock_size d \<and> blocks_per_arena (f d) = blocks_per_arena d) \<Longrightarrow> sizes_ok (upd_desc i f s)"
  by (cases "i < 7") (auto simp: sizes_ok_def upd_desc_def nth_list_update)

lemma sizes_cong: "descs s' = descs s \<Longrightarrow> sizes_ok s' = sizes_ok s"
  by (simp add: sizes_ok_def)

lemma block_to_arena_small:
  assumes "sizes_ok s" "block_ofs i b" "b < 2 ^ 32" "page_of b \<noteq> NULL" "arenas s (page_of b) = Some ar" "amagic ar = ARENA_MAGIC" "adesc ar = Some i" "i < 7"
  shows "block_to_arena b s = Some (page_of b)"
proof -
  obtain k where k: "b mod PGSIZE = ARENA_SIZE + k * bs i" using assms(2) by (auto simp: block_ofs_def)
  have "b mod PGSIZE < 2 ^ 32" by (rule less_le_trans [of _ PGSIZE]) (simp_all add: PGSIZE_def)
  then have "u32 (b mod PGSIZE + 2 ^ 32 - ARENA_SIZE) = k * bs i" unfolding k by (simp add: u32_def)
  then show ?thesis using assms
    by (simp add: block_to_arena_def pg_round_down_eq pg_ofs_mod get_arena_def desc_of_def sizes_ok_def Let_def flip: page_of_def)
qed

lemma block_to_arena_big:
  assumes "b mod PGSIZE = ARENA_SIZE" "b < 2 ^ 32" "page_of b \<noteq> NULL" "arenas s (page_of b) = Some ar" "amagic ar = ARENA_MAGIC" "adesc ar = None"
  shows "block_to_arena b s = Some (page_of b)"
  using assms by (simp add: block_to_arena_def pg_round_down_eq pg_ofs_mod get_arena_def Let_def flip: page_of_def)

lemma arena_to_block_ok:
  assumes "sizes_ok s" "arenas s a = Some ar" "amagic ar = ARENA_MAGIC" "adesc ar = Some i" "i < 7" "k < bpa i" "a mod PGSIZE = 0" "a + PGSIZE \<le> 2 ^ 32" "a \<noteq> NULL"
  shows "arena_to_block a k s = Some (blk a i k)"
proof -
  have "blk a i k < 2 ^ 32" using blk_in_page(2) [OF assms(7,6)] assms(8) bs_pos [of i] by linarith
  then show ?thesis using assms(1-6,9) by (simp add: arena_to_block_def get_arena_def desc_of_def sizes_ok_def blk_def)
qed

lemma push_loop_ok:
  assumes "sizes_ok s" "arenas s a = Some ar" "amagic ar = ARENA_MAGIC" "adesc ar = Some i" "i < 7" "k + n \<le> bpa i" "a mod PGSIZE = 0" "a + PGSIZE \<le> 2 ^ 32" "a \<noteq> NULL"
  shows "push_loop n k a i s = Some (upd_desc i (\<lambda>d. d\<lparr>free_list := free_list d @ map (blk a i) [k..<k + n]\<rparr>) s)"
  using assms
proof (induction n k a i s rule: push_loop.induct)
  case (1 k a i s) then show ?case by (simp add: upd_desc_def)
next
  case (2 n k a i s)
  have b: "arena_to_block a k s = Some (blk a i k)" using 2 by (intro arena_to_block_ok) auto
  have l: "i < length (descs s)" using 2(2,6) by (simp add: sizes_ok_def)
  have "push_loop n (Suc k) a i (upd_desc i (\<lambda>d. d\<lparr>free_list := free_list d @ [blk a i k]\<rparr>) s) =
      Some (upd_desc i (\<lambda>d. d\<lparr>free_list := free_list d @ map (blk a i) [Suc k..<Suc k + n]\<rparr>) (upd_desc i (\<lambda>d. d\<lparr>free_list := free_list d @ [blk a i k]\<rparr>) s))"
    using 2(2-) by (intro 2(1) [OF b]) (auto intro: sizes_upd)
  moreover have "[k..<Suc (k + n)] = k # [Suc k..<Suc (k + n)]" by (simp add: upt_conv_Cons del: upt_Suc)
  ultimately show ?case using b l by (simp del: upt_Suc)
qed

lemma remove_loop_ok:
  assumes "sizes_ok s" "arenas s a = Some ar" "amagic ar = ARENA_MAGIC" "adesc ar = Some i" "i < 7" "k + n \<le> bpa i" "a mod PGSIZE = 0" "a + PGSIZE \<le> 2 ^ 32" "a \<noteq> NULL"
    "distinct (fl s i)" "\<forall>j. k \<le> j \<and> j < k + n \<longrightarrow> blk a i j \<in> set (fl s i)"
  shows "remove_loop n k a i s = Some (upd_desc i (\<lambda>d. d\<lparr>free_list := filter (\<lambda>b. b \<notin> blk a i ` {k..<k + n}) (free_list d)\<rparr>) s)"
  using assms
proof (induction n k a i s rule: remove_loop.induct)
  case (1 k a i s) then show ?case by (simp add: upd_desc_def)
next
  case (2 n k a i s)
  let ?f = "\<lambda>d. d\<lparr>free_list := remove1 (blk a i k) (free_list d)\<rparr>"
  have b: "arena_to_block a k s = Some (blk a i k)" using 2(2-) by (intro arena_to_block_ok) auto
  have l: "i < length (descs s)" using 2(2,6) by (simp add: sizes_ok_def)
  have d: "desc_of i s = Some (descs s ! i)" and m: "blk a i k \<in> set (fl s i)" using l 2(12) by (auto simp: desc_of_def)
  have fl: "fl (upd_desc i ?f s) i = remove1 (blk a i k) (fl s i)" using l by (simp add: upd_desc_def)
  have "remove_loop n (Suc k) a i (upd_desc i ?f s) =
      Some (upd_desc i (\<lambda>d. d\<lparr>free_list := filter (\<lambda>b. b \<notin> blk a i ` {Suc k..<Suc k + n}) (free_list d)\<rparr>) (upd_desc i ?f s))"
  proof (rule 2(1) [OF b d])
    show "k_assert (blk a i k \<in> set (fl s i)) = Some ()" using m by simp
    show "sizes_ok (upd_desc i ?f s)" using 2(2) by (intro sizes_upd) simp_all
    show "distinct (fl (upd_desc i ?f s) i)" unfolding fl using 2(11) by simp
    show "\<forall>j. Suc k \<le> j \<and> j < Suc k + n \<longrightarrow> blk a i j \<in> set (fl (upd_desc i ?f s) i)"
      unfolding fl using 2(11,12) by (simp add: distinct_remove1_removeAll)
  qed (use 2(3-10) in simp_all)
  moreover have "filter (\<lambda>b. b \<notin> blk a i ` {Suc k..<Suc k + n}) (remove1 (blk a i k) (fl s i)) = filter (\<lambda>b. b \<notin> blk a i ` {k..<k + Suc n}) (fl s i)"
  proof -
    have "{k..<k + Suc n} = insert k {Suc k..<Suc k + n}" by auto
    then show ?thesis using 2(11) by (auto simp: distinct_remove1_removeAll removeAll_filter_not_eq intro!: filter_cong)
  qed
  ultimately show ?case using b d m l by (simp add: upd_desc_def)
qed

subsection \<open>malloc\<close>

lemma find_desc_le: "find_desc sz ds \<le> length ds"
  by (induction ds) auto

lemma find_desc_fits: "find_desc sz ds < length ds \<Longrightarrow> sz \<le> dblock_size (ds ! find_desc sz ds)"
  by (induction ds) auto

lemma find_desc_none: "find_desc sz ds = length ds \<Longrightarrow> d \<in> set ds \<Longrightarrow> dblock_size d < sz"
  by (induction ds) (auto split: if_splits)

definition locked :: "nat \<Rightarrow> malloc_state \<Rightarrow> malloc_state" where
  "locked i s = upd_desc i (\<lambda>d. d\<lparr>dlock := True\<rparr>) s"

lemma malloc_small:
  assumes "sz \<noteq> 0" "find_desc sz (descs s) = i" "i < length (descs s)" "\<not> dlock (descs s ! i)"
  shows "malloc sz s = (if fl s i = [] then do {
       (ok, s) \<leftarrow> new_arena i (locked i s);
       if ok then take_block i s else do { s \<leftarrow> desc_release i s; Some (NULL, s) } }
     else take_block i (locked i s))"
  using assms by (auto simp: malloc_def desc_acquire_def desc_of_def [of i s] locked_def)

lemma unlock: "\<not> dlock (descs s ! i) \<Longrightarrow> upd_desc i (\<lambda>d. d\<lparr>free_list := f (free_list d), dlock := False\<rparr>) s = put_fl i (f (fl s i)) s"
proof -
  assume "\<not> dlock (descs s ! i)"
  then have "(descs s ! i)\<lparr>free_list := f (fl s i), dlock := False\<rparr> = (descs s ! i)\<lparr>free_list := f (fl s i)\<rparr>"
    by (cases "descs s ! i") simp
  then show ?thesis by (simp add: upd_desc_def put_fl_def)
qed

lemma release_locked: "i < length (descs s) \<Longrightarrow> \<not> dlock (descs s ! i) \<Longrightarrow> desc_release i (locked i s) = Some s"
  using unlock [of s i "\<lambda>x. x"] by (simp add: desc_release_def locked_def put_fl_def)

lemma take_block_ok:
  assumes "winv s" "i < 7" "fl s i = b # rest" "arenas s (page_of b) = Some ar"
  shows "take_block i (locked i s) = Some (b, pop i b rest ar s)"
proof -
  note w = winv_parts [OF assms(1)] and p = arena_page [OF assms(1,4)]
  have fo: "block_ofs i b" "adesc ar = Some i" using w(6) [OF assms(2)] assms(3,4) by (auto simp: free_ok_def)
  have m: "amagic ar = ARENA_MAGIC" using w(4) [OF assms(4)] by (simp add: arena_ok_def)
  have l: "i < length (descs s)" using w(3) assms(2) by simp
  let ?s = "upd_desc i (\<lambda>d. d\<lparr>free_list := tl (free_list d)\<rparr>) (locked i s)"
  have "sizes_ok ?s" using sizes_winv [OF assms(1)] unfolding locked_def by (intro sizes_upd) simp_all
  moreover have "b < 2 ^ 32" using page_of_le(2) [of b] p(2) by linarith
  ultimately have ba: "block_to_arena b ?s = Some (page_of b)"
    using fo m p(4) assms(2,4) by (intro block_to_arena_small) (simp_all add: locked_def)
  have c0: "0 < free_cnt ar" using winv_pop(5) [OF assms] .
  have "length (filter (\<lambda>x. page_of x = page_of b) (fl s i)) \<le> bpa i"
  proof -
    have "set (filter (\<lambda>x. page_of x = page_of b) (fl s i)) \<subseteq> blk (page_of b) i ` {0..<bpa i}"
      using w(6) [OF assms(2)] block_ofs_mem by (fastforce simp: free_ok_def)
    from card_mono [OF _ this] show ?thesis using w(6) [OF assms(2)] distinct_card [OF distinct_filter, of "fl s i"]
      by (simp add: free_ok_def card_image inj_on_def del: set_filter)
  qed
  then have "free_cnt ar < 2 ^ 32" using w(4) [OF assms(4)] fo(2) bpa_pos(2) [of i] by (simp add: arena_ok_def)
  then have "u32 (free_cnt ar + 2 ^ 32 - 1) = free_cnt ar - 1" using c0 by (auto simp: u32_def gr0_conv_Suc)
  moreover have "upd_desc i (\<lambda>d. d\<lparr>free_list := tl (free_list d), dlock := False\<rparr>) (s\<lparr>arenas := A\<rparr>) = (put_fl i rest s)\<lparr>arenas := A\<rparr>" for A
    using unlock [of "s\<lparr>arenas := A\<rparr>" i tl] w(2) assms(2,3) by (simp add: descs_ok_def put_fl_def)
  ultimately show ?thesis using l assms(3,4) ba by (simp add: take_block_def locked_def desc_release_def pop_def put_ar_def Let_def)
qed

text \<open>Pages for an arena.\<close>

lemma kernel_get:
  assumes "pal_ok p" "0 < n"
  shows "(\<exists>a q. palloc_get_multiple 0 n p = Some (a, q) \<and> pal_ok q \<and> a \<noteq> NULL \<and> a mod PGSIZE = 0 \<and>
      page_run a n \<inter> used_pages (kernel_pool p) = {} \<and> used_pages (kernel_pool q) = used_pages (kernel_pool p) \<union> page_run a n \<and> pmem q = pmem p) \<or>
    palloc_get_multiple 0 n p = Some (NULL, p)"
proof -
  have z: "False = ((0 :: nat) AND PAL_USER \<noteq> 0)" "(0 :: nat) AND PAL_ZERO = 0" "(0 :: nat) AND PAL_ASSERT = 0" by simp_all
  from palloc_get_ok [OF assms refl z(1)] show ?thesis
    unfolding z(2,3) get_pool_def pg_ofs_mod by (auto simp: fun_eq_iff)
qed

lemma new_arena_ok:
  assumes "winv s" "i < 7" "fl s i = []"
  shows "(\<exists>s'. new_arena i (locked i s) = Some (True, locked i s') \<and> winv s' \<and> in_use s' = in_use s \<and> (\<forall>b \<in> in_use s. cap s' b = cap s b) \<and>
      pmem (pal s') = pmem (pal s) \<and> fl s' i \<noteq> [] \<and>
      (\<forall>a ar j. arenas s' a = Some ar \<longrightarrow> adesc ar = Some j \<longrightarrow> arenas s a = Some ar \<or> (a = page_of (hd (fl s' i)) \<and> j = i \<and> free_cnt ar = bpa i))) \<or>
    new_arena i (locked i s) = Some (False, locked i s)"
proof -
  note w = winv_parts [OF assms(1)]
  have l: "i < length (descs s)" using w(3) assms(2) by simp
  from kernel_get [OF w(1) zero_less_one] show ?thesis
  proof (elim disjE exE conjE)
    assume "palloc_get_multiple 0 1 (pal s) = Some (NULL, pal s)"
    then have "new_arena i (locked i s) = Some (False, locked i s)"
      using l by (simp add: new_arena_def palloc_get_page_def locked_def upd_desc_def desc_of_def)
    then show ?thesis by simp
  next
    fix a q
    assume p: "palloc_get_multiple 0 1 (pal s) = Some (a, q)" "pal_ok q" "a \<noteq> NULL" and a: "a mod PGSIZE = 0"
      and dj: "page_run a 1 \<inter> used_pages (kernel_pool (pal s)) = {}" "used_pages (kernel_pool q) = used_pages (kernel_pool (pal s)) \<union> page_run a 1"
      and pm: "pmem q = pmem (pal s)"
    have "a \<in> used_pages (kernel_pool q)" using dj(2) by (auto simp: page_run_def intro: exI [of _ 0])
    then have a32: "a + PGSIZE \<le> 2 ^ 32" using used_page_props [OF p(2)] by simp
    let ?ar = "\<lparr>amagic = ARENA_MAGIC, adesc = Some i, free_cnt = bpa i\<rparr>" and ?bl = "map (blk a i) [0..<bpa i]"
    define s' where "s' = put_fl i ?bl (put_ar a (Some ?ar) (s\<lparr>pal := q\<rparr>))"
    note n = winv_new [OF assms p(2) dj a s'_def]
    let ?s = "locked i (put_ar a (Some ?ar) (s\<lparr>pal := q\<rparr>))"
    have "sizes_ok ?s" unfolding locked_def using sizes_winv [OF assms(1)] by (intro sizes_upd) (simp_all add: sizes_ok_def)
    then have "push_loop (bpa i) 0 a i ?s = Some (upd_desc i (\<lambda>d. d\<lparr>free_list := free_list d @ map (blk a i) [0..<0 + bpa i]\<rparr>) ?s)"
      using assms(2) a a32 p(3) by (intro push_loop_ok [where ar = ?ar]) (simp_all add: locked_def)
    moreover have "upd_desc i (\<lambda>d. d\<lparr>free_list := free_list d @ ?bl\<rparr>) ?s = locked i s'"
      using l assms(3) by (cases "descs s ! i") (simp add: s'_def locked_def upd_desc_def put_fl_def)
    ultimately have pl: "push_loop (bpa i) 0 a i ?s = Some (locked i s')" by simp
    have "blocks_per_arena (descs s ! i) = bpa i" using w(2) assms(2) by (simp add: descs_ok_def)
    then have na: "new_arena i (locked i s) = Some (True, locked i s')"
      using l p(1,3) pl by (simp add: new_arena_def palloc_get_page_def locked_def put_ar_def Let_def)
    have fl': "fl s' i = ?bl" using fl_put [of i "put_ar a (Some ?ar) (s\<lparr>pal := q\<rparr>)" ?bl i] l by (simp add: s'_def)
    have bp: "0 < bpa i" using bpa_pos(1) [OF assms(2)] by simp
    then have hd: "hd (fl s' i) = blk a i 0" "fl s' i \<noteq> []" unfolding fl' by (simp_all add: hd_map)
    have "pmem (pal s') = pmem (pal s)" using pm by (simp add: s'_def)
    moreover have "arenas s b = Some x \<or> (b = page_of (hd (fl s' i)) \<and> j = i \<and> free_cnt x = bpa i)"
      if "arenas s' b = Some x" "adesc x = Some j" for b x j
      unfolding hd(1) blk_in_page(1) [OF a bp] using that by (auto simp: s'_def split: if_splits)
    ultimately show ?thesis using na n hd(2) by blast
  qed
qed

lemma malloc_big:
  assumes "winv s" "sz \<noteq> 0" "find_desc sz (descs s) = length (descs s)" "n = DIV_ROUND_UP (u32 (sz + ARENA_SIZE)) PGSIZE" "0 < n"
  shows "(\<exists>a s'. malloc sz s = Some (a + ARENA_SIZE, s') \<and> winv s' \<and> in_use s' = insert (a + ARENA_SIZE) (in_use s) \<and> a + ARENA_SIZE \<notin> in_use s \<and>
      (\<forall>b \<in> in_use s. cap s' b = cap s b) \<and> cap s' (a + ARENA_SIZE) = PGSIZE * n - ARENA_SIZE \<and> pmem (pal s') = pmem (pal s) \<and>
      (\<forall>b ar j. arenas s' b = Some ar \<longrightarrow> adesc ar = Some j \<longrightarrow> arenas s b = Some ar)) \<or>
    malloc sz s = Some (NULL, s)"
proof -
  note w = winv_parts [OF assms(1)]
  from kernel_get [OF w(1) assms(5)] show ?thesis
  proof (elim disjE exE conjE)
    assume "palloc_get_multiple 0 n (pal s) = Some (NULL, pal s)"
    then have "malloc sz s = Some (NULL, s)" using assms(2-4) by (simp add: malloc_def)
    then show ?thesis by simp
  next
    fix a q
    assume p: "palloc_get_multiple 0 n (pal s) = Some (a, q)" "pal_ok q" "a \<noteq> NULL" and a: "a mod PGSIZE = 0"
      and dj: "page_run a n \<inter> used_pages (kernel_pool (pal s)) = {}" "used_pages (kernel_pool q) = used_pages (kernel_pool (pal s)) \<union> page_run a n"
      and pm: "pmem q = pmem (pal s)"
    define s' where "s' = put_ar a (Some \<lparr>amagic = ARENA_MAGIC, adesc = None, free_cnt = n\<rparr>) (s\<lparr>pal := q\<rparr>)"
    note b = winv_big [OF assms(1,5) p(2) dj a s'_def]
    have m: "malloc sz s = Some (a + ARENA_SIZE, s')" using assms(2-4) p(1,3) by (simp add: malloc_def s'_def put_ar_def Let_def)
    have "pmem (pal s') = pmem (pal s)" using pm by (simp add: s'_def)
    moreover have "arenas s c = Some x" if "arenas s' c = Some x" "adesc x = Some j" for c x j
      using that by (auto simp: s'_def split: if_splits)
    ultimately show ?thesis using m b by blast
  qed
qed

lemma pop_minv:
  assumes "winv s" "i < 7" "fl s i = b # rest" "arenas s (page_of b) = Some ar"
    "\<And>a x j. arenas s a = Some x \<Longrightarrow> adesc x = Some j \<Longrightarrow> free_cnt x < bpa j \<or> (a = page_of b \<and> j = i \<and> free_cnt x = bpa i)"
  shows "minv (pop i b rest ar s)"
proof -
  have ai: "adesc ar = Some i" using winv_parts(6) [OF assms(1,2)] assms(3,4) by (simp add: free_ok_def)
  then have "free_cnt ar \<le> bpa i" "0 < free_cnt ar" using assms(5) [OF assms(4)] winv_pop(5) [OF assms(1-4)] by auto
  then have "free_cnt x < bpa j" if "arenas (pop i b rest ar s) a = Some x" "adesc x = Some j" for a x j
    using that assms(5) [of a x j] ai by (auto simp: pop_def split: if_splits)
  then show ?thesis unfolding minv_def using winv_pop(1) [OF assms(1-4)] by blast
qed

lemma small_sizes: "winv s \<Longrightarrow> find_desc sz (descs s) = length (descs s) \<Longrightarrow> 1024 < sz"
proof -
  assume w: "winv s" and "find_desc sz (descs s) = length (descs s)"
  then have "dblock_size (descs s ! 6) < sz" using winv_parts(3) [OF w] by (intro find_desc_none [of sz "descs s"]) simp_all
  then show "1024 < sz" using winv_parts(2) [OF w] by (simp add: descs_ok_def bs_def)
qed

text \<open>What a call that returns a block has done.\<close>

definition fresh_block :: "malloc_state \<Rightarrow> nat \<Rightarrow> addr \<Rightarrow> malloc_state \<Rightarrow> bool" where
  "fresh_block s sz b s' \<longleftrightarrow> minv s' \<and> pmem (pal s') = pmem (pal s) \<and> b \<noteq> NULL \<and> b \<notin> in_use s \<and> in_use s' = insert b (in_use s) \<and>
     sz \<le> cap s' b \<and> (\<forall>b' \<in> in_use s. cap s' b' = cap s b')"

lemma fresh_disjoint: "fresh_block s sz b s' \<Longrightarrow> b' \<in> in_use s \<Longrightarrow> region s' b' \<inter> region s' b = {}"
  by (rule regions_disjoint) (auto simp: fresh_block_def minv_def)

text \<open>Taking a block from a free list, which may be that of a new arena.\<close>

lemma take_fresh:
  assumes "minv s" "winv t" "i < 7" "sz \<le> bs i" "fl t i \<noteq> []" "in_use t = in_use s" "\<forall>b \<in> in_use s. cap t b = cap s b" "pmem (pal t) = pmem (pal s)"
    "\<And>a x j. arenas t a = Some x \<Longrightarrow> adesc x = Some j \<Longrightarrow> arenas s a = Some x \<or> (a = page_of (hd (fl t i)) \<and> j = i \<and> free_cnt x = bpa i)"
  shows "\<exists>b s'. take_block i (locked i t) = Some (b, s') \<and> fresh_block s sz b s'"
proof -
  obtain b rest where b: "fl t i = b # rest" using assms(5) by (cases "fl t i") auto
  obtain ar where ar: "arenas t (page_of b) = Some ar" "adesc ar = Some i" using winv_parts(6) [OF assms(2,3)] b by (auto simp: free_ok_def)
  note wp = winv_pop [OF assms(2,3) b ar(1)]
  have "free_cnt x < bpa j \<or> (a = page_of b \<and> j = i \<and> free_cnt x = bpa i)" if "arenas t a = Some x" "adesc x = Some j" for a x j
    using assms(9) [OF that] assms(1) that b by (auto simp: minv_def)
  then have "minv (pop i b rest ar t)" by (rule pop_minv [OF assms(2,3) b ar(1)])
  moreover have "b \<noteq> NULL" using arena_page(4) [OF assms(2) ar(1)] page_of_le(1) [of b] by linarith
  moreover have "cap (pop i b rest ar t) b = bs i" unfolding wp(4) using ar by (simp add: cap_def)
  ultimately have "fresh_block s sz b (pop i b rest ar t)" using wp assms(4,6-8) unfolding fresh_block_def by (simp add: pop_def)
  then show ?thesis using take_block_ok [OF assms(2,3) b ar(1)] by blast
qed

lemma malloc_small_ok:
  assumes "minv s" "0 < sz" "find_desc sz (descs s) \<noteq> length (descs s)"
  shows "(\<exists>b s'. malloc sz s = Some (b, s') \<and> fresh_block s sz b s') \<or> malloc sz s = Some (NULL, s)"
proof -
  have w: "winv s" using assms(1) by (simp add: minv_def)
  define i where "i = find_desc sz (descs s)"
  have i: "i < 7" "i < length (descs s)" using assms(3) find_desc_le [of sz "descs s"] winv_parts(3) [OF w] by (simp_all add: i_def)
  have sb: "sz \<le> bs i" using find_desc_fits [of sz "descs s"] i winv_parts(2) [OF w] by (simp add: i_def descs_ok_def)
  have ul: "\<not> dlock (descs s ! i)" using winv_parts(2) [OF w] i(1) by (simp add: descs_ok_def)
  have sz: "sz \<noteq> 0" using assms(2) by simp
  note ms = malloc_small [OF sz i_def [symmetric] i(2) ul]
  show ?thesis
  proof (cases "fl s i = []")
    case False
    then show ?thesis using ms take_fresh [OF assms(1) w i(1) sb] by auto
  next
    case True
    from new_arena_ok [OF w i(1) True] show ?thesis
    proof (elim disjE exE conjE)
      fix t
      assume t: "new_arena i (locked i s) = Some (True, locked i t)" "winv t" "in_use t = in_use s" "\<forall>b \<in> in_use s. cap t b = cap s b"
        "pmem (pal t) = pmem (pal s)" "fl t i \<noteq> []"
        "\<forall>a ar j. arenas t a = Some ar \<longrightarrow> adesc ar = Some j \<longrightarrow> arenas s a = Some ar \<or> (a = page_of (hd (fl t i)) \<and> j = i \<and> free_cnt ar = bpa i)"
      have "\<exists>b s'. take_block i (locked i t) = Some (b, s') \<and> fresh_block s sz b s'"
        using t(7) by (intro take_fresh [OF assms(1) t(2) i(1) sb t(6,3,4,5)]) blast
      then show ?thesis using ms True t(1) by simp
    next
      assume "new_arena i (locked i s) = Some (False, locked i s)"
      moreover have "desc_release i (locked i s) = Some s" by (rule release_locked [OF i(2) ul])
      ultimately show ?thesis using ms True by simp
    qed
  qed
qed

lemma malloc_big_ok:
  assumes "minv s" "0 < sz" "sz + PGSIZE + ARENA_SIZE \<le> 2 ^ 32" "find_desc sz (descs s) = length (descs s)"
  shows "(\<exists>b s'. malloc sz s = Some (b, s') \<and> fresh_block s sz b s') \<or> malloc sz s = Some (NULL, s)"
proof -
  have w: "winv s" and fc: "\<And>a x j. arenas s a = Some x \<Longrightarrow> adesc x = Some j \<Longrightarrow> free_cnt x < bpa j" using assms(1) by (auto simp: minv_def)
  define n where "n = DIV_ROUND_UP (u32 (sz + ARENA_SIZE)) PGSIZE"
  have u: "u32 (sz + ARENA_SIZE) = sz + ARENA_SIZE" using assms(3) by (simp add: PGSIZE_def)
  then have n: "sz + ARENA_SIZE \<le> PGSIZE * n" using div_round_up_bounds(1) [of PGSIZE "sz + ARENA_SIZE"] assms(3) by (simp add: n_def PGSIZE_def)
  then have n0: "0 < n" by (cases n) (auto simp: ARENA_SIZE_def)
  have sz: "sz \<noteq> 0" using assms(2) by simp
  from malloc_big [OF w sz assms(4) n_def n0] show ?thesis
  proof (elim disjE exE conjE)
    fix a s'
    assume m: "malloc sz s = Some (a + ARENA_SIZE, s')" "winv s'" "in_use s' = insert (a + ARENA_SIZE) (in_use s)" "a + ARENA_SIZE \<notin> in_use s"
      "\<forall>b \<in> in_use s. cap s' b = cap s b" "cap s' (a + ARENA_SIZE) = PGSIZE * n - ARENA_SIZE" "pmem (pal s') = pmem (pal s)"
      "\<forall>b ar j. arenas s' b = Some ar \<longrightarrow> adesc ar = Some j \<longrightarrow> arenas s b = Some ar"
    have "minv s'" unfolding minv_def using m(2,8) fc by blast
    then have "fresh_block s sz (a + ARENA_SIZE) s'" unfolding fresh_block_def using m(3-7) n by (auto simp: ARENA_SIZE_def)
    then show ?thesis using m(1) by blast
  qed simp
qed

lemma malloc_cases:
  assumes "minv s" "0 < sz" "sz + PGSIZE + ARENA_SIZE \<le> 2 ^ 32"
  shows "(\<exists>b s'. malloc sz s = Some (b, s') \<and> fresh_block s sz b s') \<or> malloc sz s = Some (NULL, s)"
  using malloc_small_ok [OF assms(1,2)] malloc_big_ok [OF assms] by blast

text \<open>After \<open>malloc_init\<close> the invariant holds and no block is in use.\<close>

lemma malloc_init_ok:
  assumes "pal_ok (pal s)" "descs s = []" "arenas s = (\<lambda>_. None)"
  shows "\<exists>s'. malloc_init s = Some s' \<and> minv s' \<and> in_use s' = {} \<and> pal s' = pal s"
proof -
  let ?d = "\<lambda>i. \<lparr>dblock_size = bs i, blocks_per_arena = bpa i, free_list = [], dlock = False\<rparr>"
  have "init_loop 16 [] = Some (map ?d [0..<7])"
    by (simp add: init_loop.simps [of "numeral _"] init_loop.simps [of 16] PGSIZE_def DESC_MAX_def bs_def bpa_def u32_def upt_rec)
  then have "malloc_init s = Some (s\<lparr>descs := map ?d [0..<7]\<rparr>)" using assms(2) by (simp add: malloc_init_def)
  moreover have "minv (s\<lparr>descs := map ?d [0..<7]\<rparr>)" using assms(1,3) by (simp add: minv_def winv_def descs_ok_def free_ok_def)
  moreover have "in_use (s\<lparr>descs := map ?d [0..<7]\<rparr>) = {}" using assms(3) by (simp add: in_use_def)
  ultimately show ?thesis by simp
qed

text \<open>C14: \<open>malloc\<close> returns for every size that does not wrap around, keeps the allocator's invariant, writes no byte of memory
  other than arena headers and list links, and gives a null
  pointer, with the blocks in use unchanged, or a block that was not in use, holds at least the size asked for and overlaps no
  other block in use.\<close>
theorem malloc_correct:
  assumes "minv s" "0 < sz" "sz + PGSIZE + ARENA_SIZE \<le> 2 ^ 32"
  shows "\<exists>b s'. malloc sz s = Some (b, s') \<and> minv s' \<and> pmem (pal s') = pmem (pal s) \<and>
    (if b = NULL then in_use s' = in_use s
     else b \<notin> in_use s \<and> in_use s' = insert b (in_use s) \<and> sz \<le> cap s' b \<and>
       (\<forall>b' \<in> in_use s. cap s' b' = cap s b' \<and> region s' b' \<inter> region s' b = {}))"
proof -
  from malloc_cases [OF assms] show ?thesis
  proof (elim disjE exE conjE)
    fix b s'
    assume m: "malloc sz s = Some (b, s')" "fresh_block s sz b s'"
    show ?thesis using m(1) m(2) [unfolded fresh_block_def] fresh_disjoint [OF m(2)] by (intro exI [of _ b] exI [of _ s']) simp
  next
    assume "malloc sz s = Some (NULL, s)"
    then show ?thesis using assms(1) by (intro exI [of _ NULL] exI [of _ s]) simp
  qed
qed

definition demo_heap :: malloc_state where
  "demo_heap = \<lparr>pal = demo_pal, descs = [], arenas = (\<lambda>_. None)\<rparr>"

theorem malloc_correct_witness:
  "\<exists>s b s'. malloc_init demo_heap = Some s \<and> malloc 100 s = Some (b, s') \<and> minv s' \<and> (b \<noteq> NULL \<longrightarrow> 100 \<le> cap s' b)"
proof -
  obtain s where s: "malloc_init demo_heap = Some s" "minv s"
    using malloc_init_ok [of demo_heap] demo_pal_ok by (auto simp: demo_heap_def)
  show ?thesis using malloc_correct [OF s(2), of 100] s(1) by (fastforce simp: PGSIZE_def ARENA_SIZE_def)
qed

lemma malloc_big_succeeds:
  assumes "winv s" "sz \<noteq> 0" "find_desc sz (descs s) = length (descs s)" "1 = DIV_ROUND_UP (u32 (sz + ARENA_SIZE)) PGSIZE"
    and free: "a0 \<in> pool_pages (kernel_pool (pal s)) - used_pages (kernel_pool (pal s))"
  shows "malloc sz s \<noteq> Some (NULL, s)"
proof -
  have "page_run a0 1 = {a0}" by (auto simp: page_run_def)
  then have "\<not> (\<forall>a \<in> pool_pages (kernel_pool (pal s)). \<not> page_run a 1 \<subseteq> pool_pages (kernel_pool (pal s)) - used_pages (kernel_pool (pal s)))"
    using free by auto
  then obtain a q where "palloc_get_multiple 0 1 (pal s) = Some (a, q)" "a \<noteq> NULL"
    using palloc_get_ok [OF winv_parts(1) [OF assms(1)] zero_less_one refl refl, of 0] by (auto simp: get_pool_def)
  then show ?thesis using assms(2-4) by (simp add: malloc_def Let_def ARENA_SIZE_def)
qed

text \<open>C24: a size within 11 bytes of 4 GB wraps around when the header is added: as long as the kernel pool has a free page,
  \<open>malloc\<close> succeeds with a block of a single page, far smaller than the size asked for.\<close>
theorem malloc_size_wraps:
  assumes "minv s" "2 ^ 32 - ARENA_SIZE < sz" "sz < 2 ^ 32" "pool_pages (kernel_pool (pal s)) - used_pages (kernel_pool (pal s)) \<noteq> {}"
  shows "\<exists>b s'. malloc sz s = Some (b, s') \<and> b \<noteq> NULL \<and> b \<in> in_use s' \<and> cap s' b = PGSIZE - ARENA_SIZE \<and> cap s' b < sz"
proof -
  have w: "winv s" using assms(1) by (simp add: minv_def)
  have f: "find_desc sz (descs s) = length (descs s)"
  proof (rule ccontr)
    assume n: "find_desc sz (descs s) \<noteq> length (descs s)"
    define i where "i = find_desc sz (descs s)"
    have i: "i < 7" "i < length (descs s)" using n find_desc_le [of sz "descs s"] winv_parts(3) [OF w] by (simp_all add: i_def)
    have "sz \<le> bs i" using find_desc_fits [of sz "descs s"] i winv_parts(2) [OF w] by (simp add: i_def descs_ok_def)
    moreover have "bs i \<le> 16 * 2 ^ 7" using i(1) unfolding bs_def by (intro mult_le_mono2 power_increasing) simp_all
    ultimately show False using assms(2) by (simp add: ARENA_SIZE_def)
  qed
  have "u32 (sz + ARENA_SIZE) = sz + ARENA_SIZE - 2 ^ 32" using assms(2,3) by (simp add: u32_def ARENA_SIZE_def mod_if)
  then have n: "1 = DIV_ROUND_UP (u32 (sz + ARENA_SIZE)) PGSIZE" using assms(2,3) by (simp add: DIV_ROUND_UP_def ARENA_SIZE_def PGSIZE_def)
  have "sz \<noteq> 0" using assms(2) by (simp add: ARENA_SIZE_def)
  moreover obtain a0 where "a0 \<in> pool_pages (kernel_pool (pal s)) - used_pages (kernel_pool (pal s))" using assms(4) by blast
  ultimately have "malloc sz s \<noteq> Some (NULL, s)" using malloc_big_succeeds [OF w _ f n] by blast
  then show ?thesis using malloc_big [OF w \<open>sz \<noteq> 0\<close> f n] assms(2) by (auto simp: ARENA_SIZE_def PGSIZE_def)
qed

theorem malloc_size_wraps_witness:
  "\<exists>s b s'. malloc_init demo_heap = Some s \<and> malloc (2 ^ 32 - 1) s = Some (b, s') \<and> b \<noteq> NULL \<and> b \<in> in_use s' \<and> cap s' b = 4084"
proof -
  obtain s where s: "malloc_init demo_heap = Some s" "minv s" "pal s = demo_pal"
    using malloc_init_ok [of demo_heap] demo_pal_ok by (auto simp: demo_heap_def)
  have "page_run (base (kernel_pool demo_pal) + PGSIZE * 4) 1 \<subseteq> pool_pages (kernel_pool demo_pal) - used_pages (kernel_pool demo_pal)"
    unfolding run_free [OF zero_less_one] by (simp add: is_run_def demo_pal_def demo_pool_def demo_bits)
  moreover have "page_run a 1 \<noteq> {}" for a by (auto simp: page_run_def)
  ultimately have "pool_pages (kernel_pool (pal s)) - used_pages (kernel_pool (pal s)) \<noteq> {}" unfolding s(3) by blast
  from malloc_size_wraps [OF s(2) _ _ this, of "2 ^ 32 - 1"] show ?thesis using s(1) by (fastforce simp: PGSIZE_def ARENA_SIZE_def)
qed

end
