(* ===== verification/Malloc_Free.thy ===== *)
theory Malloc_Free
  imports Malloc_Props
begin

text \<open>
  Correctness of the release of blocks.
\<close>

subsection \<open>free\<close>

text \<open>The state with the bytes of a block set to a value.\<close>

definition filled :: "addr \<Rightarrow> nat \<Rightarrow> malloc_state \<Rightarrow> malloc_state" where
  "filled b n s = s\<lparr>pal := (pal s)\<lparr>pmem := \<lambda>x. if b \<le> x \<and> x < b + n then 0xCC else pmem (pal s) x\<rparr>\<rparr>"

lemma filled_simps [simp]:
  "winv (filled b n s) = winv s" "in_use (filled b n s) = in_use s" "cap (filled b n s) = cap s" "descs (filled b n s) = descs s"
  "arenas (filled b n s) = arenas s" "kernel_pool (pal (filled b n s)) = kernel_pool (pal s)"
  by (simp_all add: filled_def winv_pmem)

text \<open>The pages of the arena that a block belongs to, and those of them that the release of the block gives back: all of them if
  no other block of the arena is in use, none otherwise.\<close>

definition block_pages :: "malloc_state \<Rightarrow> addr \<Rightarrow> addr set" where
  "block_pages s b = (case arenas s (page_of b) of None \<Rightarrow> {} | Some ar \<Rightarrow> apages (page_of b) ar)"

definition released :: "malloc_state \<Rightarrow> addr \<Rightarrow> addr set" where
  "released s b = (if \<exists>b' \<in> in_use s - {b}. page_of b' = page_of b then {} else block_pages s b)"

text \<open>What a call that releases a block has done.\<close>

definition freed :: "malloc_state \<Rightarrow> addr \<Rightarrow> malloc_state \<Rightarrow> bool" where
  "freed s b s' \<longleftrightarrow> minv s' \<and> in_use s' = in_use s - {b} \<and>
     used_pages (kernel_pool (pal s')) = used_pages (kernel_pool (pal s)) - released s b \<and>
     (\<forall>b' \<in> in_use s - {b}. cap s' b' = cap s b' \<and> (\<forall>x \<in> region s b'. pmem (pal s') x = pmem (pal s) x))"

lemma block_page:
  assumes "winv s" "b \<in> in_use s" "arenas s (page_of b) = Some ar"
  shows "b < 2 ^ 32" "b \<noteq> NULL"
  using arena_page [OF assms(1,3)] page_of_le [of b] by linarith+

lemma free_small:
  assumes "winv s" "b \<in> in_use s" "arenas s (page_of b) = Some ar" "adesc ar = Some i" "free_cnt ar < bpa i" "t = push i b ar (filled b (bs i) s)"
  shows "free b s = (if free_cnt ar + 1 < bpa i then Some t else do {
       s \<leftarrow> remove_loop (bpa i) 0 (page_of b) i (locked i t);
       q \<leftarrow> palloc_free_page (page_of b) (pal s);
       desc_release i (s\<lparr>pal := q, arenas := (arenas s)(page_of b := None)\<rparr>) })"
proof -
  note w = winv_parts [OF assms(1)] and p = arena_page [OF assms(1,3)] and bp = block_page [OF assms(1-3)]
  have ok: "i < 7" "amagic ar = ARENA_MAGIC" "block_ofs i b" using w(4) [OF assms(3)] assms(2-4) by (auto simp: arena_ok_def in_use_def)
  have l: "i < length (descs s)" and d: "dblock_size (descs s ! i) = bs i" "blocks_per_arena (descs s ! i) = bpa i" "\<not> dlock (descs s ! i)"
    using w(2,3) ok(1) by (auto simp: descs_ok_def)
  have ba: "block_to_arena b s = Some (page_of b)"
    using ok assms(3,4) p(4) bp(1) sizes_winv [OF assms(1)] by (intro block_to_arena_small) simp_all
  have cnt: "u32 (free_cnt ar + 1) = free_cnt ar + 1" using assms(5) bpa_pos(2) [of i] by (simp add: u32_def)
  have lt: "(upd_desc i (\<lambda>d. d\<lparr>free_list := b # free_list d\<rparr>) (locked i (filled b (bs i) s)))\<lparr>arenas := (arenas s)(page_of b \<mapsto> ar\<lparr>free_cnt := free_cnt ar + 1\<rparr>)\<rparr> = locked i t"
    using l by (cases "descs s ! i") (simp add: assms(6) push_def put_ar_def put_fl_def locked_def upd_desc_def filled_def)
  have "desc_release i (locked i t) = Some t" using l d(3) by (intro release_locked) (simp_all add: assms(6) push_def put_fl_def)
  moreover have "arenas (locked i t) = (arenas s)(page_of b \<mapsto> ar\<lparr>free_cnt := free_cnt ar + 1\<rparr>)" by (simp add: assms(6) push_def locked_def)
  ultimately show ?thesis using bp(2) ba assms(3,4,5) l d cnt lt
    by (simp add: free_def memset_eq desc_of_def desc_acquire_def locked_def filled_def Let_def not_less le_Suc_eq cong: if_cong)
qed

text \<open>An arena that became entirely free goes back to the page allocator.\<close>

lemma drop_arena:
  assumes "winv t" "arenas t a = Some ar" "adesc ar = Some i" "free_cnt ar = bpa i"
  shows "\<exists>q s'. remove_loop (bpa i) 0 a i (locked i t) = Some (locked i (put_fl i (filter (\<lambda>b. page_of b \<noteq> a) (fl t i)) t)) \<and>
      palloc_free_page a (pal t) = Some q \<and> s' = put_ar a None ((put_fl i (filter (\<lambda>b. page_of b \<noteq> a) (fl t i)) t)\<lparr>pal := q\<rparr>) \<and>
      winv s' \<and> in_use s' = in_use t \<and> (\<forall>b \<in> in_use t. page_of b \<noteq> a \<and> cap s' b = cap t b) \<and>
      (\<forall>x. page_of x \<noteq> a \<longrightarrow> pmem q x = pmem (pal t) x) \<and>
      used_pages (kernel_pool q) = used_pages (kernel_pool (pal t)) - page_run a 1"
proof -
  note w = winv_parts [OF assms(1)] and p = arena_page [OF assms(1,2)] and full = full_arena [OF assms]
  have ok: "i < 7" "amagic ar = ARENA_MAGIC" "page_run a 1 \<subseteq> used_pages (kernel_pool (pal t))"
    using w(4) [OF assms(2)] assms(3) by (auto simp: arena_ok_def apages_def)
  have l: "i < length (descs t)" using w(3) ok(1) by simp
  have fo: "distinct (fl t i)" "\<And>b. b \<in> set (fl t i) \<Longrightarrow> block_ofs i b" using w(6) [OF ok(1)] by (auto simp: free_ok_def)
  have fl: "fl (locked i t) i = fl t i" using l by (simp add: locked_def upd_desc_def)
  have so: "sizes_ok (locked i t)" unfolding locked_def using sizes_winv [OF assms(1)] by (intro sizes_upd) simp_all
  have "remove_loop (bpa i) 0 a i (locked i t) = Some (upd_desc i (\<lambda>d. d\<lparr>free_list := filter (\<lambda>b. b \<notin> blk a i ` {0..<0 + bpa i}) (free_list d)\<rparr>) (locked i t))"
  proof (rule remove_loop_ok [OF so _ ok(2) assms(3) ok(1) _ p(1,2,4)])
    show "arenas (locked i t) a = Some ar" using assms(2) by (simp add: locked_def)
    show "distinct (fl (locked i t) i)" "\<forall>j. 0 \<le> j \<and> j < 0 + bpa i \<longrightarrow> blk a i j \<in> set (fl (locked i t) i)"
      unfolding fl using fo(1) full by simp_all
  qed simp
  moreover have "filter (\<lambda>b. b \<notin> blk a i ` {0..<bpa i}) (fl t i) = filter (\<lambda>b. page_of b \<noteq> a) (fl t i)"
    using fo(2) block_ofs_mem blk_in_page(1) [OF p(1)] by (intro filter_cong) auto
  ultimately have rl: "remove_loop (bpa i) 0 a i (locked i t) = Some (locked i (put_fl i (filter (\<lambda>b. page_of b \<noteq> a) (fl t i)) t))"
    using l by (cases "descs t ! i") (simp add: locked_def upd_desc_def put_fl_def)
  obtain q where q: "palloc_free_page a (pal t) = Some q" "pal_ok q" "used_pages (kernel_pool q) = used_pages (kernel_pool (pal t)) - page_run a 1"
      "\<forall>x. pmem q x = (if a \<le> x \<and> x < a + PGSIZE * 1 then 0xCC else pmem (pal t) x)"
    using palloc_free_ok [OF w(1) zero_less_one refl, of a False] ok(3) by (auto simp: get_pool_def palloc_free_page_def)
  define s' where "s' = put_ar a None ((put_fl i (filter (\<lambda>b. page_of b \<noteq> a) (fl t i)) t)\<lparr>pal := q\<rparr>)"
  have none: "b \<notin> in_use t" if "page_of b = a" for b
  proof
    assume "b \<in> in_use t"
    then have "b \<notin> set (fl t i)" "block_ofs i b" using that assms(2,3) by (auto simp: in_use_def)
    moreover from this(2) obtain k where "k < bpa i" "blk (page_of b) i k = b" by (rule block_ofs_blk)
    ultimately show False using full [of k] that by simp
  qed
  have d: "winv s'" "in_use s' = {b \<in> in_use t. page_of b \<noteq> a}" "\<And>b. page_of b \<noteq> a \<Longrightarrow> cap s' b = cap t b"
    using winv_drop [OF assms(1,2) q(2), of s'] q(3) none assms(3) by (simp_all add: s'_def apages_def)
  have pm: "pmem q x = pmem (pal t) x" if "page_of x \<noteq> a" for x
    using that q(4) page_in_run [OF p(1), of x 1] by (auto simp: page_run_def)
  have "in_use s' = in_use t" using d(2) none by auto
  then show ?thesis using rl q(1,3) d pm none unfolding s'_def by blast
qed

lemma region_page:
  assumes "winv s" "b \<in> in_use s" "b' \<in> in_use s" "b' \<noteq> b" "x \<in> region s b'"
  shows "x \<notin> region s b" "arenas s (page_of b) = Some ar \<Longrightarrow> adesc ar = None \<Longrightarrow> page_of x \<notin> apages (page_of b) ar"
proof -
  show "x \<notin> region s b" using regions_disjoint [OF assms(1-3)] assms(4,5) by blast
  assume ar: "arenas s (page_of b) = Some ar" "adesc ar = None"
  obtain ar' where ar': "arenas s (page_of b') = Some ar'" using assms(3) by (auto simp: in_use_def)
  have "page_of b' \<noteq> page_of b"
  proof
    assume e: "page_of b' = page_of b"
    then have "b mod PGSIZE = b' mod PGSIZE" using assms(2,3) ar by (auto simp: in_use_def)
    then show False using assms(4) e page_of_ofs [of b] page_of_ofs [of b'] by simp
  qed
  then show "page_of x \<notin> apages (page_of b) ar"
    using winv_parts(5) [OF assms(1) ar' ar(1)] region_in_pages [OF assms(1,3,5) ar'] by blast
qed

lemma region_off_page:
  assumes "winv s" "arenas s a = Some ar" "b \<in> in_use s" "page_of b \<noteq> a" "x \<in> region s b"
  shows "page_of x \<noteq> a"
proof -
  obtain ar' where ar': "arenas s (page_of b) = Some ar'" using assms(3) by (auto simp: in_use_def)
  show ?thesis using region_in_pages [OF assms(1,3,5) ar'] winv_parts(5) [OF assms(1) ar' assms(2,4)]
    arena_first [OF winv_parts(4) [OF assms(1,2)]] by blast
qed

lemma shared_arena:
  assumes "winv s" "arenas s a = Some ar" "adesc ar = Some i" "free_cnt ar < bpa i"
  shows "\<exists>b \<in> in_use s. page_of b = a"
proof (rule ccontr)
  assume none: "\<not> ?thesis"
  note w = winv_parts [OF assms(1)] and p = arena_page [OF assms(1,2)]
  have i: "i < 7" "free_cnt ar = length (filter (\<lambda>b. page_of b = a) (fl s i))" using w(4) [OF assms(2)] assms(3) by (simp_all add: arena_ok_def)
  have "blk a i k \<in> set (filter (\<lambda>b. page_of b = a) (fl s i))" if k: "k < bpa i" for k
  proof -
    have "blk a i k \<notin> in_use s" using none blk_in_page(1) [OF p(1) k] by blast
    then show ?thesis using blk_in_page(1) [OF p(1) k] blk_block_ofs [OF p(1) k] assms(2,3) by (simp add: in_use_def)
  qed
  then have "card (blk a i ` {0..<bpa i}) \<le> card (set (filter (\<lambda>b. page_of b = a) (fl s i)))" by (intro card_mono) (auto simp del: set_filter)
  also have "\<dots> \<le> free_cnt ar" unfolding i(2) by (rule card_length)
  finally show False using assms(4) by (simp add: card_image inj_on_def)
qed

lemma free_small_ok:
  assumes "minv s" "b \<in> in_use s" "arenas s (page_of b) = Some ar" "adesc ar = Some i"
  shows "\<exists>s'. free b s = Some s' \<and> freed s b s'"
proof -
  have w: "winv s" and cnt: "free_cnt ar < bpa i" and c: "\<And>a x j. arenas s a = Some x \<Longrightarrow> adesc x = Some j \<Longrightarrow> free_cnt x < bpa j"
    using assms(1,3,4) by (auto simp: minv_def)
  define t where "t = push i b ar (filled b (bs i) s)"
  have t: "winv t" "in_use t = in_use s - {b}" "cap t = cap s"
    using winv_push [of "filled b (bs i) s" b ar i] w assms(2-4) by (simp_all add: t_def)
  have ars: "arenas t = (arenas s)(page_of b \<mapsto> ar\<lparr>free_cnt := free_cnt ar + 1\<rparr>)" by (simp add: t_def push_def)
  have rb: "region s b = {b ..< b + bs i}" using assms(3,4) by (simp add: region_def cap_def)
  have pm: "pmem (pal t) x = pmem (pal s) x" if "b' \<in> in_use s - {b}" "x \<in> region s b'" for b' x
    using region_page(1) [OF w assms(2), of b' x] that unfolding rb by (auto simp: t_def push_def filled_def)
  note f = free_small [OF w assms(2-4) cnt t_def]
  show ?thesis
  proof (cases "free_cnt ar + 1 < bpa i")
    case True
    have "minv t" unfolding minv_def using t(1) c True assms(4) by (auto simp: ars)
    moreover have "\<exists>b' \<in> in_use t. page_of b' = page_of b"
      by (rule shared_arena [OF t(1), of _ "ar\<lparr>free_cnt := free_cnt ar + 1\<rparr>" i]) (use True assms(4) in \<open>simp_all add: ars\<close>)
    then have "released s b = {}" using t(2) by (auto simp: released_def)
    moreover have "used_pages (kernel_pool (pal t)) = used_pages (kernel_pool (pal s))" by (simp add: t_def push_def)
    ultimately have "freed s b t" using t(2,3) pm by (simp add: freed_def)
    then show ?thesis using f True by simp
  next
    case False
    let ?ar = "ar\<lparr>free_cnt := free_cnt ar + 1\<rparr>" and ?u = "put_fl i (filter (\<lambda>x. page_of x \<noteq> page_of b) (fl t i)) t"
    have ta: "arenas t (page_of b) = Some ?ar" "adesc ?ar = Some i" "free_cnt ?ar = bpa i" using ars assms(4) cnt False by auto
    from drop_arena [OF t(1) ta] obtain q s' where d: "remove_loop (bpa i) 0 (page_of b) i (locked i t) = Some (locked i ?u)"
      "palloc_free_page (page_of b) (pal t) = Some q" "s' = put_ar (page_of b) None (?u\<lparr>pal := q\<rparr>)"
      "winv s'" "in_use s' = in_use t" "\<forall>x \<in> in_use t. page_of x \<noteq> page_of b \<and> cap s' x = cap t x"
      "\<forall>x. page_of x \<noteq> page_of b \<longrightarrow> pmem q x = pmem (pal t) x"
      "used_pages (kernel_pool q) = used_pages (kernel_pool (pal t)) - page_run (page_of b) 1" by blast
    have "i < length (descs s')" "\<not> dlock (descs s' ! i)"
      using winv_parts(2,4) [OF t(1)] winv_parts(2) [OF d(4)] assms(3,4) winv_parts(4) [OF w assms(3)] by (auto simp: descs_ok_def arena_ok_def)
    then have "desc_release i (locked i s') = Some s'" by (rule release_locked)
    moreover have "(locked i ?u)\<lparr>pal := q, arenas := (arenas (locked i ?u))(page_of b := None)\<rparr> = locked i s'"
      by (simp add: d(3) put_ar_def locked_def upd_desc_def put_fl_def)
    ultimately have e: "free b s = Some s'" using f False d(1,2) by (simp add: locked_def put_fl_def)
    have "minv s'" unfolding minv_def using d(4) c by (auto simp: d(3) ars split: if_splits)
    moreover have "pmem (pal s') x = pmem (pal s) x" if b': "b' \<in> in_use s - {b}" "x \<in> region s b'" for b' x
    proof -
      have "page_of x \<noteq> page_of b" using region_off_page [OF t(1) ta(1), of b' x] b' d(6) t(2,3) by (simp add: region_def)
      then show ?thesis using d(3,7) pm [OF b'] by simp
    qed
    moreover have "released s b = page_run (page_of b) 1"
      using d(6) t(2) assms(3,4) by (auto simp: released_def block_pages_def apages_def)
    then have "used_pages (kernel_pool (pal s')) = used_pages (kernel_pool (pal s)) - released s b"
      using d(3,8) by (simp add: t_def push_def)
    ultimately have "freed s b s'" using d(5,6) t(2,3) by (simp add: freed_def)
    then show ?thesis using e by simp
  qed
qed

lemma free_big_ok:
  assumes "minv s" "b \<in> in_use s" "arenas s (page_of b) = Some ar" "adesc ar = None"
  shows "\<exists>s'. free b s = Some s' \<and> freed s b s'"
proof -
  have w: "winv s" and c: "\<And>a x j. arenas s a = Some x \<Longrightarrow> adesc x = Some j \<Longrightarrow> free_cnt x < bpa j" using assms(1) by (auto simp: minv_def)
  note p = arena_page [OF w assms(3)] and bp = block_page [OF w assms(2,3)] and ok = winv_parts(4) [OF w assms(3)]
  have b: "b mod PGSIZE = ARENA_SIZE" using assms(2-4) by (simp add: in_use_def)
  have ok: "amagic ar = ARENA_MAGIC" "page_run (page_of b) (free_cnt ar) \<subseteq> used_pages (kernel_pool (pal s))" "0 < free_cnt ar"
    using winv_parts(4) [OF w assms(3)] assms(4) by (auto simp: arena_ok_def apages_def)
  obtain q where q: "palloc_free_multiple (page_of b) (free_cnt ar) (pal s) = Some q" "pal_ok q"
      "used_pages (kernel_pool q) = used_pages (kernel_pool (pal s)) - page_run (page_of b) (free_cnt ar)"
      "\<forall>x. pmem q x = (if page_of b \<le> x \<and> x < page_of b + PGSIZE * free_cnt ar then 0xCC else pmem (pal s) x)"
    using palloc_free_ok [OF winv_parts(1) [OF w] ok(3) refl, of "page_of b" False] ok(2) by (auto simp: get_pool_def)
  have ba: "block_to_arena b s = Some (page_of b)" using b bp(1) p(4) assms(3,4) ok(1) by (intro block_to_arena_big)
  define s' where "s' = put_ar (page_of b) None (s\<lparr>pal := q\<rparr>)"
  have d: "winv s'" "in_use s' = {x \<in> in_use s. page_of x \<noteq> page_of b}" "\<And>x. page_of x \<noteq> page_of b \<Longrightarrow> cap s' x = cap s x"
    using winv_drop [OF w assms(3) q(2), of s'] q(3) assms(4) by (simp_all add: s'_def apages_def)
  have pb: "page_of b' \<noteq> page_of b" if "b' \<in> in_use s - {b}" for b'
    using that assms(2-4) page_of_ofs [of b] page_of_ofs [of b'] b by (auto simp: in_use_def)
  have "pmem q x = pmem (pal s) x" if "b' \<in> in_use s - {b}" "x \<in> region s b'" for b' x
    using region_page(2) [OF w assms(2) _ _ that(2) assms(3,4)] that(1) q(4) page_in_run [OF p(1), of x "free_cnt ar"] assms(4) by (auto simp: apages_def)
  moreover have "in_use s' = in_use s - {b}" using d(2) pb by blast
  moreover have "minv s'" unfolding minv_def using d(1) c by (auto simp: s'_def split: if_splits)
  moreover have "released s b = page_run (page_of b) (free_cnt ar)"
    using pb assms(3,4) by (auto simp: released_def block_pages_def apages_def)
  then have "used_pages (kernel_pool (pal s')) = used_pages (kernel_pool (pal s)) - released s b" using q(3) by (simp add: s'_def)
  ultimately have "freed s b s'" using d(3) pb by (simp add: freed_def s'_def)
  moreover have "free b s = Some s'" using bp(2) ba assms(3,4) q(1) by (simp add: free_def s'_def put_ar_def)
  ultimately show ?thesis by blast
qed

lemma free_cases:
  assumes "minv s" "b \<in> in_use s"
  shows "\<exists>s'. free b s = Some s' \<and> freed s b s'"
proof -
  obtain ar where ar: "arenas s (page_of b) = Some ar" using assms(2) by (auto simp: in_use_def)
  show ?thesis using free_small_ok [OF assms ar] free_big_ok [OF assms ar] by (cases "adesc ar") auto
qed

text \<open>A heap with one block, of two pages.\<close>

definition one_block_heap :: malloc_state where
  "one_block_heap = \<lparr>pal = demo_pal,
     descs = map (\<lambda>i. \<lparr>dblock_size = bs i, blocks_per_arena = bpa i, free_list = [], dlock = False\<rparr>) [0..<7],
     arenas = [0xC0109000 \<mapsto> \<lparr>amagic = ARENA_MAGIC, adesc = None, free_cnt = 2\<rparr>]\<rparr>"

lemma one_block_heap_ok: "minv one_block_heap" "0xC010900C \<in> in_use one_block_heap" "cap one_block_heap 0xC010900C = 8180"
proof -
  have "bits_of demo_bitmap ! (8 + j) = True" if "j < 2" for j using that demo_bits by (cases j) auto
  then have "is_run (bits_of demo_bitmap) 8 2 True" by (simp add: is_run_def demo_bits(1))
  then have "page_run (base (kernel_pool demo_pal) + PGSIZE * 8) 2 \<subseteq> used_pages (kernel_pool demo_pal)"
    unfolding run_used [OF zero_less_numeral] by (simp add: demo_pal_def demo_pool_def demo_bits(1))
  moreover have "base (kernel_pool demo_pal) + PGSIZE * 8 = 0xC0109000" by (simp add: demo_pal_def demo_pool_def PGSIZE_def)
  ultimately show "minv one_block_heap"
    using demo_pal_ok by (auto simp: minv_def winv_def one_block_heap_def descs_ok_def free_ok_def arena_ok_def apages_def split: if_splits)
  show "0xC010900C \<in> in_use one_block_heap" "cap one_block_heap 0xC010900C = 8180"
    by (simp_all add: in_use_def cap_def one_block_heap_def page_of_def PGSIZE_def ARENA_SIZE_def)
qed

text \<open>C15: releasing a block in use returns, keeps the allocator's invariant, takes exactly that block out of use, and neither
  resizes nor writes any other block in use.  If no other block of its arena is in use, the pages of the arena go back to the page
  allocator, and those alone; otherwise no page does.\<close>
theorem free_correct:
  assumes "minv s" "b \<in> in_use s"
  shows "\<exists>s'. free b s = Some s' \<and> minv s' \<and> in_use s' = in_use s - {b} \<and>
    used_pages (kernel_pool (pal s')) = used_pages (kernel_pool (pal s)) -
      (if \<exists>b' \<in> in_use s - {b}. page_of b' = page_of b then {} else block_pages s b) \<and>
    (\<forall>b' \<in> in_use s - {b}. cap s' b' = cap s b' \<and> (\<forall>x \<in> region s b'. pmem (pal s') x = pmem (pal s) x))"
  using free_cases [OF assms] by (simp add: freed_def released_def)

theorem free_correct_witness: "\<exists>s'. free 0xC010900C one_block_heap = Some s' \<and> minv s' \<and> 0xC010900C \<notin> in_use s' \<and>
    0xC0109000 \<in> used_pages (kernel_pool (pal one_block_heap)) \<and> 0xC0109000 \<notin> used_pages (kernel_pool (pal s'))"
proof -
  have p: "page_of 0xC010900C = 0xC0109000" by (simp add: page_of_def PGSIZE_def)
  have "arenas one_block_heap 0xC0109000 = Some \<lparr>amagic = ARENA_MAGIC, adesc = None, free_cnt = 2\<rparr>" by (simp add: one_block_heap_def)
  then have a: "0xC0109000 \<in> block_pages one_block_heap 0xC010900C"
    unfolding block_pages_def p by (auto simp: apages_def page_run_def)
  then have u: "0xC0109000 \<in> used_pages (kernel_pool (pal one_block_heap))"
    using one_block_heap_ok(1) by (auto simp: minv_def winv_def arena_ok_def block_pages_def split: option.splits)
  have n: "\<not> (\<exists>b' \<in> in_use one_block_heap - {0xC010900C}. page_of b' = page_of 0xC010900C)"
  proof
    assume "\<exists>b' \<in> in_use one_block_heap - {0xC010900C}. page_of b' = page_of 0xC010900C"
    then obtain b' where b: "b' \<in> in_use one_block_heap" "b' \<noteq> 0xC010900C" "page_of b' = 0xC0109000" unfolding p by blast
    then have "b' mod PGSIZE = ARENA_SIZE" by (simp add: in_use_def one_block_heap_def)
    then show False using b page_of_ofs [of b'] by (simp add: ARENA_SIZE_def)
  qed
  show ?thesis using free_correct [OF one_block_heap_ok(1,2)] n a u by auto
qed

subsection \<open>realloc\<close>

lemma minv_pmem [simp]: "minv (s\<lparr>pal := (pal s)\<lparr>pmem := m\<rparr>\<rparr>) = minv s"
  by (simp add: minv_def winv_pmem)

lemma block_size_ok:
  assumes "winv s" "b \<in> in_use s"
  shows "block_size b s = Some (cap s b)"
proof -
  obtain ar where ar: "arenas s (page_of b) = Some ar" using assms(2) by (auto simp: in_use_def)
  note p = arena_page [OF assms(1) ar] and bp = block_page [OF assms ar] and ok = winv_parts(4) [OF assms(1) ar]
  show ?thesis
  proof (cases "adesc ar")
    case None
    then have b: "b mod PGSIZE = ARENA_SIZE" "amagic ar = ARENA_MAGIC" using assms(2) ar ok by (auto simp: in_use_def arena_ok_def)
    have "page_of b + PGSIZE * (free_cnt ar - 1) \<in> apages (page_of b) ar" "0 < free_cnt ar"
      using ok None by (auto simp: arena_ok_def apages_def page_run_def)
    then have "page_of b + PGSIZE * (free_cnt ar - 1) + PGSIZE \<le> 2 ^ 32"
      using ok used_page_props(2) [OF winv_parts(1) [OF assms(1)]] by (auto simp: arena_ok_def)
    then have "PGSIZE * free_cnt ar < 2 ^ 32" "PGSIZE \<le> PGSIZE * free_cnt ar"
      using p(4) \<open>0 < free_cnt ar\<close> by (auto simp: gr0_conv_Suc)
    then have "u32 (PGSIZE * free_cnt ar + 2 ^ 32 - ARENA_SIZE) = PGSIZE * free_cnt ar - ARENA_SIZE"
      by (simp add: u32_def mod_if ARENA_SIZE_def PGSIZE_def)
    then show ?thesis using block_to_arena_big [OF b(1) bp(1) p(4) ar b(2) None] ar None b(1)
      by (simp add: block_size_def cap_def pg_ofs_mod)
  next
    case (Some i)
    then have i: "i < 7" "amagic ar = ARENA_MAGIC" "block_ofs i b" using assms(2) ar ok by (auto simp: in_use_def arena_ok_def)
    have "descs s ! i = descs s ! i \<and> dblock_size (descs s ! i) = bs i" "i < length (descs s)" using winv_parts(2,3) [OF assms(1)] i(1) by (auto simp: descs_ok_def)
    then show ?thesis using block_to_arena_small [OF sizes_winv [OF assms(1)] i(3) bp(1) p(4) ar i(2) Some i(1)] ar Some
      by (simp add: block_size_def cap_def desc_of_def)
  qed
qed

text \<open>The part of \<open>realloc\<close> that follows a successful allocation.\<close>

lemma realloc_move:
  assumes "minv s" "old \<in> in_use s" "0 < sz" "malloc sz s = Some (b, t)" "fresh_block s sz b t"
  shows "\<exists>s'. realloc old sz s = Some (b, s') \<and> minv s' \<and> in_use s' = insert b (in_use s - {old}) \<and> sz \<le> cap s' b \<and>
    (\<forall>k < min sz (cap s old). pmem (pal s') (b + k) = pmem (pal s) (old + k)) \<and>
    (\<forall>b' \<in> in_use s - {old}. cap s' b' = cap s b' \<and> (\<forall>x \<in> region s b'. pmem (pal s') x = pmem (pal s) x))"
proof -
  note f = assms(5) [unfolded fresh_block_def]
  have w: "winv t" "winv s" and u: "old \<in> in_use t" "b \<in> in_use t" "b \<noteq> old" and c: "cap t old = cap s old"
    using f assms(1,2) by (auto simp: minv_def)
  obtain ar where "arenas t (page_of old) = Some ar" using u(1) by (auto simp: in_use_def)
  then have old: "old \<noteq> NULL" using block_page [OF w(1) u(1)] by simp
  define n where "n = min sz (cap s old)"
  have nb: "n \<le> cap t b" "n \<le> cap t old" using f c by (auto simp: n_def)
  have dj: "region t b \<inter> region t old = {}" using regions_disjoint [OF w(1) u(2,1,3)] .
  have o: "b \<le> old \<or> old + n \<le> b"
  proof (rule ccontr)
    assume "\<not> ?thesis"
    then have "b \<in> region t b \<inter> region t old" using nb f assms(3) by (auto simp: region_def)
    then show False using dj by blast
  qed
  define m where "m = blit (pmem (pal s)) b old n"
  define t2 where "t2 = t\<lparr>pal := (pal t)\<lparr>pmem := m\<rparr>\<rparr>"
  have cp: "memcpy b old n (pmem (pal t)) = Some (b, m)" using memcpy_eq [OF _ old o, of "pmem (pal t)"] f by (simp add: m_def)
  have t2: "minv t2" "in_use t2 = in_use t" "cap t2 = cap t" "pmem (pal t2) = m" using f by (simp_all add: t2_def winv_pmem)
  obtain s' where s': "free old t2 = Some s'" "freed t2 old s'" using free_cases [OF t2(1), of old] u(1) t2(2) by auto
  have mn: "(if sz < cap t old then sz else cap t old) = n" using c by (simp add: n_def min_def)
  have "realloc old sz s = Some (b, s')"
    using assms(3,4) f old block_size_ok [OF w(1) u(1)] cp s'(1) mn by (simp add: realloc_def t2_def Let_def)
  moreover have "pmem (pal s') (b + k) = pmem (pal s) (old + k)" if "k < n" for k
  proof -
    have "b + k \<in> region t2 b" using that nb by (simp add: region_def t2(3))
    then show ?thesis using s'(2) u t2 that by (simp add: freed_def m_def blit_def)
  qed
  moreover have "cap s' b' = cap s b' \<and> (\<forall>x \<in> region s b'. pmem (pal s') x = pmem (pal s) x)" if "b' \<in> in_use s - {old}" for b'
  proof -
    have r: "region t2 b' = region s b'" "region t b' = region s b'" using f that by (simp_all add: region_def t2(3))
    have "x \<notin> region t b" if "x \<in> region s b'" for x using fresh_disjoint [OF assms(5), of b'] \<open>b' \<in> in_use s - {old}\<close> that r(2) by blast
    then have "m x = pmem (pal s) x" if "x \<in> region s b'" for x using that nb by (force simp: m_def blit_def region_def)
    moreover have "cap s' b' = cap t b'" "\<forall>x \<in> region t2 b'. pmem (pal s') x = m x" using s'(2) f t2 that by (auto simp: freed_def)
    ultimately show ?thesis using f that r(1) by simp
  qed
  ultimately show ?thesis using s'(2) f u t2 by (auto simp: freed_def n_def)
qed

text \<open>C16: resizing a block in use to a size that does not wrap around returns and keeps the allocator's invariant.  When no memory is
  left the old block stays in use and unchanged; otherwise the new block, of at least the new size, begins with the contents of
  the old one, which is no longer in use, and no other block in use is resized or written.\<close>
theorem realloc_correct:
  assumes "minv s" "old \<in> in_use s" "0 < sz" "sz + PGSIZE + ARENA_SIZE \<le> 2 ^ 32"
  shows "\<exists>b s'. realloc old sz s = Some (b, s') \<and> minv s' \<and>
    (if b = NULL then in_use s' = in_use s \<and> cap s' = cap s \<and> pmem (pal s') = pmem (pal s)
     else b \<notin> in_use s \<and> in_use s' = insert b (in_use s - {old}) \<and> sz \<le> cap s' b \<and>
       (\<forall>k < min sz (cap s old). pmem (pal s') (b + k) = pmem (pal s) (old + k)) \<and>
       (\<forall>b' \<in> in_use s - {old}. cap s' b' = cap s b' \<and> (\<forall>x \<in> region s b'. pmem (pal s') x = pmem (pal s) x)))"
proof -
  from malloc_cases [OF assms(1,3,4)] show ?thesis
  proof (elim disjE exE conjE)
    fix b t
    assume m: "malloc sz s = Some (b, t)" "fresh_block s sz b t"
    then have "b \<noteq> NULL" "b \<notin> in_use s" by (simp_all add: fresh_block_def)
    with realloc_move [OF assms(1-3) m] show ?thesis by (elim exE) (rule exI, rule exI, auto)
  next
    assume "malloc sz s = Some (NULL, s)"
    then have "realloc old sz s = Some (NULL, s)" using assms(3) by (simp add: realloc_def)
    then show ?thesis using assms(1) by auto
  qed
qed

theorem realloc_correct_witness:
  "\<exists>b s'. realloc 0xC010900C 40 one_block_heap = Some (b, s') \<and> minv s' \<and> (b \<noteq> NULL \<longrightarrow> (\<forall>k < 40. pmem (pal s') (b + k) = 1))"
proof -
  have "pmem (pal one_block_heap) = (\<lambda>_. 1)" by (simp add: one_block_heap_def demo_pal_def)
  then show ?thesis using realloc_correct [OF one_block_heap_ok(1,2), of 40] one_block_heap_ok(3)
    by (fastforce simp: PGSIZE_def ARENA_SIZE_def)
qed

text \<open>The overflow check of \<open>calloc\<close>, that the product is not smaller than a factor, misses products that wrap around further: asking
  for 65537 elements of 65537 bytes, over 4 GB, is answered as asking for one element of 131073 bytes.\<close>
theorem calloc_overflow_missed: "calloc 65537 65537 s = calloc 1 131073 s"
  by (simp add: calloc_def u32_def)

end
