(* ===== verification/Stdio.thy ===== *)
theory Stdio
  imports Stdlib
begin

text \<open>
  lib/stdio.c: formatted output.  The format and the string arguments are read from a memory that the output does not change; for
  \<open>vsnprintf\<close> this is the code's behaviour when its buffer overlaps none of them, which its properties assume.  A
  \<open>va_list\<close> is the list of the 32-bit words on the stack that have not been fetched; a 64-bit argument is two words, the lower one
  first.  Output goes through the client's function \<open>output\<close> on its state \<open>aux\<close>.  \<open>None\<close> is a loop that never ends, a fetch
  behind the last argument or a store behind the buffer of \<open>format_integer\<close>.
\<close>

unbundle bit_operations_syntax

subsection \<open>Conversions\<close>

datatype conv_type = T_CHAR | T_SHORT | T_INT | T_INTMAX | T_LONG | T_LONGLONG | T_PTRDIFFT | T_SIZET

record printf_conversion =
  flags :: "32 word"
  width :: int
  precision :: int
  conv :: conv_type

definition MINUS :: "32 word" where "MINUS = 1"
definition PLUS :: "32 word" where "PLUS = 2"
definition SPACE :: "32 word" where "SPACE = 4"
definition POUND :: "32 word" where "POUND = 8"
definition ZERO :: "32 word" where "ZERO = 16"
definition GROUP :: "32 word" where "GROUP = 32"

record integer_base =
  base_value :: nat
  digits :: "byte list"
  x_char :: byte
  group :: nat

definition chars :: "string \<Rightarrow> byte list" where
  "chars s = map of_char s"

definition base_d :: integer_base where
  "base_d = \<lparr>base_value = 10, digits = chars ''0123456789'', x_char = 0, group = 3\<rparr>"

definition base_o :: integer_base where
  "base_o = \<lparr>base_value = 8, digits = chars ''01234567'', x_char = 0, group = 3\<rparr>"

definition base_x :: integer_base where
  "base_x = \<lparr>base_value = 16, digits = chars ''0123456789abcdef'', x_char = 120, group = 4\<rparr>"

definition base_X :: integer_base where
  "base_X = \<lparr>base_value = 16, digits = chars ''0123456789ABCDEF'', x_char = 88, group = 4\<rparr>"

subsection \<open>Arguments\<close>

type_synonym va_list = "nat list"

definition va_word :: "va_list \<Rightarrow> (nat \<times> va_list) option" where
  "va_word args = (case args of [] \<Rightarrow> None | w # ws \<Rightarrow> Some (u32 w, ws))"

definition va_int :: "va_list \<Rightarrow> (int \<times> va_list) option" where
  "va_int args = do { (w, args) \<leftarrow> va_word args; Some (s32 (int w), args) }"

definition va_dword :: "va_list \<Rightarrow> (nat \<times> va_list) option" where
  "va_dword args = do { (lo, args) \<leftarrow> va_word args; (hi, args) \<leftarrow> va_word args; Some (hi * 2 ^ 32 + lo, args) }"

text \<open>The \<open>switch\<close> statements of the signed and the unsigned conversions.\<close>

definition signed_arg :: "conv_type \<Rightarrow> va_list \<Rightarrow> (int \<times> va_list) option" where
  "signed_arg ty args = (case ty of
     T_CHAR \<Rightarrow> do { (v, args) \<leftarrow> va_int args; Some (signed_take_bit 7 v, args) }
   | T_SHORT \<Rightarrow> do { (v, args) \<leftarrow> va_int args; Some (signed_take_bit 15 v, args) }
   | T_INT \<Rightarrow> va_int args
   | T_INTMAX \<Rightarrow> do { (v, args) \<leftarrow> va_dword args; Some (s64 (int v), args) }
   | T_LONG \<Rightarrow> va_int args
   | T_LONGLONG \<Rightarrow> do { (v, args) \<leftarrow> va_dword args; Some (s64 (int v), args) }
   | T_PTRDIFFT \<Rightarrow> va_int args
   | T_SIZET \<Rightarrow> do {
       (v, args) \<leftarrow> va_word args;
       let value = int v;
       Some (if value > (2 ^ 32 - 1) div 2 then value - (2 ^ 32 - 1) - 1 else value, args) })"

definition unsigned_arg :: "conv_type \<Rightarrow> va_list \<Rightarrow> (nat \<times> va_list) option" where
  "unsigned_arg ty args = (case ty of
     T_CHAR \<Rightarrow> do { (v, args) \<leftarrow> va_word args; Some (v mod 2 ^ 8, args) }
   | T_SHORT \<Rightarrow> do { (v, args) \<leftarrow> va_word args; Some (v mod 2 ^ 16, args) }
   | T_INT \<Rightarrow> va_word args
   | T_INTMAX \<Rightarrow> va_dword args
   | T_LONG \<Rightarrow> va_word args
   | T_LONGLONG \<Rightarrow> va_dword args
   | T_PTRDIFFT \<Rightarrow> do { (v, args) \<leftarrow> va_int args; Some (nat (v mod 2 ^ 64) AND (2 ^ 32 - 1), args) }
   | T_SIZET \<Rightarrow> va_word args)"

subsection \<open>Parsing a conversion\<close>

definition flag_of :: "byte \<Rightarrow> 32 word" where
  "flag_of c = (if c = 45 then MINUS else if c = 43 then PLUS else if c = 32 then SPACE
     else if c = 35 then POUND else if c = 48 then ZERO else if c = 39 then GROUP else 0)"

partial_function (option) flags_loop :: "memory \<Rightarrow> addr \<Rightarrow> 32 word \<Rightarrow> (addr \<times> 32 word) option" where
  "flags_loop m format fl = (if flag_of (m format) \<noteq> 0 then flags_loop m (format + 1) (fl OR flag_of (m format)) else Some (format, fl))"

partial_function (option) number_loop :: "memory \<Rightarrow> addr \<Rightarrow> int \<Rightarrow> (addr \<times> int) option" where
  "number_loop m format v = (if isdigit (sint (m format)) then number_loop m (format + 1) (s32 (v * 10 + sint (m format) - 48))
     else Some (format, v))"

text \<open>A number, or an asterisk for a number that is an argument.\<close>

definition parse_number :: "memory \<Rightarrow> addr \<Rightarrow> va_list \<Rightarrow> (int \<times> addr \<times> va_list) option" where
  "parse_number m format args = (if m format = 42 then do { (v, args) \<leftarrow> va_int args; Some (v, format + 1, args) }
     else do { (format, v) \<leftarrow> number_loop m format 0; Some (v, format, args) })"

definition parse_type :: "memory \<Rightarrow> addr \<Rightarrow> conv_type \<times> addr" where
  "parse_type m format = (
     if m format = 104 then (if m (format + 1) = 104 then (T_CHAR, format + 2) else (T_SHORT, format + 1))
     else if m format = 106 then (T_INTMAX, format + 1)
     else if m format = 108 then (if m (format + 1) = 108 then (T_LONGLONG, format + 2) else (T_LONG, format + 1))
     else if m format = 116 then (T_PTRDIFFT, format + 1)
     else if m format = 122 then (T_SIZET, format + 1)
     else (T_INT, format))"

definition parse_conversion :: "memory \<Rightarrow> addr \<Rightarrow> va_list \<Rightarrow> (addr \<times> printf_conversion \<times> va_list) option" where
  "parse_conversion m format args = do {
     (format, fl) \<leftarrow> flags_loop m format 0;
     let fl = (if fl AND MINUS \<noteq> 0 then fl AND NOT ZERO else fl);
     let fl = (if fl AND PLUS \<noteq> 0 then fl AND NOT SPACE else fl);
     (w, format, args) \<leftarrow> parse_number m format args;
     let (w, fl) = (if w < 0 then (s32 (- w), fl OR MINUS) else (w, fl));
     (p, format, args) \<leftarrow> (if m format = 46 then do {
          (p, format, args) \<leftarrow> parse_number m (format + 1) args;
          Some (if p < 0 then - 1 else p, format, args) }
        else Some (- 1, format, args));
     let fl = (if p \<ge> 0 then fl AND NOT ZERO else fl);
     let (ty, format) = parse_type m format;
     Some (format, \<lparr>flags = fl, width = w, precision = p, conv = ty\<rparr>, args) }"

subsection \<open>Formatting\<close>

fun output_dup :: "byte \<Rightarrow> nat \<Rightarrow> (byte \<Rightarrow> 'a \<Rightarrow> 'a) \<Rightarrow> 'a \<Rightarrow> 'a" where
  "output_dup ch 0 output aux = aux"
| "output_dup ch (Suc cnt) output aux = output_dup ch cnt output (output ch aux)"

text \<open>The buffer \<open>buf\<close> of \<open>format_integer\<close> up to the position \<open>cp\<close>; it has room for 64 characters.\<close>

definition buf_put :: "byte \<Rightarrow> byte list \<Rightarrow> byte list option" where
  "buf_put c buf = (if length buf < 64 then Some (buf @ [c]) else None)"

partial_function (option) digit_loop :: "nat \<Rightarrow> integer_base \<Rightarrow> 32 word \<Rightarrow> byte list \<Rightarrow> nat \<Rightarrow> byte list option" where
  "digit_loop value b fl buf digit_cnt = (if value > 0 then do {
       buf \<leftarrow> (if fl AND GROUP \<noteq> 0 \<and> digit_cnt > 0 \<and> digit_cnt mod group b = 0 then buf_put 44 buf else Some buf);
       buf \<leftarrow> buf_put (digits b ! (value mod base_value b)) buf;
       digit_loop (value div base_value b) b fl buf (digit_cnt + 1) }
     else Some buf)"

function zero_loop :: "int \<Rightarrow> byte list \<Rightarrow> byte list" where
  "zero_loop p buf = (if int (length buf) < p \<and> length buf < 64 - 1 then zero_loop p (buf @ [48]) else buf)"
  by auto
termination by (relation "measure (\<lambda>(p, buf). 64 - length buf)") auto

declare zero_loop.simps [simp del]

text \<open>Outputs the characters of the buffer, the last one first.\<close>

definition output_rev :: "byte list \<Rightarrow> (byte \<Rightarrow> 'a \<Rightarrow> 'a) \<Rightarrow> 'a \<Rightarrow> 'a" where
  "output_rev buf output aux = fold output (rev buf) aux"

definition format_integer :: "nat \<Rightarrow> bool \<Rightarrow> bool \<Rightarrow> integer_base \<Rightarrow> printf_conversion \<Rightarrow> (byte \<Rightarrow> 'a \<Rightarrow> 'a) \<Rightarrow> 'a \<Rightarrow> 'a option" where
  "format_integer value is_signed negative b c output aux = do {
     let sign = (if is_signed then
         (if flags c AND PLUS \<noteq> 0 then (if negative then 45 else 43)
          else if flags c AND SPACE \<noteq> 0 then (if negative then 45 else 32)
          else if negative then 45 else 0) else 0);
     let x = (if flags c AND POUND \<noteq> 0 \<and> value \<noteq> 0 then x_char b else 0);
     buf \<leftarrow> digit_loop value b (flags c) [] 0;
     let buf = zero_loop (if precision c < 0 then 1 else precision c) buf;
     buf \<leftarrow> (if flags c AND POUND \<noteq> 0 \<and> base_value b = 8 \<and> (buf = [] \<or> last buf \<noteq> 48) then buf_put 48 buf else Some buf);
     let pad_cnt = s32 (width c - int (length buf) - (if x \<noteq> 0 then 2 else 0) - (if sign \<noteq> 0 then 1 else 0));
     let pad_cnt = nat (if pad_cnt < 0 then 0 else pad_cnt);
     let aux = (if flags c AND (MINUS OR ZERO) = 0 then output_dup 32 pad_cnt output aux else aux);
     let aux = (if sign \<noteq> 0 then output sign aux else aux);
     let aux = (if x \<noteq> 0 then output x (output 48 aux) else aux);
     let aux = (if flags c AND ZERO \<noteq> 0 then output_dup 48 pad_cnt output aux else aux);
     let aux = output_rev buf output aux;
     let aux = (if flags c AND MINUS \<noteq> 0 then output_dup 32 pad_cnt output aux else aux);
     Some aux }"

fun string_loop :: "nat \<Rightarrow> nat \<Rightarrow> (nat \<Rightarrow> byte) \<Rightarrow> (byte \<Rightarrow> 'a \<Rightarrow> 'a) \<Rightarrow> 'a \<Rightarrow> 'a" where
  "string_loop 0 i str output aux = aux"
| "string_loop (Suc n) i str output aux = string_loop n (i + 1) str output (output (str i) aux)"

definition format_string :: "(nat \<Rightarrow> byte) \<Rightarrow> int \<Rightarrow> printf_conversion \<Rightarrow> (byte \<Rightarrow> 'a \<Rightarrow> 'a) \<Rightarrow> 'a \<Rightarrow> 'a" where
  "format_string str len c output aux = (
     let aux = (if width c > len \<and> flags c AND MINUS = 0 then output_dup 32 (nat (width c - len)) output aux else aux);
         aux = string_loop (nat len) 0 str output aux
     in if width c > len \<and> flags c AND MINUS \<noteq> 0 then output_dup 32 (nat (width c - len)) output aux else aux)"

subsection \<open>printf\<close>

text \<open>A string literal, at address 1.\<close>

definition lit :: "byte list \<Rightarrow> memory" where
  "lit s = (\<lambda>a. if 1 \<le> a \<and> a \<le> length s then s ! (a - 1) else 0)"

definition convert_signed where
  "convert_signed c args output aux = do {
     (value, args) \<leftarrow> signed_arg (conv c) args;
     aux \<leftarrow> format_integer (nat \<bar>value\<bar>) True (value < 0) base_d c output aux;
     Some (args, aux) }"

definition convert_unsigned where
  "convert_unsigned ch c args output aux = do {
     (value, args) \<leftarrow> unsigned_arg (conv c) args;
     let b = (if ch = (111 :: byte) then base_o else if ch = 117 then base_d else if ch = 120 then base_x else base_X);
     aux \<leftarrow> format_integer value False False b c output aux;
     Some (args, aux) }"

definition convert_char where
  "convert_char c args output aux = do {
     (v, args) \<leftarrow> va_int args;
     Some (args, format_string (\<lambda>_. word_of_int v) 1 c output aux) }"

definition convert_string where
  "convert_string m c args output aux = do {
     (s, args) \<leftarrow> va_word args;
     let (m, s) = (if s = NULL then (lit (chars ''(null)''), 1) else (m, s));
     n \<leftarrow> strnlen m s (nat (precision c mod 2 ^ 32));
     Some (args, format_string (\<lambda>i. m (s + i)) (s32 (int n)) c output aux) }"

definition convert_pointer where
  "convert_pointer c args output aux = do {
     (p, args) \<leftarrow> va_word args;
     aux \<leftarrow> format_integer p False False base_x (c\<lparr>flags := POUND\<rparr>) output aux;
     Some (args, aux) }"

text \<open>The conversions the kernel has: \<open>d\<close>, \<open>i\<close>, \<open>o\<close>, \<open>u\<close>, \<open>x\<close>, \<open>X\<close>, \<open>c\<close>, \<open>s\<close> and \<open>p\<close>.\<close>

definition supported :: "byte \<Rightarrow> bool" where
  "supported ch \<longleftrightarrow> ch = 100 \<or> ch = 105 \<or> ch = 111 \<or> ch = 117 \<or> ch = 120 \<or> ch = 88 \<or> ch = 99 \<or> ch = 115 \<or> ch = 112"

definition convert where
  "convert m ch c args output aux = (
     if ch = 100 \<or> ch = 105 then convert_signed c args output aux
     else if ch = 111 \<or> ch = 117 \<or> ch = 120 \<or> ch = 88 then convert_unsigned ch c args output aux
     else if ch = 99 then convert_char c args output aux
     else if ch = 115 then convert_string m c args output aux
     else convert_pointer c args output aux)"

text \<open>A conversion the kernel does not have prints a message with a nested call.\<close>

definition unsupported :: "byte \<Rightarrow> byte list" where
  "unsupported ch = (if ch = 102 \<or> ch = 101 \<or> ch = 69 \<or> ch = 103 \<or> ch = 71 \<or> ch = 110
     then chars ''<<no %%%c in kernel>>'' else chars ''<<no %%%c conversion>>'')"

partial_function (option) vprintf_core :: "(byte \<Rightarrow> 'a \<Rightarrow> 'a) \<Rightarrow> memory \<Rightarrow> addr \<Rightarrow> va_list \<Rightarrow> 'a \<Rightarrow> 'a option" where
  "vprintf_core output m format args aux = (
     if m format = 0 then Some aux
     else if m format \<noteq> 37 then vprintf_core output m (format + 1) args (output (m format) aux)
     else if m (format + 1) = 37 then vprintf_core output m (format + 2) args (output 37 aux)
     else do {
       (format, c, args) \<leftarrow> parse_conversion m (format + 1) args;
       let ch = m format;
       (args, aux) \<leftarrow> (if supported ch then convert m ch c args output aux
         else do {
           aux \<leftarrow> vprintf_core output (lit (unsupported ch)) 1 [nat (sint ch mod 2 ^ 32)] aux;
           Some (args, aux) });
       vprintf_core output m (format + 1) args aux })"

subsection \<open>Printing into a buffer\<close>

record vsnprintf_aux =
  out_mem :: memory
  out_p :: addr
  out_length :: int
  max_length :: int

definition vsnprintf_helper :: "byte \<Rightarrow> vsnprintf_aux \<Rightarrow> vsnprintf_aux" where
  "vsnprintf_helper ch aux = (
     let n = out_length aux; aux = aux\<lparr>out_length := s32 (n + 1)\<rparr> in
     if n < max_length aux then aux\<lparr>out_mem := (out_mem aux)(out_p aux := ch), out_p := out_p aux + 1\<rparr> else aux)"

definition vsnprintf :: "addr \<Rightarrow> nat \<Rightarrow> addr \<Rightarrow> va_list \<Rightarrow> memory \<Rightarrow> (int \<times> memory) option" where
  "vsnprintf buffer buf_size format args m = do {
     aux \<leftarrow> vprintf_core vsnprintf_helper m format args
       \<lparr>out_mem = m, out_p = buffer, out_length = 0, max_length = (if buf_size > 0 then s32 (int (buf_size - 1)) else 0)\<rparr>;
     let m = (if buf_size > 0 then (out_mem aux)(out_p aux := 0) else out_mem aux);
     Some (out_length aux, m) }"

definition snprintf :: "addr \<Rightarrow> nat \<Rightarrow> addr \<Rightarrow> va_list \<Rightarrow> memory \<Rightarrow> (int \<times> memory) option" where
  "snprintf buffer buf_size format args m = vsnprintf buffer buf_size format args m"

end
