(* ===== verification/Stdio_Props.thy ===== *)
theory Stdio_Props
  imports Stdio Stdlib_Props
begin

text \<open>
  Correctness of formatted output.  The output of a call of \<open>vprintf_core\<close> does not depend on the output function: it is the list of
  characters that \<open>snoc\<close> collects.
\<close>

subsection \<open>The characters of a call\<close>

definition snoc :: "byte \<Rightarrow> byte list \<Rightarrow> byte list" where
  "snoc c xs = xs @ [c]"

lemma fold_snoc [simp]: "fold snoc xs ys = ys @ xs"
  by (induction xs arbitrary: ys) (simp_all add: snoc_def)

lemma output_dup_fold: "output_dup ch n output aux = fold output (replicate n ch) aux"
  by (induction n arbitrary: aux) simp_all

lemma string_loop_fold: "string_loop n i str output aux = fold output (map str [i..<i + n]) aux"
proof (induction n arbitrary: i aux)
  case (Suc n)
  have "[i..<i + Suc n] = i # [Suc i..<Suc i + n]" by (simp add: upt_conv_Cons del: upt_Suc)
  then show ?case using Suc by simp
qed simp

definition string_text :: "(nat \<Rightarrow> byte) \<Rightarrow> int \<Rightarrow> printf_conversion \<Rightarrow> byte list" where
  "string_text str len c = (let p = (if width c > len then replicate (nat (width c - len)) 32 else []) in
     (if flags c AND MINUS = 0 then p else []) @ map str [0..<nat len] @ (if flags c AND MINUS \<noteq> 0 then p else []))"

lemma format_string_fold: "format_string str len c output aux = fold output (string_text str len c) aux"
  by (simp add: format_string_def string_text_def output_dup_fold string_loop_fold Let_def)

definition sign_of :: "bool \<Rightarrow> bool \<Rightarrow> 32 word \<Rightarrow> byte" where
  "sign_of sg neg fl = (if sg then (if fl AND PLUS \<noteq> 0 then (if neg then 45 else 43)
     else if fl AND SPACE \<noteq> 0 then (if neg then 45 else 32) else if neg then 45 else 0) else 0)"

definition int_line :: "byte \<Rightarrow> byte \<Rightarrow> byte list \<Rightarrow> printf_conversion \<Rightarrow> byte list" where
  "int_line sign x buf c = (
     let pad = s32 (width c - int (length buf) - (if x \<noteq> 0 then 2 else 0) - (if sign \<noteq> 0 then 1 else 0));
         n = nat (if pad < 0 then 0 else pad) in
     (if flags c AND (MINUS OR ZERO) = 0 then replicate n 32 else []) @ (if sign \<noteq> 0 then [sign] else []) @
     (if x \<noteq> 0 then [48, x] else []) @ (if flags c AND ZERO \<noteq> 0 then replicate n 48 else []) @ rev buf @
     (if flags c AND MINUS \<noteq> 0 then replicate n 32 else []))"

definition int_text :: "nat \<Rightarrow> bool \<Rightarrow> bool \<Rightarrow> integer_base \<Rightarrow> printf_conversion \<Rightarrow> byte list option" where
  "int_text value sg neg b c = do {
     buf \<leftarrow> digit_loop value b (flags c) [] 0;
     let buf = zero_loop (if precision c < 0 then 1 else precision c) buf;
     buf \<leftarrow> (if flags c AND POUND \<noteq> 0 \<and> base_value b = 8 \<and> (buf = [] \<or> last buf \<noteq> 48) then buf_put 48 buf else Some buf);
     Some (int_line (sign_of sg neg (flags c)) (if flags c AND POUND \<noteq> 0 \<and> value \<noteq> 0 then x_char b else 0) buf c) }"

lemma if_fold:
  "(if P then fold output xs aux else aux) = fold output (if P then xs else []) aux"
  "(if P then output ch aux else aux) = fold output (if P then [ch] else []) aux"
  "(if P then output ch (output ch' aux) else aux) = fold output (if P then [ch', ch] else []) aux"
  by simp_all

lemma bind_map_option: "map_option f (m \<bind> g) = m \<bind> (\<lambda>x. map_option f (g x))"
  by (cases m) simp_all

lemma format_integer_fold:
  "format_integer value sg neg b c output aux = map_option (\<lambda>out. fold output out aux) (int_text value sg neg b c)"
  unfolding format_integer_def int_text_def int_line_def sign_of_def Let_def output_dup_fold output_rev_def if_fold [of _ "output"] bind_map_option option.map fold_append comp_def ..

lemma convert_fold:
  "convert_signed c args output aux = map_option (\<lambda>(args, out). (args, fold output out aux)) (convert_signed c args snoc [])"
  "convert_unsigned ch c args output aux = map_option (\<lambda>(args, out). (args, fold output out aux)) (convert_unsigned ch c args snoc [])"
  "convert_char c args output aux = map_option (\<lambda>(args, out). (args, fold output out aux)) (convert_char c args snoc [])"
  "convert_string m c args output aux = map_option (\<lambda>(args, out). (args, fold output out aux)) (convert_string m c args snoc [])"
  "convert_pointer c args output aux = map_option (\<lambda>(args, out). (args, fold output out aux)) (convert_pointer c args snoc [])"
  unfolding convert_signed_def convert_unsigned_def convert_char_def convert_string_def convert_pointer_def format_integer_fold format_string_fold Let_def
  by (auto simp: bind_map_option option.map_comp comp_def bind_assoc split: Option.bind_split option.splits)

lemma convert_text: "convert m ch c args output aux = map_option (\<lambda>(args, out). (args, fold output out aux)) (convert m ch c args snoc [])"
  unfolding convert_def convert_fold(1,3,5) [of c args "output" aux] convert_fold(2) [of ch c args "output" aux] convert_fold(4) [of m c args "output" aux]
  by simp

text \<open>The characters do not depend on the output function.\<close>

lemma vprintf_step:
  "m f = 0 \<Longrightarrow> vprintf_core p m f args a = Some a"
  "m f \<noteq> 0 \<Longrightarrow> m f \<noteq> 37 \<Longrightarrow> vprintf_core p m f args a = vprintf_core p m (f + 1) args (p (m f) a)"
  "m f = 37 \<Longrightarrow> m (f + 1) = 37 \<Longrightarrow> vprintf_core p m f args a = vprintf_core p m (f + 2) args (p 37 a)"
  "m f = 37 \<Longrightarrow> m (f + 1) \<noteq> 37 \<Longrightarrow> parse_conversion m (f + 1) args = Some (f', c, args1) \<Longrightarrow> supported (m f') \<Longrightarrow>
     vprintf_core p m f args a = convert m (m f') c args1 p a \<bind> (\<lambda>(args2, a). vprintf_core p m (f' + 1) args2 a)"
  "m f = 37 \<Longrightarrow> m (f + 1) \<noteq> 37 \<Longrightarrow> parse_conversion m (f + 1) args = Some (f', c, args1) \<Longrightarrow> \<not> supported (m f') \<Longrightarrow>
     vprintf_core p m f args a = vprintf_core p (lit (unsupported (m f'))) 1 [nat (sint (m f') mod 2 ^ 32)] a \<bind> vprintf_core p m (f' + 1) args1"
  by (simp_all add: vprintf_core.simps [of p m f] Let_def)

lemma vprintf_snoc_aux:
  fixes p :: "byte \<Rightarrow> 'b \<Rightarrow> 'b"
  assumes "vprintf_core q m f args xs = Some ys" "q = snoc"
  shows "\<exists>out. ys = xs @ out \<and> (\<forall>a. vprintf_core p m f args a = Some (fold p out a))"
  using assms
proof (induction q m f args xs ys rule: vprintf_core.raw_induct [rotated, consumes 1])
  case (1 vp q m f args xs ys)
  note IH = 1(1) [OF _ 1(3)] and body = 1(2) and q = 1(3)
  consider (nul) "m f = 0" | (plain) "m f \<noteq> 0" "m f \<noteq> 37" | (pct) "m f = 37" "m (f + 1) = 37" | (conv) "m f = 37" "m (f + 1) \<noteq> 37" by auto
  then show ?case
  proof cases
    case nul then show ?thesis using body by (intro exI [of _ "[]"]) (simp add: vprintf_step)
  next
    case plain
    then have "vp q m (f + 1) args (xs @ [m f]) = Some ys" using body q by (simp add: snoc_def)
    from IH [OF this] obtain out where "ys = (xs @ [m f]) @ out" "\<forall>a. vprintf_core p m (f + 1) args a = Some (fold p out a)" by blast
    then show ?thesis using plain by (intro exI [of _ "m f # out"]) (simp add: vprintf_step)
  next
    case pct
    then have "vp q m (f + 2) args (xs @ [37]) = Some ys" using body q by (simp add: snoc_def)
    from IH [OF this] obtain out where "ys = (xs @ [37]) @ out" "\<forall>a. vprintf_core p m (f + 2) args a = Some (fold p out a)" by blast
    then show ?thesis using pct by (intro exI [of _ "37 # out"]) (simp add: vprintf_step)
  next
    case conv
    then obtain f' c args1 where pc: "parse_conversion m (f + 1) args = Some (f', c, args1)" using body by (auto elim!: bind_SomeE)
    show ?thesis
    proof (cases "supported (m f')")
      case True
      then obtain args2 ys1 where "convert m (m f') c args1 snoc xs = Some (args2, ys1)" and vp: "vp q m (f' + 1) args2 ys1 = Some ys"
        using body q conv pc by (auto simp: Let_def elim!: bind_SomeE)
      then obtain out1 where o1: "convert m (m f') c args1 snoc [] = Some (args2, out1)" "ys1 = xs @ out1"
        unfolding convert_text [of m "m f'" c args1 snoc xs] by auto
      from IH [OF vp] obtain out where "ys = ys1 @ out" "\<forall>a. vprintf_core p m (f' + 1) args2 a = Some (fold p out a)" by blast
      then show ?thesis using o1 vprintf_step(4) [OF conv pc True, of p] convert_text [of m "m f'" c args1 p]
        by (intro exI [of _ "out1 @ out"]) simp
    next
      case False
      then obtain ys1 where v1: "vp q (lit (unsupported (m f'))) 1 [nat (sint (m f') mod 2 ^ 32)] xs = Some ys1" and v2: "vp q m (f' + 1) args1 ys1 = Some ys"
        using body q conv pc by (auto simp: Let_def elim!: bind_SomeE)
      from IH [OF v1] obtain out1 where "ys1 = xs @ out1" "\<forall>a. vprintf_core p (lit (unsupported (m f'))) 1 [nat (sint (m f') mod 2 ^ 32)] a = Some (fold p out1 a)" by blast
      moreover from IH [OF v2] obtain out where "ys = ys1 @ out" "\<forall>a. vprintf_core p m (f' + 1) args1 a = Some (fold p out a)" by blast
      ultimately show ?thesis using vprintf_step(5) [OF conv pc False, of p] by (intro exI [of _ "out1 @ out"]) simp
    qed
  qed
qed

lemma vprintf_snoc: "vprintf_core snoc m f args [] = Some out \<Longrightarrow> vprintf_core p m f args a = Some (fold p out a)"
  using vprintf_snoc_aux [of snoc m f args "[]" out p] by auto

subsection \<open>Printing into a buffer\<close>

text \<open>The memory with a list of bytes stored at an address.\<close>

definition store_bytes :: "addr \<Rightarrow> byte list \<Rightarrow> memory \<Rightarrow> memory" where
  "store_bytes a xs m = (\<lambda>x. if a \<le> x \<and> x < a + length xs then xs ! (x - a) else m x)"

lemma store_bytes_nil [simp]: "store_bytes a [] m = m"
  by (rule ext) (auto simp: store_bytes_def)

lemma store_bytes_snoc: "store_bytes a (xs @ [c]) m = (store_bytes a xs m)(a + length xs := c)"
  by (rule ext) (auto simp: store_bytes_def nth_append)

lemma helper_fold:
  assumes "length out < 2 ^ 31" "0 \<le> mx"
  shows "fold vsnprintf_helper out \<lparr>out_mem = m, out_p = buffer, out_length = 0, max_length = mx\<rparr> =
    \<lparr>out_mem = store_bytes buffer (take (nat mx) out) m, out_p = buffer + min (length out) (nat mx), out_length = int (length out), max_length = mx\<rparr>"
  using assms(1)
proof (induction out rule: rev_induct)
  case Nil then show ?case by simp
next
  case (snoc c out)
  have "in_s32 (int (length out) + 1)" using snoc.prems by (simp add: in_s32_def)
  then have l: "s32 (int (length out) + 1) = int (length out) + 1" by simp
  show ?case
  proof (cases "int (length out) < mx")
    case True
    then have n: "length out < nat mx" by linarith
    have "take (nat mx) (out @ [c]) = take (nat mx) out @ [c]" using n by simp
    then show ?thesis using snoc l True n by (simp add: vsnprintf_helper_def [of c] store_bytes_snoc Let_def fun_upd_def)
  next
    case False
    then have "nat mx \<le> length out" by linarith
    then show ?thesis using snoc l False by (simp add: vsnprintf_helper_def [of c] Let_def)
  qed
qed

lemma vsnprintf_ok:
  assumes "vprintf_core snoc m format args [] = Some out" "length out < 2 ^ 31" "0 < n" "n \<le> 2 ^ 31"
  shows "vsnprintf buffer n format args m = Some (int (length out), store_bytes buffer (take (n - 1) out @ [0]) m)"
proof -
  have "s32 (int (n - 1)) = int (n - 1)" using assms(3,4) by (intro s32_id) (auto simp: in_s32_def)
  moreover have "length (take (n - 1) out) = min (length out) (n - 1)" "nat (int n - 1) = n - 1" using assms(3) by auto
  ultimately show ?thesis
    using vprintf_snoc [OF assms(1), of vsnprintf_helper] helper_fold [OF assms(2), of "int (n - 1)"] assms(3)
    by (simp add: vsnprintf_def store_bytes_snoc Let_def del: length_take)
qed

text \<open>When formatting ends with the characters \<open>out\<close>, \<open>vsnprintf\<close> stores the longest prefix that fits the buffer and a null byte
  behind it, writes nothing outside the \<open>n\<close> bytes of the buffer, and returns the full length of the output.\<close>
theorem vsnprintf_bounded:
  assumes "vprintf_core snoc m format args [] = Some out" "length out < 2 ^ 31" "0 < n" "n \<le> 2 ^ 31"
  shows "\<exists>m'. vsnprintf buffer n format args m = Some (int (length out), m') \<and>
    (\<forall>i < min (length out) (n - 1). m' (buffer + i) = out ! i) \<and> m' (buffer + min (length out) (n - 1)) = 0 \<and>
    (\<forall>a. a < buffer \<or> buffer + n \<le> a \<longrightarrow> m' a = m a)"
  unfolding vsnprintf_ok [OF assms] using assms(3) by (auto simp: store_bytes_def nth_append)

subsection \<open>Integers\<close>




subsection \<open>Decimal numbers\<close>

fun dec_rev :: "nat \<Rightarrow> nat list" where
  "dec_rev n = (if n = 0 then [] else n mod 10 # dec_rev (n div 10))"

declare dec_rev.simps [simp del]

definition dig :: "nat \<Rightarrow> byte" where "dig d = of_nat (48 + d)"

definition dec_digits :: "nat \<Rightarrow> nat list" where
  "dec_digits n = (if n = 0 then [0] else rev (dec_rev n))"

lemma dec_rev_length: "n < 10 ^ d \<Longrightarrow> length (dec_rev n) \<le> d"
proof (induction d arbitrary: n)
  case (Suc d)
  have "n div 10 < 10 ^ d" using Suc.prems by simp
  from Suc.IH [OF this] show ?case by (subst dec_rev.simps) simp
qed (simp add: dec_rev.simps)

lemma dec_digits_props:
  "dec_value (dec_digits n) = int n" "\<forall>d \<in> set (dec_digits n). d < 10" "dec_digits n \<noteq> []" "n < 10 ^ 10 \<Longrightarrow> length (dec_digits n) \<le> 10"
proof -
  have "dec_value (rev (dec_rev n)) = int n \<and> (\<forall>d \<in> set (dec_rev n). d < 10)" for n
    by (induction n rule: dec_rev.induct) (subst (1 2) dec_rev.simps, auto simp: zdiv_int zmod_int)
  then show "dec_value (dec_digits n) = int n" "\<forall>d \<in> set (dec_digits n). d < 10" by (auto simp: dec_digits_def dec_value_def)
  show "dec_digits n \<noteq> []" by (auto simp: dec_digits_def dec_rev.simps [of n])
  assume "n < 10 ^ 10"
  then show "length (dec_digits n) \<le> 10" using dec_rev_length [of n 10] by (simp add: dec_digits_def)
qed

lemma base_d_digit: "d < 10 \<Longrightarrow> digits base_d ! d = dig d"
proof -
  assume "d < 10"
  then have "d \<in> set [0..<10]" by simp
  moreover have "\<forall>d \<in> set [0..<10]. digits base_d ! d = dig d" by (simp add: upt_rec base_d_def chars_def dig_def)
  ultimately show ?thesis by blast
qed

lemma digit_loop_dec: "length buf + length (dec_rev n) \<le> 64 \<Longrightarrow> digit_loop n base_d 0 buf k = Some (buf @ map dig (dec_rev n))"
proof (induction n arbitrary: buf k rule: dec_rev.induct)
  case (1 n)
  have b: "base_value base_d = 10" by (simp add: base_d_def)
  show ?case
  proof (cases "n = 0")
    case False
    have l: "length (buf @ [dig (n mod 10)]) + length (dec_rev (n div 10)) \<le> 64" "length buf < 64" using 1(2) False by (simp_all add: dec_rev.simps [of n])
    show ?thesis using 1(1) [OF False l(1)] False l(2)
      by (subst digit_loop.simps) (simp add: b base_d_digit buf_put_def dec_rev.simps [of n])
  qed (simp add: digit_loop.simps dec_rev.simps)
qed

definition plain :: printf_conversion where
  "plain = \<lparr>flags = 0, width = 0, precision = - 1, conv = T_INT\<rparr>"

lemma parse_plain: "m f = 100 \<Longrightarrow> parse_conversion m f args = Some (f, plain, args)"
  by (simp add: parse_conversion_def flags_loop.simps flag_of_def parse_number_def number_loop.simps isdigit_def parse_type_def plain_def Let_def)

lemma int_text_dec:
  assumes "n < 10 ^ 10"
  shows "int_text n True neg base_d plain = Some ((if neg then [45] else []) @ map dig (dec_digits n))"
proof -
  have l: "length (dec_rev n) \<le> 10" using dec_rev_length [OF assms] .
  have "zero_loop 1 (map dig (dec_rev n)) = rev (map dig (dec_digits n))"
  proof (cases "n = 0")
    case True
    have "zero_loop 1 [] = [48]" by (simp add: zero_loop.simps [of 1])
    then show ?thesis using True by (simp add: dec_digits_def dec_rev.simps dig_def)
  next
    case False
    then have "0 < length (dec_rev n)" by (simp add: dec_rev.simps [of n])
    then show ?thesis using False by (simp add: zero_loop.simps [of 1] dec_digits_def rev_map [symmetric])
  qed
  moreover have "int_line (sign_of True neg 0) 0 buf plain = (if neg then [45] else []) @ rev buf" if "length buf < 2 ^ 30" for buf
  proof -
    have "s32 (- int (length buf) - 1) = - int (length buf) - 1" "s32 (- int (length buf)) = - int (length buf)"
      using that by (intro s32_id; simp add: in_s32_def)+
    then show ?thesis by (simp add: int_line_def sign_of_def plain_def)
  qed
  moreover have "length (rev (map dig (dec_digits n))) < 2 ^ 30" using dec_digits_props(4) [OF assms] by simp
  ultimately show ?thesis using digit_loop_dec [of "[]" n 0] l by (simp add: int_text_def plain_def)
qed

lemma vprintf_decimal:
  assumes "m f = 37" "m (f + 1) = 100" "m (f + 2) = 0" "in_s32 v" "u = nat \<bar>v\<bar>"
  shows "vprintf_core snoc m f [nat (v mod 2 ^ 32)] [] = Some ((if v < 0 then [45] else []) @ map dig (dec_digits u))" "u < 10 ^ 10"
proof -
  have "nat (v mod 2 ^ 32) < 2 ^ 32" by (simp add: nat_less_iff)
  moreover have "s32 (v mod 2 ^ 32) = s32 v" unfolding s32_def take_bit_eq_mod [symmetric] by (simp add: signed_take_bit_take_bit)
  ultimately have "va_int [nat (v mod 2 ^ 32)] = Some (v, [])" using assms(4) by (simp add: va_int_def va_word_def)
  then have "signed_arg (conv plain) [nat (v mod 2 ^ 32)] = Some (v, [])" by (simp add: signed_arg_def plain_def)
  moreover show u: "u < 10 ^ 10" using assms(4,5) by (simp add: in_s32_def nat_less_iff abs_if)
  ultimately have "convert_signed plain [nat (v mod 2 ^ 32)] snoc [] = Some ([], (if v < 0 then [45] else []) @ map dig (dec_digits u))"
    by (simp only: convert_signed_def format_integer_fold bind.bind_lunit prod.case assms(5) [symmetric] int_text_dec [OF u] option.map fold_snoc append_Nil)
  then show "vprintf_core snoc m f [nat (v mod 2 ^ 32)] [] = Some ((if v < 0 then [45] else []) @ map dig (dec_digits u))"
    using vprintf_step(4) [of m f _ _ _ _ snoc, OF assms(1) _ parse_plain [of m "f + 1", OF assms(2)]] assms(2,3)
    by (simp add: supported_def convert_def vprintf_step(1))
qed

text \<open>C31: printing an int with \<open>%d\<close> into a buffer of at least 12 bytes and reading it back with \<open>atoi\<close> gives the same number, the
  smallest int included.  The buffer does not overlap the format, which the code reads while it writes.\<close>
theorem print_parse_decimal:
  assumes "m f = 37" "m (f + 1) = 100" "m (f + 2) = 0" "in_s32 v" "buffer \<noteq> NULL" "12 \<le> n" "n \<le> 2 ^ 31"
    "{f, f + 1, f + 2} \<inter> {buffer ..< buffer + n} = {}"
  shows "\<exists>len m'. snprintf buffer n f [nat (v mod 2 ^ 32)] m = Some (len, m') \<and> atoi m' buffer = Some v"
proof -
  define u where "u = nat \<bar>v\<bar>"
  let ?ds = "dec_digits u" and ?pre = "if v < 0 then [45 :: byte] else []"
  let ?out = "?pre @ map dig ?ds"
  note dp = dec_digits_props [of u] and vd = vprintf_decimal [OF assms(1-4) u_def]
  have l: "length ?out \<le> 11" using dp(4) [OF vd(2)] by simp
  have "length ?out < 2 ^ 31" "0 < n" "take (n - 1) ?out = ?out" using l assms(6) by simp_all
  then have e: "snprintf buffer n f [nat (v mod 2 ^ 32)] m = Some (int (length ?out), store_bytes buffer (?out @ [0]) m)"
    using vsnprintf_ok [OF vd(1) _ _ assms(7)] by (simp add: snprintf_def)
  let ?m = "store_bytes buffer (?out @ [0]) m" and ?j = "buffer + 0 + (if v < 0 then 1 else 0)"
  have dg: "\<forall>i < length ?ds. ?m (?j + i) = of_nat (48 + ?ds ! i) \<and> ?ds ! i < 10"
    using dp(2) by (auto simp: store_bytes_def nth_append dig_def)
  have "atoi ?m buffer = Some (if v < 0 then - dec_value ?ds else dec_value ?ds)"
  proof (rule atoi_value [OF assms(5) _ _ refl dp(3) dg])
    show "\<not> isdigit (sint (?m (?j + length ?ds)))" by (simp add: store_bytes_def nth_append isdigit_def)
    show "dec_value ?ds < 2 ^ 31 + (if v < 0 then 1 else 0)" using assms(4) dp(1) by (simp add: in_s32_def u_def)
  qed (simp_all add: store_bytes_def nth_append)
  then show ?thesis using e dp(1) by (auto simp: u_def)
qed

theorem print_parse_decimal_witness:
  "\<exists>len m'. snprintf 100 20 1 [nat (- 42 mod 2 ^ 32)] (lit (chars ''%d'')) = Some (len, m') \<and> atoi m' 100 = Some (- 42)"
proof -
  have "lit (chars ''%d'') 1 = 37" "lit (chars ''%d'') (1 + 1) = 100" "lit (chars ''%d'') (1 + 2) = 0" by (simp_all add: lit_def chars_def)
  from print_parse_decimal [OF this, of "- 42" 100 20] show ?thesis by (simp add: in_s32_def)
qed


lemma vprintf_plain:
  "\<forall>i < n. m (f + i) \<noteq> 0 \<and> m (f + i) \<noteq> 37 \<Longrightarrow> m (f + n) = 0 \<Longrightarrow> vprintf_core snoc m f args xs = Some (xs @ map (\<lambda>i. m (f + i)) [0..<n])"
proof (induction n arbitrary: f xs)
  case 0 then show ?case by (simp add: vprintf_step(1))
next
  case (Suc n)
  have m: "m f \<noteq> 0" "m f \<noteq> 37" using Suc.prems(1) [rule_format, of 0] by simp_all
  have "\<forall>i < n. m (f + 1 + i) \<noteq> 0 \<and> m (f + 1 + i) \<noteq> 37" using Suc.prems(1) by auto
  moreover have "m (f + 1 + n) = 0" using Suc.prems(2) by simp
  ultimately have "vprintf_core snoc m (f + 1) args (snoc (m f) xs) = Some (snoc (m f) xs @ map (\<lambda>i. m (f + 1 + i)) [0..<n])" by (rule Suc.IH)
  then show ?case using vprintf_step(2) [of m f snoc args xs] m by (simp add: snoc_def [of "m f" xs] upt_conv_Cons map_Suc_upt [symmetric] comp_def del: upt_Suc)
qed

theorem vsnprintf_bounded_witness:
  "\<exists>m'. vsnprintf 100 2 1 [] (lit [104, 105]) = Some (2, m') \<and> m' 100 = 104 \<and> m' 101 = 0 \<and> m' 102 = 0"
proof -
  have "vprintf_core snoc (lit [104, 105]) 1 [] [] = Some ([] @ map (\<lambda>i. lit [104, 105] (1 + i)) [0..<2])"
  proof (rule vprintf_plain)
    have "lit [104, 105] (1 + i) \<noteq> 0 \<and> lit [104, 105] (1 + i) \<noteq> 37" if "i = 0 \<or> i = 1" for i using that by (elim disjE) (simp_all add: lit_def)
    then show "\<forall>i < 2. lit [104, 105] (1 + i) \<noteq> 0 \<and> lit [104, 105] (1 + i) \<noteq> 37" by (simp add: less_2_cases_iff)
  qed (simp add: lit_def)
  then have "vprintf_core snoc (lit [104, 105]) 1 [] [] = Some [104, 105]" by (simp add: lit_def upt_rec)
  from vsnprintf_bounded [OF this, of 2 100] show ?thesis by (auto simp: lit_def)
qed

text \<open>A format that ends with a percent sign makes \<open>vprintf_core\<close> read behind its end: after the null byte, which it takes for an
  unsupported conversion, it continues with the byte that follows.\<close>
theorem trailing_percent_overruns:
  assumes "m f = 37" "m (f + 1) = 0"
  shows "vprintf_core p m f args aux = vprintf_core p (lit (unsupported 0)) 1 [0] aux \<bind> vprintf_core p m (f + 2) args"
proof -
  have "parse_conversion m (f + 1) args = Some (f + 1, plain, args)" using assms(2)
    by (simp add: parse_conversion_def flags_loop.simps flag_of_def parse_number_def number_loop.simps isdigit_def parse_type_def plain_def Let_def)
  from vprintf_step(5) [of m f _ _ _ _ p, OF assms(1) _ this] show ?thesis using assms(2) by (simp add: supported_def)
qed

end
