(* ===== verification/Console.thy ===== *)
theory Console
  imports Stdio_Props
begin

text \<open>
  devices/vga.c, lib/kernel/console.c and the routines of lib/stdio.c that print to the console.  The frame buffer is 25 rows of 80
  cells, a character and an attribute each; the position of the hardware cursor is a register of the device.  A byte given to the
  serial driver is added to \<open>serial_out\<close>.  \<open>irq\<close> says whether an interrupt handler is running and \<open>cur\<close> is the running thread.
\<close>

subsection \<open>The text screen\<close>

definition COL_CNT :: nat where "COL_CNT = 80"
definition ROW_CNT :: nat where "ROW_CNT = 25"
definition GRAY_ON_BLACK :: byte where "GRAY_ON_BLACK = 7"

record vga =
  cx :: nat
  cy :: nat
  fb :: "(byte \<times> byte) list list"
  vga_inited :: bool
  hw_cursor :: nat
  beeps :: nat

definition find_cursor :: "vga \<Rightarrow> nat \<times> nat" where
  "find_cursor v = (hw_cursor v mod COL_CNT, hw_cursor v div COL_CNT)"

definition move_cursor :: "vga \<Rightarrow> vga" where
  "move_cursor v = v\<lparr>hw_cursor := (cx v + COL_CNT * cy v) mod 2 ^ 16\<rparr>"

definition init_vga :: "vga \<Rightarrow> vga" where
  "init_vga v = (if \<not> vga_inited v then (let (x, y) = find_cursor v in v\<lparr>cx := x, cy := y, vga_inited := True\<rparr>) else v)"

text \<open>A store outside the frame buffer is \<open>None\<close>.\<close>

definition put_cell :: "nat \<Rightarrow> nat \<Rightarrow> byte \<times> byte \<Rightarrow> vga \<Rightarrow> vga option" where
  "put_cell y x c v = do {
     k_assert (y < length (fb v));
     k_assert (x < length (fb v ! y));
     Some (v\<lparr>fb := (fb v)[y := (fb v ! y)[x := c]]\<rparr>) }"

fun clear_row_loop :: "nat \<Rightarrow> nat \<Rightarrow> nat \<Rightarrow> vga \<Rightarrow> vga option" where
  "clear_row_loop 0 x y v = Some v"
| "clear_row_loop (Suc n) x y v = do { v \<leftarrow> put_cell y x (32, GRAY_ON_BLACK) v; clear_row_loop n (x + 1) y v }"

definition clear_row :: "nat \<Rightarrow> vga \<Rightarrow> vga option" where
  "clear_row y v = clear_row_loop COL_CNT 0 y v"

fun cls_loop :: "nat \<Rightarrow> nat \<Rightarrow> vga \<Rightarrow> vga option" where
  "cls_loop 0 y v = Some v"
| "cls_loop (Suc n) y v = do { v \<leftarrow> clear_row y v; cls_loop n (y + 1) v }"

definition cls :: "vga \<Rightarrow> vga option" where
  "cls v = do { v \<leftarrow> cls_loop ROW_CNT 0 v; Some (move_cursor (v\<lparr>cx := 0, cy := 0\<rparr>)) }"

text \<open>Scrolling copies rows 1 to 24 to rows 0 to 23.\<close>

definition newline :: "vga \<Rightarrow> vga option" where
  "newline v = (let v = v\<lparr>cx := 0, cy := cy v + 1\<rparr> in
     if cy v \<ge> ROW_CNT then do {
       k_assert (length (fb v) = ROW_CNT);
       let v = v\<lparr>cy := ROW_CNT - 1, fb := tl (fb v) @ [last (fb v)]\<rparr>;
       clear_row (ROW_CNT - 1) v }
     else Some v)"

definition vga_char :: "byte \<Rightarrow> vga \<Rightarrow> vga option" where
  "vga_char c v = (if c = 10 then newline v
     else if c = 12 then cls v
     else if c = 8 then Some (if cx v > 0 then v\<lparr>cx := cx v - 1\<rparr> else v)
     else if c = 13 then Some (v\<lparr>cx := 0\<rparr>)
     else if c = 9 then (let v = v\<lparr>cx := ROUND_UP (cx v + 1) 8\<rparr> in if cx v \<ge> COL_CNT then newline v else Some v)
     else if c = 7 then Some (v\<lparr>beeps := beeps v + 1\<rparr>)
     else do {
       v \<leftarrow> put_cell (cy v) (cx v) (c, GRAY_ON_BLACK) v;
       let v = v\<lparr>cx := cx v + 1\<rparr>;
       if cx v \<ge> COL_CNT then newline v else Some v })"

definition vga_putc :: "byte \<Rightarrow> vga \<Rightarrow> vga option" where
  "vga_putc c v = do { v \<leftarrow> vga_char c (init_vga v); Some (move_cursor v) }"

subsection \<open>The console\<close>

record console =
  screen :: vga
  serial_out :: "byte list"
  use_console_lock :: bool
  console_lock :: addr
  console_lock_depth :: int
  write_cnt :: int

definition console_init :: "console \<Rightarrow> console" where
  "console_init s = s\<lparr>console_lock := NULL, use_console_lock := True\<rparr>"

definition console_panic :: "console \<Rightarrow> console" where
  "console_panic s = s\<lparr>use_console_lock := False\<rparr>"

text \<open>A lock held by another thread makes the caller wait, which is outside this model.\<close>

definition acquire_console :: "bool \<Rightarrow> addr \<Rightarrow> console \<Rightarrow> console option" where
  "acquire_console irq cur s = (if \<not> irq \<and> use_console_lock s then
       (if console_lock s = cur then Some (s\<lparr>console_lock_depth := s32 (console_lock_depth s + 1)\<rparr>)
        else do { k_assert (console_lock s = NULL); Some (s\<lparr>console_lock := cur\<rparr>) })
     else Some s)"

definition release_console :: "bool \<Rightarrow> addr \<Rightarrow> console \<Rightarrow> console option" where
  "release_console irq cur s = (if \<not> irq \<and> use_console_lock s then
       (if console_lock_depth s > 0 then Some (s\<lparr>console_lock_depth := console_lock_depth s - 1\<rparr>)
        else do { k_assert (console_lock s = cur); Some (s\<lparr>console_lock := NULL\<rparr>) })
     else Some s)"

definition console_locked_by_current_thread :: "bool \<Rightarrow> addr \<Rightarrow> console \<Rightarrow> bool" where
  "console_locked_by_current_thread irq cur s \<longleftrightarrow> irq \<or> \<not> use_console_lock s \<or> console_lock s = cur"

definition putchar_have_lock :: "bool \<Rightarrow> addr \<Rightarrow> byte \<Rightarrow> console \<Rightarrow> console option" where
  "putchar_have_lock irq cur c s = do {
     k_assert (console_locked_by_current_thread irq cur s);
     v \<leftarrow> vga_putc c (screen s);
     Some (s\<lparr>write_cnt := s64 (write_cnt s + 1), serial_out := serial_out s @ [c], screen := v\<rparr>) }"

partial_function (option) puts_loop :: "bool \<Rightarrow> addr \<Rightarrow> memory \<Rightarrow> addr \<Rightarrow> console \<Rightarrow> console option" where
  "puts_loop irq cur m p s = (if m p \<noteq> 0 then do { s \<leftarrow> putchar_have_lock irq cur (m p) s; puts_loop irq cur m (p + 1) s } else Some s)"

definition puts :: "bool \<Rightarrow> addr \<Rightarrow> memory \<Rightarrow> addr \<Rightarrow> console \<Rightarrow> (int \<times> console) option" where
  "puts irq cur m p s = do {
     s \<leftarrow> acquire_console irq cur s;
     s \<leftarrow> puts_loop irq cur m p s;
     s \<leftarrow> putchar_have_lock irq cur 10 s;
     s \<leftarrow> release_console irq cur s;
     Some (0, s) }"

fun putbuf_loop :: "bool \<Rightarrow> addr \<Rightarrow> nat \<Rightarrow> memory \<Rightarrow> addr \<Rightarrow> console \<Rightarrow> console option" where
  "putbuf_loop irq cur 0 m buffer s = Some s"
| "putbuf_loop irq cur (Suc n) m buffer s = do { s \<leftarrow> putchar_have_lock irq cur (m buffer) s; putbuf_loop irq cur n m (buffer + 1) s }"

definition putbuf :: "bool \<Rightarrow> addr \<Rightarrow> memory \<Rightarrow> addr \<Rightarrow> nat \<Rightarrow> console \<Rightarrow> console option" where
  "putbuf irq cur m buffer n s = do {
     s \<leftarrow> acquire_console irq cur s;
     s \<leftarrow> putbuf_loop irq cur n m buffer s;
     release_console irq cur s }"

definition putchar :: "bool \<Rightarrow> addr \<Rightarrow> int \<Rightarrow> console \<Rightarrow> (int \<times> console) option" where
  "putchar irq cur c s = do {
     s \<leftarrow> acquire_console irq cur s;
     s \<leftarrow> putchar_have_lock irq cur (word_of_int c) s;
     s \<leftarrow> release_console irq cur s;
     Some (c, s) }"

definition vprintf_helper :: "bool \<Rightarrow> addr \<Rightarrow> byte \<Rightarrow> (int \<times> console) option \<Rightarrow> (int \<times> console) option" where
  "vprintf_helper irq cur c st = do {
     (char_cnt, s) \<leftarrow> st;
     s \<leftarrow> putchar_have_lock irq cur c s;
     Some (s32 (char_cnt + 1), s) }"

definition vprintf :: "bool \<Rightarrow> addr \<Rightarrow> memory \<Rightarrow> addr \<Rightarrow> va_list \<Rightarrow> console \<Rightarrow> (int \<times> console) option" where
  "vprintf irq cur m format args s = do {
     s \<leftarrow> acquire_console irq cur s;
     r \<leftarrow> vprintf_core (vprintf_helper irq cur) m format args (Some (0, s));
     (char_cnt, s) \<leftarrow> r;
     s \<leftarrow> release_console irq cur s;
     Some (char_cnt, s) }"

definition printf :: "bool \<Rightarrow> addr \<Rightarrow> memory \<Rightarrow> addr \<Rightarrow> va_list \<Rightarrow> console \<Rightarrow> (int \<times> console) option" where
  "printf irq cur m format args s = vprintf irq cur m format args s"

definition console_print_stats :: "bool \<Rightarrow> addr \<Rightarrow> console \<Rightarrow> (int \<times> console) option" where
  "console_print_stats irq cur s = (let w = nat (write_cnt s mod 2 ^ 64) in
     printf irq cur (lit (chars ''Console: %lld characters output'' @ [10])) 1 [w mod 2 ^ 32, w div 2 ^ 32] s)"

subsection \<open>Dumps\<close>

text \<open>Printing a literal format, without the result.\<close>

definition print_lit :: "bool \<Rightarrow> addr \<Rightarrow> byte list \<Rightarrow> va_list \<Rightarrow> console \<Rightarrow> console option" where
  "print_lit irq cur format args s = map_option snd (printf irq cur (lit format) 1 args s)"

fun print_times :: "bool \<Rightarrow> addr \<Rightarrow> nat \<Rightarrow> byte list \<Rightarrow> console \<Rightarrow> console option" where
  "print_times irq cur 0 format s = Some s"
| "print_times irq cur (Suc n) format s = do { s \<leftarrow> print_lit irq cur format [] s; print_times irq cur n format s }"

fun hex_loop :: "bool \<Rightarrow> addr \<Rightarrow> nat \<Rightarrow> nat \<Rightarrow> nat \<Rightarrow> memory \<Rightarrow> addr \<Rightarrow> console \<Rightarrow> console option" where
  "hex_loop irq cur 0 i start m buf s = Some s"
| "hex_loop irq cur (Suc n) i start m buf s = do {
     s \<leftarrow> print_lit irq cur (chars ''%02hhx%c'') [unat (m (buf + (i - start))), if i = 16 div 2 - 1 then 45 else 32] s;
     hex_loop irq cur n (i + 1) start m buf s }"

fun ascii_loop :: "bool \<Rightarrow> addr \<Rightarrow> nat \<Rightarrow> nat \<Rightarrow> nat \<Rightarrow> memory \<Rightarrow> addr \<Rightarrow> console \<Rightarrow> console option" where
  "ascii_loop irq cur 0 i start m buf s = Some s"
| "ascii_loop irq cur (Suc n) i start m buf s = do {
     let b = m (buf + (i - start));
     s \<leftarrow> print_lit irq cur (chars ''%c'') [if isprint (uint b) then unat b else 46] s;
     ascii_loop irq cur n (i + 1) start m buf s }"

definition ROUND_DOWN :: "nat \<Rightarrow> nat \<Rightarrow> nat" where
  "ROUND_DOWN x step = x div step * step"

partial_function (option) hex_dump :: "bool \<Rightarrow> addr \<Rightarrow> nat \<Rightarrow> memory \<Rightarrow> addr \<Rightarrow> nat \<Rightarrow> bool \<Rightarrow> console \<Rightarrow> console option" where
  "hex_dump irq cur ofs m buf sz ascii s = (if sz > 0 then do {
       let start = ofs mod 16;
       let en = (if 16 - start > sz then start + sz else 16);
       let n = en - start;
       s \<leftarrow> print_lit irq cur (chars ''%08jx  '') [ROUND_DOWN ofs 16, 0] s;
       s \<leftarrow> print_times irq cur start (chars ''   '') s;
       s \<leftarrow> hex_loop irq cur n start start m buf s;
       s \<leftarrow> (if ascii then do {
               s \<leftarrow> print_times irq cur (16 - en) (chars ''   '') s;
               s \<leftarrow> print_lit irq cur (chars ''|'') [] s;
               s \<leftarrow> print_times irq cur start (chars '' '') s;
               s \<leftarrow> ascii_loop irq cur n start start m buf s;
               s \<leftarrow> print_times irq cur (16 - en) (chars '' '') s;
               print_lit irq cur (chars ''|'') [] s }
             else Some s);
       s \<leftarrow> print_lit irq cur [10] [] s;
       hex_dump irq cur (u32 (ofs + n)) m (buf + n) (sz - n) ascii s }
     else Some s)"

fun scale_loop :: "nat \<Rightarrow> string list \<Rightarrow> nat \<times> string" where
  "scale_loop sz (f # f' # fs) = (if sz \<ge> 1024 then scale_loop (sz div 1024) (f' # fs) else (sz, f))"
| "scale_loop sz [f] = (sz, f)"
| "scale_loop sz [] = (sz, [])"

text \<open>The unit is a string at address 100.\<close>

definition print_human_readable_size :: "bool \<Rightarrow> addr \<Rightarrow> nat \<Rightarrow> console \<Rightarrow> console option" where
  "print_human_readable_size irq cur sz s = (if sz = 1 then print_lit irq cur (chars ''1 byte'') [] s
     else (let (sz, u) = scale_loop sz [''bytes'', ''kB'', ''MB'', ''GB'', ''TB''] in
       map_option snd (printf irq cur (\<lambda>a. if a < 100 then lit (chars ''%llu %s'') a else lit (chars u) (a - 99)) 1 [sz mod 2 ^ 32, sz div 2 ^ 32, 100] s)))"

end
