(* ===== verification/Console_Props.thy ===== *)
theory Console_Props
  imports Console
begin

text \<open>
  Correctness of the console: every character keeps the screen consistent, and output to the console arrives complete and in order.
\<close>

subsection \<open>The screen\<close>

definition vga_ok :: "vga \<Rightarrow> bool" where
  "vga_ok v \<longleftrightarrow> length (fb v) = ROW_CNT \<and> (\<forall>y < ROW_CNT. length (fb v ! y) = COL_CNT) \<and>
     (if vga_inited v then cx v < COL_CNT \<and> cy v < ROW_CNT else hw_cursor v < COL_CNT * ROW_CNT)"

definition fb_ok :: "vga \<Rightarrow> bool" where
  "fb_ok v \<longleftrightarrow> length (fb v) = ROW_CNT \<and> (\<forall>y < ROW_CNT. length (fb v ! y) = COL_CNT)"

lemma put_cell_ok:
  assumes "fb_ok v" "y < ROW_CNT" "x < COL_CNT"
  shows "\<exists>f. put_cell y x c v = Some (v\<lparr>fb := f\<rparr>) \<and> fb_ok (v\<lparr>fb := f\<rparr>)"
  using assms by (auto simp: put_cell_def fb_ok_def nth_list_update)

lemma clear_row_loop_ok:
  "fb_ok v \<Longrightarrow> y < ROW_CNT \<Longrightarrow> x + n \<le> COL_CNT \<Longrightarrow> \<exists>f. clear_row_loop n x y v = Some (v\<lparr>fb := f\<rparr>) \<and> fb_ok (v\<lparr>fb := f\<rparr>)"
proof (induction n arbitrary: x v)
  case 0 then show ?case by (intro exI [of _ "fb v"]) simp
next
  case (Suc n)
  obtain f where f: "put_cell y x (32, GRAY_ON_BLACK) v = Some (v\<lparr>fb := f\<rparr>)" "fb_ok (v\<lparr>fb := f\<rparr>)"
    using put_cell_ok [OF Suc.prems(1,2), of x] Suc.prems(3) by auto
  then show ?case using Suc.IH [of "v\<lparr>fb := f\<rparr>" "x + 1"] Suc.prems by auto
qed

lemma clear_row_ok: "fb_ok v \<Longrightarrow> y < ROW_CNT \<Longrightarrow> \<exists>f. clear_row y v = Some (v\<lparr>fb := f\<rparr>) \<and> fb_ok (v\<lparr>fb := f\<rparr>)"
  unfolding clear_row_def by (rule clear_row_loop_ok) simp_all

lemma cls_loop_ok: "fb_ok v \<Longrightarrow> y + n \<le> ROW_CNT \<Longrightarrow> \<exists>f. cls_loop n y v = Some (v\<lparr>fb := f\<rparr>) \<and> fb_ok (v\<lparr>fb := f\<rparr>)"
proof (induction n arbitrary: y v)
  case 0 then show ?case by (intro exI [of _ "fb v"]) simp
next
  case (Suc n)
  obtain f where f: "clear_row y v = Some (v\<lparr>fb := f\<rparr>)" "fb_ok (v\<lparr>fb := f\<rparr>)"
    using clear_row_ok [OF Suc.prems(1), of y] Suc.prems(2) by auto
  then show ?case using Suc.IH [of "v\<lparr>fb := f\<rparr>" "y + 1"] Suc.prems by auto
qed

lemma newline_ok:
  assumes "fb_ok v" "cy v < ROW_CNT"
  shows "\<exists>v'. newline v = Some v' \<and> fb_ok v' \<and> cx v' = 0 \<and> cy v' < ROW_CNT \<and> vga_inited v' = vga_inited v"
proof (cases "cy v + 1 \<ge> ROW_CNT")
  case True
  have l: "length (fb v) = ROW_CNT" using assms(1) by (simp add: fb_ok_def)
  let ?v = "v\<lparr>cx := 0, cy := ROW_CNT - 1, fb := tl (fb v) @ [last (fb v)]\<rparr>"
  have "length ((tl (fb v) @ [last (fb v)]) ! y) = COL_CNT" if "y < ROW_CNT" for y
  proof (cases "y < ROW_CNT - 1")
    case True then show ?thesis using assms(1) l by (simp add: nth_append nth_tl fb_ok_def)
  next
    case False
    moreover have "fb v \<noteq> []" using l by (auto simp: ROW_CNT_def)
    ultimately show ?thesis using assms(1) l that by (simp add: nth_append fb_ok_def last_conv_nth)
  qed
  then have "fb_ok ?v" using l by (simp add: fb_ok_def ROW_CNT_def)
  then obtain f where "clear_row (ROW_CNT - 1) ?v = Some (?v\<lparr>fb := f\<rparr>)" "fb_ok (?v\<lparr>fb := f\<rparr>)"
    using clear_row_ok [of ?v "ROW_CNT - 1"] by (auto simp: ROW_CNT_def)
  then show ?thesis using True l by (simp add: newline_def ROW_CNT_def)
next
  case False then show ?thesis using assms by (simp add: newline_def fb_ok_def)
qed

lemma init_vga_ok: "vga_ok v \<Longrightarrow> fb_ok (init_vga v) \<and> cx (init_vga v) < COL_CNT \<and> cy (init_vga v) < ROW_CNT \<and> vga_inited (init_vga v)"
  by (auto simp: vga_ok_def fb_ok_def init_vga_def find_cursor_def less_mult_imp_div_less mult.commute [of COL_CNT]) (simp add: COL_CNT_def)

lemma move_cursor_ok: "fb_ok v \<Longrightarrow> cx v < COL_CNT \<Longrightarrow> cy v < ROW_CNT \<Longrightarrow> vga_inited v \<Longrightarrow> vga_ok (move_cursor v) \<and> vga_inited (move_cursor v)"
  by (simp add: vga_ok_def fb_ok_def move_cursor_def)

definition cursor_ok :: "vga \<Rightarrow> bool" where
  "cursor_ok v \<longleftrightarrow> fb_ok v \<and> cx v < COL_CNT \<and> cy v < ROW_CNT \<and> vga_inited v"

lemma wrap_ok:
  assumes "fb_ok v" "cy v < ROW_CNT" "vga_inited v"
  shows "\<exists>v'. (if cx v \<ge> COL_CNT then newline v else Some v) = Some v' \<and> cursor_ok v'"
  using newline_ok [OF assms(1,2)] assms by (auto simp: cursor_ok_def COL_CNT_def)

lemma vga_char_ok:
  assumes "cursor_ok v"
  shows "\<exists>v'. vga_char c v = Some v' \<and> cursor_ok v'"
proof -
  have v: "fb_ok v" "cx v < COL_CNT" "cy v < ROW_CNT" "vga_inited v" using assms by (simp_all add: cursor_ok_def)
  consider "c = 10" | "c = 12" | "c = 8 \<or> c = 13 \<or> c = 7" | "c = 9" | "c \<notin> {10, 12, 8, 13, 7, 9}" by auto
  then show ?thesis
  proof cases
    case 1 then show ?thesis using newline_ok [OF v(1,3)] v(4) by (auto simp: vga_char_def cursor_ok_def COL_CNT_def)
  next
    case 2
    obtain g where "cls_loop ROW_CNT 0 v = Some (v\<lparr>fb := g\<rparr>)" "fb_ok (v\<lparr>fb := g\<rparr>)" using cls_loop_ok [OF v(1), of 0 ROW_CNT] by auto
    then show ?thesis using 2 v(4) by (simp add: vga_char_def cls_def cursor_ok_def move_cursor_def fb_ok_def COL_CNT_def ROW_CNT_def)
  next
    case 3 then show ?thesis using v by (auto simp: vga_char_def cursor_ok_def fb_ok_def)
  next
    case 4
    define w where "w = v\<lparr>cx := ROUND_UP (cx v + 1) 8\<rparr>"
    have "vga_char c v = (if cx w \<ge> COL_CNT then newline w else Some w)" using 4 unfolding vga_char_def w_def Let_def by simp
    then show ?thesis using wrap_ok [of w] v by (simp add: w_def fb_ok_def)
  next
    case 5
    obtain f where f: "put_cell (cy v) (cx v) (c, GRAY_ON_BLACK) v = Some (v\<lparr>fb := f\<rparr>)" "fb_ok (v\<lparr>fb := f\<rparr>)"
      using put_cell_ok [OF v(1,3,2)] by blast
    define w where "w = v\<lparr>fb := f, cx := cx v + 1\<rparr>"
    have "vga_char c v = (if cx w \<ge> COL_CNT then newline w else Some w)" using 5 f(1) by (simp add: vga_char_def w_def Let_def)
    then show ?thesis using wrap_ok [of w] v f(2) by (simp add: w_def fb_ok_def)
  qed
qed

lemma vga_putc_ok: "vga_ok v \<Longrightarrow> \<exists>v'. vga_putc c v = Some v' \<and> vga_ok v' \<and> vga_inited v'"
  using init_vga_ok [of v] vga_char_ok [of "init_vga v" c] move_cursor_ok by (auto simp: vga_putc_def cursor_ok_def)

text \<open>Every character sent to the screen is handled without a store outside the frame buffer, whatever the control characters
  before it, and leaves the cursor on the screen.\<close>
theorem vga_putc_safe:
  assumes "vga_ok v"
  shows "\<exists>v'. vga_putc c v = Some v' \<and> vga_ok v' \<and> vga_inited v'"
  by (rule vga_putc_ok [OF assms])

definition blank_screen :: vga where
  "blank_screen = \<lparr>cx = 0, cy = 0, fb = replicate 25 (replicate 80 (32, 7)), vga_inited = False, hw_cursor = 1999, beeps = 0\<rparr>"

lemma blank_screen_ok: "vga_ok blank_screen"
  by (simp add: vga_ok_def blank_screen_def ROW_CNT_def COL_CNT_def)

theorem vga_putc_safe_witness: "\<exists>v'. vga_putc 65 blank_screen = Some v' \<and> vga_ok v'"
  using vga_putc_safe [OF blank_screen_ok, of 65] by blast

subsection \<open>Output\<close>

text \<open>The console is free, or held by the running thread.\<close>

definition con_ok :: "addr \<Rightarrow> console \<Rightarrow> bool" where
  "con_ok cur s \<longleftrightarrow> cur \<noteq> NULL \<and> vga_ok (screen s) \<and> 0 \<le> console_lock_depth s \<and> console_lock_depth s < 2 ^ 31 - 1 \<and>
     (console_lock s = cur \<or> console_lock s = NULL \<and> console_lock_depth s = 0)"

definition same_lock :: "console \<Rightarrow> console \<Rightarrow> bool" where
  "same_lock s t \<longleftrightarrow> use_console_lock t = use_console_lock s \<and> console_lock t = console_lock s \<and> console_lock_depth t = console_lock_depth s"

text \<open>The display after a sequence of characters.\<close>

primrec vga_puts :: "byte list \<Rightarrow> vga \<Rightarrow> vga option" where
  "vga_puts [] v = Some v"
| "vga_puts (c # cs) v = vga_putc c v \<bind> vga_puts cs"

text \<open>\<open>written s t out\<close>: the console \<open>t\<close> is \<open>s\<close> after the characters \<open>out\<close>, which went to the display and to the serial port and have
  been counted.\<close>

definition written :: "console \<Rightarrow> console \<Rightarrow> byte list \<Rightarrow> bool" where
  "written s t out \<longleftrightarrow> same_lock s t \<and> vga_ok (screen t) \<and> serial_out t = serial_out s @ out \<and>
     vga_puts out (screen s) = Some (screen t) \<and> s64 (write_cnt t) = s64 (write_cnt s + int (length out))"

lemma s64_add: "s64 (s64 a + b) = s64 (a + b)"
  unfolding s64_def by (metis signed_take_bit_add signed_take_bit_signed_take_bit min.idem)

lemma written_trans: "written s t [c] \<Longrightarrow> written t u out \<Longrightarrow> written s u (c # out)"
  using s64_add [of "write_cnt t" "int (length out)"] s64_add [of "write_cnt s + 1" "int (length out)"]
  by (auto simp: written_def same_lock_def algebra_simps bind_eq_Some_conv)

lemma putchar_ok:
  assumes "vga_ok (screen s)" "console_locked_by_current_thread irq cur s"
  shows "\<exists>t. putchar_have_lock irq cur c s = Some t \<and> written s t [c]"
  using vga_putc_ok [OF assms(1), of c] s64_add [of "write_cnt s + 1" 0] assms(2)
  by (auto simp: putchar_have_lock_def written_def same_lock_def)

lemma locked_same: "same_lock s t \<Longrightarrow> console_locked_by_current_thread irq cur t = console_locked_by_current_thread irq cur s"
  by (simp add: same_lock_def console_locked_by_current_thread_def)

lemma putbuf_loop_ok:
  "vga_ok (screen s) \<Longrightarrow> console_locked_by_current_thread irq cur s \<Longrightarrow>
   \<exists>t. putbuf_loop irq cur n m buffer s = Some t \<and> written s t (map m [buffer..<buffer + n])"
proof (induction n arbitrary: buffer s)
  case 0 then show ?case by (simp add: written_def same_lock_def)
next
  case (Suc n)
  obtain t where t: "putchar_have_lock irq cur (m buffer) s = Some t" "written s t [m buffer]" using putchar_ok [OF Suc.prems] by blast
  have "\<exists>u. putbuf_loop irq cur n m (buffer + 1) t = Some u \<and> written t u (map m [buffer + 1..<buffer + 1 + n])"
    using t(2) locked_same Suc.prems(2) by (intro Suc.IH) (auto simp: written_def)
  moreover have "[buffer..<buffer + Suc n] = buffer # [buffer + 1..<buffer + 1 + n]" by (simp add: upt_conv_Cons del: upt_Suc)
  ultimately show ?case using t written_trans by auto
qed

lemma acquire_release:
  assumes "con_ok cur s"
  shows "\<exists>t. acquire_console irq cur s = Some t \<and> vga_ok (screen t) \<and> console_locked_by_current_thread irq cur t \<and>
    (\<forall>u out. written t u out \<longrightarrow> (\<exists>v. release_console irq cur u = Some v \<and> written s v out))"
proof -
  have "s32 (console_lock_depth s + 1) = console_lock_depth s + 1" using assms by (intro s32_id) (simp add: con_ok_def in_s32_def)
  then show ?thesis using assms
    by (auto simp: acquire_console_def release_console_def con_ok_def console_locked_by_current_thread_def written_def same_lock_def)
qed

text \<open>\<open>putbuf\<close> by the thread that holds the console lock, or finds it free, returns; the bytes of the buffer arrive at the serial
  port in order, nothing else does, and the lock is as before.\<close>
theorem putbuf_correct:
  assumes "con_ok cur s"
  shows "\<exists>t. putbuf irq cur m buffer n s = Some t \<and> con_ok cur t \<and> serial_out t = serial_out s @ map m [buffer..<buffer + n] \<and>
    console_lock t = console_lock s \<and> console_lock_depth t = console_lock_depth s"
proof -
  obtain u where u: "acquire_console irq cur s = Some u" "vga_ok (screen u)" "console_locked_by_current_thread irq cur u"
      "\<forall>v out. written u v out \<longrightarrow> (\<exists>w. release_console irq cur v = Some w \<and> written s w out)"
    using acquire_release [OF assms, of irq] by blast
  show ?thesis using putbuf_loop_ok [OF u(2,3), of n m buffer] u(1,4) assms by (fastforce simp: putbuf_def written_def same_lock_def con_ok_def)
qed

definition demo_console :: console where
  "demo_console = \<lparr>screen = blank_screen, serial_out = [], use_console_lock = True, console_lock = NULL, console_lock_depth = 0, write_cnt = 0\<rparr>"

lemma demo_console_ok: "con_ok 4096 demo_console"
  by (simp add: con_ok_def demo_console_def blank_screen_ok)

theorem putbuf_correct_witness: "\<exists>t. putbuf False 4096 (lit [104, 105]) 1 2 demo_console = Some t \<and> serial_out t = [104, 105]"
  using putbuf_correct [OF demo_console_ok, of False "lit [104, 105]" 1 2] by (auto simp: lit_def demo_console_def upt_rec)

lemma helper_ok:
  "vga_ok (screen s) \<Longrightarrow> console_locked_by_current_thread irq cur s \<Longrightarrow> 0 \<le> k \<Longrightarrow> k + int (length out) < 2 ^ 31 \<Longrightarrow>
   \<exists>t. fold (vprintf_helper irq cur) out (Some (k, s)) = Some (k + int (length out), t) \<and> written s t out"
proof (induction out arbitrary: s k)
  case Nil then show ?case by (simp add: written_def same_lock_def)
next
  case (Cons c out)
  obtain t where t: "putchar_have_lock irq cur c s = Some t" "written s t [c]" using putchar_ok [OF Cons.prems(1,2)] by blast
  have "s32 (k + 1) = k + 1" using Cons.prems(3,4) by (intro s32_id) (simp add: in_s32_def)
  then have h: "vprintf_helper irq cur c (Some (k, s)) = Some (k + 1, t)" using t(1) by (simp add: vprintf_helper_def)
  have "\<exists>u. fold (vprintf_helper irq cur) out (Some (k + 1, t)) = Some (k + 1 + int (length out), u) \<and> written t u out"
    using t(2) locked_same Cons.prems(2-4) by (intro Cons.IH) (auto simp: written_def)
  then show ?case using h written_trans [OF t(2)] by (auto simp: algebra_simps)
qed

text \<open>C33: \<open>printf\<close> sends exactly the characters of the formatted text to the console, in order and under the console lock, which it
  leaves as it was, and returns their number.  They go to the serial port and to the display, which is as after \<open>vga_putc\<close> of
  each of them, and are counted in \<open>write_cnt\<close>.\<close>
theorem printf_correct:
  assumes "con_ok cur s" "vprintf_core snoc m format args [] = Some out" "length out < 2 ^ 31"
  shows "\<exists>t. printf irq cur m format args s = Some (int (length out), t) \<and> con_ok cur t \<and> serial_out t = serial_out s @ out \<and>
    vga_puts out (screen s) = Some (screen t) \<and> s64 (write_cnt t) = s64 (write_cnt s + int (length out)) \<and>
    console_lock t = console_lock s \<and> console_lock_depth t = console_lock_depth s"
proof -
  obtain u where u: "acquire_console irq cur s = Some u" "vga_ok (screen u)" "console_locked_by_current_thread irq cur u"
      "\<forall>v out. written u v out \<longrightarrow> (\<exists>w. release_console irq cur v = Some w \<and> written s w out)"
    using acquire_release [OF assms(1), of irq] by blast
  obtain t where t: "fold (vprintf_helper irq cur) out (Some (0, u)) = Some (int (length out), t)" "written u t out"
    using helper_ok [OF u(2,3), of 0 out] assms(3) by auto
  obtain w where "release_console irq cur t = Some w" "written s w out" using u(4) t(2) by blast
  then show ?thesis using u(1) t(1) vprintf_snoc [OF assms(2), of "vprintf_helper irq cur"] assms(1)
    by (auto simp: printf_def vprintf_def written_def same_lock_def con_ok_def)
qed

theorem printf_correct_witness:
  "\<exists>t. printf False 4096 (lit (chars ''%d'')) 1 [nat (- 7 mod 2 ^ 32)] demo_console = Some (2, t) \<and> serial_out t = [45, 55] \<and>
    vga_puts [45, 55] blank_screen = Some (screen t)"
proof -
  have f: "lit (chars ''%d'') 1 = 37" "lit (chars ''%d'') (1 + 1) = 100" "lit (chars ''%d'') (1 + 2) = 0" by (simp_all add: lit_def chars_def)
  have "vprintf_core snoc (lit (chars ''%d'')) 1 [nat (- 7 mod 2 ^ 32)] [] = Some ((if (- 7 :: int) < 0 then [45] else []) @ map dig (dec_digits 7))"
    using vprintf_decimal(1) [OF f, of "- 7" 7] by (simp add: in_s32_def)
  also have "\<dots> = Some [45, 55]" by (simp add: dec_digits_def dec_rev.simps dig_def)
  finally show ?thesis using printf_correct [OF demo_console_ok, of "lit (chars ''%d'')" 1 "[nat (- 7 mod 2 ^ 32)]" "[45, 55]" False]
    by (auto simp: demo_console_def)
qed

end
