(* ===== verification/Ustar.thy ===== *)
theory Ustar
  imports Stdio
begin

text \<open>
  lib/ustar.c: headers of tar archives.  A header is its 512 bytes; a name is the list of its bytes without the terminating null
  byte.  The messages the routines print are left out.
\<close>

datatype ustar_type = USTAR_REGULAR | USTAR_DIRECTORY | USTAR_EOF

definition USTAR_HEADER_SIZE :: nat where "USTAR_HEADER_SIZE = 512"

text \<open>The members of \<^verbatim>\<open>struct ustar_header\<close> by offset and size.\<close>

definition f_name :: "nat \<times> nat" where "f_name = (0, 100)"
definition f_mode :: "nat \<times> nat" where "f_mode = (100, 8)"
definition f_uid :: "nat \<times> nat" where "f_uid = (108, 8)"
definition f_gid :: "nat \<times> nat" where "f_gid = (116, 8)"
definition f_size :: "nat \<times> nat" where "f_size = (124, 12)"
definition f_mtime :: "nat \<times> nat" where "f_mtime = (136, 12)"
definition f_chksum :: "nat \<times> nat" where "f_chksum = (148, 8)"
definition f_typeflag :: "nat \<times> nat" where "f_typeflag = (156, 1)"
definition f_magic :: "nat \<times> nat" where "f_magic = (257, 6)"
definition f_version :: "nat \<times> nat" where "f_version = (263, 2)"
definition f_uname :: "nat \<times> nat" where "f_uname = (265, 32)"
definition f_gname :: "nat \<times> nat" where "f_gname = (297, 32)"
definition f_prefix :: "nat \<times> nat" where "f_prefix = (345, 155)"

definition get_field :: "nat \<times> nat \<Rightarrow> byte list \<Rightarrow> byte list" where
  "get_field f h = take (snd f) (drop (fst f) h)"

definition put_field :: "nat \<times> nat \<Rightarrow> byte list \<Rightarrow> byte list \<Rightarrow> byte list" where
  "put_field f bs h = take (fst f) h @ bs @ drop (fst f + length bs) h"

fun chksum_loop :: "nat \<Rightarrow> nat \<Rightarrow> byte list \<Rightarrow> nat \<Rightarrow> nat" where
  "chksum_loop 0 i h chksum = chksum"
| "chksum_loop (Suc n) i h chksum =
     chksum_loop n (i + 1) h (u32 (chksum + (if i \<ge> fst f_chksum \<and> i < fst f_chksum + snd f_chksum then 32 else unat (h ! i))))"

definition calculate_chksum :: "byte list \<Rightarrow> nat" where
  "calculate_chksum h = chksum_loop USTAR_HEADER_SIZE 0 h 0"

text \<open>Whether a name begins with \<open>/\<close>, \<open>./\<close> or \<open>../\<close>.\<close>

definition antisocial :: "byte list \<Rightarrow> bool" where
  "antisocial n \<longleftrightarrow> take 1 n = [47] \<or> take 2 n = [46, 47] \<or> take 3 n = [46, 46, 47]"

lemma antisocial_nonempty: "antisocial n \<Longrightarrow> n \<noteq> []"
  by (auto simp: antisocial_def)

function strip_antisocial_prefixes :: "byte list \<Rightarrow> byte list" where
  "strip_antisocial_prefixes n = (if antisocial n then strip_antisocial_prefixes (tl (dropWhile (\<lambda>c. c \<noteq> 47) n))
     else if n = [] \<or> n = [46, 46] then [46] else n)"
  by auto
termination
proof (relation "measure length")
  fix n :: "byte list"
  assume "antisocial n"
  then have "n \<noteq> []" by (rule antisocial_nonempty)
  moreover have "length (dropWhile (\<lambda>c. c \<noteq> 47) n) \<le> length n" by (rule length_dropWhile_le)
  ultimately have "length (tl (dropWhile (\<lambda>c. c \<noteq> 47) n)) < length n" by (cases n) (auto simp: less_Suc_eq_le)
  then show "(tl (dropWhile (\<lambda>c. c \<noteq> 47) n), n) \<in> measure length" by simp
qed simp

declare strip_antisocial_prefixes.simps [simp del]

text \<open>The effect of \<open>strlcpy\<close> and of \<open>snprintf\<close> with one argument on a member that is all zeros.\<close>

definition strlcpy_field :: "nat \<times> nat \<Rightarrow> byte list \<Rightarrow> byte list \<Rightarrow> byte list" where
  "strlcpy_field f s h = put_field f (take (snd f - 1) s @ [0]) h"

definition snprintf_field :: "nat \<times> nat \<Rightarrow> string \<Rightarrow> nat \<Rightarrow> byte list \<Rightarrow> byte list option" where
  "snprintf_field f format v h = do {
     (_, m) \<leftarrow> snprintf 1000 (snd f) 1 [v] (lit (chars format));
     Some (put_field f (map m [1000..<1000 + snd f]) h) }"

definition typeflag :: "ustar_type \<Rightarrow> byte" where
  "typeflag ty = (case ty of USTAR_REGULAR \<Rightarrow> 48 | USTAR_DIRECTORY \<Rightarrow> 53 | USTAR_EOF \<Rightarrow> - 1)"

definition ustar_make_header :: "byte list \<Rightarrow> ustar_type \<Rightarrow> int \<Rightarrow> byte list \<Rightarrow> (bool \<times> byte list) option" where
  "ustar_make_header file_name ty sz header = do {
     k_assert (ty = USTAR_REGULAR \<or> ty = USTAR_DIRECTORY);
     let file_name = strip_antisocial_prefixes file_name;
     if length file_name > 99 then Some (False, header)
     else do {
       let h = replicate USTAR_HEADER_SIZE 0;
       let h = strlcpy_field f_name file_name h;
       h \<leftarrow> snprintf_field f_mode ''%07o'' (if ty = USTAR_REGULAR then 0x1A4 else 0x1ED) h;
       let h = strlcpy_field f_uid (chars ''0000000'') h;
       let h = strlcpy_field f_gid (chars ''0000000'') h;
       h \<leftarrow> snprintf_field f_size ''%011o'' (nat (sz mod 2 ^ 32)) h;
       h \<leftarrow> snprintf_field f_mtime ''%011o'' 1136102400 h;
       let h = put_field f_typeflag [typeflag ty] h;
       let h = strlcpy_field f_magic (chars ''ustar'') h;
       let h = put_field f_version [48, 48] h;
       let h = strlcpy_field f_gname (chars ''root'') h;
       let h = strlcpy_field f_uname (chars ''root'') h;
       h \<leftarrow> snprintf_field f_chksum ''%07o'' (calculate_chksum h) h;
       Some (True, h) } }"

text \<open>The value of an octal field, or \<open>None\<close> for the result false.\<close>

fun parse_octal_loop :: "byte list \<Rightarrow> nat \<Rightarrow> nat \<Rightarrow> nat option" where
  "parse_octal_loop [] ofs v = None"
| "parse_octal_loop (c # s) ofs v = (
     if sint c \<ge> 48 \<and> sint c \<le> 55 then
       (if v > (2 ^ 32 - 1) div 8 then None else parse_octal_loop s (ofs + 1) (u32 (nat (sint c - 48) + v * 8)))
     else if c = 32 \<or> c = 0 then (if ofs > 0 then Some v else None)
     else None)"

definition parse_octal_field :: "byte list \<Rightarrow> nat option" where
  "parse_octal_field s = parse_octal_loop s 0 0"

definition is_all_zeros :: "byte list \<Rightarrow> bool" where
  "is_all_zeros b = list_all (\<lambda>c. c = 0) b"

text \<open>The bytes of a string member up to its terminating null byte.\<close>

definition c_string :: "byte list \<Rightarrow> byte list" where
  "c_string b = takeWhile (\<lambda>c. c \<noteq> 0) b"

text \<open>The result is an error message, or the name, type and size of the file; the name is absent at the end of the archive.\<close>

definition ustar_parse_header :: "byte list \<Rightarrow> string + byte list option \<times> ustar_type \<times> int" where
  "ustar_parse_header h = (
     if is_all_zeros h then Inr (None, USTAR_EOF, 0)
     else if get_field f_magic h \<noteq> chars ''ustar'' @ [0] then Inl ''not a ustar archive''
     else if get_field f_version h \<noteq> [48, 48] then Inl ''invalid ustar version''
     else case parse_octal_field (get_field f_chksum h) of None \<Rightarrow> Inl ''corrupt chksum field''
     | Some chksum \<Rightarrow>
       if chksum \<noteq> calculate_chksum h then Inl ''checksum mismatch''
       else if get_field f_name h ! 99 \<noteq> 0 \<or> get_field f_prefix h ! 0 \<noteq> 0 then Inl ''file name too long''
       else if get_field f_typeflag h = [typeflag USTAR_REGULAR] then
         (case parse_octal_field (get_field f_size h) of None \<Rightarrow> Inl ''corrupt file size field''
          | Some size_ul \<Rightarrow> if size_ul > 2 ^ 31 - 1 then Inl ''file too large''
              else Inr (Some (strip_antisocial_prefixes (c_string (get_field f_name h))), USTAR_REGULAR, int size_ul))
       else if get_field f_typeflag h = [typeflag USTAR_DIRECTORY] then
         Inr (Some (strip_antisocial_prefixes (c_string (get_field f_name h))), USTAR_DIRECTORY, 0)
       else Inl ''unimplemented file type'')"

end
