(* ===== verification/Ustar_Props.thy ===== *)
theory Ustar_Props
  imports Ustar Stdio_Props
begin

text \<open>
  A header made by \<open>ustar_make_header\<close> is read back by \<open>ustar_parse_header\<close>.
\<close>

subsection \<open>Octal numbers\<close>

text \<open>The octal digits of a number, filled up with zeros to \<open>n\<close> digits.\<close>

fun octs :: "nat \<Rightarrow> nat \<Rightarrow> nat list" where
  "octs 0 v = []"
| "octs (Suc n) v = octs n (v div 8) @ [v mod 8]"

fun oct_rev :: "nat \<Rightarrow> nat list" where
  "oct_rev n = (if n = 0 then [] else n mod 8 # oct_rev (n div 8))"

declare oct_rev.simps [simp del]

lemma length_octs [simp]: "length (octs n v) = n"
  by (induction n arbitrary: v) simp_all

lemma octs_rev: "v < 8 ^ n \<Longrightarrow> length (oct_rev v) \<le> n \<and> octs n v = replicate (n - length (oct_rev v)) 0 @ rev (oct_rev v)"
proof (induction n arbitrary: v)
  case 0 then show ?case by (simp add: oct_rev.simps)
next
  case (Suc n)
  have IH: "length (oct_rev (v div 8)) \<le> n \<and> octs n (v div 8) = replicate (n - length (oct_rev (v div 8))) 0 @ rev (oct_rev (v div 8))"
    using Suc.prems by (intro Suc.IH) simp
  show ?case
  proof (cases "v = 0")
    case True then show ?thesis using IH by (simp add: oct_rev.simps replicate_append_same)
  next
    case False then show ?thesis using IH by (simp add: oct_rev.simps [of v])
  qed
qed

lemma base_o_digit: "d < 8 \<Longrightarrow> digits base_o ! d = dig d"
proof -
  assume "d < 8"
  then have "d \<in> set [0..<8]" by simp
  moreover have "\<forall>d \<in> set [0..<8]. digits base_o ! d = dig d" by (simp add: upt_rec base_o_def chars_def dig_def)
  ultimately show ?thesis by blast
qed

lemma digit_loop_oct: "fl AND GROUP = 0 \<Longrightarrow> length buf + length (oct_rev n) \<le> 64 \<Longrightarrow> digit_loop n base_o fl buf k = Some (buf @ map dig (oct_rev n))"
proof (induction n arbitrary: buf k rule: oct_rev.induct)
  case (1 n)
  have b: "base_value base_o = 8" by (simp add: base_o_def)
  show ?case
  proof (cases "n = 0")
    case False
    have l: "length (buf @ [dig (n mod 8)]) + length (oct_rev (n div 8)) \<le> 64" "length buf < 64" using 1(3) False by (simp_all add: oct_rev.simps [of n])
    show ?thesis using 1(1) [OF False 1(2) l(1)] False l(2) 1(2)
      by (subst digit_loop.simps) (simp add: b base_o_digit buf_put_def oct_rev.simps [of n])
  qed (simp add: digit_loop.simps oct_rev.simps)
qed

definition octal :: "nat \<Rightarrow> printf_conversion" where
  "octal n = \<lparr>flags = ZERO, width = int n, precision = - 1, conv = T_INT\<rparr>"

lemma int_text_oct:
  assumes "v < 8 ^ n" "0 < n" "n \<le> 30"
  shows "int_text v False False base_o (octal n) = Some (map dig (octs n v))"
proof -
  note o = octs_rev [OF assms(1)]
  let ?buf = "zero_loop 1 (map dig (oct_rev v))"
  have fl: "flags (octal n) = ZERO" "ZERO AND GROUP = 0" "ZERO AND POUND = 0" "ZERO AND (MINUS OR ZERO) \<noteq> 0" "ZERO AND ZERO \<noteq> 0" "ZERO AND MINUS = 0"
    by (simp_all add: octal_def ZERO_def GROUP_def POUND_def MINUS_def)
  have b: "length ?buf \<le> n \<and> map dig (octs n v) = replicate (n - length ?buf) 48 @ rev ?buf"
  proof (cases "v = 0")
    case True
    have "zero_loop 1 [] = [48]" by (simp add: zero_loop.simps [of 1])
    moreover have "replicate n (48 :: byte) = replicate (n - 1) 48 @ [48]" using assms(2) by (cases n) (simp_all add: replicate_append_same)
    ultimately show ?thesis using True o assms(2) by (simp add: oct_rev.simps dig_def)
  next
    case False
    then have "0 < length (oct_rev v)" by (simp add: oct_rev.simps [of v])
    then have "?buf = map dig (oct_rev v)" by (simp add: zero_loop.simps [of 1])
    then show ?thesis using o by (simp add: rev_map dig_def)
  qed
  have "int_line 0 0 ?buf (octal n) = replicate (n - length ?buf) 48 @ rev ?buf"
  proof -
    have "s32 (int n - int (length ?buf)) = int n - int (length ?buf)" using b assms(3) by (intro s32_id) (simp add: in_s32_def)
    then show ?thesis using b fl by (simp add: int_line_def Let_def) (simp add: octal_def nat_diff_distrib' flip: of_nat_diff)
  qed
  then show ?thesis using digit_loop_oct [OF fl(2), of "[]" v 0] o assms(3) b fl by (simp add: int_text_def sign_of_def octal_def [of n])
qed

lemma vprintf_octal:
  assumes "m f = 37" "m (f + 1) = 48" "parse_conversion m (f + 1) [v] = Some (g, octal n, [v])" "m g = 111" "m (g + 1) = 0" "v < 8 ^ n" "v < 2 ^ 32" "0 < n" "n \<le> 30"
  shows "vprintf_core snoc m f [v] [] = Some (map dig (octs n v))"
proof -
  have "unsigned_arg (conv (octal n)) [v] = Some (v, [])" using assms(7) by (simp add: unsigned_arg_def octal_def va_word_def)
  then have "convert m 111 (octal n) [v] snoc [] = Some ([], map dig (octs n v))"
    using int_text_oct [OF assms(6,8,9)] by (simp add: convert_def convert_unsigned_def format_integer_fold)
  then show ?thesis using vprintf_step(4) [of m f _ _ _ _ snoc, OF assms(1) _ assms(3)] assms(2,4,5) by (simp add: supported_def vprintf_step(1))
qed

lemma parse_octal7: "parse_conversion (lit (chars ''%07o'')) (1 + 1) args = Some (4, octal 7, args)"
  by (simp add: parse_conversion_def flags_loop.simps flag_of_def parse_number_def number_loop.simps isdigit_def parse_type_def octal_def lit_def chars_def
      MINUS_def PLUS_def SPACE_def ZERO_def s32_def Let_def)

lemma parse_octal11: "parse_conversion (lit (chars ''%011o'')) (1 + 1) args = Some (5, octal 11, args)"
  by (simp add: parse_conversion_def flags_loop.simps flag_of_def parse_number_def number_loop.simps isdigit_def parse_type_def octal_def lit_def chars_def
      MINUS_def PLUS_def SPACE_def ZERO_def s32_def Let_def)

lemma snprintf_field_text:
  assumes "vprintf_core snoc (lit (chars format)) 1 [v] [] = Some out" "snd f = Suc (length out)" "length out < 100"
  shows "snprintf_field f format v h = Some (put_field f (out @ [0]) h)"
proof -
  have "length out < 2 ^ 31" "0 < snd f" "snd f \<le> 2 ^ 31" "take (snd f - 1) out = out" using assms(2,3) by simp_all
  from vsnprintf_ok [OF assms(1) this(1-3), of 1000] this(4)
  have e: "snprintf 1000 (snd f) 1 [v] (lit (chars format)) = Some (int (length out), store_bytes 1000 (out @ [0]) (lit (chars format)))"
    by (simp add: snprintf_def)
  have "map (store_bytes 1000 (out @ [0]) m) [1000..<1000 + Suc (length out)] = out @ [0]" for m
    by (rule nth_equalityI) (auto simp: store_bytes_def simp del: upt_Suc)
  then show ?thesis using e assms(2) by (simp add: snprintf_field_def del: upt_Suc)
qed

lemma octal7_field: "v < 8 ^ 7 \<Longrightarrow> snd f = 8 \<Longrightarrow> snprintf_field f ''%07o'' v h = Some (put_field f (map dig (octs 7 v) @ [0]) h)"
  by (intro snprintf_field_text vprintf_octal [OF _ _ parse_octal7]) (simp_all add: lit_def chars_def)

lemma octal11_field: "v < 2 ^ 32 \<Longrightarrow> snd f = 12 \<Longrightarrow> snprintf_field f ''%011o'' v h = Some (put_field f (map dig (octs 11 v) @ [0]) h)"
  by (intro snprintf_field_text vprintf_octal [OF _ _ parse_octal11]) (simp_all add: lit_def chars_def)

lemma parse_octal_octs:
  "w * 8 ^ n + v < 2 ^ 32 \<Longrightarrow> v < 8 ^ n \<Longrightarrow> parse_octal_loop (map dig (octs n v) @ rest) ofs w = parse_octal_loop rest (ofs + n) (w * 8 ^ n + v)"
proof (induction n arbitrary: v w ofs rest)
  case (Suc n)
  have v: "v = v div 8 * 8 + v mod 8" "v div 8 < 8 ^ n" using Suc.prems(2) by simp_all
  let ?u = "w * 8 ^ n + v div 8"
  have u: "?u * 8 + v mod 8 = w * 8 ^ Suc n + v" by (simp add: algebra_simps)
  then have u32: "?u * 8 + v mod 8 < 2 ^ 32" using Suc.prems(1) by simp
  then have "?u < 2 ^ 32" "\<not> ?u > (2 ^ 32 - 1) div 8" by simp_all
  moreover have "sint (dig (v mod 8)) = 48 + int (v mod 8)" using digit_byte(1) [of "v mod 8"] by (simp add: dig_def)
  moreover have "nat (48 + int (v mod 8) - 48) = v mod 8" by simp
  moreover have "int (v mod 8) \<le> 7" by linarith
  ultimately have "parse_octal_loop (dig (v mod 8) # rest) (ofs + n) ?u = parse_octal_loop rest (ofs + n + 1) (w * 8 ^ Suc n + v)"
    using u u32 by (simp add: add.commute mult.commute mult.left_commute)
  then show ?case using Suc.IH [OF \<open>?u < 2 ^ 32\<close> v(2), of "dig (v mod 8) # rest" ofs] by simp
qed simp

lemma parse_octal_ok: "v < 2 ^ 32 \<Longrightarrow> v < 8 ^ n \<Longrightarrow> 0 < n \<Longrightarrow> parse_octal_field (map dig (octs n v) @ [0]) = Some v"
  using parse_octal_octs [of 0 n v "[0]" 0] by (simp add: parse_octal_field_def)

subsection \<open>Members\<close>

lemma length_put [simp]: "fst f + length bs \<le> length h \<Longrightarrow> length (put_field f bs h) = length h"
  by (simp add: put_field_def)

lemma nth_put: "fst f + length bs \<le> length h \<Longrightarrow> i < length h \<Longrightarrow>
    put_field f bs h ! i = (if fst f \<le> i \<and> i < fst f + length bs then bs ! (i - fst f) else h ! i)"
  by (auto simp: put_field_def nth_append min_def)

lemma get_put: "length bs = snd f \<Longrightarrow> fst f + snd f \<le> length h \<Longrightarrow> get_field f (put_field f bs h) = bs"
  by (simp add: get_field_def put_field_def)

lemma get_put_other:
  assumes "fst f + snd f \<le> fst g \<or> fst g + length bs \<le> fst f" "fst g + length bs \<le> length h" "fst f + snd f \<le> length h"
  shows "get_field f (put_field g bs h) = get_field f h"
  using assms by (intro nth_equalityI) (auto simp: get_field_def nth_put)

lemma get_put_prefix:
  assumes "length bs \<le> snd f" "fst f + snd f \<le> length h"
  shows "get_field f (put_field f bs h) = bs @ drop (length bs) (get_field f h)"
  using assms by (intro nth_equalityI) (auto simp: get_field_def nth_put nth_append)

subsection \<open>Checksum and names\<close>

lemma chksum_loop_le: "chksum_loop n i h c \<le> c + 255 * n"
proof (induction n arbitrary: i c)
  case (Suc n)
  let ?x = "if i \<ge> fst f_chksum \<and> i < fst f_chksum + snd f_chksum then 32 else unat (h ! i)"
  have "unat (h ! i) < 2 ^ 8" using unsigned_less [of "h ! i"] by simp
  then have "u32 (c + ?x) \<le> c + 255" by (auto simp: u32_def intro: order.trans [OF mod_less_eq_dividend])
  then show ?case using Suc [of "i + 1" "u32 (c + ?x)"] by simp
qed simp

lemma chksum_loop_cong:
  "(\<And>j. i \<le> j \<Longrightarrow> j < i + n \<Longrightarrow> \<not> (148 \<le> j \<and> j < 156) \<Longrightarrow> h ! j = h' ! j) \<Longrightarrow> chksum_loop n i h c = chksum_loop n i h' c"
proof (induction n arbitrary: i c)
  case (Suc n)
  have "\<not> (148 \<le> i \<and> i < 156) \<Longrightarrow> h ! i = h' ! i" using Suc.prems by simp
  then have "(if i \<ge> fst f_chksum \<and> i < fst f_chksum + snd f_chksum then 32 else unat (h ! i)) =
      (if i \<ge> fst f_chksum \<and> i < fst f_chksum + snd f_chksum then 32 else unat (h' ! i))" by (simp add: f_chksum_def)
  moreover have "\<And>c. chksum_loop n (i + 1) h c = chksum_loop n (i + 1) h' c" using Suc.prems by (intro Suc.IH) simp
  ultimately show ?case by simp
qed simp

lemma chksum_small: "calculate_chksum h < 8 ^ 7"
  using chksum_loop_le [of USTAR_HEADER_SIZE 0 h 0] by (simp add: calculate_chksum_def USTAR_HEADER_SIZE_def)

lemma chksum_put: "length bs = 8 \<Longrightarrow> length h = 512 \<Longrightarrow> calculate_chksum (put_field f_chksum bs h) = calculate_chksum h"
  unfolding calculate_chksum_def by (rule chksum_loop_cong) (auto simp: nth_put f_chksum_def USTAR_HEADER_SIZE_def)

lemma strip_cases: "strip_antisocial_prefixes n = [46] \<or> (\<not> antisocial (strip_antisocial_prefixes n) \<and> strip_antisocial_prefixes n \<noteq> [] \<and>
    strip_antisocial_prefixes n \<noteq> [46, 46] \<and> set (strip_antisocial_prefixes n) \<subseteq> set n)"
proof (induction n rule: strip_antisocial_prefixes.induct)
  case (1 n)
  show ?case
  proof (cases "antisocial n")
    case True
    have "set (tl (dropWhile (\<lambda>c. c \<noteq> 47) n)) \<subseteq> set n" 
      by (rule subsetI) (metis list.sel(2) list.set_sel(2) set_dropWhileD)
    then show ?thesis using 1 [OF True] True by (simp add: strip_antisocial_prefixes.simps [of n]) blast
  next
    case False then show ?thesis by (simp add: strip_antisocial_prefixes.simps [of n])
  qed
qed

lemma strip_idem: "strip_antisocial_prefixes (strip_antisocial_prefixes n) = strip_antisocial_prefixes n"
proof -
  have "strip_antisocial_prefixes [46] = [46]" by (simp add: strip_antisocial_prefixes.simps antisocial_def)
  moreover have "strip_antisocial_prefixes m = m" if "\<not> antisocial m" "m \<noteq> []" "m \<noteq> [46, 46]" for m
    using that by (simp add: strip_antisocial_prefixes.simps [of m])
  ultimately show ?thesis using strip_cases [of n] by metis
qed

lemma strip_no_null: "0 \<notin> set n \<Longrightarrow> 0 \<notin> set (strip_antisocial_prefixes n)"
  using strip_cases [of n] by auto

subsection \<open>The header\<close>

text \<open>The header before its checksum is filled in.\<close>

definition body :: "byte list \<Rightarrow> ustar_type \<Rightarrow> nat \<Rightarrow> byte list" where
  "body n ty v =
     strlcpy_field f_uname (chars ''root'') (strlcpy_field f_gname (chars ''root'') (put_field f_version [48, 48]
      (strlcpy_field f_magic (chars ''ustar'') (put_field f_typeflag [typeflag ty]
       (put_field f_mtime (map dig (octs 11 1136102400) @ [0]) (put_field f_size (map dig (octs 11 v) @ [0])
        (strlcpy_field f_gid (chars ''0000000'') (strlcpy_field f_uid (chars ''0000000'')
         (put_field f_mode (map dig (octs 7 (if ty = USTAR_REGULAR then 0x1A4 else 0x1ED)) @ [0])
          (strlcpy_field f_name n (replicate 512 0)))))))))))"

lemma make_header_body:
  assumes "ty = USTAR_REGULAR \<or> ty = USTAR_DIRECTORY" "n = strip_antisocial_prefixes file_name" "length n \<le> 99" "v = nat (sz mod 2 ^ 32)"
  shows "ustar_make_header file_name ty sz header =
    Some (True, put_field f_chksum (map dig (octs 7 (calculate_chksum (body n ty v))) @ [0]) (body n ty v))"
proof -
  have "v < 2 ^ 32" using assms(4) by (simp add: nat_less_iff)
  then show ?thesis using assms(1,3) chksum_small
    unfolding ustar_make_header_def assms(2) [symmetric] assms(4) [symmetric]
    by (simp add: octal7_field octal11_field body_def USTAR_HEADER_SIZE_def Let_def f_mode_def f_size_def f_mtime_def f_chksum_def)
qed

lemma body_fields:
  assumes "length n \<le> 99"
  shows "length (body n ty v) = 512" "get_field f_magic (body n ty v) = chars ''ustar'' @ [0]" "get_field f_version (body n ty v) = [48, 48]"
    "get_field f_name (body n ty v) = n @ replicate (100 - length n) 0" "get_field f_prefix (body n ty v) ! 0 = 0"
    "get_field f_typeflag (body n ty v) = [typeflag ty]" "get_field f_size (body n ty v) = map dig (octs 11 v) @ [0]"
proof -
  note fields = f_name_def f_mode_def f_uid_def f_gid_def f_size_def f_mtime_def f_chksum_def f_typeflag_def f_magic_def f_version_def f_uname_def f_gname_def f_prefix_def
  have n: "take 99 n = n" using assms by simp
  show l: "length (body n ty v) = 512" using assms by (simp add: body_def strlcpy_field_def fields chars_def)
  show "get_field f_magic (body n ty v) = chars ''ustar'' @ [0]" "get_field f_version (body n ty v) = [48, 48]"
    "get_field f_typeflag (body n ty v) = [typeflag ty]" "get_field f_size (body n ty v) = map dig (octs 11 v) @ [0]"
    using assms by (simp_all add: body_def strlcpy_field_def fields chars_def get_put get_put_other)
  have "replicate (99 - length n) (0 :: byte) = drop (Suc (length n)) (get_field f_name (replicate 512 0))" by (simp add: get_field_def fields)
  moreover have "replicate (100 - length n) (0 :: byte) = 0 # replicate (99 - length n) 0" using assms by (simp add: Suc_diff_le flip: replicate_Suc)
  ultimately show "get_field f_name (body n ty v) = n @ replicate (100 - length n) 0"
    using assms n by (simp add: body_def strlcpy_field_def fields chars_def get_put_other get_put_prefix)
  show "get_field f_prefix (body n ty v) ! 0 = 0"
    using assms by (simp add: body_def strlcpy_field_def fields chars_def get_put_other) (simp add: get_field_def)
qed

text \<open>C32: a header made for a regular file or a directory is a header of 512 bytes that \<open>ustar_parse_header\<close> accepts, checksum
  included, and reads back to the type, the size (none for a directory) and the name, stripped of its leading slashes and dot
  components, for every name that then has at most 99 bytes.\<close>
theorem ustar_round_trip:
  assumes "ty = USTAR_REGULAR \<or> ty = USTAR_DIRECTORY" "0 \<notin> set file_name" "length (strip_antisocial_prefixes file_name) \<le> 99" "0 \<le> sz" "sz < 2 ^ 31"
  shows "\<exists>h. ustar_make_header file_name ty sz header = Some (True, h) \<and> length h = USTAR_HEADER_SIZE \<and>
    ustar_parse_header h = Inr (Some (strip_antisocial_prefixes file_name), ty, if ty = USTAR_REGULAR then sz else 0)"
proof -
  define n where "n = strip_antisocial_prefixes file_name"
  have n: "length n \<le> 99" "0 \<notin> set n" "strip_antisocial_prefixes n = n" using assms(2,3) strip_no_null strip_idem by (auto simp: n_def)
  define v where "v = nat (sz mod 2 ^ 32)"
  have v: "v = nat sz" "v < 2 ^ 31" "int v = sz" using assms(4,5) by (simp_all add: v_def)
  let ?b = "body n ty v" and ?ck = "map dig (octs 7 (calculate_chksum (body n ty v))) @ [0 :: byte]"
  define h where "h = put_field f_chksum ?ck ?b"
  note b = body_fields [OF n(1), of ty v]
  have l: "length h = 512" using b(1) by (simp add: h_def f_chksum_def)
  have "get_field f_chksum h = ?ck" unfolding h_def using b(1) by (intro get_put) (simp_all add: f_chksum_def)
  then have ck: "parse_octal_field (get_field f_chksum h) = Some (calculate_chksum h)"
    using parse_octal_ok [of "calculate_chksum ?b" 7] chksum_small [of ?b] b(1) by (simp add: h_def chksum_put)
  have g: "get_field f h = get_field f ?b" if "f \<in> {f_magic, f_version, f_name, f_prefix, f_typeflag, f_size}" for f
    using that b(1) unfolding h_def
    by (intro get_put_other) (auto simp: f_chksum_def f_magic_def f_version_def f_name_def f_prefix_def f_typeflag_def f_size_def)
  have nm: "c_string (get_field f_name h) = n" "get_field f_name h ! 99 = 0"
  proof -
    have "takeWhile (\<lambda>c. c \<noteq> 0) (n @ 0 # xs) = n" for xs using n(2) by (subst takeWhile_append2) auto
    moreover have "replicate (100 - length n) (0 :: byte) = 0 # replicate (99 - length n) 0" using n(1) by (simp add: Suc_diff_le flip: replicate_Suc)
    ultimately show "c_string (get_field f_name h) = n" by (simp add: c_string_def g b(4))
    show "get_field f_name h ! 99 = 0" using n(1) by (simp add: g b(4) nth_append)
  qed
  have "get_field f_magic h ! 0 = 117" unfolding g [of f_magic, simplified] b(2) by (simp add: chars_def)
  then have "h ! 257 = 117" using l by (simp add: get_field_def f_magic_def)
  then have "\<not> is_all_zeros h" using l by (auto simp: is_all_zeros_def list_all_length intro!: exI [of _ 257])
  moreover have "parse_octal_field (get_field f_size h) = Some v" using parse_octal_ok [of v 11] v(2) by (simp add: g b(7))
  ultimately have "ustar_parse_header h = Inr (Some n, ty, if ty = USTAR_REGULAR then sz else 0)"
    using assms(1) ck nm b(2,3,5,6) v n(3) by (auto simp: ustar_parse_header_def g typeflag_def)
  then show ?thesis using make_header_body [OF assms(1) n_def n(1) v_def, of header] l by (simp add: h_def n_def USTAR_HEADER_SIZE_def)
qed

theorem ustar_round_trip_witness:
  "\<exists>h. ustar_make_header (chars ''../a'') USTAR_REGULAR 600 [] = Some (True, h) \<and> ustar_parse_header h = Inr (Some (chars ''a''), USTAR_REGULAR, 600)"
proof -
  have s: "strip_antisocial_prefixes (chars ''../a'') = chars ''a''"
    by (simp add: strip_antisocial_prefixes.simps antisocial_def chars_def)
  show ?thesis using ustar_round_trip [of USTAR_REGULAR "chars ''../a''" 600 "[]"] unfolding s by (auto simp: chars_def)
qed

end
