(* ===== verification/Process.thy ===== *)
theory Process
  imports Pagedir Filesys
begin

text \<open>
  userprog/process.c: loading an executable.  The state of the running process is the memory system, the file system, the page
  directory of its thread and its executable.  Kernel memory is the memory of the page allocator.  While the arguments are put on
  the stack the new process's page directory is active: the stack page is visible below \<open>PHYS_BASE\<close>, and a store below it
  faults in the kernel and stops it.
\<close>

record process =
  mm :: mmu
  fs :: fs_state
  pagedir :: addr
  file_cur :: addr

subsection \<open>ELF headers\<close>

definition le16_at :: "byte list \<Rightarrow> nat \<Rightarrow> nat" where
  "le16_at bs i = unat (bs ! i) + 256 * unat (bs ! (i + 1))"

definition word_at :: "byte list \<Rightarrow> nat \<Rightarrow> nat" where
  "word_at bs i = unat (le32_at bs i)"

record Elf32_Ehdr =
  e_ident :: "byte list"
  e_type :: nat
  e_machine :: nat
  e_version :: nat
  e_entry :: nat
  e_phoff :: nat
  e_shoff :: nat
  e_flags :: nat
  e_ehsize :: nat
  e_phentsize :: nat
  e_phnum :: nat
  e_shentsize :: nat
  e_shnum :: nat
  e_shstrndx :: nat

definition bytes_ehdr :: "byte list \<Rightarrow> Elf32_Ehdr" where
  "bytes_ehdr b = \<lparr>e_ident = take 16 b, e_type = le16_at b 16, e_machine = le16_at b 18, e_version = word_at b 20,
     e_entry = word_at b 24, e_phoff = word_at b 28, e_shoff = word_at b 32, e_flags = word_at b 36, e_ehsize = le16_at b 40,
     e_phentsize = le16_at b 42, e_phnum = le16_at b 44, e_shentsize = le16_at b 46, e_shnum = le16_at b 48, e_shstrndx = le16_at b 50\<rparr>"

record Elf32_Phdr =
  p_type :: nat
  p_offset :: nat
  p_vaddr :: nat
  p_paddr :: nat
  p_filesz :: nat
  p_memsz :: nat
  p_flags :: nat
  p_align :: nat

definition bytes_phdr :: "byte list \<Rightarrow> Elf32_Phdr" where
  "bytes_phdr b = \<lparr>p_type = word_at b 0, p_offset = word_at b 4, p_vaddr = word_at b 8, p_paddr = word_at b 12,
     p_filesz = word_at b 16, p_memsz = word_at b 20, p_flags = word_at b 24, p_align = word_at b 28\<rparr>"

definition PT_LOAD :: nat where "PT_LOAD = 1"
definition PT_DYNAMIC :: nat where "PT_DYNAMIC = 2"
definition PT_INTERP :: nat where "PT_INTERP = 3"
definition PT_SHLIB :: nat where "PT_SHLIB = 5"
definition PF_W :: nat where "PF_W = 2"

text \<open>The checks of \<open>load\<close> on the executable header; the identification is 0x7f, ELF, 1, 1, 1.\<close>

definition ehdr_ok :: "Elf32_Ehdr \<Rightarrow> bool" where
  "ehdr_ok e \<longleftrightarrow> take 7 (e_ident e) = [127, 69, 76, 70, 1, 1, 1] \<and> e_type e = 2 \<and> e_machine e = 3 \<and> e_version e = 1 \<and>
     e_phentsize e = 32 \<and> \<not> e_phnum e > 1024"

subsection \<open>Segments\<close>

definition validate_segment :: "Elf32_Phdr \<Rightarrow> addr \<Rightarrow> fs_state \<Rightarrow> bool option" where
  "validate_segment phdr f s = (
     if pg_ofs (p_offset phdr) \<noteq> pg_ofs (p_vaddr phdr) then Some False
     else do {
       len \<leftarrow> file_length f s;
       Some (\<not> p_offset phdr > nat (len mod 2 ^ 32) \<and>
         \<not> p_memsz phdr < p_filesz phdr \<and>
         p_memsz phdr \<noteq> 0 \<and>
         is_user_vaddr (p_vaddr phdr) \<and>
         is_user_vaddr (u32 (p_vaddr phdr + p_memsz phdr)) \<and>
         \<not> u32 (p_vaddr phdr + p_memsz phdr) < p_vaddr phdr \<and>
         \<not> p_vaddr phdr < PGSIZE) })"

definition install_page :: "addr \<Rightarrow> addr \<Rightarrow> bool \<Rightarrow> process \<Rightarrow> (bool \<times> process) option" where
  "install_page upage kpage writable s = do {
     p \<leftarrow> pagedir_get_page (pagedir s) upage (mm s);
     if p = NULL then do {
       (ok, m) \<leftarrow> pagedir_set_page (pagedir s) upage kpage writable (mm s);
       Some (ok, s\<lparr>mm := m\<rparr>) }
     else Some (False, s) }"

text \<open>Storing bytes in kernel memory, as \<open>file_read\<close> and \<open>memset\<close> do.\<close>

definition kstore :: "addr \<Rightarrow> byte list \<Rightarrow> process \<Rightarrow> process" where
  "kstore a bs s = s\<lparr>mm := (mm s)\<lparr>pal := (pal (mm s))\<lparr>pmem := \<lambda>x. if a \<le> x \<and> x < a + length bs then bs ! (x - a) else pmem (pal (mm s)) x\<rparr>\<rparr>\<rparr>"

definition get_page :: "nat \<Rightarrow> process \<Rightarrow> (addr \<times> process) option" where
  "get_page flags s = do { (p, m) \<leftarrow> mmu_get_page flags (mm s); Some (p, s\<lparr>mm := m\<rparr>) }"

definition free_page :: "addr \<Rightarrow> process \<Rightarrow> process option" where
  "free_page p s = do { m \<leftarrow> mmu_free_page p (mm s); Some (s\<lparr>mm := m\<rparr>) }"

partial_function (option) segment_loop :: "addr \<Rightarrow> addr \<Rightarrow> nat \<Rightarrow> nat \<Rightarrow> bool \<Rightarrow> process \<Rightarrow> (bool \<times> process) option" where
  "segment_loop f upage read_bytes zero_bytes writable s = (if read_bytes > 0 \<or> zero_bytes > 0 then do {
       let page_read_bytes = (if read_bytes < PGSIZE then read_bytes else PGSIZE);
       let page_zero_bytes = PGSIZE - page_read_bytes;
       (knpage, s) \<leftarrow> get_page PAL_USER s;
       if knpage = NULL then Some (False, s)
       else do {
         (bs, t) \<leftarrow> file_read f (int page_read_bytes) (fs s);
         let s = kstore knpage bs (s\<lparr>fs := t\<rparr>);
         if length bs \<noteq> page_read_bytes then do { s \<leftarrow> free_page knpage s; Some (False, s) }
         else do {
           let s = kstore (knpage + page_read_bytes) (replicate page_zero_bytes 0) s;
           (ok, s) \<leftarrow> install_page upage knpage writable s;
           if \<not> ok then do { s \<leftarrow> free_page knpage s; Some (False, s) }
           else segment_loop f (u32 (upage + PGSIZE)) (read_bytes - page_read_bytes)
                  (u32 (zero_bytes + 2 ^ 32 - page_zero_bytes)) writable s } } }
     else Some (True, s))"

definition load_segment :: "addr \<Rightarrow> int \<Rightarrow> addr \<Rightarrow> nat \<Rightarrow> nat \<Rightarrow> bool \<Rightarrow> process \<Rightarrow> (bool \<times> process) option" where
  "load_segment f ofs upage read_bytes zero_bytes writable s = do {
     k_assert (u32 (read_bytes + zero_bytes) mod PGSIZE = 0);
     k_assert (pg_ofs upage = 0);
     k_assert (ofs mod 2 ^ 32 mod int PGSIZE = 0);
     t \<leftarrow> file_seek f ofs (fs s);
     segment_loop f upage read_bytes zero_bytes writable (s\<lparr>fs := t\<rparr>) }"

text \<open>The page, offset and sizes that \<open>load\<close> computes for a segment: file page, memory page, bytes to read and bytes to clear.\<close>

definition segment_layout :: "Elf32_Phdr \<Rightarrow> nat \<times> nat \<times> nat \<times> nat" where
  "segment_layout phdr = (
     let file_page = p_offset phdr - pg_ofs (p_offset phdr);
         mem_page = p_vaddr phdr - pg_ofs (p_vaddr phdr);
         page_offset = pg_ofs (p_vaddr phdr) in
     if p_filesz phdr > 0 then
       (let read_bytes = u32 (page_offset + p_filesz phdr) in
        (file_page, mem_page, read_bytes, u32 (ROUND_UP (u32 (page_offset + p_memsz phdr)) PGSIZE + 2 ^ 32 - read_bytes)))
     else (file_page, mem_page, 0, ROUND_UP (u32 (page_offset + p_memsz phdr)) PGSIZE))"

text \<open>The loop over the program headers; the result says whether to go on.\<close>

fun phdr_loop :: "nat \<Rightarrow> addr \<Rightarrow> int \<Rightarrow> process \<Rightarrow> (bool \<times> process) option" where
  "phdr_loop 0 f file_ofset s = Some (True, s)"
| "phdr_loop (Suc n) f file_ofset s = do {
     len \<leftarrow> file_length f (fs s);
     if file_ofset < 0 \<or> file_ofset > len then Some (False, s)
     else do {
       t \<leftarrow> file_seek f file_ofset (fs s);
       (bs, t) \<leftarrow> file_read f 32 t;
       let s = s\<lparr>fs := t\<rparr>;
       if length bs \<noteq> 32 then Some (False, s)
       else do {
         let file_ofset = s32 (file_ofset + 32);
         let phdr = bytes_phdr bs;
         if p_type phdr = PT_DYNAMIC \<or> p_type phdr = PT_INTERP \<or> p_type phdr = PT_SHLIB then Some (False, s)
         else if p_type phdr = PT_LOAD then do {
           ok \<leftarrow> validate_segment phdr f (fs s);
           if \<not> ok then Some (False, s)
           else do {
             let (file_page, mem_page, read_bytes, zero_bytes) = segment_layout phdr;
             (ok, s) \<leftarrow> load_segment f (s32 (int file_page)) mem_page read_bytes zero_bytes (p_flags phdr AND PF_W \<noteq> 0) s;
             if \<not> ok then Some (False, s) else phdr_loop n f file_ofset s } }
         else phdr_loop n f file_ofset s } } }"

subsection \<open>The stack\<close>

text \<open>The result is the kernel page behind the stack, or NULL.\<close>

definition setup_stack :: "process \<Rightarrow> (addr \<times> process) option" where
  "setup_stack s = do {
     (kpage, s) \<leftarrow> get_page (PAL_USER OR PAL_ZERO) s;
     if kpage \<noteq> NULL then do {
       (ok, s) \<leftarrow> install_page (PHYS_BASE - PGSIZE) kpage True s;
       if ok then Some (kpage, s) else do { s \<leftarrow> free_page kpage s; Some (NULL, s) } }
     else Some (NULL, s) }"

text \<open>Splitting the command line.  \<open>delim\<close> is the address of the string with one space.  The pointer arrays are in blocks of
  \<open>malloc\<close>; when one cannot be had, the routine frees an uninitialised pointer and returns an uninitialised value, and the
  model stops.  \<open>mem k\<close> says whether the \<open>k\<close>-th allocation succeeds.\<close>

partial_function (option) token_loop :: "(nat \<Rightarrow> bool) \<Rightarrow> addr \<Rightarrow> addr \<Rightarrow> addr \<Rightarrow> addr list \<Rightarrow> memory \<Rightarrow> (addr list \<times> memory) option" where
  "token_loop mem delim tp next argv m = (if tp \<noteq> NULL then do {
       k_assert (mem (length argv));
       (tp', next, m) \<leftarrow> strtok_r NULL delim next m;
       token_loop mem delim tp' next (argv @ [tp]) m }
     else Some (argv, m))"

definition stack_bottom :: addr where "stack_bottom = PHYS_BASE - PGSIZE"

text \<open>Lowering the stack pointer for a store of \<open>n\<close> bytes.\<close>

definition lower :: "nat \<Rightarrow> addr \<Rightarrow> addr option" where
  "lower n esp = (if stack_bottom + n \<le> esp then Some (esp - n) else None)"

text \<open>The strings are pushed from the last to the first; the result is the list of their addresses, in order.\<close>

fun push_strings :: "addr list \<Rightarrow> addr list \<Rightarrow> addr \<Rightarrow> memory \<Rightarrow> (addr list \<times> addr \<times> memory) option" where
  "push_strings [] addrs esp m = Some (addrs, esp, m)"
| "push_strings (p # ps) addrs esp m = do {
     n \<leftarrow> strlen m p;
     esp \<leftarrow> lower (n + 1) esp;
     (_, m) \<leftarrow> memcpy esp p (n + 1) m;
     push_strings ps (esp # addrs) esp m }"

definition push_word :: "nat \<Rightarrow> addr \<times> memory \<Rightarrow> (addr \<times> memory) option" where
  "push_word v st = do { esp \<leftarrow> lower 4 (fst st); Some (esp, st32 esp (of_nat v) (snd st)) }"

fun push_words :: "nat list \<Rightarrow> addr \<times> memory \<Rightarrow> (addr \<times> memory) option" where
  "push_words [] st = Some st"
| "push_words (v # vs) st = do { st \<leftarrow> push_word v st; push_words vs st }"

definition construct_ESP :: "(nat \<Rightarrow> bool) \<Rightarrow> addr \<Rightarrow> addr \<Rightarrow> addr \<Rightarrow> memory \<Rightarrow> (addr \<times> memory) option" where
  "construct_ESP mem delim esp argv_list m = do {
     (tp, next, m) \<leftarrow> strtok_r argv_list delim NULL m;
     (argv, m) \<leftarrow> token_loop mem delim tp next [] m;
     k_assert (mem (length argv));
     (argv_addr, esp, m) \<leftarrow> push_strings (rev argv) [] esp m;
     esp \<leftarrow> lower 1 esp;
     let m = m(esp := 0);
     st \<leftarrow> push_word 0 (esp, m);
     st \<leftarrow> push_words (rev argv_addr) st;
     st \<leftarrow> push_word (fst st) st;
     st \<leftarrow> push_word (length argv) st;
     push_word 0 st }"

subsection \<open>load\<close>

text \<open>Memory as the processor sees it with the stack page mapped, and back.\<close>

definition stack_view :: "addr \<Rightarrow> memory \<Rightarrow> memory" where
  "stack_view kpage m = (\<lambda>a. if stack_bottom \<le> a \<and> a < PHYS_BASE then m (kpage + (a - stack_bottom)) else m a)"

definition stack_unview :: "addr \<Rightarrow> memory \<Rightarrow> memory" where
  "stack_unview kpage m = (\<lambda>a. if kpage \<le> a \<and> a < kpage + PGSIZE then m (stack_bottom + (a - kpage)) else m a)"

definition upd_kmem :: "(memory \<Rightarrow> memory) \<Rightarrow> process \<Rightarrow> process" where
  "upd_kmem g s = s\<lparr>mm := (mm s)\<lparr>pal := (pal (mm s))\<lparr>pmem := g (pmem (pal (mm s)))\<rparr>\<rparr>\<rparr>"

abbreviation kmem :: "process \<Rightarrow> memory" where
  "kmem s \<equiv> pmem (pal (mm s))"

definition parse_filename :: "addr \<Rightarrow> addr \<Rightarrow> addr \<Rightarrow> memory \<Rightarrow> (addr \<times> memory) option" where
  "parse_filename delim argv_list tp_ptr m = do {
     n \<leftarrow> strlen m argv_list;
     (_, m) \<leftarrow> memcpy tp_ptr argv_list (n + 1) m;
     (file_name, _, m) \<leftarrow> strtok_r tp_ptr delim NULL m;
     Some (file_name, m) }"

text \<open>The bytes of a string in memory.\<close>

definition string_at :: "memory \<Rightarrow> addr \<Rightarrow> byte list option" where
  "string_at m a = do { n \<leftarrow> strlen m a; Some (map m [a..<a + n]) }"

text \<open>The part of \<open>load\<close> that follows a successful \<open>filesys_open\<close>, up to the label \<open>done\<close>; the result is the entry point and
  the stack pointer.\<close>

definition load_image :: "(nat \<Rightarrow> bool) \<Rightarrow> addr \<Rightarrow> addr \<Rightarrow> addr \<Rightarrow> process \<Rightarrow> ((addr \<times> addr) option \<times> process) option" where
  "load_image mem delim argv_list f s = do {
     (bs, t) \<leftarrow> file_read f 52 (fs s);
     let s = s\<lparr>fs := t\<rparr>;
     let ehdr = bytes_ehdr bs;
     if length bs \<noteq> 52 \<or> \<not> ehdr_ok ehdr then Some (None, s)
     else do {
       (ok, s) \<leftarrow> phdr_loop (e_phnum ehdr) f (s32 (int (e_phoff ehdr))) s;
       if \<not> ok then Some (None, s)
       else do {
         (kpage, s) \<leftarrow> setup_stack s;
         if kpage = NULL then Some (None, s)
         else do {
           (esp, m) \<leftarrow> construct_ESP mem delim PHYS_BASE argv_list (stack_view kpage (kmem s));
           Some (Some (e_entry ehdr, esp), upd_kmem (\<lambda>_. stack_unview kpage m) s) } } } }"

definition load :: "(nat \<Rightarrow> bool) \<Rightarrow> addr \<Rightarrow> addr \<Rightarrow> process \<Rightarrow> ((addr \<times> addr) option \<times> process) option" where
  "load mem delim argv_list s = do {
     (pd, m) \<leftarrow> pagedir_create (mm s);
     let s = s\<lparr>mm := m, pagedir := pd\<rparr>;
     (r, f, s) \<leftarrow> (if pd = NULL then Some (None, NULL, s)
       else do {
         m \<leftarrow> pagedir_activate pd (mm s);
         let s = s\<lparr>mm := m\<rparr>;
         let (tp_ptr, t) = fs_malloc (fs s);
         (file_name, m) \<leftarrow> parse_filename delim argv_list tp_ptr (kmem s);
         let s = upd_kmem (\<lambda>_. m) (s\<lparr>fs := t\<rparr>);
         k_assert (file_name \<noteq> NULL);
         name \<leftarrow> string_at (kmem s) file_name;
         (f, t) \<leftarrow> filesys_open name (fs s);
         let s = s\<lparr>fs := fs_free tp_ptr t\<rparr>;
         if f = NULL then Some (None, NULL, s)
         else do {
           (r, s) \<leftarrow> load_image mem delim argv_list f s;
           Some (r, f, s) } });
     t \<leftarrow> file_deny_write f (fs s);
     Some (r, s\<lparr>fs := t, file_cur := f\<rparr>) }"

end
