(* ===== verification/Args_Props.thy ===== *)
theory Args_Props
  imports Process Palloc_Props
begin

text \<open>
  The stack of a new process: \<open>construct_ESP\<close> lays out the words of the command line as the calling convention of \<open>main\<close>
  prescribes.
\<close>

subsection \<open>The words of a line\<close>

function words :: "byte list \<Rightarrow> byte list list" where
  "words xs = (case dropWhile (\<lambda>c. c = 32) xs of [] \<Rightarrow> []
     | c # r \<Rightarrow> takeWhile (\<lambda>c. c \<noteq> 32) (c # r) # words (tl (dropWhile (\<lambda>c. c \<noteq> 32) (c # r))))"
  by auto
termination
proof (relation "measure length")
  fix xs r :: "byte list" and c
  assume d: "dropWhile (\<lambda>c. c = 32) xs = c # r"
  then have "c \<noteq> 32" by (metis (mono_tags) hd_dropWhile list.sel(1) list.distinct(1))
  then have "length (tl (dropWhile (\<lambda>c. c \<noteq> 32) (c # r))) < length (c # r)" using length_dropWhile_le [of "\<lambda>c. c \<noteq> 32" r] by simp
  also have "\<dots> \<le> length xs" using length_dropWhile_le [of "\<lambda>c. c = 32" xs] d by simp
  finally show "(tl (dropWhile (\<lambda>c. c \<noteq> 32) (c # r)), xs) \<in> measure length" by simp
qed simp

declare words.simps [simp del]

definition string_in :: "memory \<Rightarrow> addr \<Rightarrow> addr \<Rightarrow> addr \<Rightarrow> byte list \<Rightarrow> bool" where
  "string_in m lo hi p w \<longleftrightarrow> cstr m p w \<and> p \<noteq> NULL \<and> lo \<le> p \<and> p + length w \<le> hi"

lemma string_in_cong: "string_in m lo hi p w \<Longrightarrow> (\<And>x. lo \<le> x \<Longrightarrow> x \<le> hi \<Longrightarrow> m' x = m x) \<Longrightarrow> string_in m' lo hi p w"
  by (auto simp: string_in_def intro: cstr_cong)

lemma string_in_mono: "string_in m lo hi p w \<Longrightarrow> lo' \<le> lo \<Longrightarrow> hi \<le> hi' \<Longrightarrow> string_in m lo' hi' p w"
  by (auto simp: string_in_def)

lemma strings_mono: "list_all2 (string_in m lo hi) ps ws \<Longrightarrow> lo' \<le> lo \<Longrightarrow> hi \<le> hi' \<Longrightarrow> list_all2 (string_in m lo' hi') ps ws"
  by (erule list_all2_mono) (rule string_in_mono)

lemma strings_cong: "list_all2 (string_in m lo hi) ps ws \<Longrightarrow> (\<And>x. lo \<le> x \<Longrightarrow> x \<le> hi \<Longrightarrow> m' x = m x) \<Longrightarrow> list_all2 (string_in m' lo hi) ps ws"
  by (erule list_all2_mono) (rule string_in_cong)

lemma tokens_ok:
  assumes "cstr m nxt xs" "nxt \<noteq> NULL" "cstr m d [32]" "d \<noteq> NULL" "d + 1 < lo \<or> hi < d" "lo \<le> nxt" "nxt + length xs \<le> hi"
    "list_all2 (string_in m lo nxt) argv ws" "\<And>k. mem k"
  shows "\<exists>tp nxt1 m1 argv' m'. strtok_r NULL d nxt m = Some (tp, nxt1, m1) \<and> token_loop mem d tp nxt1 argv m1 = Some (argv', m') \<and>
    list_all2 (string_in m' lo hi) argv' (ws @ words xs) \<and> (\<forall>x. x < lo \<or> hi < x \<longrightarrow> m' x = m x)"
  using assms
proof (induction "length xs" arbitrary: xs m nxt argv ws rule: less_induct)
  case less
  have set32: "set [32 :: byte] = {32}" by simp
  have eq: "(\<lambda>c. c \<in> set [32 :: byte]) = (\<lambda>c. c = 32)" "(\<lambda>c. c \<notin> set [32 :: byte]) = (\<lambda>c. c \<noteq> 32)" by auto
  show ?case
  proof (cases "dropWhile (\<lambda>c. c = 32) xs")
    case Nil
    have "strtok_r NULL d nxt m = Some (NULL, nxt + length xs, m)"
      using less.prems Nil by (intro strtok_r_end [where ds = "[32]"]) (auto simp: eq)
    moreover have "words xs = []" unfolding words.simps [of xs] Nil by simp
    moreover have "list_all2 (string_in m lo hi) argv ws" using less.prems(7) by (intro strings_mono [OF less.prems(8)]) auto
    ultimately show ?thesis by (simp add: token_loop.simps)
  next
    case (Cons c r)
    define D where "D = dropWhile (\<lambda>c. c \<noteq> 32) (c # r)"
    define tok s0 rest where "tok = takeWhile (\<lambda>c. c \<noteq> 32) (c # r)" and "s0 = nxt + length (takeWhile (\<lambda>c. c = 32) xs)" and "rest = tl D"
    obtain save m1 where st: "strtok_r NULL d nxt m = Some (s0, save, m1)" "cstr m1 s0 tok" "cstr m1 save rest" "nxt \<le> save" "tok \<noteq> []"
        "save = s0 + length tok + (if D = [] then 0 else 1)" "\<forall>x. x \<noteq> s0 + length tok \<longrightarrow> m1 x = m x"
      using strtok_r_step [OF less.prems(1,2,3,4), of NULL nxt c r tok s0] less.prems(2) Cons unfolding eq tok_def [symmetric] D_def [symmetric] rest_def [symmetric] s0_def
      by (auto simp: tok_def D_def rest_def)
    have len: "length xs = length (takeWhile (\<lambda>c. c = 32) xs) + length (c # r)" using Cons by (metis length_append takeWhile_dropWhile_id)
    have len2: "length (c # r) = length tok + length D"
      using length_append [of tok D] unfolding tok_def D_def takeWhile_dropWhile_id .
    have "length rest = length D - 1" by (simp add: rest_def)
    moreover have "0 < length tok" using st(5) by simp
    ultimately have le: "length rest < length xs" "save + length rest \<le> nxt + length xs" "s0 + length tok \<le> save"
      using st(6) len len2 unfolding s0_def by (cases "D = []"; simp)+
    have wr: "nxt < s0 + length tok" "s0 + length tok \<le> hi"
      using \<open>0 < length tok\<close> le(2,3) less.prems(7) unfolding s0_def by linarith+
    have s0n: "nxt \<le> s0" by (simp add: s0_def)
    have d1: "cstr m1 d [32]" using less.prems(3,5,6) wr st(7) by (intro cstr_cong [OF less.prems(3)]) auto
    have argv: "list_all2 (string_in m1 lo save) (argv @ [s0]) (ws @ [tok])"
    proof (rule list_all2_appendI)
      have "list_all2 (string_in m1 lo nxt) argv ws" using wr(1) st(7) by (intro strings_cong [OF less.prems(8)]) auto
      then show "list_all2 (string_in m1 lo save) argv ws" by (rule strings_mono) (use st(4) in auto)
      show "list_all2 (string_in m1 lo save) [s0] [tok]" using st(2) less.prems(2,6) le(3) s0n by (simp add: string_in_def)
    qed
    obtain tp nxt1 m2 argv' m' where IH: "strtok_r NULL d save m1 = Some (tp, nxt1, m2)" "token_loop mem d tp nxt1 (argv @ [s0]) m2 = Some (argv', m')"
        "list_all2 (string_in m' lo hi) argv' ((ws @ [tok]) @ words rest)" "\<forall>x. x < lo \<or> hi < x \<longrightarrow> m' x = m1 x"
      using less.hyps [OF le(1) st(3) _ d1 less.prems(4,5) _ _ argv less.prems(9)] st(4) le(2) less.prems(2,6,7) by fastforce
    have "token_loop mem d s0 save argv m1 = Some (argv', m')"
      using IH(1,2) less.prems(2,9) s0n by (subst token_loop.simps) simp
    moreover have "words xs = tok # words rest" unfolding words.simps [of xs] Cons tok_def rest_def D_def by simp
    moreover have "\<forall>x. x < lo \<or> hi < x \<longrightarrow> m' x = m x" using IH(4) st(7) wr less.prems(6) by auto
    ultimately show ?thesis using st(1) IH(3) by auto
  qed
qed

subsection \<open>Pushing\<close>

text \<open>The bytes that strings take on the stack.\<close>

definition str_bytes :: "byte list list \<Rightarrow> nat" where
  "str_bytes ws = sum_list (map (\<lambda>w. length w + 1) ws)"

lemma str_bytes_simps [simp]: "str_bytes [] = 0" "str_bytes (w # ws) = length w + 1 + str_bytes ws" "str_bytes (rev ws) = str_bytes ws"
  by (simp_all add: str_bytes_def sum_list_rev flip: rev_map)

lemma cstr_shift: "cstr m p w \<Longrightarrow> (\<And>i. i \<le> length w \<Longrightarrow> m' (a + i) = m (p + i)) \<Longrightarrow> cstr m' a w"
proof (induction w arbitrary: a p)
  case Nil then show ?case using Nil.prems(2) [of 0] by simp
next
  case (Cons c w)
  have "cstr m' (a + 1) w"
  proof (rule Cons.IH)
    show "cstr m (p + 1) w" using Cons.prems(1) by simp
    show "m' (a + 1 + i) = m (p + 1 + i)" if "i \<le> length w" for i using Cons.prems(2) [of "Suc i"] that by simp
  qed
  then show ?case using Cons.prems(1) Cons.prems(2) [of 0] by simp
qed

lemma cstr_blit: "cstr m p w \<Longrightarrow> cstr (blit m a p (length w + 1)) a w"
  by (erule cstr_shift) (simp add: blit_def)

lemma push_strings_ok:
  assumes "list_all2 (string_in m PHYS_BASE hi) ps ws" "esp \<le> PHYS_BASE" "stack_bottom + str_bytes ws \<le> esp" "list_all2 (string_in m esp (PHYS_BASE - 1)) addrs us"
  shows "\<exists>addrs' m'. push_strings ps addrs esp m = Some (addrs', esp - str_bytes ws, m') \<and>
    list_all2 (string_in m' (esp - str_bytes ws) (PHYS_BASE - 1)) addrs' (rev ws @ us) \<and> (\<forall>x. x < esp - str_bytes ws \<or> esp \<le> x \<longrightarrow> m' x = m x)"
  using assms
proof (induction ps arbitrary: ws addrs us esp m)
  case Nil then show ?case by simp
next
  case (Cons p ps ws0)
  then obtain w ws where w: "ws0 = w # ws" "string_in m PHYS_BASE hi p w" "list_all2 (string_in m PHYS_BASE hi) ps ws" by (auto simp: list_all2_Cons1)
  have p: "cstr m p w" "p \<noteq> NULL" "PHYS_BASE \<le> p" using w(2) by (simp_all add: string_in_def)
  define e where "e = esp - (length w + 1)"
  have e: "stack_bottom + str_bytes ws \<le> e" "e < PHYS_BASE" "e + (length w + 1) = esp" "e \<noteq> NULL" "e \<le> p"
    using Cons.prems(2,3) p(3) unfolding w(1) by (auto simp: e_def stack_bottom_def PHYS_BASE_def PGSIZE_def)
  define m1 where "m1 = blit m e p (length w + 1)"
  have m1: "m1 x = m x" if "x < e \<or> esp \<le> x" for x using that e(3) by (auto simp: m1_def blit_def)
  have "list_all2 (string_in m1 PHYS_BASE hi) ps ws" using Cons.prems(2) by (intro strings_cong [OF w(3)] m1) simp
  moreover have "list_all2 (string_in m1 e (PHYS_BASE - 1)) (e # addrs) (w # us)"
  proof -
    have "list_all2 (string_in m1 esp (PHYS_BASE - 1)) addrs us" by (intro strings_cong [OF Cons.prems(4)] m1) simp
    then have "list_all2 (string_in m1 e (PHYS_BASE - 1)) addrs us" by (rule strings_mono) (use e(3) in auto)
    moreover have "string_in m1 e (PHYS_BASE - 1) e w" using cstr_blit [OF p(1), of e] e Cons.prems(2) by (simp add: string_in_def m1_def)
    ultimately show ?thesis by simp
  qed
  ultimately obtain addrs' m' where r: "push_strings ps (e # addrs) e m1 = Some (addrs', e - str_bytes ws, m')"
      "list_all2 (string_in m' (e - str_bytes ws) (PHYS_BASE - 1)) addrs' (rev ws @ w # us)" "\<forall>x. x < e - str_bytes ws \<or> e \<le> x \<longrightarrow> m' x = m1 x"
    using Cons.IH [of m1 ws e "e # addrs" "w # us"] e by auto
  have "lower (length w + 1) esp = Some e" "memcpy e p (length w + 1) m = Some (e, m1)"
    using e memcpy_eq [OF e(4) p(2), of "length w + 1" m] by (auto simp: lower_def e_def m1_def)
  then have "push_strings (p # ps) addrs esp m = Some (addrs', e - str_bytes ws, m')" using r(1) p by simp
  moreover have es: "e - str_bytes ws = esp - str_bytes (w # ws)" by (simp add: e_def)
  moreover have "m' x = m x" if "x < esp - str_bytes (w # ws) \<or> esp \<le> x" for x
  proof -
    have "x < e - str_bytes ws \<or> e \<le> x" "x < e \<or> esp \<le> x" using that es e(3) by linarith+
    then have "m' x = m1 x" "m1 x = m x" using r(3) m1 by blast+
    then show ?thesis by simp
  qed
  ultimately show ?case using r(2) unfolding w(1) by (intro exI [of _ addrs'] exI [of _ m']) simp
qed

lemma push_word_ok: "stack_bottom + 4 \<le> esp \<Longrightarrow> push_word v (esp, m) = Some (esp - 4, st32 (esp - 4) (of_nat v) m)"
  by (simp add: push_word_def lower_def)

lemma push_words_ok:
  "stack_bottom + 4 * length vs \<le> esp \<Longrightarrow> \<exists>m'. push_words vs (esp, m) = Some (esp - 4 * length vs, m') \<and>
    (\<forall>i < length vs. ld32 m' (esp - 4 * length vs + 4 * i) = of_nat (rev vs ! i)) \<and> (\<forall>x. x < esp - 4 * length vs \<or> esp \<le> x \<longrightarrow> m' x = m x)"
proof (induction vs arbitrary: esp m)
  case Nil then show ?case by simp
next
  case (Cons v vs)
  let ?m = "st32 (esp - 4) (of_nat v) m" and ?e = "esp - 4 * length (v # vs)"
  have e: "stack_bottom + 4 * length vs \<le> esp - 4" "stack_bottom + 4 \<le> esp" "esp - 4 - 4 * length vs = ?e" "?e + 4 * length vs = esp - 4" "4 \<le> esp"
    using Cons.prems by auto
  obtain m' where m': "push_words vs (esp - 4, ?m) = Some (?e, m')" "\<forall>i < length vs. ld32 m' (?e + 4 * i) = of_nat (rev vs ! i)"
      "\<forall>x. x < ?e \<or> esp - 4 \<le> x \<longrightarrow> m' x = ?m x" using Cons.IH [OF e(1), of ?m] unfolding e(3) by blast
  have "ld32 m' (esp - 4) = of_nat v" using ld32_cong [of "esp - 4" m' ?m] m'(3) by simp
  then have "ld32 m' (?e + 4 * i) = of_nat (rev (v # vs) ! i)" if "i < length (v # vs)" for i
    using that m'(2) e(4) by (cases "i = length vs") (auto simp: nth_append)
  moreover have "m' x = m x" if "x < ?e \<or> esp \<le> x" for x
  proof -
    have "x < ?e \<or> esp - 4 \<le> x" "x < esp - 4 \<or> esp - 4 + 4 \<le> x" using that e(4,5) by linarith+
    then have "m' x = ?m x" using m'(3) by blast
    also have "\<dots> = m x" using \<open>x < esp - 4 \<or> esp - 4 + 4 \<le> x\<close> by (rule st32_other)
    finally show ?thesis .
  qed
  ultimately show ?case using m'(1) push_word_ok [OF e(2)] by auto
qed

subsection \<open>The layout\<close>

lemma addr_word: "a < 2 ^ 32 \<Longrightarrow> unat (of_nat a :: 32 word) = a"
  by (simp add: unat_of_nat take_bit_nat_eq_self)

text \<open>The part behind the strings: from \<open>e0\<close> downwards a null byte, a null pointer, the pointers, the address of the first pointer,
  their number and the return address.\<close>

lemma push_rest:
  assumes "stack_bottom + 4 * length addrs + 17 \<le> e0" "esp + 4 * length addrs + 17 = e0"
  shows "\<exists>m'. (do { e1 \<leftarrow> lower 1 e0;
      st \<leftarrow> push_word 0 (e1, m(e1 := 0));
      st \<leftarrow> push_words (rev addrs) st;
      st \<leftarrow> push_word (fst st) st;
      st \<leftarrow> push_word n st;
      push_word 0 st }) = Some (esp, m') \<and>
    ld32 m' esp = 0 \<and> ld32 m' (esp + 4) = of_nat n \<and> ld32 m' (esp + 8) = of_nat (esp + 12) \<and>
    (\<forall>i < length addrs. ld32 m' (esp + 12 + 4 * i) = of_nat (addrs ! i)) \<and> ld32 m' (esp + 12 + 4 * length addrs) = 0 \<and>
    (\<forall>x. x < esp \<or> e0 \<le> x \<longrightarrow> m' x = m x)"
proof -
  define k where "k = length addrs"
  have e: "stack_bottom + 4 * k + 17 \<le> e0" "e0 = esp + 4 * k + 17" using assms by (simp_all add: k_def)
  define m5 where "m5 = st32 (esp + 12 + 4 * k) 0 (m(esp + 16 + 4 * k := 0))"
  have l: "lower 1 e0 = Some (esp + 16 + 4 * k)" using e by (simp add: lower_def)
  have p1: "push_word 0 (esp + 16 + 4 * k, m(esp + 16 + 4 * k := 0)) = Some (esp + 12 + 4 * k, m5)"
    using push_word_ok [of "esp + 16 + 4 * k" 0] e by (simp add: m5_def algebra_simps)
  have "stack_bottom + 4 * length (rev addrs) \<le> esp + 12 + 4 * k" using e by (simp add: k_def)
  from push_words_ok [OF this, of m5] obtain m6 where m6: "push_words (rev addrs) (esp + 12 + 4 * k, m5) = Some (esp + 12, m6)"
      "\<forall>i < k. ld32 m6 (esp + 12 + 4 * i) = of_nat (addrs ! i)" "\<forall>x. x < esp + 12 \<or> esp + 12 + 4 * k \<le> x \<longrightarrow> m6 x = m5 x"
    by (auto simp: k_def)
  define m9 where "m9 = st32 esp 0 (st32 (esp + 4) (of_nat n) (st32 (esp + 8) (of_nat (esp + 12)) m6))"
  have p: "push_word (esp + 12) (esp + 12, m6) = Some (esp + 8, st32 (esp + 8) (of_nat (esp + 12)) m6)"
    "push_word n (esp + 8, q) = Some (esp + 4, st32 (esp + 4) (of_nat n) q)" "push_word 0 (esp + 4, q) = Some (esp, st32 esp 0 q)" for q
    using push_word_ok [of "esp + 12" "esp + 12" m6] push_word_ok [of "esp + 8" n q] push_word_ok [of "esp + 4" 0 q] e by (simp_all add: add.commute)
  have top: "ld32 m9 a = ld32 m6 a" if "esp + 12 \<le> a" for a using that by (simp add: m9_def ld32_st32_other)
  have "ld32 m9 esp = 0" "ld32 m9 (esp + 4) = of_nat n" "ld32 m9 (esp + 8) = of_nat (esp + 12)" by (simp_all add: m9_def ld32_st32_other)
  moreover have "ld32 m9 (esp + 12 + 4 * i) = of_nat (addrs ! i)" if "i < k" for i using top [of "esp + 12 + 4 * i"] m6(2) that by simp
  moreover have "ld32 m9 (esp + 12 + 4 * k) = 0"
    using top [of "esp + 12 + 4 * k"] ld32_cong [of "esp + 12 + 4 * k" m6 m5] m6(3) by (simp add: m5_def)
  moreover have "m9 x = m x" if "x < esp \<or> e0 \<le> x" for x
  proof -
    have "m9 x = m6 x" using that e(2) by (auto simp: m9_def st32_other)
    also have "m6 x = m5 x" using m6(3) that e(2) by auto
    also have "m5 x = m x" using that e(2) by (auto simp: m5_def st32_other)
    finally show ?thesis .
  qed
  ultimately show ?thesis using l p1 m6(1) p by (intro exI [of _ m9]) (simp add: m9_def flip: k_def)
qed

text \<open>C28: \<open>construct_ESP\<close> builds the stack frame that \<open>main (argc, argv)\<close> expects, when the words of the command line and their
  pointers fit in the stack page: above a null return address lie the number of words, the address of the pointer array, the
  array itself, one pointer per word in order and a null pointer behind them, and each pointer leads to its word as a string
  inside the stack page.  The diagram in the source leaves out the address of the pointer array, which the code pushes between the
  array and the number of words.\<close>
theorem construct_ESP_layout:
  assumes "cstr m argv_list line" "PHYS_BASE \<le> argv_list" "argv_list + length line < 2 ^ 32" "cstr m d [32]" "d \<noteq> NULL"
    "d + 1 < argv_list \<or> argv_list + length line < d" "ws = words line" "str_bytes ws + 4 * length ws + 17 \<le> PGSIZE" "\<And>k. mem k"
  shows "\<exists>esp m'. construct_ESP mem d PHYS_BASE argv_list m = Some (esp, m') \<and> stack_bottom \<le> esp \<and>
    ld32 m' esp = 0 \<and> ld32 m' (esp + 4) = of_nat (length ws) \<and> ld32 m' (esp + 8) = of_nat (esp + 12) \<and>
    (\<forall>i < length ws. string_in m' (esp + 12) (PHYS_BASE - 1) (unat (ld32 m' (esp + 12 + 4 * i))) (ws ! i)) \<and>
    ld32 m' (esp + 12 + 4 * length ws) = 0"
proof -
  have a0: "argv_list \<noteq> NULL" using assms(2) by (simp add: PHYS_BASE_def)
  obtain tp nxt m1 argv m2 where t: "strtok_r NULL d argv_list m = Some (tp, nxt, m1)" "token_loop mem d tp nxt [] m1 = Some (argv, m2)"
      "list_all2 (string_in m2 argv_list (argv_list + length line)) argv ws"
    using tokens_ok [OF assms(1) a0 assms(4,5,6) order.refl order.refl _, of "[]" "[]" mem] assms(7,9) by auto
  have st: "strtok_r argv_list d NULL m = Some (tp, nxt, m1)" using t(1) a0 by (simp add: strtok_r_def)
  define e0 where "e0 = PHYS_BASE - str_bytes ws"
  have sb: "stack_bottom + str_bytes (rev ws) \<le> PHYS_BASE" "stack_bottom + 4 * length ws + 17 \<le> e0" "e0 \<le> PHYS_BASE"
    using assms(8) by (auto simp: stack_bottom_def PHYS_BASE_def PGSIZE_def e0_def)
  have "list_all2 (string_in m2 PHYS_BASE (argv_list + length line)) (rev argv) (rev ws)"
    using strings_mono [OF t(3) assms(2)] by simp
  from push_strings_ok [OF this order.refl sb(1), of "[]" "[]"] obtain addrs m3 where s: "push_strings (rev argv) [] PHYS_BASE m2 = Some (addrs, e0, m3)"
      "list_all2 (string_in m3 e0 (PHYS_BASE - 1)) addrs ws" by (auto simp: e0_def)
  have len: "length addrs = length ws" "length argv = length ws" using s(2) t(3) by (simp_all add: list_all2_lengthD)
  obtain esp where esp: "esp + 4 * length addrs + 17 = e0" using sb(2) len by (metis add.commute le_add_diff_inverse add_leD2 add.assoc)
  obtain m' where r: "(do { e1 \<leftarrow> lower 1 e0; st \<leftarrow> push_word 0 (e1, m3(e1 := 0)); st \<leftarrow> push_words (rev addrs) st; st \<leftarrow> push_word (fst st) st;
        st \<leftarrow> push_word (length argv) st; push_word 0 st }) = Some (esp, m')"
      "ld32 m' esp = 0" "ld32 m' (esp + 4) = of_nat (length argv)" "ld32 m' (esp + 8) = of_nat (esp + 12)"
      "\<forall>i < length addrs. ld32 m' (esp + 12 + 4 * i) = of_nat (addrs ! i)" "ld32 m' (esp + 12 + 4 * length addrs) = 0"
      "\<forall>x. x < esp \<or> e0 \<le> x \<longrightarrow> m' x = m3 x"
    using push_rest [OF _ esp, of m3 "length argv"] sb(2) len(1) by auto
  have "construct_ESP mem d PHYS_BASE argv_list m = Some (esp, m')"
    unfolding construct_ESP_def using st t(2) s(1) r(1) assms(9) by (simp add: Let_def)
  moreover have "string_in m' (esp + 12) (PHYS_BASE - 1) (unat (ld32 m' (esp + 12 + 4 * i))) (ws ! i)" if "i < length ws" for i
  proof -
    have si: "string_in m3 e0 (PHYS_BASE - 1) (addrs ! i) (ws ! i)" using s(2) that len by (simp add: list_all2_conv_all_nth)
    then have "string_in m' e0 (PHYS_BASE - 1) (addrs ! i) (ws ! i)" by (rule string_in_cong) (use r(7) in simp)
    then have "string_in m' (esp + 12) (PHYS_BASE - 1) (addrs ! i) (ws ! i)" by (rule string_in_mono) (use esp in simp_all)
    moreover have "addrs ! i < 2 ^ 32" using si by (simp add: string_in_def PHYS_BASE_def)
    ultimately show ?thesis using r(5) that len addr_word by simp
  qed
  moreover have "stack_bottom \<le> esp" using sb(2) esp len by simp
  ultimately show ?thesis using r(2,3,4,6) len by auto
qed

definition example_line :: memory where
  "example_line = (\<lambda>_. 0)(PHYS_BASE := 32, PHYS_BASE + 4 := 97, PHYS_BASE + 5 := 32, PHYS_BASE + 6 := 32, PHYS_BASE + 7 := 98)"

lemma words_example: "words [97, 32, 32, 98] = [[97], [98]]"
  by (simp add: words.simps)

theorem construct_ESP_layout_witness:
  "\<exists>esp m'. construct_ESP (\<lambda>_. True) PHYS_BASE PHYS_BASE (PHYS_BASE + 4) example_line = Some (esp, m') \<and>
    ld32 m' (esp + 4) = 2 \<and> cstr m' (unat (ld32 m' (esp + 16))) [98]"
proof -
  have "cstr example_line (PHYS_BASE + 4) [97, 32, 32, 98]" "cstr example_line PHYS_BASE [32]"
    by (simp_all add: example_line_def)
  note c = this
  obtain esp m' where r: "construct_ESP (\<lambda>_. True) PHYS_BASE PHYS_BASE (PHYS_BASE + 4) example_line = Some (esp, m')"
      "ld32 m' (esp + 4) = of_nat (length [[97 :: byte], [98]])"
      "\<forall>i < length [[97 :: byte], [98]]. string_in m' (esp + 12) (PHYS_BASE - 1) (unat (ld32 m' (esp + 12 + 4 * i))) ([[97], [98]] ! i)"
    using construct_ESP_layout [OF c(1) _ _ c(2) _ _ words_example [symmetric], of "\<lambda>_. True"]
    by (auto simp: PHYS_BASE_def PGSIZE_def)
  have "string_in m' (esp + 12) (PHYS_BASE - 1) (unat (ld32 m' (esp + 12 + 4 * 1))) ([[97], [98]] ! 1)"
    by (rule r(3) [rule_format]) simp
  then have "cstr m' (unat (ld32 m' (esp + 16))) [98]" by (simp add: string_in_def add.commute del: cstr.simps)
  with r(1,2) show ?thesis by (intro exI [of _ esp] exI [of _ m']) (simp del: cstr.simps)
qed

end
