(* ===== verification/Spec2Isabelle.thy ===== *)
theory Spec2Isabelle
  imports Klist_Queue Kernel_Props Pagedir_Props Hash_Props Stdlib_Props Arith64 Prng Intq Directory_Props Filesys Malloc_Free Console_Props Ustar_Props Args_Props
begin

text \<open>
  A verification of the Pintos kernel under src/pintos/src.

  \<^bold>\<open>The program.\<close>  Pintos is a small operating system kernel for one 80x86 processor.  Threads are scheduled by priority, by
  the BSD scheduler or with priority aging (threads/thread.c) and synchronise by semaphores, locks and condition variables
  (threads/synch.c); the timer interrupt (devices/timer.c) drives the scheduler and wakes sleepers.  Memory is handed out in
  pages (threads/palloc.c) and blocks (threads/malloc.c); page directories (userprog/pagedir.c) map user addresses to pages.  The
  file system stores inodes, directories and a map of free sectors on a block device (filesys/, devices/block.c).  User programs
  are loaded from files into fresh address spaces (userprog/process.c).  Below all of this are the libraries of lib/: linked lists, bitmaps, hash
  tables, strings, formatted output, sorting, 64-bit division, random numbers, tar headers.

  \<^bold>\<open>Conventions.\<close>  A routine that can stop the machine (a failed ASSERT, a PANIC, a fault in the kernel, an index outside an
  array) returns an option, and None is the stopped machine, or, for a loop that is a \<^theory_text>\<open>partial_function\<close>, one that never ends.  A theorem
  that a routine works therefore says that its value is Some.  The null pointer is 0.  State is passed explicitly as a record per subsystem.
  Machine integers are words, or numbers with the wrap-around written out (\<open>u32\<close>, \<open>s32\<close>) where the code can overflow.

  \<^bold>\<open>Theories.\<close>
  \<^item> Prelude: the result convention, integer widths, named collections and lemmas that the components share.
  \<^item> Klist, Klist_Sort, Klist_Queue: lib/kernel/list.c on a memory of linked nodes.  \<open>rep\<close> relates the nodes to a HOL list; every
    list routine refines an operation on lists; \<open>list_sort\<close> is a stable sort.  The locale \<open>deque\<close> is the interface of a
    double-ended queue; it is interpreted on the pointer code and on HOL lists, which entitles the later theories to use lists.
  \<^item> Fixed_Point, Kstate, Thread, Synch, Timer, Kernel: the thread system.  \<open>kstate\<close> holds all threads with their stacks of
    suspended frames; \<open>exec\<close> runs one frame and \<open>kstep\<close> is one step of the kernel: a frame, a call of a client, or a timer
    interrupt.  The page of a dead thread is overwritten, with the locks in it, when it is released (\<open>wipe_page\<close>).  Sched_Inv, Kernel_Inv and Timer_Inv prove the scheduler's invariant \<open>kinv\<close> for every operation and step, Lock_Tokens and Lock_Inv mutual exclusion
    by a token that each lock outside released pages has, and Kernel_Props states what follows on reachable states.
  \<^item> Bitmap, Bitmap_Props: lib/kernel/bitmap.c; the locale \<open>bit_array\<close> is the interface its clients use.
  \<^item> Cstring, Cstring_Props: lib/string.c on a memory of bytes.  Stdlib, Stdlib_Props: lib/stdlib.c and lib/ctype.h.
  \<^item> Stdio, Stdio_Props: the formatter of lib/stdio.c.  Console, Console_Props: devices/vga.c, lib/kernel/console.c and printing.
  \<^item> Vaddr, Palloc, Palloc_Props, Pagedir, Pagedir_Props: threads/vaddr.h, threads/pte.h, threads/palloc.c, userprog/pagedir.c.
    \<open>pal_ok\<close> and \<open>pd_ok\<close> are the invariants of the pools and of a page directory.
  \<^item> Malloc, Malloc_Props, Malloc_Free: threads/malloc.c on top of the page allocator; \<open>minv\<close> is the invariant, \<open>in_use\<close> the blocks handed out.
  \<^item> Hash, Hash_Props: lib/kernel/hash.c; the locale \<open>lookup_table\<close> is the contract of a table with lookup by key.
  \<^item> Arith64, Prng, Ustar, Ustar_Props: lib/arithmetic.c, lib/random.c, lib/ustar.c.
  \<^item> Intq: devices/intq.c and devices/input.c, with the interleavings of readers and interrupts as an inductive step relation.
  \<^item> Block, Inode, Free_Map, File, Directory, Filesys, with Inode_Props and Directory_Props: devices/block.c and filesys/.  \<open>content\<close> is the
    contents of an inode as a list of bytes, \<open>dmap\<close> a directory as a map from names to sectors.
  \<^item> Process, Args_Props: the loader of userprog/process.c and the stack of a new process.

  \<^bold>\<open>Bounds and fuel.\<close>  No model uses fuel.  Counted loops recurse on their counter; the loops over ready lists recurse on the number
  of priority levels.  Loops whose end depends on memory (string scans, list walks, merges, conversions) are partial functions in the option type,
  and the theorems prove that they return.  Sizes are restricted in theorems only where the code's own arithmetic is
  (32-bit sizes, pools below 4 GB, files below 2 GB).

  \<^bold>\<open>Interaction.\<close>  Calls of the file system, of the allocators and of the console are modelled as one thread sees them: they run to their end,
  and the locks they take are flags or left out.  Interleaving is the subject of the thread system and of Intq.  The file system draws the
  results of \<open>malloc\<close> from a list in its state, so that failing allocations are covered; that \<open>malloc\<close> itself is correct is the subject of Malloc_Props.

  \<^bold>\<open>Not modelled.\<close>
  \<^item> threads/start.S, loader.S, switch.S, intr-stubs.S, io.h: assembly code and single instructions.  A context switch is the change of the
    running thread in the model of \<open>schedule\<close>.
  \<^item> threads/init.c: the command line of the kernel and the order of initialisation; parsing ends in calls of the modelled parts.
  \<^item> devices/ide.c, serial.c, kbd.c, pit.c, rtc.c, speaker.c, shutdown.c: sequences of port accesses, whose effect is that of the hardware.  A
    block device is its array of sectors, the serial port the list of the bytes sent to it, the keyboard a source of interrupts.
  \<^item> devices/partition.c and filesys/fsutil.c: start-up code that prints as it scans a disk, and the actions of the kernel command line.
  \<^item> userprog/syscall.c, exception.c, gdt.c, tss.c and the rest of process.c: entry from user mode and the hand-over between the threads
    of two processes, with descriptor tables in hardware format.
  \<^item> lib/debug.c, lib/kernel/debug.c: a panic is the result None.  lib/user and examples: programs that run in user mode.
  \<^item> vm/swap_out.c: its code is commented out.  tests and utils: not part of the kernel.
\<close>

end
